(* ===== verification/Prelude.thy ===== *)
theory Prelude
  imports Main "HOL-Library.Word"
begin

text \<open>
  What every component shares: the C integer types of \<open>proj/common/types.h\<close> as words, the
  collections of hints the component theories fill, and generic facts on words, bytes and lists.
\<close>

unbundle bit_operations_syntax

section \<open>C types\<close>

type_synonym u8 = "8 word"
type_synonym u16 = "16 word"
type_synonym u32 = "32 word"

text \<open>Addresses are 32 bits wide on every supported core; address 0 is \<open>NULL\<close>.\<close>

type_synonym ptr = "32 word"

abbreviation NULL :: ptr where "NULL \<equiv> 0"

section \<open>Hint collections\<close>

named_theorems heap_simps \<open>reading and updating chains of next pointers\<close>
named_theorems frame_simps \<open>what an operation leaves unchanged\<close>
named_theorems inv_intros \<open>an operation keeps an invariant\<close>

section \<open>Words\<close>

lemma unat_le_bound: "unat (x :: 'a::len word) < 2 ^ LENGTH('a)"
  by (rule unsigned_less)

lemma u8_less_256: "unat (x :: u8) < 256"
  by (rule order_less_le_trans[OF unsigned_less]) simp

lemma u16_less_65536: "unat (x :: u16) < 65536"
  by (rule order_less_le_trans[OF unsigned_less]) simp

lemma unat_u8_sub: "(y :: u8) \<le> x \<Longrightarrow> unat (x - y) = unat x - unat y"
  by (simp add: unat_sub)

lemma u32_less: "unat (x :: u32) < 4294967296"
  by (rule order_less_le_trans[OF unsigned_less]) simp

lemma unat_of_nat_small: "n < 2 ^ LENGTH('a) \<Longrightarrow> unat (of_nat n :: 'a::len word) = n"
  by (simp add: unat_of_nat take_bit_nat_eq_self)

lemma unat_of_nat_u32: "n < 2 ^ 32 \<Longrightarrow> unat (of_nat n :: u32) = n"
  by (rule unat_of_nat_small) simp

lemma unat_add_small:
  "unat (x :: 'a::len word) + unat y < 2 ^ LENGTH('a) \<Longrightarrow> unat (x + y) = unat x + unat y"
  by (simp add: unat_word_ariths)

lemma unat_minus_one_less: "(x :: 'a::len word) \<noteq> 0 \<Longrightarrow> unat (x - 1) < unat x"
  by (metis diff_less unat_gt_0 unat_minus_one zero_less_one)

lemma unat_minus_nonzero_less:
  "(y :: 'a::len word) \<le> x \<Longrightarrow> y \<noteq> 0 \<Longrightarrow> unat (x - y) < unat x"
  by (metis diff_less dual_order.strict_trans1 unat_gt_0 unat_sub word_le_nat_alt)

lemma mod_less_of: "(a :: nat) < n \<Longrightarrow> b mod n < n"
  by (cases n) simp_all

section \<open>Lists\<close>

lemma take_drop_Cons_nth:
  "i < length xs \<Longrightarrow> take (Suc i) xs = take i xs @ [xs ! i]"
  by (rule take_Suc_conv_app_nth)

lemma list_update_append_mid: "(xs @ y # ys)[length xs := z] = xs @ z # ys"
  by simp

end
