(* ===== verification/HeapList.thy ===== *)
theory HeapList
  imports Prelude
begin

text \<open>
  Singly linked lists in memory, as \<open>proj/common/list.c\<close>, \<open>proj/os/ev_queue.c\<close> and the message
  pool of \<open>proj/os/ev_buffer.c\<close> build them: a word memory maps the address of a node to its
  \<open>next\<close> field. \<open>seg h p xs q\<close> says that following \<open>next\<close> from \<open>p\<close> visits the nodes \<open>xs\<close> and
  ends at \<open>q\<close>; \<open>chain\<close> is a segment that ends at \<open>NULL\<close>.
\<close>

type_synonym links = "ptr \<Rightarrow> ptr"

fun seg :: "links \<Rightarrow> ptr \<Rightarrow> ptr list \<Rightarrow> ptr \<Rightarrow> bool" where
  "seg h p [] q = (p = q)"
| "seg h p (x # xs) q = (p = x \<and> x \<noteq> NULL \<and> seg h (h x) xs q)"

definition chain :: "links \<Rightarrow> ptr \<Rightarrow> ptr list \<Rightarrow> bool" where
  "chain h p xs = seg h p xs NULL"

lemma chain_Nil [simp, heap_simps]: "chain h p [] = (p = NULL)"
  by (simp add: chain_def)

lemma chain_Cons [simp, heap_simps]:
  "chain h p (x # xs) = (p = x \<and> x \<noteq> NULL \<and> chain h (h x) xs)"
  by (simp add: chain_def)

lemma chain_NULL [simp, heap_simps]: "chain h NULL xs = (xs = [])"
  by (cases xs) auto

lemma chain_nonnull_Cons:
  "chain h p xs \<Longrightarrow> p \<noteq> NULL \<Longrightarrow> \<exists>ys. xs = p # ys \<and> chain h (h p) ys"
  by (cases xs) auto

lemma seg_append [heap_simps]:
  "seg h p (xs @ ys) q = (\<exists>r. seg h p xs r \<and> seg h r ys q)"
  by (induction xs arbitrary: p) auto

lemma chain_append [heap_simps]:
  "chain h p (xs @ ys) = (\<exists>r. seg h p xs r \<and> chain h r ys)"
  by (simp add: chain_def seg_append)

lemma seg_upd_other [simp, heap_simps]:
  "a \<notin> set xs \<Longrightarrow> seg (h(a := v)) p xs q = seg h p xs q"
  by (induction xs arbitrary: p) auto

lemma chain_upd_other [simp, heap_simps]:
  "a \<notin> set xs \<Longrightarrow> chain (h(a := v)) p xs = chain h p xs"
  by (simp add: chain_def)

lemma chain_unique: "chain h p xs \<Longrightarrow> chain h p ys \<Longrightarrow> xs = ys"
proof (induction xs arbitrary: p ys)
  case Nil
  then show ?case by simp
next
  case (Cons x xs)
  then obtain zs where "ys = x # zs" "chain h (h x) zs"
    by (cases ys) auto
  with Cons.IH[of "h x" zs] Cons.prems show ?case by simp
qed

lemma chain_hd_fresh: "chain h (h x) xs \<Longrightarrow> x \<notin> set xs"
proof
  assume c: "chain h (h x) xs" and "x \<in> set xs"
  then obtain as bs where xs: "xs = as @ x # bs"
    by (auto simp: in_set_conv_decomp)
  with c have "chain h x (x # bs)"
    by (auto simp: chain_append)
  then have "chain h (h x) bs" by simp
  with c have "xs = bs" by (rule chain_unique)
  with xs show False by simp
qed

lemma chain_distinct: "chain h p xs \<Longrightarrow> distinct xs"
  by (induction xs arbitrary: p) (auto dest: chain_hd_fresh)

lemma chain_null_notin: "chain h p xs \<Longrightarrow> NULL \<notin> set xs"
  by (induction xs arbitrary: p) auto

lemma chain_last_next: "chain h p (xs @ [x]) \<Longrightarrow> h x = NULL"
  by (auto simp: chain_append)

lemma chain_last: "chain h p xs \<Longrightarrow> xs \<noteq> [] \<Longrightarrow> h (last xs) = NULL"
  by (metis append_butlast_last_id chain_last_next)

lemma chain_butlast_next:
  "chain h p (xs @ x # y # ys) \<Longrightarrow> h x = y"
  by (auto simp: chain_append)

text \<open>The four pointer surgeries the code performs on a chain.\<close>

lemma chain_snoc:
  assumes "chain h p xs" "xs \<noteq> []" "x \<notin> set xs" "x \<noteq> NULL" "h x = NULL"
  shows "chain (h(last xs := x)) p (xs @ [x])"
proof -
  obtain ys y where xs: "xs = ys @ [y]"
    using assms(2) by (metis append_butlast_last_id)
  have d: "y \<notin> set ys" using chain_distinct[OF assms(1)] xs by simp
  obtain r where "seg h p ys r" "chain h r [y]"
    using assms(1) xs by (auto simp: chain_append)
  with assms d xs show ?thesis
    by (auto simp: chain_append)
qed

lemma chain_insert_after:
  assumes "chain h p (xs @ a # ys)" "x \<notin> set (xs @ a # ys)" "x \<noteq> NULL" "a \<noteq> x"
  shows "chain (h(x := h a, a := x)) p (xs @ a # x # ys)"
proof -
  have "a \<notin> set xs" "a \<notin> set ys"
    using chain_distinct[OF assms(1)] by auto
  with assms show ?thesis
    by (auto simp: chain_append)
qed

lemma chain_remove_after:
  assumes "chain h p (xs @ a # x # ys)"
  shows "chain (h(a := h x)) p (xs @ a # ys)"
proof -
  have "a \<notin> set xs" "a \<notin> set ys" "a \<noteq> x"
    using chain_distinct[OF assms] by auto
  with assms show ?thesis
    by (auto simp: chain_append)
qed

lemma chain_cut_last:
  assumes "chain h p (xs @ [a, x])"
  shows "chain (h(a := NULL)) p (xs @ [a])"
  using chain_remove_after[of h p xs a x "[]"] assms by (auto simp: chain_append)

end
