(* ===== verification/LinkedList.thy ===== *)
theory LinkedList
  imports HeapList
begin

text \<open>
  The intrusive linked list of \<open>proj/common/list.c\<close>. A list variable of type \<open>list_t\<close> is the
  address of a head cell, and the \<open>next\<close> field is at offset 0 of a node, so head cells and nodes are
  words of one memory: \<open>m l\<close> is \<open>*list\<close> for a list variable and \<open>item->next\<close> for an item. The
  loops that follow \<open>next\<close> do not end on a cyclic list; they are partial functions whose value
  \<open>None\<close> means "does not return". \<open>is_list\<close> relates a head cell to the list of its nodes; the
  lemmas show each operation to be its list function, the properties are at the end.
\<close>

section \<open>Model\<close>

definition listInit :: "links \<Rightarrow> ptr \<Rightarrow> links" where
  "listInit m list = m(list := NULL)"

definition listHead :: "links \<Rightarrow> ptr \<Rightarrow> ptr" where
  "listHead m list = m list"

definition listCopy :: "links \<Rightarrow> ptr \<Rightarrow> ptr \<Rightarrow> links" where
  "listCopy m dest src = m(dest := m src)"

text \<open>\<open>for (l = *list; l->next != NULL; l = l->next);\<close>\<close>

partial_function (option) tail_loop :: "links \<Rightarrow> ptr \<Rightarrow> ptr option" where
  "tail_loop m l = (if m l \<noteq> NULL then tail_loop m (m l) else Some l)"

definition listTail :: "links \<Rightarrow> ptr \<Rightarrow> ptr option" where
  "listTail m list = (if m list = NULL then Some NULL else tail_loop m (m list))"

definition listAdd :: "links \<Rightarrow> ptr \<Rightarrow> ptr \<Rightarrow> links option" where
  "listAdd m list item =
     (let m1 = m(item := NULL) in
      case listTail m1 list of
        None \<Rightarrow> None
      | Some l \<Rightarrow> Some (if l = NULL then m1(list := item) else m1(l := item)))"

definition listPush :: "links \<Rightarrow> ptr \<Rightarrow> ptr \<Rightarrow> links" where
  "listPush m list item =
     (let m1 = m(item := m list) in m1(list := item))"

text \<open>\<open>for (l = *list; l->next->next != NULL; l = l->next);\<close>\<close>

partial_function (option) chop_loop :: "links \<Rightarrow> ptr \<Rightarrow> ptr option" where
  "chop_loop m l = (if m (m l) \<noteq> NULL then chop_loop m (m l) else Some l)"

definition listChop :: "links \<Rightarrow> ptr \<Rightarrow> (ptr \<times> links) option" where
  "listChop m list =
     (if m list = NULL then Some (NULL, m)
      else if m (m list) = NULL then Some (m list, m(list := NULL))
      else (case chop_loop m (m list) of
              None \<Rightarrow> None
            | Some l \<Rightarrow> Some (m l, m(l := NULL))))"

definition listPop :: "links \<Rightarrow> ptr \<Rightarrow> ptr \<times> links" where
  "listPop m list =
     (let m1 = (if m list \<noteq> NULL then m(list := m (m list)) else m)
      in (m1 list, m1))"

text \<open>The loop of \<open>listRemove\<close>, with the trailing pointer \<open>p\<close>.\<close>

partial_function (option) remove_loop ::
  "ptr \<Rightarrow> ptr \<Rightarrow> links \<Rightarrow> ptr \<Rightarrow> ptr \<Rightarrow> links option" where
  "remove_loop list item m p l =
     (if l = NULL then Some m
      else if l = item then
        (let m1 = (if p = NULL then m(list := m l) else m(p := m l))
         in Some (m1(l := NULL)))
      else remove_loop list item m l (m l))"

definition listRemove :: "links \<Rightarrow> ptr \<Rightarrow> ptr \<Rightarrow> links option" where
  "listRemove m list item =
     (if m list = NULL then Some m else remove_loop list item m NULL (m list))"

partial_function (option) length_loop :: "links \<Rightarrow> ptr \<Rightarrow> int \<Rightarrow> int option" where
  "length_loop m l num = (if l \<noteq> NULL then length_loop m (m l) (num + 1) else Some num)"

definition listLength :: "links \<Rightarrow> ptr \<Rightarrow> int option" where
  "listLength m list = length_loop m (m list) 0"

definition listInsert :: "links \<Rightarrow> ptr \<Rightarrow> ptr \<Rightarrow> ptr \<Rightarrow> links" where
  "listInsert m list prevItem newItem =
     (if prevItem = NULL then listPush m list newItem
      else (let m1 = m(newItem := m prevItem) in m1(prevItem := newItem)))"

definition listNext :: "links \<Rightarrow> ptr \<Rightarrow> ptr" where
  "listNext m item = (if item = 0 then 0 else m item)"

section \<open>Abstraction\<close>

definition is_list :: "links \<Rightarrow> ptr \<Rightarrow> ptr list \<Rightarrow> bool" where
  "is_list m list xs \<longleftrightarrow> chain m (m list) xs \<and> list \<notin> set xs"

lemma is_list_distinct: "is_list m list xs \<Longrightarrow> distinct xs"
  by (auto simp: is_list_def dest: chain_distinct)

lemma is_list_unique: "is_list m list xs \<Longrightarrow> is_list m list ys \<Longrightarrow> xs = ys"
  by (auto simp: is_list_def dest: chain_unique)

lemma is_list_head: "is_list m list xs \<Longrightarrow> m list = (case xs of [] \<Rightarrow> NULL | x # _ \<Rightarrow> x)"
  by (cases xs) (auto simp: is_list_def)

section \<open>The loops on a chain\<close>

lemma tail_loop_chain: "chain m p xs \<Longrightarrow> xs \<noteq> [] \<Longrightarrow> tail_loop m p = Some (last xs)"
proof (induction xs arbitrary: p)
  case Nil
  then show ?case by simp
next
  case (Cons x xs)
  show ?case
  proof (cases xs)
    case Nil
    with Cons.prems show ?thesis by (simp add: tail_loop.simps)
  next
    case (Cons y ys)
    with Cons.prems Cons.IH[of y] show ?thesis
      by (auto simp: tail_loop.simps[of m x])
  qed
qed

lemma listTail_list: "is_list m list xs \<Longrightarrow>
  listTail m list = Some (if xs = [] then NULL else last xs)"
  using tail_loop_chain[of m "m list" xs]
  by (cases "xs = []") (auto simp: listTail_def is_list_def neq_Nil_conv)

lemma chop_loop_chain:
  "chain m p (xs @ [y, z]) \<Longrightarrow> chop_loop m p = Some y"
proof (induction xs arbitrary: p)
  case Nil
  then show ?case by (simp add: chop_loop.simps)
next
  case (Cons x xs)
  from Cons.prems have "chain m (m p) (xs @ [y, z])" by simp
  then have "chop_loop m (m p) = Some y" by (rule Cons.IH)
  moreover from Cons.prems have "m (m p) \<noteq> NULL"
    by (cases xs) auto
  ultimately show ?case by (simp add: chop_loop.simps[of m p])
qed

lemma length_loop_chain:
  "chain m p xs \<Longrightarrow> length_loop m p n = Some (n + int (length xs))"
  by (induction xs arbitrary: p n) (auto simp: length_loop.simps)

lemma remove_loop_absent:
  "chain m l xs \<Longrightarrow> item \<notin> set xs \<Longrightarrow> remove_loop list item m p l = Some m"
  by (induction xs arbitrary: p l) (auto simp: remove_loop.simps)

lemma remove_loop_mid:
  "chain m l (xs @ item # ys) \<Longrightarrow> item \<notin> set xs \<Longrightarrow>
   remove_loop list item m p l =
     Some (let q = (if xs = [] then p else last xs)
           in (if q = NULL then m(list := m item, item := NULL)
               else m(q := m item, item := NULL)))"
proof (induction xs arbitrary: p l)
  case Nil
  then show ?case by (simp add: remove_loop.simps Let_def)
next
  case (Cons x xs)
  then have c: "chain m (m x) (xs @ item # ys)" and l: "l = x" "x \<noteq> NULL" "x \<noteq> item"
    by auto
  have "remove_loop list item m x (m x) =
     Some (let q = (if xs = [] then x else last xs)
           in (if q = NULL then m(list := m item, item := NULL)
               else m(q := m item, item := NULL)))"
    using Cons.IH[OF c] Cons.prems by simp
  with l show ?case by (simp add: remove_loop.simps[of list item m p x] Let_def)
qed
section \<open>Each operation as its list function\<close>

lemma listInit_list: "is_list (listInit m l) l []"
  by (simp add: listInit_def is_list_def)

lemma listAdd_list:
  assumes "is_list m l xs" "item \<notin> set xs" "item \<noteq> NULL" "item \<noteq> l"
  shows "\<exists>m'. listAdd m l item = Some m' \<and> is_list m' l (xs @ [item])"
proof -
  let ?m = "m(item := NULL)"
  have l: "is_list ?m l xs" using assms by (simp add: is_list_def)
  show ?thesis
  proof (cases "xs = []")
    case True
    with l assms show ?thesis
      by (auto simp: listAdd_def listTail_list[OF l] is_list_def)
  next
    case False
    have "last xs \<in> set xs" "NULL \<notin> set xs" "l \<notin> set xs"
      using False l chain_null_notin[of ?m "?m l" xs] by (simp_all add: is_list_def)
    then have n: "last xs \<noteq> NULL" "last xs \<noteq> l" by metis+
    have "chain (?m(last xs := item)) (?m l) (xs @ [item])"
      using l assms False by (intro chain_snoc) (auto simp: is_list_def)
    with n l assms False show ?thesis
      by (simp add: listAdd_def listTail_list[OF l] is_list_def)
  qed
qed

lemma listPush_list:
  "is_list m l xs \<Longrightarrow> item \<notin> set xs \<Longrightarrow> item \<noteq> NULL \<Longrightarrow> item \<noteq> l \<Longrightarrow>
   is_list (listPush m l item) l (item # xs)"
  by (simp add: listPush_def is_list_def Let_def)

lemma listChop_list:
  assumes "is_list m l (xs @ [x])"
  shows "\<exists>m'. listChop m l = Some (x, m') \<and> is_list m' l xs"
proof (cases xs rule: rev_cases)
  case Nil
  with assms show ?thesis by (auto simp: listChop_def is_list_def)
next
  case (snoc ys y)
  with assms have c: "chain m (m l) (ys @ [y, x])" and l: "l \<notin> set (ys @ [y, x])"
    by (auto simp: is_list_def)
  have yx: "m y = x" using chain_butlast_next[of m "m l" ys y x "[]"] c by simp
  have "m l \<noteq> NULL" "m (m l) \<noteq> NULL"
    using c by (cases ys; cases "tl ys"; auto)+
  then have "listChop m l = Some (x, m(y := NULL))"
    by (simp add: listChop_def chop_loop_chain[OF c] yx)
  moreover have "is_list (m(y := NULL)) l (ys @ [y])"
    using chain_cut_last[OF c] l by (auto simp: is_list_def)
  ultimately show ?thesis using snoc by simp
qed

lemma listChop_empty: "is_list m l [] \<Longrightarrow> listChop m l = Some (NULL, m)"
  by (simp add: listChop_def is_list_def)

lemma listPop_list:
  "is_list m l (x # xs) \<Longrightarrow>
   is_list (snd (listPop m l)) l xs \<and>
   fst (listPop m l) = (case xs of [] \<Rightarrow> NULL | y # _ \<Rightarrow> y)"
  by (cases xs) (auto simp: listPop_def is_list_def Let_def)

lemma listRemove_list:
  assumes "is_list m l xs" "item \<noteq> l"
  shows "\<exists>m'. listRemove m l item = Some m' \<and> is_list m' l (remove1 item xs)"
proof (cases "item \<in> set xs")
  case False
  with assms show ?thesis
    by (auto simp: listRemove_def is_list_def remove_loop_absent remove1_idem)
next
  case True
  then obtain as bs where xs: "xs = as @ item # bs" "item \<notin> set as"
    by (meson split_list_first)
  have c: "chain m (m l) (as @ item # bs)" and l: "l \<notin> set (as @ item # bs)"
    using assms xs by (auto simp: is_list_def)
  have d: "distinct (as @ item # bs)" using c by (rule chain_distinct)
  have ne: "m l \<noteq> NULL" using c by (cases as) auto
  note r = remove_loop_mid[OF c xs(2), of l NULL]
  show ?thesis
  proof (cases as rule: rev_cases)
    case Nil
    with c l d ne r show ?thesis
      by (auto simp: listRemove_def is_list_def xs Let_def)
  next
    case (snoc cs a)
    have a: "a \<noteq> NULL" "a \<noteq> item" "a \<noteq> l" using c l d snoc chain_null_notin[OF c] by auto
    have "chain (m(a := m item)) (m l) (cs @ a # bs)"
      using chain_remove_after[of m "m l" cs a item bs] c snoc by simp
    then have "chain (m(a := m item, item := NULL)) (m l) (cs @ a # bs)"
      using d snoc by (subst chain_upd_other) auto
    with a l ne r snoc xs assms(2) show ?thesis
      by (auto simp: listRemove_def is_list_def Let_def remove1_append)
  qed
qed

lemma listLength_list: "is_list m l xs \<Longrightarrow> listLength m l = Some (int (length xs))"
  using length_loop_chain[of m "m l" xs 0] by (simp add: listLength_def is_list_def)

lemma listInsert_list:
  assumes "is_list m l (as @ p # bs)" "x \<notin> set (as @ p # bs)" "x \<noteq> NULL" "x \<noteq> l"
  shows "is_list (listInsert m l p x) l (as @ p # x # bs)"
proof -
  have c: "chain m (m l) (as @ p # bs)" and l: "l \<notin> set (as @ p # bs)"
    using assms by (auto simp: is_list_def)
  have "p \<noteq> NULL" using chain_null_notin[OF c] by auto
  with chain_insert_after[OF c assms(2,3)] l assms show ?thesis
    by (auto simp: listInsert_def is_list_def Let_def)
qed

lemmas list_op_simulations =
  listAdd_list listPush_list listChop_list listPop_list listRemove_list

section \<open>Sequences of operations\<close>

datatype list_op = Add ptr | Push ptr | Chop | Pop | Remove ptr | Head | Tail

text \<open>One call with what it returns; \<open>NULL\<close> stands for no result.\<close>

fun exec_op :: "links \<Rightarrow> ptr \<Rightarrow> list_op \<Rightarrow> (ptr \<times> links) option" where
  "exec_op m l (Add x) = map_option (Pair NULL) (listAdd m l x)"
| "exec_op m l (Push x) = Some (NULL, listPush m l x)"
| "exec_op m l Chop = listChop m l"
| "exec_op m l Pop = Some (listPop m l)"
| "exec_op m l (Remove x) = map_option (Pair NULL) (listRemove m l x)"
| "exec_op m l Head = Some (listHead m l, m)"
| "exec_op m l Tail = map_option (\<lambda>p. (p, m)) (listTail m l)"

fun exec_ops :: "links \<Rightarrow> ptr \<Rightarrow> list_op list \<Rightarrow> (ptr list \<times> links) option" where
  "exec_ops m l [] = Some ([], m)"
| "exec_ops m l (x # xs) =
     (case exec_op m l x of
        None \<Rightarrow> None
      | Some (r, m') \<Rightarrow> map_option (\<lambda>(rs, m''). (r # rs, m'')) (exec_ops m' l xs))"

text \<open>The first element of a list, or \<open>NULL\<close>.\<close>

definition first_node :: "ptr list \<Rightarrow> ptr" where
  "first_node xs = (case xs of [] \<Rightarrow> NULL | x # _ \<Rightarrow> x)"

text \<open>What each call returns and leaves: \<open>listChop\<close> the element it removes, \<open>listPop\<close> not the element it removes
  but the new head.\<close>

fun spec_op :: "ptr list \<Rightarrow> list_op \<Rightarrow> ptr \<times> ptr list" where
  "spec_op xs (Add x) = (NULL, xs @ [x])"
| "spec_op xs (Push x) = (NULL, x # xs)"
| "spec_op xs Chop = (first_node (rev xs), butlast xs)"
| "spec_op xs Pop = (first_node (tl xs), tl xs)"
| "spec_op xs (Remove x) = (NULL, remove1 x xs)"
| "spec_op xs Head = (first_node xs, xs)"
| "spec_op xs Tail = (first_node (rev xs), xs)"

fun spec_ops :: "ptr list \<Rightarrow> list_op list \<Rightarrow> ptr list \<times> ptr list" where
  "spec_ops xs [] = ([], xs)"
| "spec_ops xs (x # ops) =
     (case spec_op xs x of (r, ys) \<Rightarrow> (case spec_ops ys ops of (rs, zs) \<Rightarrow> (r # rs, zs)))"

text \<open>What a caller must keep to: a node that is added is fresh and is neither \<open>NULL\<close> nor the
  head cell.\<close>

fun op_ok :: "ptr \<Rightarrow> ptr list \<Rightarrow> list_op \<Rightarrow> bool" where
  "op_ok l xs (Add x) = (x \<notin> set xs \<and> x \<noteq> NULL \<and> x \<noteq> l)"
| "op_ok l xs (Push x) = (x \<notin> set xs \<and> x \<noteq> NULL \<and> x \<noteq> l)"
| "op_ok l xs (Remove x) = (x \<noteq> l)"
| "op_ok l xs _ = True"

fun ops_ok :: "ptr \<Rightarrow> ptr list \<Rightarrow> list_op list \<Rightarrow> bool" where
  "ops_ok l xs [] = True"
| "ops_ok l xs (x # ops) = (op_ok l xs x \<and> ops_ok l (snd (spec_op xs x)) ops)"

lemma first_node_rev: "first_node (rev xs) = (if xs = [] then NULL else last xs)"
  by (cases xs rule: rev_cases) (simp_all add: first_node_def)

lemma exec_op_list:
  assumes "is_list m l xs" "op_ok l xs x"
  shows "\<exists>m'. exec_op m l x = Some (fst (spec_op xs x), m') \<and> is_list m' l (snd (spec_op xs x))"
proof (cases x)
  case Chop
  then show ?thesis
  proof (cases xs rule: rev_cases)
    case Nil
    with assms(1) Chop show ?thesis by (auto simp: listChop_empty first_node_def)
  next
    case (snoc ys y)
    with assms(1) listChop_list[of m l ys y] Chop show ?thesis by (auto simp: first_node_def)
  qed
next
  case Pop
  then show ?thesis
  proof (cases xs)
    case Nil
    with assms(1) Pop show ?thesis by (simp add: listPop_def is_list_def Let_def first_node_def)
  next
    case (Cons y ys)
    obtain r m' where "listPop m l = (r, m')" by fastforce
    with assms(1) listPop_list[of m l y ys] Pop Cons show ?thesis by (simp add: first_node_def)
  qed
next
  case Head
  then show ?thesis using assms(1) by (cases xs) (auto simp: listHead_def is_list_def first_node_def)
next
  case Tail
  then show ?thesis using assms(1) listTail_list[of m l xs] by (simp add: first_node_rev)
qed (use assms listAdd_list listPush_list listRemove_list in fastforce)+

lemma exec_ops_list:
  "is_list m l xs \<Longrightarrow> ops_ok l xs ops \<Longrightarrow>
   \<exists>m'. exec_ops m l ops = Some (fst (spec_ops xs ops), m') \<and> is_list m' l (snd (spec_ops xs ops))"
proof (induction ops arbitrary: m xs)
  case Nil
  then show ?case by simp
next
  case (Cons x ops)
  then obtain m' where "exec_op m l x = Some (fst (spec_op xs x), m')" "is_list m' l (snd (spec_op xs x))"
    using exec_op_list by fastforce
  with Cons.IH[of m' "snd (spec_op xs x)"] Cons.prems show ?case by (auto split: prod.splits)
qed

section \<open>Loops that do not return\<close>

lemma tail_loop_self: "m x = x \<Longrightarrow> x \<noteq> NULL \<Longrightarrow> tail_loop m x = None"
proof (rule ccontr)
  assume s: "m x = x" "x \<noteq> NULL" and "tail_loop m x \<noteq> None"
  then obtain r where r: "tail_loop m x = Some r" by auto
  have "\<not> (m x = x \<and> x \<noteq> NULL)"
    by (rule tail_loop.raw_induct[where P = "\<lambda>m x r. \<not> (m x = x \<and> x \<noteq> NULL)", OF _ r])
      (force split: if_splits)
  with s show False by simp
qed

lemma tail_loop_into_self:
  "seg m p xs x \<Longrightarrow> m x = x \<Longrightarrow> x \<noteq> NULL \<Longrightarrow> tail_loop m p = None"
proof (induction xs arbitrary: p)
  case Nil
  then show ?case by (simp add: tail_loop_self)
next
  case (Cons y ys)
  then have "tail_loop m (m p) = None" by auto
  moreover have "m p \<noteq> NULL" using Cons.prems by (cases ys) auto
  ultimately show ?case by (simp add: tail_loop.simps[of m p])
qed

lemma listAdd_member_cycle:
  assumes "is_list m l xs" "item \<in> set xs"
  shows "\<exists>m'. listAdd m l item = Some m' \<and> m' item = item \<and> listTail m' l = None"
proof -
  obtain as bs where xs: "xs = as @ item # bs" "item \<notin> set as"
    using assms(2) by (meson split_list_first)
  have c: "chain m (m l) (as @ item # bs)" and l: "l \<notin> set xs" "item \<noteq> l"
    using assms xs by (auto simp: is_list_def)
  have i: "item \<noteq> NULL" "m l \<noteq> NULL" using c by (cases as; auto simp: chain_append)+
  have s: "seg m (m l) as item" using c by (auto simp: chain_append)
  let ?m = "m(item := NULL)"
  have "is_list ?m l (as @ [item])"
    using s xs l i by (auto simp: is_list_def chain_append)
  then have "listTail ?m l = Some item" by (simp add: listTail_list)
  then have a: "listAdd m l item = Some (m(item := item))"
    using i by (simp add: listAdd_def Let_def)
  have "tail_loop (m(item := item)) (m l) = None"
    by (rule tail_loop_into_self[of _ _ as item]) (use s xs i in auto)
  then have "listTail (m(item := item)) l = None"
    using l i by (simp add: listTail_def)
  with a show ?thesis by auto
qed

section \<open>Properties\<close>

text \<open>C13: Any sequence of \<open>listAdd\<close>, \<open>listPush\<close>, \<open>listChop\<close>, \<open>listPop\<close>, \<open>listRemove\<close>, \<open>listHead\<close> and
  \<open>listTail\<close> calls in which added nodes are fresh returns. The memory it leaves represents the list that
  the same sequence of append, cons, butlast, tail and remove gives, and each call returns what the
  specification says: \<open>listChop\<close> the last element, which it removes, \<open>listHead\<close> and \<open>listTail\<close> the first and the last
  (\<open>NULL\<close> for the empty list), \<open>listPop\<close> not the element it removes but the head that is left.\<close>

theorem list_run_refines:
  assumes "is_list m l xs" "ops_ok l xs ops"
  shows "\<exists>m'. exec_ops m l ops = Some (fst (spec_ops xs ops), m') \<and> is_list m' l (snd (spec_ops xs ops))"
  using assms by (rule exec_ops_list)

lemma list_run_refines_witness:
  "\<exists>m'. exec_ops (\<lambda>_. 0) 4 [Add 16, Push 32, Add 48, Tail, Pop, Remove 16, Chop] = Some ([0, 0, 0, 48, 16, 0, 48], m') \<and>
        is_list m' 4 []"
  using list_run_refines[of "\<lambda>_. 0" 4 "[]" "[Add 16, Push 32, Add 48, Tail, Pop, Remove 16, Chop]"]
  by (simp add: is_list_def first_node_def)

text \<open>\<open>listChop\<close> undoes \<open>listAdd\<close>: it returns the node just added, and the list is again what
  it was.\<close>

theorem listAdd_listChop:
  assumes "is_list m l xs" "item \<notin> set xs" "item \<noteq> NULL" "item \<noteq> l"
  shows "\<exists>m1 m2. listAdd m l item = Some m1 \<and> listLength m1 l = Some (int (length xs) + 1) \<and>
           listChop m1 l = Some (item, m2) \<and> is_list m2 l xs"
  using listAdd_list[OF assms] listChop_list listLength_list by fastforce

lemma listAdd_listChop_witness:
  "\<exists>m1 m2. listAdd ((\<lambda>_. 0)(4 := 16)) 4 32 = Some m1 \<and> listLength m1 4 = Some 2 \<and>
           listChop m1 4 = Some (32, m2) \<and> is_list m2 4 [16]"
  using listAdd_listChop[of "(\<lambda>_. 0)(4 := 16)" 4 "[16]" 32] by (simp add: is_list_def)

text \<open>\<open>listAdd\<close> does not remove an item that is already in the list: adding a member makes its
  \<open>next\<close> point to itself, and from then on \<open>listTail\<close> (so also \<open>listAdd\<close>) never returns.\<close>

theorem listAdd_member_diverges:
  assumes "is_list m l xs" "item \<in> set xs"
  shows "\<exists>m'. listAdd m l item = Some m' \<and> m' item = item \<and> listTail m' l = None"
  using assms by (rule listAdd_member_cycle)

lemma listAdd_member_diverges_witness:
  "\<exists>m'. listAdd ((\<lambda>_. 0)(4 := 16, 16 := 32)) 4 16 = Some m' \<and> m' 16 = 16 \<and> listTail m' 4 = None"
  using listAdd_member_diverges[of "(\<lambda>_. 0)(4 := 16, 16 := 32)" 4 "[16, 32]" 16]
  by (simp add: is_list_def)

end
