(* ===== verification/SelectionSort.thy ===== *)
theory SelectionSort
  imports Prelude "HOL-Library.Multiset"
begin

text \<open>
  The in-place sorts: \<open>selection_sort_char\<close> and \<open>selection_sort_int\<close> of
  \<open>proj/common/selection_sort.c\<close> (the same two loops at two element widths) and \<open>insert\<close> of
  \<open>vendor/rc_app/app_common.c\<close>, the insertion sort of the battery samples. Arrays are lists updated
  by index; a \<open>size\<close> beyond the array reads and writes outside it, which is the value \<open>None\<close>.
\<close>

section \<open>Model\<close>

function ssort_inner :: "'a::linorder list \<Rightarrow> nat \<Rightarrow> nat \<Rightarrow> nat \<Rightarrow> 'a list" where
  "ssort_inner arr i j n =
     (if j < n
      then ssort_inner (if arr ! j < arr ! i then arr[i := arr ! j, j := arr ! i] else arr)
             i (Suc j) n
      else arr)"
  by pat_completeness auto
termination
  by (relation "measure (\<lambda>(arr, i, j, n). n - j)") auto

function ssort_outer :: "'a::linorder list \<Rightarrow> nat \<Rightarrow> nat \<Rightarrow> 'a list" where
  "ssort_outer arr i n =
     (if i < n then ssort_outer (ssort_inner arr i (Suc i) n) (Suc i) n else arr)"
  by pat_completeness auto
termination
  by (relation "measure (\<lambda>(arr, i, n). n - i)") auto

declare ssort_inner.simps [simp del] ssort_outer.simps [simp del]

definition selection_sort_char :: "u8 list \<Rightarrow> int \<Rightarrow> u8 list option" where
  "selection_sort_char arr n =
     (if n \<le> int (length arr) then Some (ssort_outer arr 0 (nat n)) else None)"

definition selection_sort_int :: "u32 list \<Rightarrow> int \<Rightarrow> u32 list option" where
  "selection_sort_int arr n =
     (if n \<le> int (length arr) then Some (ssort_outer arr 0 (nat n)) else None)"

text \<open>The inner loop of \<open>insert\<close>; its argument is \<open>j + 1\<close>, the index of the hole.\<close>

fun insert_shift :: "'a::linorder list \<Rightarrow> 'a \<Rightarrow> nat \<Rightarrow> 'a list" where
  "insert_shift a temp 0 = a[0 := temp]"
| "insert_shift a temp (Suc j) =
     (if temp < a ! j then insert_shift (a[Suc j := a ! j]) temp j else a[Suc j := temp])"

function insert_loop :: "'a::linorder list \<Rightarrow> nat \<Rightarrow> nat \<Rightarrow> 'a list" where
  "insert_loop a i n = (if i < n then insert_loop (insert_shift a (a ! i) i) (Suc i) n else a)"
  by pat_completeness auto
termination
  by (relation "measure (\<lambda>(a, i, n). n - i)") auto

declare insert_loop.simps [simp del]

definition insert_sort :: "u16 list \<Rightarrow> int \<Rightarrow> u16 list option" where
  "insert_sort a n = (if n \<le> int (length a) then Some (insert_loop a 1 (nat n)) else None)"

section \<open>Selection sort\<close>

lemma length_ssort_inner [simp]: "length (ssort_inner arr i j n) = length arr"
  by (induction arr i j n rule: ssort_inner.induct) (simp add: ssort_inner.simps)

definition inner_post :: "'a::linorder list \<Rightarrow> 'a list \<Rightarrow> nat \<Rightarrow> nat \<Rightarrow> bool" where
  "inner_post arr r i n \<longleftrightarrow> mset r = mset arr \<and> length r = length arr \<and>
     (\<forall>k < length arr. k < i \<or> n \<le> k \<longrightarrow> r ! k = arr ! k) \<and>
     (\<forall>q. i \<le> q \<and> q < n \<longrightarrow> (\<exists>q'. i \<le> q' \<and> q' < n \<and> r ! q = arr ! q'))"

lemma inner_post_refl: "inner_post arr arr i n"
  by (auto simp: inner_post_def)

lemma inner_post_trans: "inner_post a b i n \<Longrightarrow> inner_post b c i n \<Longrightarrow> inner_post a c i n"
  by (simp add: inner_post_def) metis

lemma inner_post_swap:
  "i < j \<Longrightarrow> j < n \<Longrightarrow> n \<le> length arr \<Longrightarrow> inner_post arr (arr[i := arr ! j, j := arr ! i]) i n"
  unfolding inner_post_def
  by (intro conjI allI impI)
    (auto simp: mset_swap nth_list_update intro: exI[of _ i] exI[of _ j])

lemma ssort_inner_post:
  "i < j \<Longrightarrow> n \<le> length arr \<Longrightarrow> inner_post arr (ssort_inner arr i j n) i n"
proof (induction arr i j n rule: ssort_inner.induct)
  case (1 arr i j n)
  let ?a = "if arr ! j < arr ! i then arr[i := arr ! j, j := arr ! i] else arr"
  show ?case
  proof (cases "j < n")
    case True
    then have "inner_post ?a (ssort_inner ?a i (Suc j) n) i n"
      using 1 by simp
    moreover have "inner_post arr ?a i n"
      using True 1(2,3) by (simp add: inner_post_swap inner_post_refl)
    ultimately show ?thesis
      using True inner_post_trans by (auto simp: ssort_inner.simps[of arr i j n])
  qed (simp add: ssort_inner.simps[of arr i j n] inner_post_refl)
qed

lemma ssort_inner_min:
  "i < j \<Longrightarrow> n \<le> length arr \<Longrightarrow> \<forall>k. i < k \<and> k < j \<and> k < n \<longrightarrow> arr ! i \<le> arr ! k \<Longrightarrow>
   \<forall>k. i < k \<and> k < n \<longrightarrow> ssort_inner arr i j n ! i \<le> ssort_inner arr i j n ! k"
proof (induction arr i j n rule: ssort_inner.induct)
  case (1 arr i j n)
  let ?a = "if arr ! j < arr ! i then arr[i := arr ! j, j := arr ! i] else arr"
  show ?case
  proof (cases "j < n")
    case True
    have "\<forall>k. i < k \<and> k < Suc j \<and> k < n \<longrightarrow> ?a ! i \<le> ?a ! k"
      using True 1(2-4) by (auto simp: nth_list_update less_Suc_eq not_less intro: order.trans less_imp_le)
    then show ?thesis
      using True 1 by (simp add: ssort_inner.simps[of arr i j n])
  qed (use 1 in \<open>simp add: ssort_inner.simps[of arr i j n]\<close>)
qed

definition settled :: "'a::linorder list \<Rightarrow> nat \<Rightarrow> nat \<Rightarrow> bool" where
  "settled arr i n \<longleftrightarrow> (\<forall>p q. p < q \<and> q < n \<and> p < i \<longrightarrow> arr ! p \<le> arr ! q)"

lemma ssort_inner_settled:
  assumes "settled arr i n" "i < n" "n \<le> length arr"
  shows "settled (ssort_inner arr i (Suc i) n) (Suc i) n"
proof -
  let ?r = "ssort_inner arr i (Suc i) n"
  have post: "inner_post arr ?r i n" using assms by (simp add: ssort_inner_post)
  have min: "\<forall>k. i < k \<and> k < n \<longrightarrow> ?r ! i \<le> ?r ! k"
    using assms by (intro ssort_inner_min) auto
  have "?r ! p \<le> ?r ! q" if pq: "p < q" "q < n" "p < i" for p q
  proof (cases "q < i")
    case True
    with pq post assms show ?thesis by (auto simp: inner_post_def settled_def)
  next
    case False
    then obtain q' where "i \<le> q'" "q' < n" "?r ! q = arr ! q'"
      using post pq unfolding inner_post_def by (metis linorder_not_less)
    moreover have "?r ! p = arr ! p" using post pq assms by (auto simp: inner_post_def)
    ultimately show ?thesis using pq assms(1) by (auto simp: settled_def)
  qed
  with min show ?thesis by (auto simp: settled_def less_Suc_eq)
qed

lemma ssort_outer_post:
  "n \<le> length arr \<Longrightarrow> settled arr i n \<Longrightarrow>
   settled (ssort_outer arr i n) n n \<and> inner_post arr (ssort_outer arr i n) 0 n"
proof (induction arr i n rule: ssort_outer.induct)
  case (1 arr i n)
  show ?case
  proof (cases "i < n")
    case False
    with 1 show ?thesis
      by (auto simp: ssort_outer.simps[of arr i n] settled_def inner_post_refl)
  next
    case True
    let ?r = "ssort_inner arr i (Suc i) n"
    have p: "inner_post arr ?r i n" using 1 by (simp add: ssort_inner_post)
    then have p0: "inner_post arr ?r 0 n"
      unfolding inner_post_def by (metis le0 linorder_not_less order_less_le_trans "1.prems"(1))
    have "settled ?r (Suc i) n" using True 1 by (simp add: ssort_inner_settled)
    with 1 True have "settled (ssort_outer ?r (Suc i) n) n n \<and>
        inner_post ?r (ssort_outer ?r (Suc i) n) 0 n" by simp
    with p0 inner_post_trans True show ?thesis
      by (auto simp: ssort_outer.simps[of arr i n])
  qed
qed

lemma settled_sorted: "settled r n n \<Longrightarrow> n \<le> length r \<Longrightarrow> sorted (take n r)"
  by (auto simp: settled_def sorted_iff_nth_mono_less)

lemma ssort_outer_sort:
  assumes "n \<le> length arr"
  shows "ssort_outer arr 0 n = sort (take n arr) @ drop n arr"
proof -
  let ?r = "ssort_outer arr 0 n"
  have *: "settled ?r n n" "inner_post arr ?r 0 n"
    using ssort_outer_post[OF assms, of 0] by (auto simp: settled_def)
  have l: "length ?r = length arr" using * by (simp add: inner_post_def)
  have d: "drop n ?r = drop n arr"
    using * l by (intro nth_equalityI) (auto simp: inner_post_def)
  have "mset (take n ?r) + mset (drop n ?r) = mset (take n arr) + mset (drop n arr)"
    using * by (simp add: inner_post_def flip: mset_append)
  with d have "mset (take n ?r) = mset (take n arr)" by simp
  moreover have "sorted (take n ?r)" using * l assms by (intro settled_sorted) auto
  ultimately have "take n ?r = sort (take n arr)" by (metis properties_for_sort)
  with d show ?thesis by (metis append_take_drop_id)
qed

section \<open>Insertion sort\<close>

lemma insort_snoc_less: "sorted (xs @ [x]) \<Longrightarrow> t < x \<Longrightarrow> insort t (xs @ [x]) = insort t xs @ [x]"
  by (induction xs) (auto simp: sorted_append)

lemma insort_snoc_ge: "sorted xs \<Longrightarrow> \<forall>y \<in> set xs. y \<le> (t :: 'a::linorder) \<Longrightarrow> insort t xs = xs @ [t]"
  using properties_for_sort[of "xs @ [t]" "t # xs"] by (simp add: sorted_append sorted_sort_id)

lemma insert_shift_insort:
  "sorted xs \<Longrightarrow> insert_shift (xs @ y # ys) t (length xs) = insort t xs @ ys"
proof (induction xs arbitrary: y ys rule: rev_induct)
  case Nil
  then show ?case by simp
next
  case (snoc x xs)
  have nth: "(xs @ x # y # ys) ! length xs = x" by simp
  have upd: "(xs @ x # y # ys)[Suc (length xs) := z] = xs @ x # z # ys" for z
    by (simp add: list_update_append)
  show ?case
  proof (cases "t < x")
    case True
    with snoc.IH[of x "x # ys"] snoc.prems show ?thesis
      by (simp add: nth upd insort_snoc_less sorted_append)
  next
    case False
    then have "insort t (xs @ [x]) = xs @ [x, t]"
      using snoc.prems insort_snoc_ge[of "xs @ [x]" t] by (force simp: sorted_append)
    with False show ?thesis by (simp add: nth upd)
  qed
qed

lemma insert_loop_sort:
  "i \<le> n \<Longrightarrow> n \<le> length a \<Longrightarrow> sorted (take i a) \<Longrightarrow>
   insert_loop a i n = sort (take n a) @ drop n a"
proof (induction a i n rule: insert_loop.induct)
  case (1 a i n)
  show ?case
  proof (cases "i < n")
    case False
    with 1 have "i = n" by simp
    with 1 show ?thesis
      by (simp add: insert_loop.simps[of a n n] sorted_sort_id)
  next
    case True
    with 1 have a: "a = take i a @ a ! i # drop (Suc i) a"
      by (simp add: id_take_nth_drop)
    have li: "length (take i a) = i" using True 1 by simp
    define b where "b = insert_shift a (a ! i) i"
    have b: "b = insort (a ! i) (take i a) @ drop (Suc i) a"
      unfolding b_def using insert_shift_insort[OF 1(4), of "a ! i" "drop (Suc i) a" "a ! i"] a li
      by simp
    have lb: "length b = length a" using b True 1 by simp
    have "take (Suc i) b = insort (a ! i) (take i a)" using b li by simp
    then have s: "sorted (take (Suc i) b)" using 1(4) by (simp add: sorted_insort)
    have "insert_loop b (Suc i) n = sort (take n b) @ drop n b"
      unfolding b_def by (rule "1.IH") (use True 1 s lb in \<open>auto simp: b_def\<close>)
    moreover have "drop n b = drop n a" using b True li by (simp add: drop_Cons')
    moreover have "mset (take n b) = mset (take n a)"
    proof -
      have "mset b = mset a" by (subst a) (simp add: b)
      with \<open>drop n b = drop n a\<close> show ?thesis
        by (metis add_right_cancel append_take_drop_id mset_append)
    qed
    then have "sort (take n b) = sort (take n a)"
      by (simp add: properties_for_sort)
    ultimately show ?thesis
      using True by (simp add: insert_loop.simps[of a i n] b_def)
  qed
qed

section \<open>Properties\<close>

text \<open>C38: Both sorting routines of the SDK, in every element width used, sort exactly the first
  \<open>n\<close> elements in place and leave the rest of the array alone; a count beyond the array is an
  access outside it.\<close>

theorem in_place_sorts_correct:
  "selection_sort_char cs n =
     (if n \<le> int (length cs) then Some (sort (take (nat n) cs) @ drop (nat n) cs) else None) \<and>
   selection_sort_int ws n =
     (if n \<le> int (length ws) then Some (sort (take (nat n) ws) @ drop (nat n) ws) else None) \<and>
   insert_sort hs n =
     (if n \<le> int (length hs) then Some (sort (take (nat n) hs) @ drop (nat n) hs) else None)"
proof -
  have "insert_loop hs 1 (nat n) = sort (take (nat n) hs) @ drop (nat n) hs" if "n \<le> int (length hs)"
  proof (cases "nat n = 0")
    case True
    then show ?thesis by (simp add: insert_loop.simps)
  next
    case False
    with that show ?thesis
      by (intro insert_loop_sort) (auto simp: take_Suc_conv_app_nth sorted_iff_nth_mono_less)
  qed
  then show ?thesis
    by (auto simp: selection_sort_char_def selection_sort_int_def insert_sort_def ssort_outer_sort)
qed

end
