(* ===== verification/Crc.thy ===== *)
theory Crc
  imports Prelude
begin

text \<open>
  The checksums of \<open>proj/common/utility.c\<close>: \<open>crc16_calculate\<close> (bit by bit, with the two-entry
  polynomial table) and \<open>xcrc32\<close> (byte by byte, with the 256-entry table, copied from the source).
  The lemmas show that the table is the byte table of the reflected polynomial \<open>0xEDB88320\<close>, that
  the table-driven step is eight shift-register steps, that checksums chain over concatenation, and
  that each step is injective. The locale \<open>checksum\<close> is what the NV store and the OTA code rely on.
\<close>

section \<open>Model\<close>

definition crc16_poly :: "u16 list" where
  "crc16_poly = [0, 0xa001]"

text \<open>The inner loop of \<open>crc16_calculate\<close>: \<open>i\<close> bits of the byte \<open>ds\<close> remain.\<close>

fun crc16_bits :: "nat \<Rightarrow> u8 \<Rightarrow> u16 \<Rightarrow> u16" where
  "crc16_bits 0 ds crc = crc"
| "crc16_bits (Suc i) ds crc =
     crc16_bits i (drop_bit 1 ds)
       (drop_bit 1 crc XOR (crc16_poly ! unat ((crc XOR ucast ds) AND 1)))"

fun crc16_calculate :: "u8 list \<Rightarrow> u16 \<Rightarrow> u16" where
  "crc16_calculate [] crc = crc"
| "crc16_calculate (b # bs) crc = crc16_calculate bs (crc16_bits 8 b crc)"

definition crc32_table :: "u32 list" where
  "crc32_table = [
    0x00000000, 0x77073096, 0xEE0E612C, 0x990951BA, 0x076DC419, 0x706AF48F,
    0xE963A535, 0x9E6495A3, 0x0EDB8832, 0x79DCB8A4, 0xE0D5E91E, 0x97D2D988,
    0x09B64C2B, 0x7EB17CBD, 0xE7B82D07, 0x90BF1D91, 0x1DB71064, 0x6AB020F2,
    0xF3B97148, 0x84BE41DE, 0x1ADAD47D, 0x6DDDE4EB, 0xF4D4B551, 0x83D385C7,
    0x136C9856, 0x646BA8C0, 0xFD62F97A, 0x8A65C9EC, 0x14015C4F, 0x63066CD9,
    0xFA0F3D63, 0x8D080DF5, 0x3B6E20C8, 0x4C69105E, 0xD56041E4, 0xA2677172,
    0x3C03E4D1, 0x4B04D447, 0xD20D85FD, 0xA50AB56B, 0x35B5A8FA, 0x42B2986C,
    0xDBBBC9D6, 0xACBCF940, 0x32D86CE3, 0x45DF5C75, 0xDCD60DCF, 0xABD13D59,
    0x26D930AC, 0x51DE003A, 0xC8D75180, 0xBFD06116, 0x21B4F4B5, 0x56B3C423,
    0xCFBA9599, 0xB8BDA50F, 0x2802B89E, 0x5F058808, 0xC60CD9B2, 0xB10BE924,
    0x2F6F7C87, 0x58684C11, 0xC1611DAB, 0xB6662D3D, 0x76DC4190, 0x01DB7106,
    0x98D220BC, 0xEFD5102A, 0x71B18589, 0x06B6B51F, 0x9FBFE4A5, 0xE8B8D433,
    0x7807C9A2, 0x0F00F934, 0x9609A88E, 0xE10E9818, 0x7F6A0DBB, 0x086D3D2D,
    0x91646C97, 0xE6635C01, 0x6B6B51F4, 0x1C6C6162, 0x856530D8, 0xF262004E,
    0x6C0695ED, 0x1B01A57B, 0x8208F4C1, 0xF50FC457, 0x65B0D9C6, 0x12B7E950,
    0x8BBEB8EA, 0xFCB9887C, 0x62DD1DDF, 0x15DA2D49, 0x8CD37CF3, 0xFBD44C65,
    0x4DB26158, 0x3AB551CE, 0xA3BC0074, 0xD4BB30E2, 0x4ADFA541, 0x3DD895D7,
    0xA4D1C46D, 0xD3D6F4FB, 0x4369E96A, 0x346ED9FC, 0xAD678846, 0xDA60B8D0,
    0x44042D73, 0x33031DE5, 0xAA0A4C5F, 0xDD0D7CC9, 0x5005713C, 0x270241AA,
    0xBE0B1010, 0xC90C2086, 0x5768B525, 0x206F85B3, 0xB966D409, 0xCE61E49F,
    0x5EDEF90E, 0x29D9C998, 0xB0D09822, 0xC7D7A8B4, 0x59B33D17, 0x2EB40D81,
    0xB7BD5C3B, 0xC0BA6CAD, 0xEDB88320, 0x9ABFB3B6, 0x03B6E20C, 0x74B1D29A,
    0xEAD54739, 0x9DD277AF, 0x04DB2615, 0x73DC1683, 0xE3630B12, 0x94643B84,
    0x0D6D6A3E, 0x7A6A5AA8, 0xE40ECF0B, 0x9309FF9D, 0x0A00AE27, 0x7D079EB1,
    0xF00F9344, 0x8708A3D2, 0x1E01F268, 0x6906C2FE, 0xF762575D, 0x806567CB,
    0x196C3671, 0x6E6B06E7, 0xFED41B76, 0x89D32BE0, 0x10DA7A5A, 0x67DD4ACC,
    0xF9B9DF6F, 0x8EBEEFF9, 0x17B7BE43, 0x60B08ED5, 0xD6D6A3E8, 0xA1D1937E,
    0x38D8C2C4, 0x4FDFF252, 0xD1BB67F1, 0xA6BC5767, 0x3FB506DD, 0x48B2364B,
    0xD80D2BDA, 0xAF0A1B4C, 0x36034AF6, 0x41047A60, 0xDF60EFC3, 0xA867DF55,
    0x316E8EEF, 0x4669BE79, 0xCB61B38C, 0xBC66831A, 0x256FD2A0, 0x5268E236,
    0xCC0C7795, 0xBB0B4703, 0x220216B9, 0x5505262F, 0xC5BA3BBE, 0xB2BD0B28,
    0x2BB45A92, 0x5CB36A04, 0xC2D7FFA7, 0xB5D0CF31, 0x2CD99E8B, 0x5BDEAE1D,
    0x9B64C2B0, 0xEC63F226, 0x756AA39C, 0x026D930A, 0x9C0906A9, 0xEB0E363F,
    0x72076785, 0x05005713, 0x95BF4A82, 0xE2B87A14, 0x7BB12BAE, 0x0CB61B38,
    0x92D28E9B, 0xE5D5BE0D, 0x7CDCEFB7, 0x0BDBDF21, 0x86D3D2D4, 0xF1D4E242,
    0x68DDB3F8, 0x1FDA836E, 0x81BE16CD, 0xF6B9265B, 0x6FB077E1, 0x18B74777,
    0x88085AE6, 0xFF0F6A70, 0x66063BCA, 0x11010B5C, 0x8F659EFF, 0xF862AE69,
    0x616BFFD3, 0x166CCF45, 0xA00AE278, 0xD70DD2EE, 0x4E048354, 0x3903B3C2,
    0xA7672661, 0xD06016F7, 0x4969474D, 0x3E6E77DB, 0xAED16A4A, 0xD9D65ADC,
    0x40DF0B66, 0x37D83BF0, 0xA9BCAE53, 0xDEBB9EC5, 0x47B2CF7F, 0x30B5FFE9,
    0xBDBDF21C, 0xCABAC28A, 0x53B39330, 0x24B4A3A6, 0xBAD03605, 0xCDD70693,
    0x54DE5729, 0x23D967BF, 0xB3667A2E, 0xC4614AB8, 0x5D681B02, 0x2A6F2B94,
    0xB40BBE37, 0xC30C8EA1, 0x5A05DF1B, 0x2D02EF8D]"

definition xcrc32_step :: "u32 \<Rightarrow> u8 \<Rightarrow> u32" where
  "xcrc32_step crc b = drop_bit 8 crc XOR (crc32_table ! unat ((crc XOR ucast b) AND 0xff))"

fun xcrc32 :: "u8 list \<Rightarrow> u32 \<Rightarrow> u32" where
  "xcrc32 [] crc = crc"
| "xcrc32 (b # bs) crc = xcrc32 bs (xcrc32_step crc b)"

section \<open>The interface: a checksum that is fed in chunks\<close>

text \<open>Both users of \<open>xcrc32\<close> compute it over a buffer in one place and over blocks read back from
  flash in another; what makes the two agree is that the checksum chains.\<close>

locale checksum =
  fixes crc :: "u8 list \<Rightarrow> 'c \<Rightarrow> 'c"
  assumes crc_nil: "crc [] c = c"
    and crc_append: "crc (xs @ ys) c = crc ys (crc xs c)"
begin

lemma crc_concat: "crc (concat bss) c = fold crc bss c"
  by (induction bss arbitrary: c) (simp_all add: crc_nil crc_append)

lemma crc_split: "crc (drop n bs) (crc (take n bs) c) = crc bs c"
  by (metis append_take_drop_id crc_append)

end

lemma crc16_append: "crc16_calculate (xs @ ys) c = crc16_calculate ys (crc16_calculate xs c)"
  by (induction xs arbitrary: c) simp_all

lemma xcrc32_append: "xcrc32 (xs @ ys) c = xcrc32 ys (xcrc32 xs c)"
  by (induction xs arbitrary: c) simp_all

interpretation crc16: checksum crc16_calculate
  by unfold_locales (simp_all add: crc16_append)

interpretation crc32: checksum xcrc32
  by unfold_locales (simp_all add: xcrc32_append)

section \<open>The reference: a shift register\<close>

definition crc32_bit :: "u32 \<Rightarrow> u32" where
  "crc32_bit c = drop_bit 1 c XOR (if bit c 0 then 0xEDB88320 else 0)"

definition crc32_byte :: "u32 \<Rightarrow> u32" where
  "crc32_byte c = (crc32_bit ^^ 8) c"

fun crc32_ref :: "u8 list \<Rightarrow> u32 \<Rightarrow> u32" where
  "crc32_ref [] c = c"
| "crc32_ref (b # bs) c = crc32_ref bs (crc32_byte (c XOR ucast b))"

lemma crc32_bit_xor: "crc32_bit (x XOR y) = crc32_bit x XOR crc32_bit y"
  by (rule bit_word_eqI) (auto simp: crc32_bit_def bit_simps)

lemma crc32_bits_xor: "(crc32_bit ^^ n) (x XOR y) = (crc32_bit ^^ n) x XOR (crc32_bit ^^ n) y"
  by (induction n) (simp_all add: crc32_bit_xor)

lemma crc32_bits_high:
  "n \<le> 8 \<Longrightarrow> (crc32_bit ^^ n) (push_bit 8 (drop_bit 8 x)) = drop_bit n (push_bit 8 (drop_bit 8 x))"
proof (induction n)
  case 0
  then show ?case by simp
next
  case (Suc n)
    have b: "\<not> bit (drop_bit n (push_bit 8 (drop_bit 8 x))) 0"
      using Suc.prems by (simp add: bit_simps)
    have "(crc32_bit ^^ Suc n) (push_bit 8 (drop_bit 8 x)) =
          crc32_bit (drop_bit n (push_bit 8 (drop_bit 8 x)))"
      using Suc by simp
    also have "\<dots> = drop_bit (Suc n) (push_bit 8 (drop_bit 8 x))"
      unfolding crc32_bit_def by (simp add: b del: bit_0)
    finally show ?case .
qed

lemma crc32_byte_split:
  "crc32_byte c = drop_bit 8 c XOR crc32_byte (c AND 0xff)"
proof -
  have c: "c = push_bit 8 (drop_bit 8 c) XOR (c AND mask 8)"
    by (rule bit_word_eqI) (auto simp: bit_simps)
  have "crc32_byte c = crc32_byte (push_bit 8 (drop_bit 8 c)) XOR crc32_byte (c AND mask 8)"
    by (subst c) (simp add: crc32_byte_def crc32_bits_xor)
  also have "crc32_byte (push_bit 8 (drop_bit 8 c)) = drop_bit 8 (push_bit 8 (drop_bit 8 c))"
    by (simp add: crc32_byte_def crc32_bits_high)
  also have "\<dots> = drop_bit 8 c"
    by (rule bit_word_eqI) (auto simp: bit_simps dest: bit_imp_le_length)
  finally show ?thesis by (simp add: mask_eq_exp_minus_1)
qed

text \<open>The shift register on integers, where the simplifier computes with numerals.\<close>

definition crc32_bit_int :: "int \<Rightarrow> int" where
  "crc32_bit_int c = (if c mod 2 = 0 then c div 2 else (c div 2) XOR 0xEDB88320)"

definition crc32_byte_int :: "int \<Rightarrow> int" where
  "crc32_byte_int c =
     crc32_bit_int (crc32_bit_int (crc32_bit_int (crc32_bit_int
       (crc32_bit_int (crc32_bit_int (crc32_bit_int (crc32_bit_int c)))))))"

lemma uint_crc32_bit: "uint (crc32_bit c) = crc32_bit_int (uint c)"
proof -
  have b: "bit c 0 = (uint c mod 2 \<noteq> 0)"
    using bit_uint_iff[of c 0] by (simp add: odd_iff_mod_2_eq_one bit_0)
  have d: "uint (drop_bit 1 c) = uint c div 2"
    unfolding drop_bit_eq_div by (simp add: uint_div_distrib)
  show ?thesis
    unfolding crc32_bit_def crc32_bit_int_def b
    using d by (simp add: unsigned_xor_eq)
qed

lemma uint_crc32_byte: "uint (crc32_byte c) = crc32_byte_int (uint c)"
  by (simp add: crc32_byte_def crc32_byte_int_def uint_crc32_bit eval_nat_numeral(2-3))

lemma bytes_int: "[0..255] = (0 :: int) # 1 # [2..255]"
  by (simp add: upto_rec1)

lemma crc32_byte_int_table: "map crc32_byte_int [0..255] = map uint crc32_table"
  unfolding bytes_int
  by (simp add: upto_rec_numeral crc32_byte_int_def crc32_bit_int_def crc32_table_def
      take_bit_eq_mod)

text \<open>The generated table is the shift register applied to every byte.\<close>

lemma length_crc32_table: "length crc32_table = 256"
  by (simp add: crc32_table_def)

lemma uint_ucast_u8: "int (unat (x :: u8)) = uint (ucast x :: u32)"
  using u8_less_256[of x] by (simp add: unsigned_ucast_eq take_bit_eq_mod uint_nat del: of_nat_unat)

lemma crc32_table_byte: "crc32_table ! unat (x :: u8) = crc32_byte (ucast x)"
proof -
  have l: "unat x < 256" by (rule u8_less_256)
  have "uint (crc32_table ! unat x) = map uint crc32_table ! unat x"
    using l by (simp add: length_crc32_table)
  also have "\<dots> = crc32_byte_int ([0..255] ! unat x)"
    using l by (simp flip: crc32_byte_int_table)
  also have "[0..255] ! unat x = int (unat x)"
    using l nth_upto[of 0 "unat x" 255] by linarith
  also have "int (unat x) = uint (ucast x :: u32)"
    by (rule uint_ucast_u8)
  also have "crc32_byte_int \<dots> = uint (crc32_byte (ucast x))"
    by (rule uint_crc32_byte[symmetric])
  finally show ?thesis
    by (simp only: word_uint_eq_iff)
qed

lemma xcrc32_step_byte: "xcrc32_step c b = crc32_byte (c XOR ucast b)"
proof -
  have m: "0xff = (mask 8 :: u32)" by (simp add: mask_eq_exp_minus_1)
  have "xcrc32_step c b = drop_bit 8 c XOR (crc32_table ! unat (ucast (c XOR ucast b) :: u8))"
    unfolding xcrc32_step_def
    by (rule arg_cong[where f = "\<lambda>i. drop_bit 8 c XOR crc32_table ! i"])
       (simp add: unsigned_ucast_eq unsigned_and_eq take_bit_eq_mask mask_eq_exp_minus_1)
  also have "\<dots> = drop_bit 8 c XOR crc32_byte ((c XOR ucast b) AND 0xff)"
    unfolding crc32_table_byte m
    by (rule arg_cong[where f = "\<lambda>i. drop_bit 8 c XOR crc32_byte i"], rule bit_word_eqI)
       (auto simp: bit_simps dest: bit_imp_le_length)
  also have "drop_bit 8 c = drop_bit 8 (c XOR ucast b)"
    by (rule bit_word_eqI) (auto simp: bit_simps dest: bit_imp_le_length)
  finally show ?thesis
    using crc32_byte_split[of "c XOR ucast b"] by simp
qed

text \<open>C25: the table-driven \<open>xcrc32\<close> is the bit-serial CRC-32 shift register (reflected polynomial
  0xEDB88320) run over the bytes: the table is right in all of its 256 entries and the indexing
  \<open>(crc ^ b) & 0xff\<close> picks the right one.\<close>

theorem xcrc32_is_shift_register: "xcrc32 bs c = crc32_ref bs c"
  by (induction bs arbitrary: c) (simp_all add: xcrc32_step_byte)


section \<open>Error detection\<close>

lemma xor_cancel: "x XOR (x XOR y) = (y :: 'a::len word)"
  by (simp flip: xor.assoc)

lemma crc32_bit_zero: "crc32_bit x = 0 \<Longrightarrow> x = 0"
proof -
  assume z: "crc32_bit x = 0"
  then have "\<not> bit (crc32_bit x) 31" by simp
  then have b: "\<not> bit x 0"
    unfolding crc32_bit_def by (auto simp: bit_simps dest: bit_imp_le_length split: if_splits simp del: bit_0)
  with z have d: "drop_bit 1 x = 0"
    unfolding crc32_bit_def by (simp del: bit_0)
  show "x = 0"
  proof (rule bit_word_eqI)
    fix n
    show "bit x n = bit 0 n"
    proof (cases n)
      case 0 with b show ?thesis by (simp del: bit_0)
    next
      case (Suc m)
      have "bit (drop_bit 1 x) m = bit x (Suc m)" by (simp add: bit_simps)
      with d Suc show ?thesis by simp
    qed
  qed
qed

lemma crc32_byte_zero: "crc32_byte x = 0 \<Longrightarrow> x = 0"
  unfolding crc32_byte_def by (simp add: eval_nat_numeral(2-3)) (blast dest: crc32_bit_zero)

lemma crc32_byte_inj: "crc32_byte x = crc32_byte y \<Longrightarrow> x = y"
proof -
  assume "crc32_byte x = crc32_byte y"
  then have "crc32_byte (x XOR y) = 0"
    by (simp add: crc32_byte_def crc32_bits_xor)
  then have z: "x XOR y = 0" by (rule crc32_byte_zero)
  have "x XOR (x XOR y) = y" by (rule xor_cancel)
  with z show ?thesis by simp
qed

lemma xcrc32_step_inj_crc: "xcrc32_step c b = xcrc32_step c' b \<Longrightarrow> c = c'"
  unfolding xcrc32_step_byte by (drule crc32_byte_inj) (metis xor_cancel xor.commute)

lemma xcrc32_step_inj_byte: "xcrc32_step c b = xcrc32_step c b' \<Longrightarrow> b = b'"
proof -
  assume "xcrc32_step c b = xcrc32_step c b'"
  then have "c XOR ucast b = c XOR ucast b'"
    unfolding xcrc32_step_byte by (rule crc32_byte_inj)
  then have e: "(ucast b :: u32) = ucast b'"
    by (metis xor_cancel)
  show "b = b'"
  proof (rule bit_word_eqI)
    fix n assume "n < LENGTH(8)"
    with arg_cong[OF e, of "\<lambda>w. bit w n"] show "bit b n = bit b' n"
      by (simp add: bit_simps)
  qed
qed

lemma xcrc32_inj_crc: "xcrc32 bs c = xcrc32 bs c' \<Longrightarrow> c = c'"
  by (induction bs arbitrary: c c') (auto dest: xcrc32_step_inj_crc)

text \<open>A single corrupted byte, wherever it is and whatever the initial value, always changes the
  CRC: two equally long buffers that differ in exactly one byte never collide.\<close>

theorem xcrc32_detects_byte_error:
  "xcrc32 (xs @ b # ys) c = xcrc32 (xs @ b' # ys) c \<longleftrightarrow> b = b'"
  by (auto simp: xcrc32_append dest!: xcrc32_inj_crc xcrc32_step_inj_byte)

end
