(* ===== verification/CMem.thy ===== *)
theory CMem
  imports Prelude
begin

text \<open>
  The byte memory and the C string routines of \<open>proj/common/string.c\<close>. A memory maps every 32-bit
  address to a byte; pointer arithmetic wraps as it does on the cores. A loop that runs until it
  sees a byte (\<open>strlen\<close>, \<open>strcmp\<close>, \<open>strcpy\<close>, \<open>strchr\<close>) is a \<open>partial_function (option)\<close>, a
  routine that hangs on purpose (\<open>while(1)\<close> on a null pointer) returns \<open>None\<close>.
  The specification of every block routine is \<open>moved\<close>/\<open>filled\<close>: the memory afterwards as a
  function of the memory before.
\<close>

type_synonym mem = "ptr \<Rightarrow> u8"

section \<open>Model\<close>

text \<open>\<open>*dst++ = *src++\<close>, \<open>n\<close> times.\<close>

fun bcopy_up :: "nat \<Rightarrow> mem \<Rightarrow> ptr \<Rightarrow> ptr \<Rightarrow> mem" where
  "bcopy_up 0 m src dst = m"
| "bcopy_up (Suc n) m src dst = bcopy_up n (m(dst := m src)) (src + 1) (dst + 1)"

fun bcopy_down :: "nat \<Rightarrow> mem \<Rightarrow> ptr \<Rightarrow> ptr \<Rightarrow> mem" where
  "bcopy_down 0 m lasts lastd = m"
| "bcopy_down (Suc n) m lasts lastd = bcopy_down n (m(lastd := m lasts)) (lasts - 1) (lastd - 1)"

definition bcopy :: "mem \<Rightarrow> ptr \<Rightarrow> ptr \<Rightarrow> u32 \<Rightarrow> mem" where
  "bcopy m src dst len =
     (if dst < src then bcopy_up (unat len) m src dst
      else bcopy_down (unat len) m (src + (len - 1)) (dst + (len - 1)))"

definition memmove :: "mem \<Rightarrow> ptr \<Rightarrow> ptr \<Rightarrow> u32 \<Rightarrow> mem \<times> ptr" where
  "memmove m dst src n = (bcopy_up (unat n) m src dst, dst)"

definition memcpy :: "mem \<Rightarrow> ptr \<Rightarrow> ptr \<Rightarrow> u32 \<Rightarrow> (mem \<times> ptr) option" where
  "memcpy m out in_p len =
     (if len = 0 then Some (m, NULL)
      else if out = NULL \<or> in_p = NULL then None
      else Some (bcopy m in_p out len, out))"

fun memset_loop :: "nat \<Rightarrow> mem \<Rightarrow> ptr \<Rightarrow> u8 \<Rightarrow> mem" where
  "memset_loop 0 m p v = m"
| "memset_loop (Suc n) m p v = memset_loop n (m(p := v)) (p + 1) v"

definition memset :: "mem \<Rightarrow> ptr \<Rightarrow> u32 \<Rightarrow> u32 \<Rightarrow> (mem \<times> ptr) option" where
  "memset m dst val len =
     (if dst = NULL then None else Some (memset_loop (unat len) m dst (ucast val), dst))"

fun memcmp_loop :: "nat \<Rightarrow> mem \<Rightarrow> ptr \<Rightarrow> ptr \<Rightarrow> int" where
  "memcmp_loop 0 m s1 s2 = 0"
| "memcmp_loop (Suc n) m s1 s2 =
     (if m s1 \<noteq> m s2 then uint (m s1) - uint (m s2) else memcmp_loop n m (s1 + 1) (s2 + 1))"

definition memcmp :: "mem \<Rightarrow> ptr \<Rightarrow> ptr \<Rightarrow> u32 \<Rightarrow> int" where
  "memcmp m m1 m2 n = memcmp_loop (unat n) m m1 m2"

fun memchr_loop :: "nat \<Rightarrow> mem \<Rightarrow> ptr \<Rightarrow> int \<Rightarrow> ptr" where
  "memchr_loop 0 m src c = NULL"
| "memchr_loop (Suc n) m src c = (if uint (m src) = c then src else memchr_loop n m (src + 1) c)"

definition memchr :: "mem \<Rightarrow> ptr \<Rightarrow> int \<Rightarrow> u32 \<Rightarrow> ptr" where
  "memchr m src c len = memchr_loop (unat len) m src c"

text \<open>Strings. The counter of \<open>strlen\<close> is an \<open>unsigned int\<close>.\<close>

partial_function (option) strlen_loop :: "mem \<Rightarrow> ptr \<Rightarrow> u32 \<Rightarrow> u32 option" where
  "strlen_loop m str len = (if m str = 0 then Some len else strlen_loop m (str + 1) (len + 1))"

definition strlen :: "mem \<Rightarrow> ptr \<Rightarrow> u32 option" where
  "strlen m str = (if str \<noteq> NULL then strlen_loop m str 0 else Some 0)"

partial_function (option) strcmp :: "mem \<Rightarrow> ptr \<Rightarrow> ptr \<Rightarrow> int option" where
  "strcmp m s1 s2 =
     (if m s1 = m s2 then
        if m s1 = 0 then Some 0 else strcmp m (s1 + 1) (s2 + 1)
      else if uint (m s1) - uint (m s2) < 0 then Some (-1) else Some 1)"

partial_function (option) strcpy_loop :: "mem \<Rightarrow> ptr \<Rightarrow> ptr \<Rightarrow> mem option" where
  "strcpy_loop m dst src =
     (let m' = m(dst := m src)
      in if m src \<noteq> 0 then strcpy_loop m' (dst + 1) (src + 1) else Some m')"

definition strcpy :: "mem \<Rightarrow> ptr \<Rightarrow> ptr \<Rightarrow> (mem \<times> ptr) option" where
  "strcpy m dst0 src0 = (case strcpy_loop m dst0 src0 of None \<Rightarrow> None | Some m' \<Rightarrow> Some (m', dst0))"

text \<open>\<open>strchr\<close> compares a promoted \<open>char\<close> with an \<open>int\<close>; whether \<open>char\<close> is signed is the
  compiler's choice, so the promotion \<open>cv\<close> is an argument.\<close>

partial_function (option) strchr :: "(u8 \<Rightarrow> int) \<Rightarrow> mem \<Rightarrow> ptr \<Rightarrow> int \<Rightarrow> ptr option" where
  "strchr cv m s c =
     (if cv (m s) = c then Some s else if m s \<noteq> 0 then strchr cv m (s + 1) c else Some NULL)"

text \<open>\<open>strncpy\<close>: the loop condition \<open>t && i < n\<close> tests the pointer; with a null \<open>t\<close> the
  \<open>do ... while (i++ < n)\<close> loop writes \<open>n + 1\<close> zeros.\<close>

definition strncpy :: "mem \<Rightarrow> ptr \<Rightarrow> ptr \<Rightarrow> u32 \<Rightarrow> mem \<times> ptr" where
  "strncpy m s t n =
     (if s = NULL then (m, s)
      else if t \<noteq> NULL then (bcopy_up (unat n) m t s, s)
      else (memset_loop (Suc (unat n)) m s 0, s))"

text \<open>Word accesses are little endian.\<close>

definition load32 :: "mem \<Rightarrow> ptr \<Rightarrow> u32" where
  "load32 m p = ucast (m p) OR push_bit 8 (ucast (m (p + 1)))
     OR push_bit 16 (ucast (m (p + 2))) OR push_bit 24 (ucast (m (p + 3)))"

definition store32 :: "mem \<Rightarrow> ptr \<Rightarrow> u32 \<Rightarrow> mem" where
  "store32 m p w = m(p := ucast w, p + 1 := ucast (drop_bit 8 w),
                     p + 2 := ucast (drop_bit 16 w), p + 3 := ucast (drop_bit 24 w))"

fun ismem4_loop :: "nat \<Rightarrow> mem \<Rightarrow> ptr \<Rightarrow> u32 \<Rightarrow> bool" where
  "ismem4_loop 0 m p v = True"
| "ismem4_loop (Suc n) m p v = (if load32 m p \<noteq> v then False else ismem4_loop n m (p + 4) v)"

definition ismemzero4 :: "mem \<Rightarrow> ptr \<Rightarrow> u32 \<Rightarrow> bool" where
  "ismemzero4 m data len = ismem4_loop (unat (drop_bit 2 len)) m data 0"

definition ismemf4 :: "mem \<Rightarrow> ptr \<Rightarrow> u32 \<Rightarrow> bool" where
  "ismemf4 m data len = ismem4_loop (unat (drop_bit 2 len)) m data 0xffffffff"

fun memset4_loop :: "nat \<Rightarrow> mem \<Rightarrow> ptr \<Rightarrow> u32 \<Rightarrow> mem" where
  "memset4_loop 0 m p v = m"
| "memset4_loop (Suc n) m p v = memset4_loop n (store32 m p v) (p + 4) v"

definition memset4 :: "mem \<Rightarrow> ptr \<Rightarrow> u32 \<Rightarrow> u32 \<Rightarrow> mem \<times> ptr" where
  "memset4 m dst val len = (memset4_loop (unat (drop_bit 2 len)) m dst val, dst)"

definition zeromem4 :: "mem \<Rightarrow> ptr \<Rightarrow> u32 \<Rightarrow> mem" where
  "zeromem4 m data len = fst (memset4 m data 0 len)"

fun memcpy4_loop :: "nat \<Rightarrow> mem \<Rightarrow> ptr \<Rightarrow> ptr \<Rightarrow> mem" where
  "memcpy4_loop 0 m d s = m"
| "memcpy4_loop (Suc n) m d s = memcpy4_loop n (store32 m d (load32 m s)) (d + 4) (s + 4)"

definition memcpy4 :: "mem \<Rightarrow> ptr \<Rightarrow> ptr \<Rightarrow> u32 \<Rightarrow> mem" where
  "memcpy4 m d s len = memcpy4_loop (unat (drop_bit 2 len)) m d s"

text \<open>\<open>addrExtCmp\<close> of \<open>utility.c\<close>: eight bytes, a \<open>u8\<close> counter from \<open>EXT_ADDR_LEN\<close> to 0.\<close>

fun addr_cmp_loop :: "nat \<Rightarrow> mem \<Rightarrow> ptr \<Rightarrow> ptr \<Rightarrow> bool" where
  "addr_cmp_loop 0 m p1 p2 = True"
| "addr_cmp_loop (Suc i) m p1 p2 =
     (if m p1 \<noteq> m p2 then False else addr_cmp_loop i m (p1 + 1) (p2 + 1))"

definition addrExtCmp :: "mem \<Rightarrow> ptr \<Rightarrow> ptr \<Rightarrow> bool" where
  "addrExtCmp m p1 p2 = addr_cmp_loop 8 m p1 p2"

section \<open>Blocks\<close>

definition block :: "mem \<Rightarrow> ptr \<Rightarrow> nat \<Rightarrow> u8 list" where
  "block m p n = map (\<lambda>i. m (p + of_nat i)) [0..<n]"

text \<open>The address \<open>a\<close> lies in the \<open>n\<close> bytes from \<open>p\<close>.\<close>

definition within :: "ptr \<Rightarrow> nat \<Rightarrow> ptr \<Rightarrow> bool" where
  "within p n a = (unat (a - p) < n)"

definition moved :: "mem \<Rightarrow> ptr \<Rightarrow> ptr \<Rightarrow> nat \<Rightarrow> mem" where
  "moved m src dst n = (\<lambda>a. if within dst n a then m (src + (a - dst)) else m a)"

definition filled :: "mem \<Rightarrow> ptr \<Rightarrow> u8 \<Rightarrow> nat \<Rightarrow> mem" where
  "filled m p v n = (\<lambda>a. if within p n a then v else m a)"

lemma length_block [simp]: "length (block m p n) = n"
  by (simp add: block_def)

lemma block_0 [simp]: "block m p 0 = []"
  by (simp add: block_def)

lemma block_Suc: "block m p (Suc n) = m p # block m (p + 1) n"
proof -
  have "[0..<Suc n] = 0 # map Suc [0..<n]"
    by (simp add: upt_conv_Cons map_Suc_upt del: upt_Suc)
  then show ?thesis
    by (simp add: block_def comp_def ac_simps del: upt_Suc)
qed

lemma within_0 [simp]: "\<not> within p 0 a"
  by (simp add: within_def)

lemma within_Suc: "n < 2 ^ 32 \<Longrightarrow> within p (Suc n) a = (a = p \<or> within (p + 1) n a \<and> a \<noteq> p)"
proof -
  assume n: "n < 2 ^ 32"
  show ?thesis
  proof (cases "a = p")
    case True then show ?thesis by (simp add: within_def)
  next
    case False
    then have nz: "a - p \<noteq> 0" by simp
    have "unat (a - (p + 1)) = unat (a - p - 1)" by (simp add: algebra_simps)
    also have "\<dots> = unat (a - p) - 1" using nz by (rule unat_minus_one)
    finally show ?thesis
      using False nz unat_gt_0[of "a - p"] by (auto simp: within_def)
  qed
qed

lemma within_start: "n < 2 ^ 32 \<Longrightarrow> \<not> within (p + 1) n p"
proof -
  assume "n < 2 ^ 32"
  moreover have "unat (p - (p + 1)) = 2 ^ 32 - 1"
    by (simp add: unsigned_minus_1_eq_mask mask_eq_exp_minus_1)
  ultimately show ?thesis by (simp add: within_def)
qed


lemma within_Suc_end: "n < 2 ^ 32 \<Longrightarrow> within p (Suc n) a = (within p n a \<or> a = p + of_nat n)"
proof -
  assume n: "n < 2 ^ 32"
  then have u: "unat (of_nat n :: ptr) = n" by (simp add: unat_of_nat_u32)
  have "a = p + of_nat n \<longleftrightarrow> a - p = of_nat n" by (auto simp: algebra_simps)
  also have "\<dots> \<longleftrightarrow> unat (a - p) = n" using u by (metis word_unat_eq_iff)
  finally show ?thesis by (auto simp: within_def)
qed

section \<open>Copying\<close>

text \<open>Copying upwards is right as long as no destination byte is a source byte still to be read,
  copying downwards in the mirror case.\<close>

lemma bcopy_up_moved:
  "n < 2 ^ 32 \<Longrightarrow> dst = src \<or> n \<le> unat (dst - src) \<Longrightarrow> bcopy_up n m src dst = moved m src dst n"
proof (induction n arbitrary: m src dst)
  case 0
  then show ?case by (simp add: moved_def)
next
  case (Suc n)
  have "dst + 1 - (src + 1) = dst - src" by simp
  then have ih: "bcopy_up (Suc n) m src dst = moved (m(dst := m src)) (src + 1) (dst + 1) n"
    using Suc by (auto intro!: Suc.IH)
  have "moved (m(dst := m src)) (src + 1) (dst + 1) n a = moved m src dst (Suc n) a" for a
  proof (cases "a = dst")
    case True
    with Suc.prems show ?thesis by (simp add: moved_def within_Suc within_start)
  next
    case False
    have ne: "src + (a - dst) \<noteq> dst" if w: "within (dst + 1) n a"
    proof
      assume "src + (a - dst) = dst"
      then have e: "a - dst = dst - src" by (metis add_diff_cancel_left')
      have "unat (a - dst) < Suc n"
        using w Suc.prems(1) False within_Suc[of n dst a] by (simp add: within_def)
      with e Suc.prems(2) False show False by auto
    qed
    have "src + 1 + (a - (dst + 1)) = src + (a - dst)" by simp
    with False ne Suc.prems show ?thesis by (auto simp: moved_def within_Suc)
  qed
  with ih show ?case by (simp add: fun_eq_iff)
qed

lemma bcopy_down_moved:
  "n < 2 ^ 32 \<Longrightarrow> dst = src \<or> n \<le> unat (src - dst) \<Longrightarrow>
   bcopy_down n m (src + of_nat n - 1) (dst + of_nat n - 1) = moved m src dst n"
proof (induction n arbitrary: m)
  case 0
  then show ?case by (simp add: moved_def)
next
  case (Suc n)
  let ?m = "m(dst + of_nat n := m (src + of_nat n))"
  have u: "unat (of_nat n :: ptr) = n" using Suc.prems(1) by (simp add: unat_of_nat_u32)
  have ih: "bcopy_down (Suc n) m (src + of_nat (Suc n) - 1) (dst + of_nat (Suc n) - 1) =
            moved ?m src dst n"
    using Suc by (auto simp: algebra_simps)
  have "moved ?m src dst n a = moved m src dst (Suc n) a" for a
  proof (cases "within dst n a")
    case True
    have "src + (a - dst) \<noteq> dst + of_nat n \<or> src = dst \<and> a = dst + of_nat n"
    proof (rule ccontr)
      assume "\<not> ?thesis"
      then have e: "src + (a - dst) = dst + of_nat n" and n: "src \<noteq> dst \<or> a \<noteq> dst + of_nat n" by auto
      then have d: "src - dst = of_nat n - (a - dst)" by (simp add: algebra_simps)
      have le: "a - dst \<le> of_nat n" using True u by (simp add: within_def word_le_nat_alt)
      have "unat (src - dst) \<le> n" unfolding d unat_sub[OF le] u by simp
      with Suc.prems(2) have "src = dst" by auto
      with e have "a = dst + of_nat n" by simp
      with n \<open>src = dst\<close> show False by simp
    qed
    moreover have "a \<noteq> dst + of_nat n"
      using True u by (auto simp: within_def)
    ultimately show ?thesis
      using True Suc.prems(1) by (simp add: moved_def within_Suc_end)
  next
    case False
    with Suc.prems(1) show ?thesis by (auto simp: moved_def within_Suc_end)
  qed
  with ih show ?case by (simp add: fun_eq_iff)
qed

text \<open>The object \<open>p .. p + n - 1\<close> does not wrap around the address space.\<close>

definition fits :: "ptr \<Rightarrow> u32 \<Rightarrow> bool" where
  "fits p n = (unat p + unat n \<le> 2 ^ 32)"

lemma ptr_diff_ge:
  assumes "p < q" "fits q n" shows "unat n \<le> unat (p - q)"
proof -
  have "unat (p - q) = unat p + 2 ^ 32 - unat q"
    using assms(1) unat_sub_if'[of p q] by (simp add: word_less_nat_alt)
  with assms show ?thesis by (simp add: fits_def word_less_nat_alt)
qed

lemma bcopy_moved:
  assumes "fits src len" "fits dst len"
  shows "bcopy m src dst len = moved m src dst (unat len)"
proof (cases "dst < src")
  case True
  with assms ptr_diff_ge[OF True] u32_less[of len] show ?thesis
    by (simp add: bcopy_def bcopy_up_moved)
next
  case False
  have l: "unat len < 2 ^ 32" using unsigned_less[of len] by simp
  have "dst = src \<or> unat len \<le> unat (src - dst)"
    using False assms ptr_diff_ge[of src dst len] by fastforce
  from bcopy_down_moved[OF l this, of m] False show ?thesis
    by (simp add: bcopy_def algebra_simps)
qed

lemma block_moved: "n < 2 ^ 32 \<Longrightarrow> block (moved m src dst n) dst n = block m src n"
  by (rule nth_equalityI) (auto simp: block_def moved_def within_def unat_of_nat_u32)


text \<open>\<open>memcpy\<close> of a non-empty object that does not wrap around the address space terminates,
  returns its first argument, makes the destination equal to what the source was before the call,
  and writes no other byte, however source and destination overlap.\<close>

theorem memcpy_copies:
  assumes "len \<noteq> 0" "dst \<noteq> NULL" "src \<noteq> NULL" "fits src len" "fits dst len"
  shows "\<exists>m'. memcpy m dst src len = Some (m', dst)
           \<and> block m' dst (unat len) = block m src (unat len)
           \<and> (\<forall>a. within dst (unat len) a \<or> m' a = m a)"
proof -
  have "block (moved m src dst (unat len)) dst (unat len) = block m src (unat len)"
    using u32_less[of len] by (intro block_moved) simp
  then show ?thesis
    using assms by (auto simp: memcpy_def bcopy_moved moved_def)
qed

theorem memcpy_copies_witness:
  "\<exists>m'. memcpy (\<lambda>a. ucast a) 0x101 0x100 4 = Some (m', 0x101)
     \<and> block m' 0x101 (unat (4 :: u32)) = block (\<lambda>a. ucast a) 0x100 (unat (4 :: u32))
     \<and> (\<forall>a. within 0x101 (unat (4 :: u32)) a \<or> m' a = ucast a)"
  by (rule memcpy_copies) (simp_all add: fits_def)

lemma bcopy_up_smear:
  "n < 2 ^ 32 \<Longrightarrow> bcopy_up n m src (src + 1) = filled m (src + 1) (m src) n"
proof (induction n arbitrary: m src)
  case 0
  then show ?case by (simp add: filled_def)
next
  case (Suc n)
  have "bcopy_up (Suc n) m src (src + 1) = filled (m(src + 1 := m src)) (src + 1 + 1) (m src) n"
    using Suc.IH[of "m(src + 1 := m src)" "src + 1"] Suc.prems by (simp del: fun_upd_apply)
       (simp add: fun_upd_def)
  also have "\<dots> = filled m (src + 1) (m src) (Suc n)"
    using Suc.prems by (auto simp: filled_def within_Suc fun_eq_iff)
  finally show ?case .
qed

lemma block_filled: "n < 2 ^ 32 \<Longrightarrow> block (filled m p v n) p n = replicate n v"
  by (rule nth_equalityI) (auto simp: block_def filled_def within_def unat_of_nat_u32)

text \<open>\<open>memmove\<close> only copies upwards. Moving a block up by one byte within itself does not
  preserve it: every byte of the destination becomes the first byte of the source.\<close>

theorem memmove_overlap_smears:
  "block (fst (memmove m (src + 1) src n)) (src + 1) (unat n) = replicate (unat n) (m src)"
  using u32_less[of n] by (simp add: memmove_def bcopy_up_smear block_filled)

lemma memset_loop_filled: "n < 2 ^ 32 \<Longrightarrow> memset_loop n m p v = filled m p v n"
proof (induction n arbitrary: m p)
  case 0
  then show ?case by (simp add: filled_def)
next
  case (Suc n)
  then show ?case by (auto simp: filled_def within_Suc fun_eq_iff)
qed

section \<open>Comparing\<close>

abbreviation lex_less :: "u8 list \<Rightarrow> u8 list \<Rightarrow> bool" where
  "lex_less \<equiv> ord_class.lexordp"

lemma uint_order:
  "uint (x :: u8) < uint y \<longleftrightarrow> x < y" "uint x = uint y \<longleftrightarrow> x = y" "0 < uint x \<longleftrightarrow> x \<noteq> 0"
  by (auto simp: word_less_def word_uint_eq_iff order.strict_iff_order)

lemma memcmp_loop_lex:
  "(memcmp_loop n m a b = 0 \<longleftrightarrow> block m a n = block m b n)
   \<and> (memcmp_loop n m a b < 0 \<longleftrightarrow> lex_less (block m a n) (block m b n))"
  by (induction n arbitrary: a b) (auto simp: block_Suc uint_order)

text \<open>\<open>memcmp\<close> decides equality of the two blocks and orders them lexicographically by
  unsigned bytes.\<close>

theorem memcmp_orders:
  "(memcmp m a b n = 0 \<longleftrightarrow> block m a (unat n) = block m b (unat n))
   \<and> (memcmp m a b n < 0 \<longleftrightarrow> lex_less (block m a (unat n)) (block m b (unat n)))"
  unfolding memcmp_def by (rule memcmp_loop_lex)

lemma memchr_loop_spec:
  "n \<le> 2 ^ 32 \<Longrightarrow>
   memchr_loop n m src c =
     (case find (\<lambda>i. uint (m (src + of_nat i)) = c) [0..<n] of None \<Rightarrow> NULL | Some i \<Rightarrow> src + of_nat i)"
proof (induction n arbitrary: src)
  case 0
  then show ?case by simp
next
  case (Suc n)
  have u: "[0..<Suc n] = 0 # map Suc [0..<n]"
    by (simp add: upt_conv_Cons map_Suc_upt del: upt_Suc)
  have "find P (map Suc xs) = map_option Suc (find (\<lambda>i. P (Suc i)) xs)" for P and xs :: "nat list"
    by (induction xs) auto
  with Suc show ?case
    unfolding u by (auto simp: algebra_simps split: option.splits)
qed

lemma addr_cmp_loop_block: "addr_cmp_loop n m a b = (block m a n = block m b n)"
  by (induction n arbitrary: a b) (auto simp: block_Suc)

lemma addrExtCmp_block: "addrExtCmp m a b = (block m a 8 = block m b 8)"
  by (simp add: addrExtCmp_def addr_cmp_loop_block)

section \<open>Strings\<close>

text \<open>At \<open>p\<close> stands the string \<open>cs\<close>, closed by a NUL.\<close>

fun cstring :: "mem \<Rightarrow> ptr \<Rightarrow> u8 list \<Rightarrow> bool" where
  "cstring m p [] = (m p = 0)"
| "cstring m p (c # cs) = (m p = c \<and> c \<noteq> 0 \<and> cstring m (p + 1) cs)"

lemma strlen_loop_cstring:
  "cstring m p cs \<Longrightarrow> strlen_loop m p k = Some (k + of_nat (length cs))"
proof (induction cs arbitrary: p k)
  case Nil
  then show ?case by (subst strlen_loop.simps) simp
next
  case (Cons c cs)
  then show ?case by (subst strlen_loop.simps) simp
qed

text \<open>On a terminated string \<open>strlen\<close> returns, with the number of bytes before the NUL.\<close>

theorem strlen_cstring:
  assumes "cstring m p cs" "p \<noteq> NULL" "length cs < 2 ^ 32"
  shows "\<exists>n. strlen m p = Some n \<and> unat n = length cs"
  using assms by (simp add: strlen_def strlen_loop_cstring unat_of_nat_u32)

theorem strlen_cstring_witness:
  "\<exists>n. strlen (\<lambda>a. if a = 0x102 then 0 else 65) 0x100 = Some n \<and> unat n = length [65, 65 :: u8]"
  by (rule strlen_cstring) simp_all

lemma strcmp_cstring:
  "cstring m p cs \<Longrightarrow> cstring m q ds \<Longrightarrow>
   strcmp m p q = Some (if cs = ds then 0 else if lex_less cs ds then -1 else 1)"
proof (induction cs arbitrary: p q ds)
  case Nil
  then show ?case
    by (subst strcmp.simps) (cases ds; auto simp: uint_order)
next
  case (Cons c cs)
  show ?case
  proof (cases ds)
    case Nil
    with Cons.prems show ?thesis
      by (subst strcmp.simps) auto
  next
    case (Cons d ds')
    with Cons.prems Cons.IH[of "p + 1" "q + 1" ds'] show ?thesis
      by (subst strcmp.simps) (auto simp: uint_order)
  qed
qed

text \<open>On two terminated strings \<open>strcmp\<close> returns; the result is 0 exactly on equal strings,
  and otherwise -1 or 1 by the lexicographic order of unsigned bytes.\<close>

theorem strcmp_total:
  assumes "cstring m p cs" "cstring m q ds"
  shows "strcmp m p q = Some (if cs = ds then 0 else if lex_less cs ds then -1 else 1)"
  using assms by (rule strcmp_cstring)

theorem strcmp_total_witness:
  "strcmp (\<lambda>a. if a = 0x101 then 0 else if a = 0x202 then 0 else 65) 0x100 0x200 =
     Some (if [65 :: u8] = [65, 65] then 0 else if lex_less [65 :: u8] [65, 65] then -1 else 1)"
  by (rule strcmp_total) simp_all


lemma cstring_upd: "(\<forall>i \<le> length cs. a \<noteq> p + of_nat i) \<Longrightarrow> cstring (m(a := v)) p cs = cstring m p cs"
proof (induction cs arbitrary: p)
  case Nil
  then show ?case by simp
next
  case (Cons c cs)
  have "a \<noteq> p + 1 + of_nat i" if "i \<le> length cs" for i
    using Cons.prems[rule_format, of "Suc i"] that by (simp add: algebra_simps)
  with Cons.IH[of "p + 1"] Cons.prems[rule_format, of 0] show ?case by simp
qed

lemma strcpy_loop_cstring:
  "cstring m src cs \<Longrightarrow> length cs + 1 < 2 ^ 32 \<Longrightarrow> length cs + 1 \<le> unat (dst - src) \<Longrightarrow>
   strcpy_loop m dst src = Some (bcopy_up (length cs + 1) m src dst)"
proof (induction cs arbitrary: m src dst)
  case Nil
  then show ?case by (subst strcpy_loop.simps) simp
next
  case (Cons c cs)
  have ne: "dst \<noteq> src + 1 + of_nat i" if "i \<le> length cs" for i
  proof
    assume "dst = src + 1 + of_nat i"
    then have "dst - src = of_nat (Suc i)" by simp
    moreover have "unat (of_nat (Suc i) :: ptr) = Suc i"
      using that Cons.prems(2) by (intro unat_of_nat_u32) simp
    ultimately have "unat (dst - src) = Suc i" by (simp only:)
    with that Cons.prems(3) show False by simp
  qed
  then have "cstring (m(dst := m src)) (src + 1) cs"
    using Cons.prems by (subst cstring_upd) auto
  then have "strcpy_loop (m(dst := m src)) (dst + 1) (src + 1) =
        Some (bcopy_up (length cs + 1) (m(dst := m src)) (src + 1) (dst + 1))"
    using Cons.prems by (intro Cons.IH) (simp_all del: fun_upd_apply)
  with Cons.prems(1) show ?case
    by (simp add: strcpy_loop.simps[of m dst src] Let_def del: fun_upd_apply)
qed

text \<open>\<open>strcpy\<close> of a terminated string to a buffer that does not overlap its tail returns the
  destination; the destination then holds the same string, and no byte outside its
  \<open>length + 1\<close> bytes changes.\<close>

theorem strcpy_copies:
  assumes "cstring m src cs" "length cs + 1 < 2 ^ 32" "length cs + 1 \<le> unat (dst - src)"
  shows "\<exists>m'. strcpy m dst src = Some (m', dst)
           \<and> block m' dst (length cs + 1) = block m src (length cs + 1)
           \<and> (\<forall>a. within dst (length cs + 1) a \<or> m' a = m a)"
proof -
  let ?n = "length cs + 1"
  have "strcpy_loop m dst src = Some (moved m src dst ?n)"
    using assms strcpy_loop_cstring[OF assms] bcopy_up_moved[of ?n dst src m] by simp
  moreover have "block (moved m src dst ?n) dst ?n = block m src ?n"
    using assms(2) by (rule block_moved)
  ultimately show ?thesis
    by (auto simp: strcpy_def moved_def)
qed

theorem strcpy_copies_witness:
  "\<exists>m'. strcpy (\<lambda>a. if a = 0x102 then 0 else 65) 0x200 0x100 = Some (m', 0x200)
     \<and> block m' 0x200 (length [65, 65 :: u8] + 1) =
       block (\<lambda>a. if a = 0x102 then 0 else 65) 0x100 (length [65, 65 :: u8] + 1)
     \<and> (\<forall>a. within 0x200 (length [65, 65 :: u8] + 1) a \<or> m' a = (if a = 0x102 then 0 else 65))"
  by (rule strcpy_copies) simp_all

text \<open>\<open>strncpy\<close> from a non-null source always copies \<open>n\<close> bytes, whether or not the source
  string ends earlier.\<close>

theorem strncpy_ignores_terminator:
  assumes "s \<noteq> NULL" "t \<noteq> NULL" "s = t \<or> unat n \<le> unat (s - t)"
  shows "block (fst (strncpy m s t n)) s (unat n) = block m t (unat n)"
proof -
  have l: "unat n < 2 ^ 32" using u32_less[of n] by simp
  show ?thesis
    using assms bcopy_up_moved[OF l assms(3)] block_moved[OF l] by (simp add: strncpy_def)
qed

theorem strncpy_ignores_terminator_witness:
  "block (fst (strncpy (\<lambda>a. if a = 0x101 then 0 else 65) 0x200 0x100 8)) 0x200 (unat (8 :: u32)) =
   block (\<lambda>a. if a = 0x101 then 0 else 65) 0x100 (unat (8 :: u32))"
  by (rule strncpy_ignores_terminator) simp_all

section \<open>Words\<close>

lemma load32_eq_iff:
  "load32 m p = w \<longleftrightarrow> m p = ucast w \<and> m (p + 1) = ucast (drop_bit 8 w)
     \<and> m (p + 2) = ucast (drop_bit 16 w) \<and> m (p + 3) = ucast (drop_bit 24 w)" (is "_ \<longleftrightarrow> ?r")
proof
  assume "load32 m p = w"
  then show ?r
    by (auto simp: load32_def intro!: bit_word_eqI) (auto simp: bit_simps dest: bit_imp_le_length)
next
  assume ?r
  show "load32 m p = w"
  proof (rule bit_word_eqI)
    fix n assume "n < LENGTH(32)"
    then consider "n < 8" | "8 \<le> n \<and> n < 16" | "16 \<le> n \<and> n < 24" | "24 \<le> n \<and> n < 32" by fastforce
    then show "bit (load32 m p) n = bit w n"
      using \<open>?r\<close> by cases (auto simp: load32_def bit_simps dest: bit_imp_le_length)
  qed
qed

lemma ismem4_loop_block:
  assumes "ucast w = b" "ucast (drop_bit 8 w) = b" "ucast (drop_bit 16 w) = b" "ucast (drop_bit 24 w) = b"
  shows "ismem4_loop n m p w = (block m p (4 * n) = replicate (4 * n) b)"
proof (induction n arbitrary: p)
  case 0
  then show ?case by simp
next
  case (Suc n)
  have e: "4 * Suc n = Suc (Suc (Suc (Suc (4 * n))))" by simp
  show ?case
    unfolding e block_Suc replicate_Suc
    using Suc.IH[of "p + 4"] assms by (auto simp: load32_eq_iff ac_simps)
qed

text \<open>\<open>ismemzero4\<close> and \<open>ismemf4\<close> decide whether the whole words of the buffer are all 0x00,
  respectively all 0xff; a tail of one to three bytes is not looked at.\<close>

theorem ismem4_correct:
  "(ismemzero4 m p len \<longleftrightarrow> block m p (4 * (unat len div 4)) = replicate (4 * (unat len div 4)) 0)
   \<and> (ismemf4 m p len \<longleftrightarrow> block m p (4 * (unat len div 4)) = replicate (4 * (unat len div 4)) 0xff)"
proof -
  have d: "unat (drop_bit 2 len) = unat len div 4"
    unfolding drop_bit_eq_div by (simp add: unat_div_distrib)
  show ?thesis
    unfolding ismemzero4_def ismemf4_def d
    by (intro conjI ismem4_loop_block) (simp_all add: unsigned_drop_bit_eq)
qed

end
