(* ===== verification/Fifo.thy ===== *)
theory Fifo
  imports Prelude
begin

text \<open>
  The interface the event queues share: a bounded first-in first-out buffer. \<open>view\<close> lists what is
  stored, oldest first; \<open>enq\<close> and \<open>deq\<close> are the operations of the code, \<open>room s x\<close> says when
  \<open>enq s x\<close> is accepted. The laws are what an operation promises; the lemmas are about whole
  sequences of operations, for every provider at once. The linked event queue (\<open>EvQueue\<close>), the
  task ring (\<open>TaskQueue\<close>) and the IR command ring of the remote (also \<open>TaskQueue\<close>) are interpretations.
\<close>

datatype 'a fifo_op = Put 'a | Get

locale fifo =
  fixes inv :: "'s \<Rightarrow> bool"
    and view :: "'s \<Rightarrow> 'a list"
    and room :: "'s \<Rightarrow> 'a \<Rightarrow> bool"
    and enq :: "'s \<Rightarrow> 'a \<Rightarrow> 's"
    and deq :: "'s \<Rightarrow> 'a option \<times> 's"
  assumes enq_inv: "inv s \<Longrightarrow> room s x \<Longrightarrow> inv (enq s x)"
    and enq_view: "inv s \<Longrightarrow> room s x \<Longrightarrow> view (enq s x) = view s @ [x]"
    and deq_inv: "inv s \<Longrightarrow> inv (snd (deq s))"
    and deq_empty: "inv s \<Longrightarrow> view s = [] \<Longrightarrow> fst (deq s) = None \<and> view (snd (deq s)) = []"
    and deq_Cons: "inv s \<Longrightarrow> view s = x # xs \<Longrightarrow> fst (deq s) = Some x \<and> view (snd (deq s)) = xs"
begin

text \<open>A run: a \<open>Put\<close> without room is refused by the caller, a \<open>Get\<close> emits what it returns.\<close>

fun run :: "'s \<Rightarrow> 'a fifo_op list \<Rightarrow> 'a list \<times> 's" where
  "run s [] = ([], s)"
| "run s (Put x # ops) = (if room s x then run (enq s x) ops else run s ops)"
| "run s (Get # ops) =
     (case deq s of (None, s') \<Rightarrow> run s' ops
      | (Some x, s') \<Rightarrow> (let (out, t) = run s' ops in (x # out, t)))"

fun accepted :: "'s \<Rightarrow> 'a fifo_op list \<Rightarrow> 'a list" where
  "accepted s [] = []"
| "accepted s (Put x # ops) = (if room s x then x # accepted (enq s x) ops else accepted s ops)"
| "accepted s (Get # ops) = accepted (snd (deq s)) ops"

lemma run_inv: "inv s \<Longrightarrow> inv (snd (run s ops))"
proof (induction s ops rule: run.induct)
  case (3 s ops)
  then show ?case
    using deq_inv[of s] by (auto split: prod.splits option.splits)
qed (auto simp: enq_inv)

text \<open>Nothing is lost, duplicated or reordered.\<close>

lemma run_fifo:
  "inv s \<Longrightarrow> fst (run s ops) @ view (snd (run s ops)) = view s @ accepted s ops"
proof (induction s ops rule: run.induct)
  case (3 s ops)
  obtain r s' where d: "deq s = (r, s')" by (cases "deq s")
  with 3(3) have i: "inv s'" using deq_inv[of s] by simp
  show ?case
  proof (cases "view s")
    case Nil
    with d 3(3) deq_empty[of s] have "r = None" "view s' = []" by auto
    with d i 3(1)[of r s'] Nil show ?thesis by simp
  next
    case (Cons x xs)
    with d 3(3) deq_Cons[of s x xs] have "r = Some x" "view s' = xs" by auto
    with d i 3(2)[of r s' x] Cons show ?thesis by (simp add: split_beta)
  qed
qed (auto simp: enq_inv enq_view)

lemma run_prefix: "inv s \<Longrightarrow> view s = [] \<Longrightarrow> take (length (fst (run s ops))) (accepted s ops) = fst (run s ops)"
  using run_fifo[of s ops] by (metis append_Nil append_eq_conv_conj)

end


section \<open>Rings\<close>

text \<open>The \<open>n\<close> entries of a ring of \<open>N\<close> slots from position \<open>r\<close>.\<close>

definition ring_view :: "nat \<Rightarrow> 'a list \<Rightarrow> nat \<Rightarrow> nat \<Rightarrow> 'a list" where
  "ring_view N buf r n = map (\<lambda>i. buf ! ((r + i) mod N)) [0..<n]"

lemma ring_view_0 [simp]: "ring_view N buf r 0 = []"
  by (simp add: ring_view_def)

lemma length_ring_view [simp]: "length (ring_view N buf r n) = n"
  by (simp add: ring_view_def)

lemma ring_view_Nil [simp]: "ring_view N buf r n = [] \<longleftrightarrow> n = 0"
  by (simp add: ring_view_def)

lemma ring_view_mod: "ring_view N buf (r mod N) n = ring_view N buf r n"
  by (simp add: ring_view_def mod_simps)

lemma ring_view_Suc: "ring_view N buf r (Suc n) = buf ! (r mod N) # ring_view N buf (Suc r) n"
proof -
  have "[0..<Suc n] = 0 # map Suc [0..<n]" by (simp add: upt_conv_Cons map_Suc_upt del: upt_Suc)
  then show ?thesis by (simp add: ring_view_def del: upt_Suc)
qed

lemma ring_mod_neq:
  assumes "i < n" "n < N" shows "(r + i) mod N \<noteq> (r + n) mod (N :: nat)"
proof
  assume "(r + i) mod N = (r + n) mod N"
  then have "(r + n - (r + i)) mod N = 0" using assms by (metis mod_eq_dvd_iff_nat add_le_cancel_left less_imp_le dvd_imp_mod_0)
  then have "(n - i) mod N = 0" by simp
  with assms show False by simp
qed

lemma ring_view_put:
  assumes "n < N" "length buf = N"
  shows "ring_view N (buf[(r + n) mod N := x]) r (Suc n) = ring_view N buf r n @ [x]"
proof -
  have "map (\<lambda>i. buf[(r + n) mod N := x] ! ((r + i) mod N)) [0..<n] = map (\<lambda>i. buf ! ((r + i) mod N)) [0..<n]"
  proof (rule map_cong[OF refl])
    fix i assume "i \<in> set [0..<n]"
    then have "(r + n) mod N \<noteq> (r + i) mod N"
      using ring_mod_neq[of i n N r] assms(1) by simp
    then show "buf[(r + n) mod N := x] ! ((r + i) mod N) = buf ! ((r + i) mod N)"
      by (rule nth_list_update_neq)
  qed
  moreover have "(r + n) mod N < length buf" using assms by simp
  ultimately show ?thesis by (simp add: ring_view_def)
qed

end
