(* ===== verification/EvQueue.thy ===== *)
theory EvQueue
  imports HeapList Fifo
begin

text \<open>
  The event queue of \<open>proj/os/ev_queue.c\<close>: a singly linked list of elements with head and tail
  pointers, an entry count and an optional priority function (a smaller value is served first).
  The elements' \<open>next\<close> fields are one word memory, the \<open>ev_queue_t\<close> structs another; the model
  keeps them apart, as the code does (queues are globals, elements are buffers). Every operation
  runs between \<open>irq_disable\<close> and \<open>irq_restore\<close>, so it is one step.
  \<open>is_queue\<close> is the abstraction: push inserts behind all elements of the same or a higher priority,
  pop removes the first element, delete removes one.
\<close>

section \<open>Model\<close>

datatype ev_queue_sts =
  QUEUE_SUCC | QUEUE_INVALID_PARAMETER | QUEUE_EMPTY | QUEUE_NOT_FOUND | QUEUE_OVERFLOW

record ev_queue =
  q_head :: ptr
  q_tail :: ptr
  q_priFunc :: "(ptr \<Rightarrow> u32) option"
  q_curNum :: u32

record qmem =
  nexts :: links
  queue :: "ptr \<Rightarrow> ev_queue"

definition ev_queue_init :: "qmem \<Rightarrow> ptr \<Rightarrow> (ptr \<Rightarrow> u32) option \<Rightarrow> ev_queue_sts \<times> qmem" where
  "ev_queue_init s q pri =
     (if q = NULL then (QUEUE_INVALID_PARAMETER, s)
      else (QUEUE_SUCC, s\<lparr>queue := (queue s)(q :=
              \<lparr>q_head = NULL, q_tail = NULL, q_priFunc = pri, q_curNum = 0\<rparr>)\<rparr>))"

text \<open>The search for the insertion point: \<open>(previous, current)\<close> where the loop stops.\<close>

partial_function (option) pri_find ::
  "(ptr \<Rightarrow> u32) \<Rightarrow> links \<Rightarrow> ptr \<Rightarrow> ptr \<Rightarrow> ptr \<Rightarrow> (ptr \<times> ptr) option" where
  "pri_find pri h new previous current =
     (if current \<noteq> NULL then
        if pri new < pri current then Some (previous, current)
        else pri_find pri h new current (h current)
      else Some (previous, current))"

definition ev_queue_rawPush :: "qmem \<Rightarrow> ptr \<Rightarrow> ptr \<Rightarrow> (ev_queue_sts \<times> qmem) option" where
  "ev_queue_rawPush s q new =
     (if q = NULL \<or> new = NULL then Some (QUEUE_INVALID_PARAMETER, s)
      else let Q = queue s q; h = nexts s in
      if q_head Q = NULL then
        Some (QUEUE_SUCC, s\<lparr>nexts := h(new := NULL),
           queue := (queue s)(q := Q\<lparr>q_head := new, q_tail := new, q_curNum := q_curNum Q + 1\<rparr>)\<rparr>)
      else case q_priFunc Q of
        None \<Rightarrow>
          Some (QUEUE_SUCC, s\<lparr>nexts := h(q_tail Q := new, new := NULL),
             queue := (queue s)(q := Q\<lparr>q_tail := new, q_curNum := q_curNum Q + 1\<rparr>)\<rparr>)
      | Some pri \<Rightarrow>
          (case pri_find pri h new NULL (q_head Q) of
             None \<Rightarrow> None
           | Some (previous, current) \<Rightarrow>
               let Q1 = (if previous = NULL then Q\<lparr>q_head := new\<rparr> else Q);
                   h1 = (if previous = NULL then h else h(previous := new));
                   h2 = h1(new := current);
                   Q2 = (if current = NULL then Q1\<lparr>q_tail := new\<rparr> else Q1)
               in Some (QUEUE_SUCC, s\<lparr>nexts := h2,
                    queue := (queue s)(q := Q2\<lparr>q_curNum := q_curNum Q2 + 1\<rparr>)\<rparr>)))"

definition ev_queue_rawPop :: "qmem \<Rightarrow> ptr \<Rightarrow> ptr \<times> qmem" where
  "ev_queue_rawPop s q =
     (let Q = queue s q;
          oldHead = q_head Q;
          Q1 = (if oldHead \<noteq> NULL then
                  Q\<lparr>q_tail := (if oldHead = q_tail Q then NULL else q_tail Q),
                    q_head := nexts s oldHead, q_curNum := q_curNum Q - 1\<rparr>
                else Q);
          Q2 = (if q_curNum Q1 = 0 then Q1\<lparr>q_head := NULL, q_tail := NULL\<rparr> else Q1)
      in (oldHead, s\<lparr>queue := (queue s)(q := Q2)\<rparr>))"

partial_function (option) del_find ::
  "links \<Rightarrow> ptr \<Rightarrow> ptr \<Rightarrow> ptr \<Rightarrow> (ptr \<times> ptr) option" where
  "del_find h del previous current =
     (if current \<noteq> del \<and> current \<noteq> NULL then del_find h del current (h current)
      else Some (previous, current))"

definition ev_queue_rawDelete :: "qmem \<Rightarrow> ptr \<Rightarrow> ptr \<Rightarrow> (ev_queue_sts \<times> qmem) option" where
  "ev_queue_rawDelete s q del =
     (if q = NULL \<or> del = NULL then Some (QUEUE_INVALID_PARAMETER, s)
      else let Q = queue s q; h = nexts s in
      if q_head Q = NULL then Some (QUEUE_EMPTY, s)
      else if q_head Q = del then
        let Q1 = Q\<lparr>q_head := h (q_head Q)\<rparr>;
            Q2 = (if q_head Q1 = NULL then Q1\<lparr>q_tail := NULL\<rparr> else Q1)
        in Some (QUEUE_SUCC, s\<lparr>queue := (queue s)(q := Q2\<lparr>q_curNum := q_curNum Q2 - 1\<rparr>)\<rparr>)
      else case del_find h del NULL (q_head Q) of
        None \<Rightarrow> None
      | Some (previous, current) \<Rightarrow>
          if current \<noteq> NULL then
            let h1 = h(previous := h current);
                Q1 = (if h1 current = NULL then Q\<lparr>q_tail := previous\<rparr> else Q)
            in Some (QUEUE_SUCC, s\<lparr>nexts := h1,
                 queue := (queue s)(q := Q1\<lparr>q_curNum := q_curNum Q1 - 1\<rparr>)\<rparr>)
          else Some (QUEUE_NOT_FOUND, s))"

section \<open>Abstraction\<close>

text \<open>The queue at \<open>q\<close> holds the elements \<open>xs\<close>, first to be served first.\<close>

definition is_queue :: "qmem \<Rightarrow> ptr \<Rightarrow> ptr list \<Rightarrow> bool" where
  "is_queue s q xs \<longleftrightarrow>
     chain (nexts s) (q_head (queue s q)) xs \<and>
     q_tail (queue s q) = (if xs = [] then NULL else last xs) \<and>
     q_curNum (queue s q) = of_nat (length xs)"

text \<open>Where the code inserts an element.\<close>

definition pri_insert :: "(ptr \<Rightarrow> u32) option \<Rightarrow> ptr \<Rightarrow> ptr list \<Rightarrow> ptr list" where
  "pri_insert pri x xs =
     (case pri of None \<Rightarrow> xs @ [x]
      | Some f \<Rightarrow> takeWhile (\<lambda>y. \<not> f x < f y) xs @ x # dropWhile (\<lambda>y. \<not> f x < f y) xs)"

lemma is_queue_distinct: "is_queue s q xs \<Longrightarrow> distinct xs"
  by (auto simp: is_queue_def dest: chain_distinct)

lemma is_queue_unique: "is_queue s q xs \<Longrightarrow> is_queue s q ys \<Longrightarrow> xs = ys"
  by (auto simp: is_queue_def dest: chain_unique)

text \<open>Distinct non-null addresses: a queue never has 2^32 entries, so the count does not wrap.\<close>

lemma chain_length: "chain h p xs \<Longrightarrow> length xs < 2 ^ 32"
proof -
  assume c: "chain h p xs"
  then have "length xs = card (set xs)"
    by (simp add: chain_distinct distinct_card)
  also have "\<dots> \<le> card (UNIV - {NULL :: ptr})"
    using chain_null_notin[OF c] by (intro card_mono) auto
  also have "\<dots> < 2 ^ 32"
    by (simp add: card_Diff_subset card_word)
  finally show ?thesis .
qed

lemma is_queue_count: "is_queue s q xs \<Longrightarrow> unat (q_curNum (queue s q)) = length xs"
  by (auto simp: is_queue_def unat_of_nat_u32 dest: chain_length)

lemma pri_find_chain:
  "chain h p ys \<Longrightarrow>
   pri_find f h new prev p =
     Some (if takeWhile (\<lambda>y. \<not> f new < f y) ys = [] then prev
           else last (takeWhile (\<lambda>y. \<not> f new < f y) ys),
           case dropWhile (\<lambda>y. \<not> f new < f y) ys of [] \<Rightarrow> NULL | z # _ \<Rightarrow> z)"
  by (induction ys arbitrary: p prev) (auto simp: pri_find.simps)

lemma del_find_chain:
  "chain h p ys \<Longrightarrow>
   del_find h del prev p =
     Some (if takeWhile (\<lambda>y. y \<noteq> del) ys = [] then prev else last (takeWhile (\<lambda>y. y \<noteq> del) ys),
           if del \<in> set ys then del else NULL)"
  by (induction ys arbitrary: p prev) (auto simp: del_find.simps)


definition first :: "ptr list \<Rightarrow> ptr" where
  "first xs = (case xs of [] \<Rightarrow> NULL | x # _ \<Rightarrow> x)"

lemma first_simps [simp]: "first [] = NULL" "first (x # xs) = x"
  by (simp_all add: first_def)

lemma chain_first: "chain h p xs \<Longrightarrow> p = first xs"
  by (cases xs) auto

lemma chain_last_first: "chain h p (ys @ zs) \<Longrightarrow> ys \<noteq> [] \<Longrightarrow> h (last ys) = first zs"
proof -
  assume c: "chain h p (ys @ zs)" and "ys \<noteq> []"
  then obtain as a where ys: "ys = as @ [a]" by (metis append_butlast_last_id)
  with c have "chain h (h a) zs" by (auto simp: chain_append seg_append)
  with ys show ?thesis by (simp add: chain_first)
qed

lemma chain_nonnull: "chain h p xs \<Longrightarrow> x \<in> set xs \<Longrightarrow> x \<noteq> NULL"
  using chain_null_notin by metis

lemma chain_insert_at:
  assumes c: "chain h p (ys @ zs)" and x: "x \<notin> set (ys @ zs)" "x \<noteq> NULL" and ne: "ys \<noteq> []"
  shows "chain (h(last ys := x, x := first zs)) p (ys @ x # zs)"
proof -
  obtain as a where ys: "ys = as @ [a]" using ne by (metis append_butlast_last_id)
  have "chain (h(x := h a, a := x)) p (as @ a # x # zs)"
    using c x ys by (intro chain_insert_after) auto
  moreover have "h a = first zs" using chain_last_first[OF c ne] ys by simp
  moreover have "a \<noteq> x" using x ys by auto
  ultimately show ?thesis using ys by (simp add: fun_upd_twist)
qed

lemma chain_remove_at:
  assumes c: "chain h p (ys @ x # zs)" and ne: "ys \<noteq> []"
  shows "chain (h(last ys := first zs)) p (ys @ zs)"
proof -
  obtain as a where ys: "ys = as @ [a]" using ne by (metis append_butlast_last_id)
  have "chain (h(a := h x)) p (as @ a # zs)"
    using c ys by (intro chain_remove_after) simp
  moreover have "h x = first zs"
    using chain_last_first[of h p "ys @ [x]" zs] c by simp
  ultimately show ?thesis using ys by simp
qed

section \<open>The operations\<close>

lemma ev_queue_init_queue:
  "q \<noteq> NULL \<Longrightarrow> is_queue (snd (ev_queue_init s q pri)) q []"
  by (simp add: ev_queue_init_def is_queue_def)

lemma pri_insert_Nil [simp]: "pri_insert pri x [] = [x]"
  by (simp add: pri_insert_def split: option.splits)

lemma set_pri_insert [simp]: "set (pri_insert pri x xs) = insert x (set xs)"
proof -
  have "set (takeWhile P xs) \<union> set (dropWhile P xs) = set xs" for P
    by (metis set_append takeWhile_dropWhile_id)
  then show ?thesis by (auto simp: pri_insert_def split: option.splits)
qed

lemma length_pri_insert [simp]: "length (pri_insert pri x xs) = Suc (length xs)"
proof -
  have "length (takeWhile P xs) + length (dropWhile P xs) = length xs" for P
    by (metis length_append takeWhile_dropWhile_id)
  then show ?thesis by (auto simp: pri_insert_def split: option.splits)
qed

definition q_frame :: "qmem \<Rightarrow> qmem \<Rightarrow> ptr \<Rightarrow> ptr set \<Rightarrow> bool" where
  "q_frame s s' q A \<longleftrightarrow>
     (\<forall>q'. q' \<noteq> q \<longrightarrow> queue s' q' = queue s q') \<and> (\<forall>a. a \<notin> A \<longrightarrow> nexts s' a = nexts s a) \<and>
     q_priFunc (queue s' q) = q_priFunc (queue s q)"

lemma rawPush_first:
  assumes "is_queue s q []" "q \<noteq> NULL" "x \<noteq> NULL"
  shows "\<exists>s'. ev_queue_rawPush s q x = Some (QUEUE_SUCC, s') \<and> is_queue s' q [x] \<and> q_frame s s' q {x}"
  using assms by (simp add: ev_queue_rawPush_def is_queue_def q_frame_def Let_def)

lemma rawPush_fifo:
  assumes Q: "is_queue s q xs" and ne: "xs \<noteq> []" and pri: "q_priFunc (queue s q) = None"
    and x: "q \<noteq> NULL" "x \<noteq> NULL" "x \<notin> set xs"
  shows "\<exists>s'. ev_queue_rawPush s q x = Some (QUEUE_SUCC, s') \<and> is_queue s' q (xs @ [x]) \<and>
              q_frame s s' q (insert x (set xs))"
proof -
  have c: "chain (nexts s) (q_head (queue s q)) xs" using Q by (simp add: is_queue_def)
  then have "chain ((nexts s)(last xs := x, x := NULL)) (q_head (queue s q)) (xs @ [x])"
    using chain_insert_at[of "nexts s" _ xs "[]" x] x ne by simp
  moreover have "q_head (queue s q) \<noteq> NULL" using c ne by (auto simp: neq_Nil_conv)
  ultimately show ?thesis
    using Q ne pri x by (auto simp: ev_queue_rawPush_def is_queue_def q_frame_def Let_def)
qed

lemma rawPush_pri:
  assumes Q: "is_queue s q xs" and ne: "xs \<noteq> []" and pri: "q_priFunc (queue s q) = Some f"
    and x: "q \<noteq> NULL" "x \<noteq> NULL" "x \<notin> set xs"
  shows "\<exists>s'. ev_queue_rawPush s q x = Some (QUEUE_SUCC, s') \<and> is_queue s' q (pri_insert (Some f) x xs) \<and>
              q_frame s s' q (insert x (set xs))"
proof -
  let ?P = "\<lambda>y. \<not> f x < f y"
  obtain ys zs where yz: "takeWhile ?P xs = ys" "dropWhile ?P xs = zs" by blast
  then have xs: "xs = ys @ zs" using takeWhile_dropWhile_id[of ?P xs] by simp
  have c: "chain (nexts s) (q_head (queue s q)) (ys @ zs)" using Q xs by (simp add: is_queue_def)
  have hd: "q_head (queue s q) \<noteq> NULL" using c ne xs by (cases "ys @ zs") auto
  have find: "pri_find f (nexts s) x NULL (q_head (queue s q)) = Some (if ys = [] then NULL else last ys, first zs)"
    using pri_find_chain[of "nexts s" _ xs f x NULL] c xs yz by (simp add: first_def)
  have fz: "(first zs = NULL) = (zs = [])"
    using chain_nonnull[OF c] by (cases zs) auto
  have lz: "zs \<noteq> [] \<Longrightarrow> q_tail (queue s q) = last zs" using Q xs by (auto simp: is_queue_def)
  have cnt: "q_curNum (queue s q) = of_nat (length xs)" using Q by (simp add: is_queue_def)
  have ins: "pri_insert (Some f) x xs = ys @ x # zs" using yz by (simp add: pri_insert_def)
  show ?thesis
  proof (cases "ys = []")
    case True
    have "chain ((nexts s)(x := first zs)) x (x # zs)"
      using c True x xs chain_first[OF c] by simp
    with True hd find fz lz cnt ins pri x xs ne show ?thesis
      by (auto simp: ev_queue_rawPush_def is_queue_def q_frame_def Let_def)
  next
    case False
    have "chain ((nexts s)(last ys := x, x := first zs)) (q_head (queue s q)) (ys @ x # zs)"
      using chain_insert_at[OF c _ _ False, of x] x xs by simp
    moreover have "last ys \<noteq> NULL" "last ys \<in> set xs"
      using chain_nonnull[OF c, of "last ys"] False xs by auto
    ultimately show ?thesis
      using False hd find fz lz cnt ins pri x xs
      by (auto simp: ev_queue_rawPush_def is_queue_def q_frame_def Let_def)
  qed
qed

lemma rawPush_queue:
  assumes "is_queue s q xs" "q \<noteq> NULL" "x \<noteq> NULL" "x \<notin> set xs"
  shows "\<exists>s'. ev_queue_rawPush s q x = Some (QUEUE_SUCC, s') \<and>
              is_queue s' q (pri_insert (q_priFunc (queue s q)) x xs) \<and>
              q_frame s s' q (insert x (set xs))"
proof (cases "xs = []")
  case True
  with assms rawPush_first[of s q x] show ?thesis by simp
next
  case False
  show ?thesis
  proof (cases "q_priFunc (queue s q)")
    case None
    with assms False rawPush_fifo[of s q xs x] show ?thesis by (simp add: pri_insert_def)
  next
    case (Some f)
    with assms False rawPush_pri[of s q xs f x] show ?thesis by simp
  qed
qed


lemma rawPop_queue:
  assumes Q: "is_queue s q xs"
  shows "\<exists>s'. ev_queue_rawPop s q = (first xs, s') \<and> is_queue s' q (tl xs) \<and> q_frame s s' q {}"
proof (cases xs)
  case Nil
  with Q show ?thesis by (simp add: ev_queue_rawPop_def is_queue_def q_frame_def Let_def)
next
  case (Cons x ys)
  have c: "chain (nexts s) (q_head (queue s q)) xs" using Q by (simp add: is_queue_def)
  have len: "unat (of_nat (length ys) :: u32) = length ys"
    using chain_length[OF c] Cons by (intro unat_of_nat_u32) simp
  have z: "(of_nat (length ys) :: u32) = 0 \<longleftrightarrow> ys = []"
  proof
    assume "(of_nat (length ys) :: u32) = 0"
    with len have "length ys = 0" by (metis unat_0)
    then show "ys = []" by simp
  qed simp
  have "x \<noteq> last ys \<or> ys = []"
    using chain_distinct[OF c] Cons by (cases "ys = []") auto
  with Q Cons z show ?thesis
    by (auto simp: ev_queue_rawPop_def is_queue_def q_frame_def Let_def)
qed

lemma takeWhile_neq_split:
  "x \<in> set xs \<Longrightarrow> \<exists>zs. xs = takeWhile (\<lambda>y. y \<noteq> x) xs @ x # zs"
  by (induction xs) auto

lemma rawDelete_queue:
  assumes Q: "is_queue s q xs" and x: "q \<noteq> NULL" "x \<noteq> NULL" "x \<in> set xs"
  shows "\<exists>s'. ev_queue_rawDelete s q x = Some (QUEUE_SUCC, s') \<and> is_queue s' q (remove1 x xs) \<and>
              q_frame s s' q (set xs)"
proof -
  obtain ys zs where xs: "xs = ys @ x # zs" and tw: "takeWhile (\<lambda>y. y \<noteq> x) xs = ys"
    using takeWhile_neq_split[OF x(3)] by blast
  have c: "chain (nexts s) (q_head (queue s q)) (ys @ x # zs)" using Q xs by (simp add: is_queue_def)
  have hd: "q_head (queue s q) = first (ys @ [x])" using chain_first[OF c] by (cases ys) auto
  have hx: "nexts s x = first zs" using chain_last_first[of "nexts s" _ "ys @ [x]" zs] c by simp
  have d: "distinct (ys @ x # zs)" using c by (rule chain_distinct)
  have nn: "y \<in> set (ys @ x # zs) \<Longrightarrow> y \<noteq> NULL" for y using chain_nonnull[OF c] by blast
  have r: "remove1 x xs = ys @ zs" using d xs by (simp add: remove1_append)
  have fz: "(first zs = NULL) = (zs = [])" using nn by (cases zs) auto
  have cnt: "q_curNum (queue s q) - 1 = of_nat (length (ys @ zs))"
    using Q xs by (simp add: is_queue_def)
  have tl: "q_tail (queue s q) = last (x # zs)" using Q xs by (auto simp: is_queue_def)
  show ?thesis
  proof (cases "ys = []")
    case True
    then show ?thesis
      using c hd hx fz cnt tl r x nn[of x] by (auto simp: ev_queue_rawDelete_def is_queue_def q_frame_def Let_def)
  next
    case False
    have l: "last ys \<noteq> x" "last ys \<in> set xs" "last ys \<noteq> NULL" using False d xs nn[of "last ys"] by auto
    have f: "first (ys @ [x]) \<noteq> x" "first (ys @ [x]) \<noteq> NULL" using False d nn by (cases ys; auto)+
    have find: "del_find (nexts s) x NULL (q_head (queue s q)) = Some (last ys, x)"
      using del_find_chain[OF c, of x NULL] tw xs False by simp
    have "chain ((nexts s)(last ys := first zs)) (q_head (queue s q)) (ys @ zs)"
      using c False by (rule chain_remove_at)
    then show ?thesis
      using False hd hx fz cnt tl r x l f find
      by (auto simp: ev_queue_rawDelete_def is_queue_def q_frame_def Let_def)
  qed
qed

lemma rawDelete_absent:
  assumes Q: "is_queue s q xs" and x: "q \<noteq> NULL" "x \<noteq> NULL" "x \<notin> set xs"
  shows "ev_queue_rawDelete s q x = Some (if xs = [] then QUEUE_EMPTY else QUEUE_NOT_FOUND, s)"
proof -
  have c: "chain (nexts s) (q_head (queue s q)) xs" using Q by (simp add: is_queue_def)
  show ?thesis
    using c x del_find_chain[OF c, of x NULL] chain_first[OF c] chain_nonnull[OF c]
    by (cases xs) (auto simp: ev_queue_rawDelete_def Let_def)
qed

section \<open>Sequences of operations\<close>

datatype q_op = QPush ptr | QPop | QDelete ptr
datatype q_res = QSts ev_queue_sts | QItem ptr

definition q_exec :: "qmem \<Rightarrow> ptr \<Rightarrow> q_op \<Rightarrow> (q_res \<times> qmem) option" where
  "q_exec s q op =
     (case op of
        QPush x \<Rightarrow> map_option (\<lambda>(r, s'). (QSts r, s')) (ev_queue_rawPush s q x)
      | QPop \<Rightarrow> (let (p, s') = ev_queue_rawPop s q in Some (QItem p, s'))
      | QDelete x \<Rightarrow> map_option (\<lambda>(r, s'). (QSts r, s')) (ev_queue_rawDelete s q x))"

fun q_run :: "qmem \<Rightarrow> ptr \<Rightarrow> q_op list \<Rightarrow> (q_res list \<times> qmem) option" where
  "q_run s q [] = Some ([], s)"
| "q_run s q (op # ops) =
     (case q_exec s q op of None \<Rightarrow> None
      | Some (r, s') \<Rightarrow> map_option (\<lambda>(rs, t). (r # rs, t)) (q_run s' q ops))"

text \<open>The specification: a list ordered by priority.\<close>

fun q_spec :: "(ptr \<Rightarrow> u32) option \<Rightarrow> ptr list \<Rightarrow> q_op \<Rightarrow> q_res \<times> ptr list" where
  "q_spec pri xs (QPush x) =
     (if x = NULL then (QSts QUEUE_INVALID_PARAMETER, xs) else (QSts QUEUE_SUCC, pri_insert pri x xs))"
| "q_spec pri xs QPop = (QItem (first xs), tl xs)"
| "q_spec pri xs (QDelete x) =
     (if x = NULL then (QSts QUEUE_INVALID_PARAMETER, xs)
      else if x \<in> set xs then (QSts QUEUE_SUCC, remove1 x xs)
      else (QSts (if xs = [] then QUEUE_EMPTY else QUEUE_NOT_FOUND), xs))"

fun q_spec_run :: "(ptr \<Rightarrow> u32) option \<Rightarrow> ptr list \<Rightarrow> q_op list \<Rightarrow> q_res list \<times> ptr list" where
  "q_spec_run pri xs [] = ([], xs)"
| "q_spec_run pri xs (op # ops) =
     (let (r, ys) = q_spec pri xs op; (rs, zs) = q_spec_run pri ys ops in (r # rs, zs))"

text \<open>The callers' obligation: an element that is in the queue is not pushed again.\<close>

fun q_legal :: "(ptr \<Rightarrow> u32) option \<Rightarrow> ptr list \<Rightarrow> q_op list \<Rightarrow> bool" where
  "q_legal pri xs [] = True"
| "q_legal pri xs (op # ops) =
     ((case op of QPush x \<Rightarrow> x \<notin> set xs | _ \<Rightarrow> True) \<and> q_legal pri (snd (q_spec pri xs op)) ops)"

lemma q_exec_refines:
  assumes Q: "is_queue s q xs" and q: "q \<noteq> NULL" and p: "q_priFunc (queue s q) = pri"
    and op: "case op of QPush x \<Rightarrow> x \<notin> set xs | _ \<Rightarrow> True"
  shows "\<exists>s'. q_exec s q op = Some (fst (q_spec pri xs op), s') \<and> is_queue s' q (snd (q_spec pri xs op))
              \<and> q_priFunc (queue s' q) = pri"
proof (cases op)
  case (QPush x)
  show ?thesis
  proof (cases "x = NULL")
    case True
    with Q q p QPush show ?thesis by (simp add: q_exec_def ev_queue_rawPush_def)
  next
    case False
    with rawPush_queue[OF Q q False] op p QPush show ?thesis
      by (auto simp: q_exec_def q_frame_def)
  qed
next
  case QPop
  with rawPop_queue[OF Q] p show ?thesis by (auto simp: q_exec_def q_frame_def)
next
  case (QDelete x)
  show ?thesis
  proof (cases "x = NULL \<or> x \<notin> set xs")
    case True
    with Q q p QDelete rawDelete_absent[OF Q q, of x] show ?thesis
      by (auto simp: q_exec_def ev_queue_rawDelete_def)
  next
    case False
    with rawDelete_queue[OF Q q, of x] p QDelete show ?thesis
      by (auto simp: q_exec_def q_frame_def)
  qed
qed

lemma q_run_spec:
  "is_queue s q xs \<Longrightarrow> q \<noteq> NULL \<Longrightarrow> q_priFunc (queue s q) = pri \<Longrightarrow> q_legal pri xs ops \<Longrightarrow>
   \<exists>s'. q_run s q ops = Some (fst (q_spec_run pri xs ops), s') \<and> is_queue s' q (snd (q_spec_run pri xs ops))"
proof (induction ops arbitrary: s xs)
  case Nil
  then show ?case by simp
next
  case (Cons op ops)
  obtain s' where s': "q_exec s q op = Some (fst (q_spec pri xs op), s')"
      "is_queue s' q (snd (q_spec pri xs op))" "q_priFunc (queue s' q) = pri"
    using q_exec_refines[of s q xs pri op] Cons.prems by auto
  with Cons.IH[of s' "snd (q_spec pri xs op)"] Cons.prems show ?case
    by (auto simp: split_beta Let_def)
qed


text \<open>C11: on every sequence of pushes (of elements not already queued), pops and deletes, the linked
  queue terminates and returns exactly what the priority list returns, and holds that list
  afterwards: insertion point, head, tail and count stay consistent.\<close>

theorem ev_queue_refines:
  assumes "is_queue s q xs" "q \<noteq> NULL" "q_priFunc (queue s q) = pri" "q_legal pri xs ops"
  shows "\<exists>s'. q_run s q ops = Some (fst (q_spec_run pri xs ops), s') \<and>
              is_queue s' q (snd (q_spec_run pri xs ops))"
  using assms by (rule q_run_spec)

definition q_empty :: "(ptr \<Rightarrow> u32) option \<Rightarrow> qmem" where
  "q_empty pri = \<lparr>nexts = \<lambda>a. 7,
     queue = \<lambda>q. \<lparr>q_head = NULL, q_tail = NULL, q_priFunc = pri, q_curNum = 0\<rparr>\<rparr>"

theorem ev_queue_refines_witness:
  "\<exists>s'. q_run (q_empty (Some (\<lambda>a. a mod 16))) 1 [QPush 18, QPush 33, QPush 17, QPop, QDelete 18, QPop] =
      Some (fst (q_spec_run (Some (\<lambda>a. a mod 16)) []
              [QPush 18, QPush 33, QPush 17, QPop, QDelete 18, QPop]), s') \<and>
      is_queue s' 1 (snd (q_spec_run (Some (\<lambda>a. a mod 16)) []
              [QPush 18, QPush 33, QPush 17, QPop, QDelete 18, QPop]))"
  by (rule ev_queue_refines) (simp_all add: q_empty_def is_queue_def pri_insert_def)

text \<open>What the priority order means: the queue stays sorted, and elements of one priority leave in
  the order they came.\<close>

lemma takeWhile_le_sorted:
  "sorted (map f xs) \<Longrightarrow> dropWhile (\<lambda>y. \<not> (k :: 'b::linorder) < f y) xs = filter (\<lambda>y. k < f y) xs
     \<and> takeWhile (\<lambda>y. \<not> k < f y) xs = filter (\<lambda>y. f y \<le> k) xs"
proof (induction xs)
  case Nil
  then show ?case by simp
next
  case (Cons a xs)
  have "k < f a \<Longrightarrow> filter (\<lambda>y. k < f y) xs = xs \<and> filter (\<lambda>y. f y \<le> k) xs = []"
    using Cons.prems by (auto simp: filter_id_conv filter_empty_conv not_le intro: order.strict_trans2)
  with Cons show ?case by auto
qed

lemma pri_insert_sorted:
  assumes "sorted (map f xs)"
  shows "sorted (map f (pri_insert (Some f) x xs))"
proof -
  have "pri_insert (Some f) x xs = filter (\<lambda>y. f y \<le> f x) xs @ x # filter (\<lambda>y. f x < f y) xs"
    using takeWhile_le_sorted[OF assms, of "f x"] by (simp add: pri_insert_def)
  with assms show ?thesis
    by (auto simp: sorted_append sorted_map sorted_wrt_filter intro: order.trans less_imp_le)
qed

lemma pri_insert_stable:
  assumes "sorted (map f xs)"
  shows "filter (\<lambda>y. f y = k) (pri_insert (Some f) x xs) =
         filter (\<lambda>y. f y = k) xs @ (if f x = k then [x] else [])"
proof -
  have i: "pri_insert (Some f) x xs = filter (\<lambda>y. f y \<le> f x) xs @ x # filter (\<lambda>y. f x < f y) xs"
    using takeWhile_le_sorted[OF assms, of "f x"] by (simp add: pri_insert_def)
  have "xs = filter (\<lambda>y. f y \<le> f x) xs @ filter (\<lambda>y. f x < f y) xs"
    using takeWhile_le_sorted[OF assms, of "f x"] takeWhile_dropWhile_id by metis
  then have "filter (\<lambda>y. f y = k) xs =
      filter (\<lambda>y. f y = k) (filter (\<lambda>y. f y \<le> f x) xs) @ filter (\<lambda>y. f y = k) (filter (\<lambda>y. f x < f y) xs)"
    by (metis filter_append)
  moreover have "f x = k \<Longrightarrow> filter (\<lambda>y. f y = k) (filter (\<lambda>y. f x < f y) xs) = []"
    by (auto simp: filter_empty_conv)
  ultimately show ?thesis unfolding i by auto
qed

text \<open>Pushing into a sorted priority queue keeps it sorted by priority, adds the element as the
  last of its priority, changes the order within no priority, and the next pop returns an element
  whose priority value no other element undercuts.\<close>

theorem ev_queue_priority_order:
  assumes "is_queue s q xs" "q \<noteq> NULL" "q_priFunc (queue s q) = Some f" "sorted (map f xs)"
    "x \<noteq> NULL" "x \<notin> set xs"
  shows "\<exists>s' ys p. ev_queue_rawPush s q x = Some (QUEUE_SUCC, s') \<and> is_queue s' q ys \<and>
           sorted (map f ys) \<and>
           (\<forall>k. filter (\<lambda>y. f y = k) ys = filter (\<lambda>y. f y = k) xs @ (if f x = k then [x] else [])) \<and>
           fst (ev_queue_rawPop s' q) = p \<and> p \<in> insert x (set xs) \<and>
           (\<forall>y \<in> insert x (set xs). f p \<le> f y)"
proof -
  let ?ys = "pri_insert (Some f) x xs"
  obtain s' where s': "ev_queue_rawPush s q x = Some (QUEUE_SUCC, s')" "is_queue s' q ?ys"
    using rawPush_queue[OF assms(1,2,5,6)] assms(3) by auto
  have so: "sorted (map f ?ys)" using assms(4) by (rule pri_insert_sorted)
  have pop: "fst (ev_queue_rawPop s' q) = first ?ys" using rawPop_queue[OF s'(2)] by auto
  obtain p zs where "?ys = p # zs" using length_pri_insert[of "Some f" x xs] by (cases ?ys) auto
  then have p: "first ?ys = p" "p \<in> set ?ys" "\<forall>y \<in> set ?ys. f p \<le> f y" using so by auto
  have "\<forall>k. filter (\<lambda>y. f y = k) ?ys = filter (\<lambda>y. f y = k) xs @ (if f x = k then [x] else [])"
    using pri_insert_stable[OF assms(4)] by blast
  with s' so pop p show ?thesis unfolding set_pri_insert by blast
qed

theorem ev_queue_priority_order_witness:
  "\<exists>s' ys p. ev_queue_rawPush (q_empty (Some (\<lambda>a. a mod 16))) 1 18 = Some (QUEUE_SUCC, s') \<and>
     is_queue s' 1 ys \<and> sorted (map (\<lambda>a. a mod 16) ys) \<and>
     (\<forall>k. filter (\<lambda>y. y mod 16 = k) ys =
          filter (\<lambda>y. y mod 16 = k) [] @ (if (18 :: u32) mod 16 = k then [18] else [])) \<and>
     fst (ev_queue_rawPop s' 1) = p \<and> p \<in> insert 18 (set []) \<and>
     (\<forall>y \<in> insert 18 (set []). p mod 16 \<le> y mod 16)"
  by (rule ev_queue_priority_order) (simp_all add: q_empty_def is_queue_def)

section \<open>The FIFO interface\<close>

text \<open>Without a priority function the queue is a FIFO. \<open>walk\<close> reads the contents off the heap.\<close>

fun walk :: "links \<Rightarrow> ptr \<Rightarrow> nat \<Rightarrow> ptr list" where
  "walk h p 0 = []"
| "walk h p (Suc n) = p # walk h (h p) n"

lemma walk_chain: "chain h p xs \<Longrightarrow> walk h p (length xs) = xs"
  by (induction xs arbitrary: p) auto

definition evq_view :: "ptr \<Rightarrow> qmem \<Rightarrow> ptr list" where
  "evq_view q s = walk (nexts s) (q_head (queue s q)) (unat (q_curNum (queue s q)))"

definition evq_inv :: "ptr \<Rightarrow> qmem \<Rightarrow> bool" where
  "evq_inv q s \<longleftrightarrow> q \<noteq> NULL \<and> q_priFunc (queue s q) = None \<and> is_queue s q (evq_view q s)"

definition evq_room :: "ptr \<Rightarrow> qmem \<Rightarrow> ptr \<Rightarrow> bool" where
  "evq_room q s x \<longleftrightarrow> x \<noteq> NULL \<and> x \<notin> set (evq_view q s)"

definition evq_enq :: "ptr \<Rightarrow> qmem \<Rightarrow> ptr \<Rightarrow> qmem" where
  "evq_enq q s x = (case ev_queue_rawPush s q x of Some (_, s') \<Rightarrow> s' | None \<Rightarrow> s)"

definition evq_deq :: "ptr \<Rightarrow> qmem \<Rightarrow> ptr option \<times> qmem" where
  "evq_deq q s = (let (p, s') = ev_queue_rawPop s q in (if p = NULL then None else Some p, s'))"

lemma is_queue_view: "is_queue s q xs \<Longrightarrow> evq_view q s = xs"
  using is_queue_count[of s q xs] walk_chain[of "nexts s" _ xs]
  by (simp add: evq_view_def is_queue_def)

lemma evq_enq_queue:
  assumes "evq_inv q s" "evq_room q s x"
  shows "evq_inv q (evq_enq q s x) \<and> evq_view q (evq_enq q s x) = evq_view q s @ [x]"
proof -
  obtain s' where "ev_queue_rawPush s q x = Some (QUEUE_SUCC, s')" "is_queue s' q (evq_view q s @ [x])"
      "q_priFunc (queue s' q) = None"
    using rawPush_queue[of s q "evq_view q s" x] assms
    by (auto simp: evq_inv_def evq_room_def pri_insert_def q_frame_def)
  with assms is_queue_view[of s' q] show ?thesis
    by (auto simp: evq_enq_def evq_inv_def)
qed

lemma evq_deq_queue:
  assumes "evq_inv q s"
  shows "evq_inv q (snd (evq_deq q s)) \<and> evq_view q (snd (evq_deq q s)) = tl (evq_view q s) \<and>
         fst (evq_deq q s) = (case evq_view q s of [] \<Rightarrow> None | x # _ \<Rightarrow> Some x)"
proof -
  obtain s' where s': "ev_queue_rawPop s q = (first (evq_view q s), s')" "is_queue s' q (tl (evq_view q s))"
      "q_priFunc (queue s' q) = None"
    using rawPop_queue[of s q "evq_view q s"] assms by (auto simp: evq_inv_def q_frame_def)
  moreover have "evq_view q s \<noteq> [] \<Longrightarrow> first (evq_view q s) \<noteq> NULL"
    using assms chain_nonnull[of "nexts s" "q_head (queue s q)" "evq_view q s"]
    by (cases "evq_view q s") (auto simp: evq_inv_def is_queue_def)
  ultimately show ?thesis
    using assms is_queue_view[of s' q]
    by (auto simp: evq_deq_def evq_inv_def split: list.splits)
qed

interpretation evq: fifo "evq_inv q" "evq_view q" "evq_room q" "evq_enq q" "evq_deq q" for q
  by unfold_locales (use evq_enq_queue evq_deq_queue in auto)

text \<open>Without a priority function the queue is a FIFO under any interleaving of pushes and pops:
  what has been popped followed by what is still queued is what was queued at the start followed by
  every accepted push, in order.\<close>

theorem ev_queue_fifo_order:
  assumes "evq_inv q s"
  shows "fst (evq.run q s ops) @ evq_view q (snd (evq.run q s ops)) = evq_view q s @ evq.accepted q s ops"
  using assms by (rule evq.run_fifo)

theorem ev_queue_fifo_order_witness:
  "fst (evq.run 1 (q_empty None) [Put 18, Put 33, Get]) @
     evq_view 1 (snd (evq.run 1 (q_empty None) [Put 18, Put 33, Get])) =
   evq_view 1 (q_empty None) @ evq.accepted 1 (q_empty None) [Put 18, Put 33, Get]"
  by (rule ev_queue_fifo_order) (simp add: evq_inv_def q_empty_def is_queue_def evq_view_def)

end
