(* ===== verification/BufferPool.thy ===== *)
theory BufferPool
  imports Prelude
begin

text \<open>
  The interface of a buffer allocator: \<open>live s\<close> are the buffers handed out, \<open>all_bufs\<close> the whole
  pool. The laws are per call; the lemmas are about any sequence of allocations and frees.
\<close>

datatype 'b pool_op = Alloc | Free 'b

locale buffer_pool =
  fixes inv :: "'s \<Rightarrow> bool"
    and all_bufs :: "'b set"
    and live :: "'s \<Rightarrow> 'b set"
    and alloc :: "'s \<Rightarrow> 'b option \<times> 's"
    and release :: "'s \<Rightarrow> 'b \<Rightarrow> 's"
  assumes live_bufs: "inv s \<Longrightarrow> live s \<subseteq> all_bufs"
    and finite_bufs: "finite all_bufs"
    and alloc_inv: "inv s \<Longrightarrow> inv (snd (alloc s))"
    and alloc_some: "inv s \<Longrightarrow> fst (alloc s) = Some b \<Longrightarrow>
          b \<in> all_bufs \<and> b \<notin> live s \<and> live (snd (alloc s)) = insert b (live s)"
    and alloc_none: "inv s \<Longrightarrow> fst (alloc s) = None \<Longrightarrow> live s = all_bufs \<and> live (snd (alloc s)) = live s"
    and release_inv: "inv s \<Longrightarrow> b \<in> live s \<Longrightarrow> inv (release s b)"
    and release_live: "inv s \<Longrightarrow> b \<in> live s \<Longrightarrow> live (release s b) = live s - {b}"
begin

fun run :: "'s \<Rightarrow> 'b pool_op list \<Rightarrow> 'b option list \<times> 's" where
  "run s [] = ([], s)"
| "run s (Alloc # ops) = (let (r, s') = alloc s; (rs, t) = run s' ops in (r # rs, t))"
| "run s (Free b # ops) = (if b \<in> live s then run (release s b) ops else run s ops)"

text \<open>A buffer is handed out again only after it has been freed.\<close>

fun no_alias :: "'b set \<Rightarrow> 'b option list \<Rightarrow> 'b pool_op list \<Rightarrow> bool" where
  "no_alias L rs [] = True"
| "no_alias L (r # rs) (Alloc # ops) =
     (case r of None \<Rightarrow> L = all_bufs \<and> no_alias L rs ops
      | Some b \<Rightarrow> b \<in> all_bufs \<and> b \<notin> L \<and> no_alias (insert b L) rs ops)"
| "no_alias L [] (Alloc # ops) = False"
| "no_alias L rs (Free b # ops) = no_alias (L - {b}) rs ops"

lemma run_inv: "inv s \<Longrightarrow> inv (snd (run s ops))"
proof (induction s ops rule: run.induct)
  case (2 s ops)
  obtain r s' where "alloc s = (r, s')" by (cases "alloc s")
  with 2 alloc_inv[of s] show ?case by (simp add: split_beta)
qed (auto simp: release_inv)

lemma run_no_alias: "inv s \<Longrightarrow> no_alias (live s) (fst (run s ops)) ops"
proof (induction s ops rule: run.induct)
  case (2 s ops)
  have i: "inv (snd (alloc s))" using 2(2) by (rule alloc_inv)
  obtain r s' where a: "alloc s = (r, s')" by (cases "alloc s")
  show ?case
    using 2 i a alloc_some[OF 2(2)] alloc_none[OF 2(2)] by (auto simp: split_beta split: option.splits)
next
  case (3 s b ops)
  then show ?case
    by (auto simp: release_inv release_live)
qed simp

lemma live_bound: "inv s \<Longrightarrow> card (live s) \<le> card all_bufs"
  by (rule card_mono[OF finite_bufs live_bufs])

lemma run_bound: "inv s \<Longrightarrow> card (live (snd (run s ops))) \<le> card all_bufs"
  by (rule live_bound[OF run_inv])

end

end
