(* ===== verification/EvBuffer.thy ===== *)
theory EvBuffer
  imports EvQueue BufferPool
begin

text \<open>
  The message buffers of \<open>proj/os/ev_buffer.c\<close> (the branch without \<open>USE_NEW_MSG_MANAGER\<close>, without
  \<open>__DEBUG_BUFFER__\<close>): an array of 14 items of 288 bytes at address \<open>ev_bufItem\<close>, allocated by
  first fit on a busy flag, and the message pool, a linked list of posted items whose state table
  says which task a message is for. Every field of the items is a map of its own from the item's
  address (the data bytes are never touched here). Also the payload versions of the event queue
  operations (\<open>ev_queue.c\<close>), which go through \<open>ev_buf_getHead\<close>.
\<close>

section \<open>Model\<close>

abbreviation BUFFER_NUM :: nat where "BUFFER_NUM \<equiv> 14"
abbreviation BUFFER_SIZE :: u32 where "BUFFER_SIZE \<equiv> 274"
abbreviation RF_RX_BUFFER_OFFSET :: u32 where "RF_RX_BUFFER_OFFSET \<equiv> 128"
abbreviation DATA_OFFSET :: u32 where "DATA_OFFSET \<equiv> 12"
abbreviation ITEM_SIZE :: nat where "ITEM_SIZE \<equiv> 288"

definition ST_BUSY :: nat where [simp]: "ST_BUSY = 0"
definition ST_PHY2MAC :: nat where [simp]: "ST_PHY2MAC = 1"
definition ST_CSMA2MAC :: nat where [simp]: "ST_CSMA2MAC = 2"
definition ST_MAC2NWK :: nat where [simp]: "ST_MAC2NWK = 3"
definition ST_NWK2PROFILE :: nat where [simp]: "ST_NWK2PROFILE = 4"
definition ST_PROFILE2NWK :: nat where [simp]: "ST_PROFILE2NWK = 5"
definition ST_NWK2MAC :: nat where [simp]: "ST_NWK2MAC = 6"
definition ST_MAC2CSMA :: nat where [simp]: "ST_MAC2CSMA = 7"

datatype buf_sts = BUFFER_SUCC | BUFFER_INVALID_PARAMETER | BUFFER_DUPLICATE_FREE

record ev_buf =
  ev_bufItem :: ptr
  b_next :: links
  b_tbl :: "ptr \<Rightarrow> nat \<Rightarrow> u8"
  b_used :: "ptr \<Rightarrow> u16"
  pool_head :: ptr
  pool_tail :: ptr
  pool_num :: u8

definition item :: "ev_buf \<Rightarrow> nat \<Rightarrow> ptr" where
  "item s i = ev_bufItem s + of_nat (ITEM_SIZE * i)"

definition ev_buf_getHead :: "ptr \<Rightarrow> ptr" where
  "ev_buf_getHead pd = pd - DATA_OFFSET"

definition data_of :: "ptr \<Rightarrow> ptr" where
  "data_of it = it + DATA_OFFSET"

definition ev_buf_getTail :: "ptr \<Rightarrow> u32 \<Rightarrow> ptr" where
  "ev_buf_getTail pd offsetToTail = pd - RF_RX_BUFFER_OFFSET + BUFFER_SIZE - offsetToTail"

definition ev_pool_init :: "ev_buf \<Rightarrow> ev_buf" where
  "ev_pool_init s = s\<lparr>pool_head := NULL, pool_tail := NULL, pool_num := 0\<rparr>"

definition reset_item :: "nat \<Rightarrow> ev_buf \<Rightarrow> ev_buf" where
  "reset_item i s = s\<lparr>b_next := (b_next s)(item s i := NULL), b_used := (b_used s)(item s i := 0),
                      b_tbl := (b_tbl s)(item s i := (\<lambda>_. 0))\<rparr>"

definition ev_buf_reset :: "ev_buf \<Rightarrow> ev_buf" where
  "ev_buf_reset s = ev_pool_init (fold reset_item [0..<BUFFER_NUM] s)"

definition ev_buf_init :: "ev_buf \<Rightarrow> ev_buf" where
  "ev_buf_init s = ev_buf_reset s"

definition busy :: "ev_buf \<Rightarrow> nat \<Rightarrow> bool" where
  "busy s i \<longleftrightarrow> b_tbl s (item s i) ST_BUSY \<noteq> 0"

definition ev_buf_allocate :: "ev_buf \<Rightarrow> ptr \<times> ev_buf" where
  "ev_buf_allocate s =
     (case find (\<lambda>i. \<not> busy s i) [0..<BUFFER_NUM] of
        Some i \<Rightarrow> (data_of (item s i),
           s\<lparr>b_tbl := (b_tbl s)(item s i := (b_tbl s (item s i))(ST_BUSY := 1)),
             b_used := (b_used s)(item s i := 0xffff)\<rparr>)
      | None \<Rightarrow> (NULL, s))"

definition is_ev_buf :: "ev_buf \<Rightarrow> ptr \<Rightarrow> bool" where
  "is_ev_buf s p \<longleftrightarrow> p \<ge> data_of (item s 0) \<and> p < data_of (item s (BUFFER_NUM - 1)) + BUFFER_SIZE"

definition ev_buf_free :: "ev_buf \<Rightarrow> ptr \<Rightarrow> buf_sts \<times> ev_buf" where
  "ev_buf_free s pBuf =
     (if \<not> is_ev_buf s pBuf then (BUFFER_INVALID_PARAMETER, s)
      else let d = ev_buf_getHead pBuf in
        (BUFFER_SUCC, s\<lparr>b_tbl := (b_tbl s)(d := (b_tbl s d)(ST_BUSY := 0)),
                        b_used := (b_used s)(d := 0)\<rparr>))"

definition ev_isTaskDone :: "ev_buf \<Rightarrow> bool" where
  "ev_isTaskDone s = (if pool_num s > 0 then False else True)"

definition buf_message_post :: "ev_buf \<Rightarrow> ptr \<Rightarrow> nat \<Rightarrow> buf_sts \<times> ev_buf" where
  "buf_message_post s p state =
     (if \<not> is_ev_buf s p then (BUFFER_INVALID_PARAMETER, s)
      else
        let it = ev_buf_getHead p;
            s1 = s\<lparr>b_tbl := (b_tbl s)(it := (b_tbl s it)(state := 1)), b_next := (b_next s)(it := NULL)\<rparr>;
            s2 = (if pool_head s1 = NULL then s1\<lparr>pool_head := it, pool_tail := it\<rparr>
                  else let h = (b_next s1)(pool_tail s1 := it)
                       in s1\<lparr>b_next := h, pool_tail := h (pool_tail s1)\<rparr>)
        in (BUFFER_SUCC, s2\<lparr>pool_num := pool_num s2 + 1\<rparr>))"

text \<open>The polled state is \<open>None\<close> for the code's \<open>0xff\<close>.\<close>

definition buf_message_poll :: "ev_buf \<Rightarrow> (ptr \<times> nat option) \<times> ev_buf" where
  "buf_message_poll s =
     (if pool_head s \<noteq> NULL then
        let p = pool_head s in
        case find (\<lambda>i. b_tbl s p i = 1) [ST_PHY2MAC..<ST_MAC2CSMA + 1] of
          Some i \<Rightarrow> ((data_of p, Some i),
             s\<lparr>b_tbl := (b_tbl s)(p := (b_tbl s p)(i := 0)),
               pool_head := b_next s p, b_next := (b_next s)(p := NULL),
               pool_num := pool_num s - 1\<rparr>)
        | None \<Rightarrow> ((NULL, None), s)
      else ((NULL, None), s))"

definition ev_buf_getfreeSize :: "ev_buf \<Rightarrow> u16" where
  "ev_buf_getfreeSize s = fold (\<lambda>i n. if b_tbl s (item s i) ST_BUSY = 0 then n + 1 else n) [0..<BUFFER_NUM] 0"

text \<open>The payload versions of the queue operations.\<close>

definition ev_queue_push :: "qmem \<Rightarrow> ptr \<Rightarrow> ptr \<Rightarrow> (ev_queue_sts \<times> qmem) option" where
  "ev_queue_push s q payload = ev_queue_rawPush s q (ev_buf_getHead payload)"

definition ev_queue_pop :: "qmem \<Rightarrow> ptr \<Rightarrow> ptr \<times> qmem" where
  "ev_queue_pop s q =
     (let (oneItem, s') = ev_queue_rawPop s q in (if oneItem = NULL then NULL else data_of oneItem, s'))"

definition ev_queue_delete :: "qmem \<Rightarrow> ptr \<Rightarrow> ptr \<Rightarrow> (ev_queue_sts \<times> qmem) option" where
  "ev_queue_delete s q payload = ev_queue_rawDelete s q (ev_buf_getHead payload)"

partial_function (option) freeQ_loop :: "qmem \<Rightarrow> ev_buf \<Rightarrow> ptr \<Rightarrow> (qmem \<times> ev_buf) option" where
  "freeQ_loop s b q =
     (let (p, s') = ev_queue_pop s q
      in if p \<noteq> NULL then freeQ_loop s' (snd (ev_buf_free b p)) q else Some (s', b))"

definition ev_queue_freeQ :: "qmem \<Rightarrow> ev_buf \<Rightarrow> ptr \<Rightarrow> (ev_queue_sts \<times> qmem \<times> ev_buf) option" where
  "ev_queue_freeQ s b q =
     (if q = NULL then Some (QUEUE_INVALID_PARAMETER, s, b)
      else map_option (\<lambda>(s', b'). (QUEUE_SUCC, s', b')) (freeQ_loop s b q))"

section \<open>Item addresses\<close>

lemma item_upd [simp]:
  "item (s\<lparr>b_next := n\<rparr>) = item s" "item (s\<lparr>b_tbl := t\<rparr>) = item s" "item (s\<lparr>b_used := u\<rparr>) = item s"
  "item (s\<lparr>pool_head := p\<rparr>) = item s" "item (s\<lparr>pool_tail := p\<rparr>) = item s" "item (s\<lparr>pool_num := k\<rparr>) = item s"
  by (simp_all add: item_def fun_eq_iff)

text \<open>The array lies in the address space, not at address 0.\<close>

definition placed :: "ev_buf \<Rightarrow> bool" where
  "placed s \<longleftrightarrow> ev_bufItem s \<noteq> 0 \<and> unat (ev_bufItem s) + ITEM_SIZE * BUFFER_NUM \<le> 2 ^ 32"

lemma unat_item:
  assumes "placed s" "i < BUFFER_NUM"
  shows "unat (item s i) = unat (ev_bufItem s) + ITEM_SIZE * i"
proof -
  have u: "unat (of_nat (ITEM_SIZE * i) :: u32) = ITEM_SIZE * i"
    using assms by (intro unat_of_nat_u32) simp
  have l: "unat (ev_bufItem s) + unat (of_nat (ITEM_SIZE * i) :: u32) < 2 ^ LENGTH(32)"
    using assms unfolding u placed_def by simp
  show ?thesis
    unfolding item_def using unat_add_small[OF l] unfolding u .
qed

lemma item_inj:
  assumes "placed s" "i < BUFFER_NUM" "j < BUFFER_NUM"
  shows "item s i = item s j \<longleftrightarrow> i = j"
proof
  assume "item s i = item s j"
  then have "unat (item s i) = unat (item s j)" by (rule arg_cong)
  then have "unat (ev_bufItem s) + ITEM_SIZE * i = unat (ev_bufItem s) + ITEM_SIZE * j"
    unfolding unat_item[OF assms(1,2)] unat_item[OF assms(1,3)] .
  then show "i = j" by simp
qed simp

lemma item_nonnull: "placed s \<Longrightarrow> i < BUFFER_NUM \<Longrightarrow> item s i \<noteq> NULL"
proof
  assume "placed s" "i < BUFFER_NUM" "item s i = NULL"
  with unat_item[of s i] have "unat (ev_bufItem s) = 0" by simp
  with \<open>placed s\<close> show False using unat_gt_0[of "ev_bufItem s"] by (simp add: placed_def)
qed

lemma unat_data:
  assumes "placed s" "i < BUFFER_NUM"
  shows "unat (data_of (item s i)) = unat (ev_bufItem s) + ITEM_SIZE * i + 12"
  unfolding data_of_def using assms unat_item[OF assms]
  by (subst unat_add_small) (simp_all add: placed_def)

lemma is_ev_buf_item: "placed s \<Longrightarrow> i < BUFFER_NUM \<Longrightarrow> is_ev_buf s (data_of (item s i))"
proof -
  assume p: "placed s" and i: "i < BUFFER_NUM"
  have e: "unat (data_of (item s 13) + BUFFER_SIZE) = unat (ev_bufItem s) + ITEM_SIZE * 13 + 286"
    using p unat_data[OF p, of 13] by (subst unat_add_small) (simp_all add: placed_def)
  show ?thesis
    using p i unat_data[OF p i] unat_data[OF p, of 0] e
    by (simp add: is_ev_buf_def word_le_nat_alt word_less_nat_alt)
qed

lemma getHead_data [simp]: "ev_buf_getHead (data_of a) = a"
  by (simp add: ev_buf_getHead_def data_of_def)

lemma data_inj [simp]: "data_of a = data_of b \<longleftrightarrow> a = b"
  by (simp add: data_of_def)

lemma data_nonnull: "placed s \<Longrightarrow> i < BUFFER_NUM \<Longrightarrow> data_of (item s i) \<noteq> NULL"
  using unat_data[of s i] by force

section \<open>The allocator\<close>

definition all_items :: "ev_buf \<Rightarrow> ptr set" where
  "all_items s = item s ` {..<BUFFER_NUM}"

definition bufs :: "ev_buf \<Rightarrow> ptr set" where
  "bufs s = data_of ` all_items s"

definition live_bufs :: "ev_buf \<Rightarrow> ptr set" where
  "live_bufs s = (\<lambda>i. data_of (item s i)) ` {i. i < BUFFER_NUM \<and> busy s i}"

lemma find_upt_Some: "find P [0..<n] = Some i \<longleftrightarrow> i < n \<and> P i \<and> (\<forall>j < i. \<not> P j)"
  by (auto simp: find_Some_iff)

lemma find_upt_None: "find P [0..<n] = None \<longleftrightarrow> (\<forall>i < n. \<not> P i)"
  by (auto simp: find_None_iff)

lemma allocate_find:
  "ev_buf_allocate s =
     (case find (\<lambda>i. \<not> busy s i) [0..<BUFFER_NUM] of None \<Rightarrow> (NULL, s)
      | Some i \<Rightarrow> (data_of (item s i),
           s\<lparr>b_tbl := (b_tbl s)(item s i := (b_tbl s (item s i))(0 := 1)),
             b_used := (b_used s)(item s i := 0xffff)\<rparr>))"
  by (simp add: ev_buf_allocate_def split: option.split)

lemma busy_upd [simp]:
  "busy (s\<lparr>b_next := n\<rparr>) = busy s" "busy (s\<lparr>b_used := u\<rparr>) = busy s"
  "busy (s\<lparr>pool_head := p\<rparr>) = busy s" "busy (s\<lparr>pool_tail := p\<rparr>) = busy s"
  "busy (s\<lparr>pool_num := k\<rparr>) = busy s"
  by (simp_all add: busy_def fun_eq_iff)

lemma busy_tbl:
  "placed s \<Longrightarrow> i < BUFFER_NUM \<Longrightarrow> j < BUFFER_NUM \<Longrightarrow>
   busy (s\<lparr>b_tbl := (b_tbl s)(item s i := (b_tbl s (item s i))(0 := v))\<rparr>) j =
     (if j = i then v \<noteq> 0 else busy s j)"
  by (simp add: busy_def item_inj)

lemma live_bufs_iff:
  "placed s \<Longrightarrow> i < BUFFER_NUM \<Longrightarrow> data_of (item s i) \<in> live_bufs s \<longleftrightarrow> busy s i"
  by (auto simp: live_bufs_def item_inj)

lemma allocate_some:
  assumes p: "placed s" and f: "find (\<lambda>i. \<not> busy s i) [0..<BUFFER_NUM] = Some i"
  shows "fst (ev_buf_allocate s) = data_of (item s i) \<and> i < BUFFER_NUM \<and> \<not> busy s i \<and>
         live_bufs (snd (ev_buf_allocate s)) = insert (data_of (item s i)) (live_bufs s)"
proof -
  have i: "i < BUFFER_NUM" "\<not> busy s i" using f by (auto simp: find_upt_Some)
  have "live_bufs (snd (ev_buf_allocate s)) =
    (\<lambda>k. data_of (item s k)) ` {k. k < BUFFER_NUM \<and> (if k = i then True else busy s k)}"
    unfolding live_bufs_def allocate_find f using busy_tbl[OF p i(1)]
    by (auto simp: image_iff)
  also have "\<dots> = insert (data_of (item s i)) (live_bufs s)"
    using i by (auto simp: live_bufs_def image_iff split: if_splits)
  finally show ?thesis using i f by (simp add: allocate_find)
qed

lemma allocate_none:
  assumes "placed s" "find (\<lambda>i. \<not> busy s i) [0..<BUFFER_NUM] = None"
  shows "ev_buf_allocate s = (NULL, s) \<and> live_bufs s = bufs s"
proof -
  have "{i. i < BUFFER_NUM \<and> busy s i} = {..<BUFFER_NUM}" using assms(2) by (auto simp: find_upt_None)
  then have "live_bufs s = bufs s" by (simp add: live_bufs_def bufs_def all_items_def image_image)
  with assms(2) show ?thesis by (simp add: allocate_find)
qed

lemma placed_allocate: "placed (snd (ev_buf_allocate s)) = placed s \<and> ev_bufItem (snd (ev_buf_allocate s)) = ev_bufItem s"
  by (simp add: allocate_find placed_def split: option.split)

lemma free_live:
  assumes p: "placed s" and i: "i < BUFFER_NUM"
  shows "fst (ev_buf_free s (data_of (item s i))) = BUFFER_SUCC \<and>
         live_bufs (snd (ev_buf_free s (data_of (item s i)))) = live_bufs s - {data_of (item s i)}"
proof -
  have "live_bufs (snd (ev_buf_free s (data_of (item s i)))) =
    (\<lambda>k. data_of (item s k)) ` {k. k < BUFFER_NUM \<and> (if k = i then False else busy s k)}"
    unfolding live_bufs_def ev_buf_free_def using busy_tbl[OF p i] is_ev_buf_item[OF p i]
    by (auto simp: image_iff Let_def)
  also have "\<dots> = live_bufs s - {data_of (item s i)}"
    using p i by (auto simp: live_bufs_def image_iff item_inj split: if_splits)
  finally show ?thesis using is_ev_buf_item[OF p i] by (simp add: ev_buf_free_def Let_def)
qed


interpretation ev_pool: buffer_pool "\<lambda>s. placed s \<and> ev_bufItem s = base" "bufs (s0\<lparr>ev_bufItem := base\<rparr>)"
  live_bufs "\<lambda>s. (let (p, s') = ev_buf_allocate s in (if p = NULL then None else Some p, s'))"
  "\<lambda>s p. snd (ev_buf_free s p)" for base s0
proof -
  have b: "bufs (s0\<lparr>ev_bufItem := base\<rparr>) = bufs s" if "ev_bufItem s = base" for s
    using that by (auto simp: bufs_def all_items_def item_def)
  have sub: "live_bufs s \<subseteq> bufs s" for s
    by (auto simp: live_bufs_def bufs_def all_items_def)
  have fr: "placed (snd (ev_buf_free s p)) = placed s \<and> ev_bufItem (snd (ev_buf_free s p)) = ev_bufItem s" for s p
    by (simp add: ev_buf_free_def placed_def Let_def)
  have al: "fst (ev_buf_allocate s) \<noteq> NULL \<Longrightarrow> placed s \<Longrightarrow>
      \<exists>i. i < BUFFER_NUM \<and> fst (ev_buf_allocate s) = data_of (item s i) \<and> \<not> busy s i \<and>
          live_bufs (snd (ev_buf_allocate s)) = insert (data_of (item s i)) (live_bufs s)" for s
    using allocate_some[of s] allocate_none[of s]
    by (cases "find (\<lambda>i. \<not> busy s i) [0..<BUFFER_NUM]") auto
  have an: "fst (ev_buf_allocate s) = NULL \<Longrightarrow> placed s \<Longrightarrow>
      live_bufs s = bufs s \<and> live_bufs (snd (ev_buf_allocate s)) = live_bufs s" for s
    using allocate_some[of s] allocate_none[of s] data_nonnull[of s]
    by (cases "find (\<lambda>i. \<not> busy s i) [0..<BUFFER_NUM]") auto
  show "buffer_pool (\<lambda>s. placed s \<and> ev_bufItem s = base) (bufs (s0\<lparr>ev_bufItem := base\<rparr>))
    live_bufs (\<lambda>s. (let (p, s') = ev_buf_allocate s in (if p = NULL then None else Some p, s')))
    (\<lambda>s p. snd (ev_buf_free s p))"
  proof (unfold_locales, goal_cases)
    case (1 s)
    with b[of s] sub show ?case by simp
  next
    case 2
    then show ?case by (simp add: bufs_def all_items_def)
  next
    case (3 s)
    with placed_allocate[of s] show ?case by (simp add: split_beta)
  next
    case (4 s p)
    with al[of s] b[of s] live_bufs_iff[of s] show ?case
      by (auto simp: split_beta bufs_def all_items_def split: if_splits)
  next
    case (5 s)
    with an[of s] b[of s] show ?case by (auto simp: split_beta split: if_splits)
  next
    case (6 s p)
    with fr show ?case by simp
  next
    case (7 s p)
    then obtain i where i: "i < BUFFER_NUM" "p = data_of (item s i)" by (auto simp: live_bufs_def)
    with 7 free_live[of s i] show ?case by simp
  qed
qed

section \<open>The message pool\<close>

definition flags :: "ev_buf \<Rightarrow> ptr \<Rightarrow> nat list" where
  "flags s x = filter (\<lambda>i. b_tbl s x i = 1) [1..<8]"

definition pool_items :: "ev_buf \<Rightarrow> ptr list" where
  "pool_items s = walk (b_next s) (pool_head s) (unat (pool_num s))"

text \<open>The pool as the code's clients see it: the payload and the task it is addressed to.\<close>

definition msg_view :: "ev_buf \<Rightarrow> (ptr \<times> nat) list" where
  "msg_view s = map (\<lambda>x. (data_of x, hd (flags s x))) (pool_items s)"

definition pool_of :: "ev_buf \<Rightarrow> ptr list \<Rightarrow> bool" where
  "pool_of s xs \<longleftrightarrow> placed s \<and> chain (b_next s) (pool_head s) xs \<and> set xs \<subseteq> all_items s \<and>
     (xs \<noteq> [] \<longrightarrow> pool_tail s = last xs) \<and> pool_num s = of_nat (length xs) \<and>
     (\<forall>x \<in> set xs. \<exists>i. flags s x = [i]) \<and> (\<forall>x \<in> all_items s - set xs. flags s x = [])"

definition msg_inv :: "ev_buf \<Rightarrow> bool" where
  "msg_inv s \<longleftrightarrow> pool_of s (pool_items s)"

definition msg_room :: "ev_buf \<Rightarrow> ptr \<times> nat \<Rightarrow> bool" where
  "msg_room s m \<longleftrightarrow> fst m \<in> bufs s \<and> ST_PHY2MAC \<le> snd m \<and> snd m \<le> ST_MAC2CSMA \<and>
     ev_buf_getHead (fst m) \<notin> set (pool_items s)"

definition msg_enq :: "ev_buf \<Rightarrow> ptr \<times> nat \<Rightarrow> ev_buf" where
  "msg_enq s m = snd (buf_message_post s (fst m) (snd m))"

definition msg_deq :: "ev_buf \<Rightarrow> (ptr \<times> nat) option \<times> ev_buf" where
  "msg_deq s = (case buf_message_poll s of ((p, Some st), s') \<Rightarrow> (Some (p, st), s') | ((p, None), s') \<Rightarrow> (None, s'))"

lemma all_items_card: "card (all_items s) \<le> BUFFER_NUM"
  unfolding all_items_def using card_image_le[of "{..<BUFFER_NUM}" "item s"] by simp

lemma pool_of_length: "pool_of s xs \<Longrightarrow> length xs \<le> BUFFER_NUM"
proof -
  assume p: "pool_of s xs"
  then have "distinct xs" by (auto simp: pool_of_def dest: chain_distinct)
  then have "length xs = card (set xs)" by (simp add: distinct_card)
  also have "\<dots> \<le> card (all_items s)"
    using p by (intro card_mono) (auto simp: pool_of_def all_items_def)
  finally show ?thesis using all_items_card[of s] by simp
qed

lemma pool_of_items: "pool_of s xs \<Longrightarrow> pool_items s = xs"
proof -
  assume p: "pool_of s xs"
  have "unat (of_nat (length xs) :: u8) = length xs"
    using pool_of_length[OF p] by (intro unat_of_nat_small) simp
  with p walk_chain[of "b_next s" "pool_head s" xs] show ?thesis
    by (simp add: pool_of_def pool_items_def)
qed

lemma find_filter: "find P xs = (case filter P xs of [] \<Rightarrow> None | x # _ \<Rightarrow> Some x)"
  by (induction xs) auto

lemma eight: "[1..<8] = [1, 2, 3, 4, 5, 6, 7 :: nat]"
  by (simp add: upt_rec)

lemma flags_set:
  assumes "flags s x = []" "1 \<le> st" "st \<le> 7"
  shows "filter (\<lambda>i. ((b_tbl s x)(st := 1)) i = 1) [1..<8] = [st]"
proof -
  have e: "st = 1 \<or> st = 2 \<or> st = 3 \<or> st = 4 \<or> st = 5 \<or> st = 6 \<or> st = 7" using assms by arith
  have "\<forall>i \<in> set [1..<8]. b_tbl s x i \<noteq> 1"
    using assms(1) by (simp add: flags_def filter_empty_conv)
  then have n: "b_tbl s x 1 \<noteq> 1 \<and> b_tbl s x 2 \<noteq> 1 \<and> b_tbl s x 3 \<noteq> 1 \<and> b_tbl s x 4 \<noteq> 1 \<and>
             b_tbl s x 5 \<noteq> 1 \<and> b_tbl s x 6 \<noteq> 1 \<and> b_tbl s x 7 \<noteq> 1"
    unfolding eight by simp
  from e n show ?thesis unfolding eight by (elim disjE) simp_all
qed

lemma flags_clear: "flags s x = [i] \<Longrightarrow> filter (\<lambda>k. ((b_tbl s x)(i := 0)) k = 1) [1..<8] = []"
proof -
  assume f: "flags s x = [i]"
  have "\<forall>k \<in> set [1..<8]. b_tbl s x k = 1 \<longrightarrow> k = i"
  proof (intro ballI impI)
    fix k assume "k \<in> set [1..<8]" "b_tbl s x k = 1"
    then have "k \<in> set (flags s x)" by (simp add: flags_def)
    with f show "k = i" by simp
  qed
  then show ?thesis by (auto simp: filter_empty_conv)
qed


lemma post_pool:
  assumes P: "pool_of s xs" and i: "i < BUFFER_NUM" and x: "item s i \<notin> set xs" and st: "1 \<le> st" "st \<le> 7"
  shows "fst (buf_message_post s (data_of (item s i)) st) = BUFFER_SUCC \<and>
         pool_of (snd (buf_message_post s (data_of (item s i)) st)) (xs @ [item s i]) \<and>
         flags (snd (buf_message_post s (data_of (item s i)) st)) (item s i) = [st] \<and>
         (\<forall>y. y \<noteq> item s i \<longrightarrow> flags (snd (buf_message_post s (data_of (item s i)) st)) y = flags s y)"
proof -
  let ?x = "item s i"
  let ?s = "snd (buf_message_post s (data_of ?x) st)"
  have pl: "placed s" and c: "chain (b_next s) (pool_head s) xs"
    and t: "xs \<noteq> [] \<Longrightarrow> pool_tail s = last xs" and n: "pool_num s = of_nat (length xs)"
    using P by (auto simp: pool_of_def)
  have ev: "is_ev_buf s (data_of ?x)" and nn: "?x \<noteq> NULL" and xin: "?x \<in> all_items s"
    using pl i is_ev_buf_item item_nonnull by (auto simp: all_items_def)
  have f: "flags s ?x = []" using P xin x by (auto simp: pool_of_def)
  have tbl: "b_tbl ?s = (b_tbl s)(?x := (b_tbl s ?x)(st := 1))"
    using ev by (simp add: buf_message_post_def Let_def)
  then have fx: "flags ?s ?x = [st]" and fo: "\<forall>y. y \<noteq> ?x \<longrightarrow> flags ?s y = flags s y"
    using flags_set[OF f st] by (simp_all add: flags_def)
  have it: "item ?s = item s" "placed ?s"
    using ev pl by (simp_all add: buf_message_post_def Let_def placed_def)
  have "chain (b_next ?s) (pool_head ?s) (xs @ [?x]) \<and> pool_tail ?s = ?x"
  proof (cases "xs = []")
    case True
    with c ev nn show ?thesis by (simp add: buf_message_post_def Let_def)
  next
    case False
    then have h: "pool_head s \<noteq> NULL" using c by (auto simp: neq_Nil_conv)
    have l: "last xs \<in> set xs" using False by simp
    with x have lx: "last xs \<noteq> ?x" by metis
    have "chain ((b_next s)(?x := NULL)) (pool_head s) xs" using c x by simp
    from chain_snoc[OF this False x nn] False lx ev h t[OF False] show ?thesis
      by (simp add: buf_message_post_def Let_def)
  qed
  moreover have "pool_num ?s = of_nat (length (xs @ [?x]))"
    using n ev by (simp add: buf_message_post_def Let_def)
  moreover have "all_items ?s = all_items s" using it by (simp add: all_items_def)
  moreover have "\<forall>y \<in> set (xs @ [?x]). \<exists>k. flags ?s y = [k]"
  proof
    fix y assume y: "y \<in> set (xs @ [?x])"
    show "\<exists>k. flags ?s y = [k]"
    proof (cases "y = ?x")
      case True with fx show ?thesis by simp
    next
      case False
      with y fo P show ?thesis by (simp add: pool_of_def)
    qed
  qed
  ultimately have "pool_of ?s (xs @ [?x])"
    using P it fo xin by (simp add: pool_of_def)
  moreover have "fst (buf_message_post s (data_of ?x) st) = BUFFER_SUCC"
    using ev by (simp add: buf_message_post_def Let_def)
  ultimately show ?thesis using fx fo by simp
qed

lemma poll_empty: "pool_of s [] \<Longrightarrow> buf_message_poll s = ((NULL, None), s)"
  by (simp add: pool_of_def buf_message_poll_def)

lemma poll_pool:
  assumes P: "pool_of s (x # xs)"
  shows "fst (buf_message_poll s) = (data_of x, Some (hd (flags s x))) \<and>
         pool_of (snd (buf_message_poll s)) xs \<and>
         (\<forall>y. y \<noteq> x \<longrightarrow> flags (snd (buf_message_poll s)) y = flags s y)"
proof -
  let ?s = "snd (buf_message_poll s)"
  have pl: "placed s" and c: "chain (b_next s) (pool_head s) (x # xs)"
    and t: "xs \<noteq> [] \<Longrightarrow> pool_tail s = last xs" and n: "pool_num s = of_nat (length xs) + 1"
    using P by (auto simp: pool_of_def)
  have h: "pool_head s = x" "x \<noteq> NULL" and d: "x \<notin> set xs" using c chain_distinct[OF c] by auto
  obtain i where f: "flags s x = [i]" using P by (auto simp: pool_of_def)
  have "find (\<lambda>i. b_tbl s x i = 1) [1..<8] = Some i"
    using f unfolding find_filter flags_def by simp
  then have fd: "find (\<lambda>i. b_tbl s (pool_head s) i = 1) [ST_PHY2MAC..<ST_MAC2CSMA + 1] = Some i"
    using h by simp
  have res: "buf_message_poll s = ((data_of x, Some i),
       s\<lparr>b_tbl := (b_tbl s)(x := (b_tbl s x)(i := 0)), pool_head := b_next s x,
         b_next := (b_next s)(x := NULL), pool_num := pool_num s - 1\<rparr>)"
    unfolding buf_message_poll_def Let_def fd using h by simp
  have fx: "flags ?s x = []" and fo: "\<forall>y. y \<noteq> x \<longrightarrow> flags ?s y = flags s y"
    using flags_clear[OF f] by (simp_all add: res flags_def)
  have all: "all_items ?s = all_items s" by (simp add: res all_items_def)
  have "chain (b_next ?s) (pool_head ?s) xs" using c d h by (simp add: res)
  moreover have "\<forall>y \<in> set xs. \<exists>k. flags ?s y = [k]"
  proof
    fix y assume y: "y \<in> set xs"
    with d have "y \<noteq> x" by metis
    with y fo P show "\<exists>k. flags ?s y = [k]" by (simp add: pool_of_def)
  qed
  moreover have "\<forall>y \<in> all_items ?s - set xs. flags ?s y = []"
  proof
    fix y assume y: "y \<in> all_items ?s - set xs"
    show "flags ?s y = []"
    proof (cases "y = x")
      case True with fx show ?thesis by simp
    next
      case False
      with y fo P all show ?thesis by (simp add: pool_of_def)
    qed
  qed
  moreover have "placed ?s" using pl by (simp add: res placed_def)
  moreover have "xs \<noteq> [] \<longrightarrow> pool_tail ?s = last xs" "pool_num ?s = of_nat (length xs)"
    using t n by (simp_all add: res)
  moreover have "set xs \<subseteq> all_items ?s" using P all by (simp add: pool_of_def)
  ultimately have "pool_of ?s xs" by (simp add: pool_of_def)
  then show ?thesis using res f fo by simp
qed

lemma msg_enq_view:
  assumes "msg_inv s" "msg_room s m"
  shows "msg_inv (msg_enq s m) \<and> msg_view (msg_enq s m) = msg_view s @ [m]"
proof -
  obtain i where i: "i < BUFFER_NUM" "fst m = data_of (item s i)"
    using assms(2) by (auto simp: msg_room_def bufs_def all_items_def)
  let ?xs = "pool_items s"
  have P: "pool_of s ?xs" using assms(1) by (simp add: msg_inv_def)
  have r: "item s i \<notin> set ?xs" "1 \<le> snd m" "snd m \<le> 7"
    using assms(2) i by (auto simp: msg_room_def)
  note post = post_pool[OF P i(1) r]
  have items: "pool_items (msg_enq s m) = ?xs @ [item s i]"
    using post i by (simp add: msg_enq_def pool_of_items)
  have "map (\<lambda>x. (data_of x, hd (flags (msg_enq s m) x))) ?xs = msg_view s"
    unfolding msg_view_def
  proof (rule map_cong[OF refl])
    fix y assume "y \<in> set ?xs"
    with r(1) have "y \<noteq> item s i" by metis
    with post i show "(data_of y, hd (flags (msg_enq s m) y)) = (data_of y, hd (flags s y))"
      by (simp add: msg_enq_def)
  qed
  with items post i show ?thesis
    by (cases m) (auto simp: msg_inv_def msg_view_def msg_enq_def)
qed

lemma msg_deq_view:
  assumes "msg_inv s"
  shows "msg_inv (snd (msg_deq s)) \<and> msg_view (snd (msg_deq s)) = tl (msg_view s) \<and>
         fst (msg_deq s) = (case msg_view s of [] \<Rightarrow> None | m # _ \<Rightarrow> Some m)"
proof -
  have P: "pool_of s (pool_items s)" using assms by (simp add: msg_inv_def)
  show ?thesis
  proof (cases "pool_items s")
    case Nil
    with P poll_empty[of s] assms show ?thesis by (simp add: msg_deq_def msg_view_def)
  next
    case (Cons x xs)
    note poll = poll_pool[OF P[unfolded Cons]]
    obtain s' where s': "buf_message_poll s = ((data_of x, Some (hd (flags s x))), s')"
      using poll by (cases "buf_message_poll s") auto
    have "chain (b_next s) (pool_head s) (x # xs)" using P Cons by (simp add: pool_of_def)
    then have d: "x \<notin> set xs" using chain_distinct by fastforce
    have items: "pool_items s' = xs" using poll s' by (simp add: pool_of_items)
    have "map (\<lambda>x. (data_of x, hd (flags s' x))) xs = map (\<lambda>x. (data_of x, hd (flags s x))) xs"
      using poll s' d by (auto intro!: map_cong)
    with poll s' items Cons show ?thesis
      by (simp add: msg_deq_def msg_view_def msg_inv_def)
  qed
qed

interpretation evb: fifo msg_inv msg_view msg_room msg_enq msg_deq
  by unfold_locales (use msg_enq_view msg_deq_view in auto)


section \<open>Reset and counting\<close>

lemma reset_item_base: "ev_bufItem (reset_item i s) = ev_bufItem s" "placed (reset_item i s) = placed s"
  by (simp_all add: reset_item_def placed_def)

lemma item_reset [simp]: "item (reset_item i s) = item s"
  by (simp add: reset_item_def)

lemma fold_reset:
  "set js \<subseteq> {..<BUFFER_NUM} \<Longrightarrow> placed s \<Longrightarrow>
   item (fold reset_item js s) = item s \<and> placed (fold reset_item js s) \<and>
   (\<forall>i \<in> set js. b_tbl (fold reset_item js s) (item s i) = (\<lambda>_. 0)) \<and>
   (\<forall>i < BUFFER_NUM. b_tbl s (item s i) = (\<lambda>_. 0) \<longrightarrow> b_tbl (fold reset_item js s) (item s i) = (\<lambda>_. 0))"
proof (induction js arbitrary: s)
  case Nil
  then show ?case by simp
next
  case (Cons j js)
  have p: "placed (reset_item j s)" using Cons.prems by (simp add: reset_item_base)
  have "b_tbl (reset_item j s) (item s j) = (\<lambda>_. 0)"
    by (simp add: reset_item_def)
  moreover have "b_tbl s (item s i) = (\<lambda>_. 0) \<Longrightarrow> b_tbl (reset_item j s) (item s i) = (\<lambda>_. 0)" for i
    by (simp add: reset_item_def)
  ultimately show ?case
    using Cons.IH[OF _ p] Cons.prems by auto
qed

lemma reset_items:
  assumes "placed s"
  shows "item (ev_buf_reset s) = item s \<and> placed (ev_buf_reset s) \<and>
         (\<forall>i < BUFFER_NUM. b_tbl (ev_buf_reset s) (item s i) = (\<lambda>_. 0))"
proof -
  have sub: "set [0..<BUFFER_NUM] \<subseteq> {..<BUFFER_NUM}" by (simp add: subset_iff del: upt_Suc)
  have pl: "placed (s\<lparr>pool_head := p, pool_tail := q, pool_num := n\<rparr>) = placed s" for s p q n
    by (simp add: placed_def)
  show ?thesis
    using fold_reset[OF sub assms] by (simp add: ev_buf_reset_def ev_pool_init_def pl del: upt_Suc)
qed

lemma reset_inv: "placed s \<Longrightarrow> msg_inv (ev_buf_reset s) \<and> msg_view (ev_buf_reset s) = [] \<and> live_bufs (ev_buf_reset s) = {}"
proof -
  assume p: "placed s"
  note r = reset_items[OF p]
  have f: "flags (ev_buf_reset s) x = []" if "x \<in> all_items (ev_buf_reset s)" for x
    using that r by (auto simp: all_items_def flags_def filter_empty_conv)
  have e: "pool_head (ev_buf_reset s) = NULL" "pool_num (ev_buf_reset s) = 0"
    by (simp_all add: ev_buf_reset_def ev_pool_init_def)
  then have i: "pool_items (ev_buf_reset s) = []" by (simp add: pool_items_def)
  have "pool_of (ev_buf_reset s) []" using r f e by (simp add: pool_of_def)
  with i r show ?thesis
    by (auto simp: msg_inv_def msg_view_def live_bufs_def busy_def)
qed

lemma fold_count: "fold (\<lambda>i n. if P i then n + 1 else n) xs (k :: u16) = k + of_nat (length (filter P xs))"
  by (induction xs arbitrary: k) auto

lemma getfreeSize_card:
  assumes "placed s"
  shows "unat (ev_buf_getfreeSize s) = BUFFER_NUM - card (live_bufs s)"
proof -
  let ?free = "{i. i < BUFFER_NUM \<and> \<not> busy s i}" and ?busy = "{i. i < BUFFER_NUM \<and> busy s i}"
  have "inj_on (\<lambda>i. data_of (item s i)) ?busy"
    using assms by (auto simp: inj_on_def item_inj)
  then have c: "card (live_bufs s) = card ?busy"
    by (simp add: live_bufs_def card_image)
  have "card ?free + card ?busy = card (?free \<union> ?busy)"
    by (rule card_Un_disjoint[symmetric]) auto
  also have "?free \<union> ?busy = {..<BUFFER_NUM}" by auto
  finally have sum: "card ?free + card ?busy = BUFFER_NUM" by simp
  have "length (filter (\<lambda>i. b_tbl s (item s i) ST_BUSY = 0) [0..<BUFFER_NUM]) = card ?free"
    by (subst distinct_card[symmetric]) (auto simp: busy_def intro!: arg_cong[where f = card] simp del: upt_Suc)
  then have "ev_buf_getfreeSize s = of_nat (card ?free)"
    unfolding ev_buf_getfreeSize_def fold_count by (simp del: upt_Suc)
  moreover have "unat (of_nat (card ?free) :: u16) = card ?free"
    using sum by (intro unat_of_nat_small) simp
  ultimately show ?thesis using c sum by simp
qed

text \<open>C20: first-fit allocation never hands out a live buffer: over any sequence of allocations and
  frees of live buffers, starting from a reset, every allocation returns a buffer of the array that
  is not live, or \<open>NULL\<close> exactly when all 14 are live.\<close>

theorem ev_buf_no_alias:
  assumes "placed s"
  shows "ev_pool.no_alias (ev_bufItem s) s {} (fst (ev_pool.run (ev_buf_reset s) ops)) ops"
proof -
  have b: "ev_bufItem (ev_buf_reset s) = ev_bufItem s"
  proof -
    have "ev_bufItem (fold reset_item js t) = ev_bufItem t" for js t
      by (induction js arbitrary: t) (simp_all add: reset_item_base)
    then show ?thesis by (simp add: ev_buf_reset_def ev_pool_init_def del: upt_Suc)
  qed
  then show ?thesis
    using ev_pool.run_no_alias[of "ev_buf_reset s" "ev_bufItem s" s ops] reset_inv[OF assms] reset_items[OF assms]
    by simp
qed

definition ev_buf0 :: ev_buf where
  "ev_buf0 = \<lparr>ev_bufItem = 0x840000, b_next = \<lambda>_. 9, b_tbl = \<lambda>_ _. 7, b_used = \<lambda>_. 3,
              pool_head = 5, pool_tail = 6, pool_num = 7\<rparr>"

theorem ev_buf_no_alias_witness:
  "ev_pool.no_alias (ev_bufItem ev_buf0) ev_buf0 {}
     (fst (ev_pool.run (ev_buf_reset ev_buf0) [Alloc, Alloc, Free 0x84000C, Alloc]))
     [Alloc, Alloc, Free 0x84000C, Alloc]"
  by (rule ev_buf_no_alias) (simp add: ev_buf0_def placed_def)

text \<open>\<open>ev_buf_getfreeSize\<close> is the number of buffers that are not live; an allocation that succeeds
  lowers it by one and \<open>ev_buf_free\<close> of a live buffer raises it by one.\<close>

theorem ev_buf_free_count:
  assumes "placed s" "p \<in> live_bufs s"
  shows "unat (ev_buf_getfreeSize s) = BUFFER_NUM - card (live_bufs s) \<and>
         unat (ev_buf_getfreeSize (snd (ev_buf_free s p))) = unat (ev_buf_getfreeSize s) + 1 \<and>
         unat (ev_buf_getfreeSize (snd (ev_buf_allocate s))) =
           (if fst (ev_buf_allocate s) = NULL then unat (ev_buf_getfreeSize s)
            else unat (ev_buf_getfreeSize s) - 1)"
proof -
  obtain i where i: "i < BUFFER_NUM" "p = data_of (item s i)" using assms(2) by (auto simp: live_bufs_def)
  have fin: "finite (live_bufs s)" by (simp add: live_bufs_def)
  have "card (live_bufs s) \<le> card {..<BUFFER_NUM}"
    unfolding live_bufs_def by (rule order_trans[OF card_image_le card_mono]) auto
  then have le: "card (live_bufs s) \<le> BUFFER_NUM" by simp
  have pos: "0 < card (live_bufs s)" using assms(2) fin card_gt_0_iff by blast
  have pf: "placed (snd (ev_buf_free s p))" and pa: "placed (snd (ev_buf_allocate s))"
    using assms(1) placed_allocate[of s] by (simp_all add: ev_buf_free_def placed_def Let_def)
  have free: "live_bufs (snd (ev_buf_free s p)) = live_bufs s - {p}" using free_live[OF assms(1) i(1)] i by simp
  have alloc: "fst (ev_buf_allocate s) = NULL \<and> live_bufs (snd (ev_buf_allocate s)) = live_bufs s \<or>
     fst (ev_buf_allocate s) \<noteq> NULL \<and> fst (ev_buf_allocate s) \<notin> live_bufs s \<and>
     live_bufs (snd (ev_buf_allocate s)) = insert (fst (ev_buf_allocate s)) (live_bufs s)"
    using allocate_some[OF assms(1)] allocate_none[OF assms(1)] data_nonnull[OF assms(1)] live_bufs_iff[OF assms(1)]
    by (cases "find (\<lambda>i. \<not> busy s i) [0..<BUFFER_NUM]") auto
  show ?thesis
    unfolding getfreeSize_card[OF assms(1)] getfreeSize_card[OF pf] getfreeSize_card[OF pa] free
    using alloc fin assms(2) le pos by (auto simp: card_insert_if)
qed


theorem ev_buf_free_count_witness:
  "unat (ev_buf_getfreeSize ev_buf0) = BUFFER_NUM - card (live_bufs ev_buf0) \<and>
   unat (ev_buf_getfreeSize (snd (ev_buf_free ev_buf0 0x84000C))) = unat (ev_buf_getfreeSize ev_buf0) + 1 \<and>
   unat (ev_buf_getfreeSize (snd (ev_buf_allocate ev_buf0))) =
     (if fst (ev_buf_allocate ev_buf0) = NULL then unat (ev_buf_getfreeSize ev_buf0)
      else unat (ev_buf_getfreeSize ev_buf0) - 1)"
  by (rule ev_buf_free_count)
     (auto simp: ev_buf0_def placed_def live_bufs_def busy_def item_def data_of_def image_iff intro!: exI[of _ 0])

text \<open>Messages reach the tasks in posting order: under any interleaving of posts (to tasks
  PHY2MAC..MAC2CSMA, of buffers not already in the pool) and polls, the polled pairs of payload and
  task followed by the pending ones are the pending ones at the start followed by the posts.\<close>

theorem message_fifo_order:
  assumes "msg_inv s"
  shows "fst (evb.run s ops) @ msg_view (snd (evb.run s ops)) = msg_view s @ evb.accepted s ops"
  using assms by (rule evb.run_fifo)

theorem message_fifo_order_witness:
  "fst (evb.run (ev_buf_reset ev_buf0) [Put (0x84000C, 1), Get]) @
     msg_view (snd (evb.run (ev_buf_reset ev_buf0) [Put (0x84000C, 1), Get])) =
   msg_view (ev_buf_reset ev_buf0) @ evb.accepted (ev_buf_reset ev_buf0) [Put (0x84000C, 1), Get]"
  by (rule message_fifo_order) (simp add: reset_inv ev_buf0_def placed_def)

section \<open>Posting a buffer twice\<close>

text \<open>The head has no pending task: \<open>buf_message_poll\<close> neither returns nor removes it.\<close>

definition stuck :: "ev_buf \<Rightarrow> bool" where
  "stuck s \<longleftrightarrow> pool_head s \<noteq> NULL \<and> flags s (pool_head s) = []"

lemma stuck_poll: "stuck s \<Longrightarrow> buf_message_poll s = ((NULL, None), s)"
proof -
  assume s: "stuck s"
  have "find (\<lambda>i. b_tbl s (pool_head s) i = 1) [1..<8] = None"
    using s unfolding stuck_def flags_def find_filter by simp
  then have "find (\<lambda>i. b_tbl s (pool_head s) i = 1) [ST_PHY2MAC..<ST_MAC2CSMA + 1] = None" by simp
  with s show ?thesis by (simp add: buf_message_poll_def stuck_def Let_def)
qed

lemma stuck_post:
  "stuck s \<Longrightarrow> q \<noteq> data_of (pool_head s) \<Longrightarrow>
   stuck (snd (buf_message_post s q st)) \<and> pool_head (snd (buf_message_post s q st)) = pool_head s"
proof -
  assume s: "stuck s" and q: "q \<noteq> data_of (pool_head s)"
  then have "ev_buf_getHead q \<noteq> pool_head s" by (auto simp: ev_buf_getHead_def data_of_def diff_eq_eq)
  with s show ?thesis by (auto simp: buf_message_post_def stuck_def flags_def Let_def)
qed

lemma stuck_posts:
  "stuck s \<Longrightarrow> \<forall>(q, st) \<in> set ms. q \<noteq> data_of (pool_head s) \<Longrightarrow>
   stuck (fold (\<lambda>(q, st) t. snd (buf_message_post t q st)) ms s)"
proof (induction ms arbitrary: s)
  case Nil
  then show ?case by simp
next
  case (Cons m ms)
  then show ?case
    using stuck_post[of s "fst m" "snd m"] by (cases m) auto
qed

lemma double_post:
  assumes I: "pool_of s []" and i: "i < BUFFER_NUM" and st: "1 \<le> st" "st \<le> 7"
  shows "let p = data_of (item s i); t = snd (buf_message_post (snd (buf_message_post s p st)) p st);
             u = snd (buf_message_poll t)
         in fst (buf_message_poll t) = (p, Some st) \<and> stuck u \<and> pool_head u = item s i"
proof -
  let ?p = "data_of (item s i)"
  let ?s1 = "snd (buf_message_post s ?p st)"
  let ?t = "snd (buf_message_post ?s1 ?p st)"
  have P: "pool_of ?s1 [item s i]" and f: "flags ?s1 (item s i) = [st]"
    using post_pool[OF I i _ st] by simp_all
  have it: "item ?s1 = item s" using post_pool[OF I i _ st]
    by (simp add: buf_message_post_def Let_def split: if_splits)
  have pl: "placed ?s1" using P by (simp add: pool_of_def)
  have h: "pool_head ?s1 = item s i" "pool_tail ?s1 = item s i" and nn: "item s i \<noteq> NULL"
    using P by (auto simp: pool_of_def)
  have ev: "is_ev_buf ?s1 ?p" using is_ev_buf_item[OF pl i] it by simp
  have t1: "b_tbl ?s1 (item s i) st = 1"
  proof -
    have "st \<in> set (flags ?s1 (item s i))" using f by simp
    then show ?thesis by (simp add: flags_def)
  qed
  have t: "b_tbl ?t (item s i) = b_tbl ?s1 (item s i)" "pool_head ?t = item s i"
      "b_next ?t (item s i) = item s i"
    using ev h nn t1 by (auto simp: buf_message_post_def[of ?s1] Let_def fun_eq_iff)
  have ft: "flags ?t (item s i) = [st]" using f t by (simp add: flags_def)
  have "find (\<lambda>k. b_tbl ?t (pool_head ?t) k = 1) [1..<8] = Some st"
    using ft t unfolding find_filter flags_def by simp
  then have "find (\<lambda>k. b_tbl ?t (pool_head ?t) k = 1) [ST_PHY2MAC..<ST_MAC2CSMA + 1] = Some st" by simp
  then have "buf_message_poll ?t = ((?p, Some st),
     ?t\<lparr>b_tbl := (b_tbl ?t)(item s i := (b_tbl ?t (item s i))(st := 0)), pool_head := item s i,
       b_next := (b_next ?t)(item s i := NULL), pool_num := pool_num ?t - 1\<rparr>)"
    unfolding buf_message_poll_def Let_def using t nn by simp
  with flags_clear[OF ft] nn show ?thesis
    by (simp add: stuck_def flags_def Let_def)
qed

text \<open>C36: Posting a buffer twice with the same state into an otherwise empty pool wedges the pool: the first poll
  delivers the message, and after it \<open>buf_message_poll\<close> returns \<open>NULL\<close> however many other buffers are posted first,
  although they stay pending.\<close>

theorem double_post_wedges:
  assumes "msg_inv s" "msg_view s = []" "i < BUFFER_NUM" "1 \<le> st" "st \<le> 7"
    and "\<forall>(q, st') \<in> set ms. q \<noteq> data_of (item s i)"
  shows "let p = data_of (item s i); t = snd (buf_message_post (snd (buf_message_post s p st)) p st);
             u = snd (buf_message_poll t); v = fold (\<lambda>(q, st) w. snd (buf_message_post w q st)) ms u
         in fst (buf_message_poll t) = (p, Some st) \<and> fst (buf_message_poll v) = (NULL, None)"
proof -
  have "pool_of s []" using assms(1,2) by (simp add: msg_inv_def msg_view_def)
  note d = double_post[OF this assms(3-5)]
  show ?thesis
    using d stuck_posts[of _ ms] assms(6) stuck_poll by (simp add: Let_def)
qed

theorem double_post_wedges_witness:
  "let s = ev_buf_reset ev_buf0; p = data_of (item s 0);
       t = snd (buf_message_post (snd (buf_message_post s p 3)) p 3);
       u = snd (buf_message_poll t);
       v = fold (\<lambda>(q, st) w. snd (buf_message_post w q st)) [(0x84012C, 1)] u
   in fst (buf_message_poll t) = (p, Some 3) \<and> fst (buf_message_poll v) = (NULL, None)"
proof -
  have p: "placed ev_buf0" by (simp add: ev_buf0_def placed_def)
  have "item (ev_buf_reset ev_buf0) 0 = 0x840000"
    using reset_items[OF p] by (simp add: item_def ev_buf0_def)
  then have "\<forall>(q, st') \<in> set [(0x84012C :: ptr, 1 :: nat)]. q \<noteq> data_of (item (ev_buf_reset ev_buf0) 0)"
    by (simp add: data_of_def)
  then show ?thesis
    using double_post_wedges[of "ev_buf_reset ev_buf0" 0 3 "[(0x84012C, 1)]"] reset_inv[OF p]
    by (simp add: Let_def)
qed


section \<open>Freeing a queue\<close>

lemma ev_queue_pop_queue:
  assumes "is_queue s q xs"
  shows "\<exists>s'. ev_queue_pop s q = (if xs = [] then NULL else data_of (hd xs), s') \<and> is_queue s' q (tl xs)"
proof -
  obtain s' where s': "ev_queue_rawPop s q = (first xs, s')" "is_queue s' q (tl xs)"
    using rawPop_queue[OF assms] by auto
  have "xs \<noteq> [] \<Longrightarrow> hd xs \<noteq> NULL"
    using assms chain_nonnull[of "nexts s" "q_head (queue s q)" xs "hd xs"] by (simp add: is_queue_def)
  with s' show ?thesis by (cases xs) (auto simp: ev_queue_pop_def)
qed

lemma freeQ_loop_queue:
  "is_queue s q xs \<Longrightarrow> placed b \<Longrightarrow> set xs \<subseteq> all_items b \<Longrightarrow>
   \<exists>s' b'. freeQ_loop s b q = Some (s', b') \<and> is_queue s' q [] \<and>
           live_bufs b' = live_bufs b - data_of ` set xs"
proof (induction xs arbitrary: s b)
  case Nil
  then show ?case using ev_queue_pop_queue[of s q "[]"] by (auto simp: freeQ_loop.simps)
next
  case (Cons x xs)
  obtain s1 where s1: "ev_queue_pop s q = (data_of x, s1)" "is_queue s1 q xs"
    using ev_queue_pop_queue[OF Cons.prems(1)] by auto
  obtain i where i: "i < BUFFER_NUM" "x = item b i" using Cons.prems(3) by (auto simp: all_items_def)
  let ?b = "snd (ev_buf_free b (data_of x))"
  have b: "placed ?b" "all_items ?b = all_items b"
    using Cons.prems(2) by (simp_all add: ev_buf_free_def placed_def all_items_def Let_def)
  have l: "live_bufs ?b = live_bufs b - {data_of x}" using free_live[OF Cons.prems(2) i(1)] i by simp
  obtain s' b' where "freeQ_loop s1 ?b q = Some (s', b')" "is_queue s' q []"
      "live_bufs b' = live_bufs ?b - data_of ` set xs"
    using Cons.IH[OF s1(2) b(1)] Cons.prems(3) b by auto
  moreover have "data_of x \<noteq> NULL" using data_nonnull[OF Cons.prems(2) i(1)] i by simp
  ultimately show ?case using s1 l by (auto simp: freeQ_loop.simps[of s b])
qed

text \<open>\<open>ev_queue_freeQ\<close> of a queue of message buffers terminates, leaves the queue empty and frees
  exactly the buffers that were in it.\<close>

theorem ev_queue_freeQ_frees:
  assumes "is_queue s q xs" "q \<noteq> NULL" "placed b" "set xs \<subseteq> all_items b"
  shows "\<exists>s' b'. ev_queue_freeQ s b q = Some (QUEUE_SUCC, s', b') \<and> is_queue s' q [] \<and>
           live_bufs b' = live_bufs b - data_of ` set xs"
  using freeQ_loop_queue[OF assms(1,3,4)] assms(2) by (auto simp: ev_queue_freeQ_def)

theorem ev_queue_freeQ_frees_witness:
  "\<exists>s' b'. ev_queue_freeQ
       \<lparr>nexts = (\<lambda>_. NULL), queue = \<lambda>_. \<lparr>q_head = 0x840120, q_tail = 0x840120, q_priFunc = None, q_curNum = 1\<rparr>\<rparr>
       ev_buf0 4 = Some (QUEUE_SUCC, s', b') \<and> is_queue s' 4 [] \<and>
     live_bufs b' = live_bufs ev_buf0 - data_of ` set [0x840120]"
  by (rule ev_queue_freeQ_frees)
     (auto simp: is_queue_def ev_buf0_def placed_def all_items_def item_def image_iff intro!: bexI[of _ 1])

end
