(* ===== verification/TaskQueue.thy ===== *)
theory TaskQueue
  imports Fifo
begin

text \<open>
  The task queue of \<open>proj/os/task_queue.c\<close>: a ring of 16 tasks with free-running 8-bit write and
  read pointers, and the command ring of \<open>vendor/rc_app/app_common.c\<close>. Callbacks and their
  arguments are addresses; running a callback is an argument of \<open>tl_taskProcedure\<close>. Both rings are
  interpretations of the FIFO interface; the space check of the task queue compares promoted
  integers, and the last theorem shows what that does once the write pointer has wrapped.
\<close>

section \<open>Model\<close>

record tl_zb_task =
  tlCb :: ptr
  task_data :: ptr

abbreviation TASKQ_SIZE :: nat where "TASKQ_SIZE \<equiv> 16"

record tl_taskq =
  evt :: "tl_zb_task list"
  wptr :: u8
  rptr :: u8

datatype zb_ret = ZB_RET_OK | ZB_RET_OVERFLOW

text \<open>\<open>TL_QUEUE_HAS_SPACE\<close>: the 8-bit operands are promoted to \<open>int\<close> before the subtraction.\<close>

definition has_space :: "u8 \<Rightarrow> u8 \<Rightarrow> int \<Rightarrow> bool" where
  "has_space w r size_q \<longleftrightarrow> uint w - uint r < size_q"

definition tl_taskQPush :: "tl_taskq \<Rightarrow> u8 \<Rightarrow> tl_zb_task \<Rightarrow> zb_ret \<times> tl_taskq" where
  "tl_taskQPush q idx task =
     (if idx = 0 \<and> has_space (wptr q) (rptr q) (int TASKQ_SIZE) then
        (ZB_RET_OK, q\<lparr>evt := (evt q)[unat (wptr q) mod TASKQ_SIZE := task], wptr := wptr q + 1\<rparr>)
      else (ZB_RET_OVERFLOW, q))"

text \<open>\<open>None\<close> is the null pointer; otherwise the content of the slot, copied to \<open>taskInfo\<close>.\<close>

definition tl_taskQPop :: "tl_taskq \<Rightarrow> u8 \<Rightarrow> tl_zb_task option \<times> tl_taskq" where
  "tl_taskQPop q idx =
     (if idx = 0 \<and> rptr q \<noteq> wptr q then
        (Some (evt q ! (unat (rptr q) mod TASKQ_SIZE)), q\<lparr>rptr := rptr q + 1\<rparr>)
      else (None, q))"

definition task_sched_init :: "tl_taskq \<Rightarrow> tl_taskq" where
  "task_sched_init q = \<lparr>evt = replicate TASKQ_SIZE \<lparr>tlCb = 0, task_data = 0\<rparr>, wptr = 0, rptr = 0\<rparr>"

definition tl_userTaskQNum :: "tl_taskq \<Rightarrow> u8" where
  "tl_userTaskQNum q = wptr q - rptr q"

text \<open>The callback may itself post tasks: it is a transformer of the queue.\<close>

definition tl_taskProcedure :: "(ptr \<Rightarrow> ptr \<Rightarrow> tl_taskq \<Rightarrow> tl_taskq) \<Rightarrow> tl_taskq \<Rightarrow> tl_taskq" where
  "tl_taskProcedure call q =
     (case tl_taskQPop q 0 of
        (Some t, q') \<Rightarrow> call (tlCb t) (task_data t) q'
      | (None, q') \<Rightarrow> q')"

definition tl_isTaskDone :: "tl_taskq \<Rightarrow> bool" where
  "tl_isTaskDone q = (if wptr q \<noteq> rptr q then False else True)"

definition tl_taskPost :: "tl_taskq \<Rightarrow> ptr \<Rightarrow> ptr \<Rightarrow> zb_ret \<times> tl_taskq" where
  "tl_taskPost q func arg = tl_taskQPush q 0 \<lparr>tlCb = func, task_data = arg\<rparr>"

abbreviation APP_CMD_Q_SIZE :: nat where "APP_CMD_Q_SIZE \<equiv> 10"

record cmdQ =
  readPtr :: u8
  writePtr :: u8
  cmds :: "u8 list"

definition app_cmdQInit :: "cmdQ \<Rightarrow> cmdQ" where
  "app_cmdQInit q = \<lparr>readPtr = 0, writePtr = 0, cmds = replicate APP_CMD_Q_SIZE 0\<rparr>"

definition app_cmdQGetSize :: "cmdQ \<Rightarrow> u8" where
  "app_cmdQGetSize q = of_nat ((unat (writePtr q) + APP_CMD_Q_SIZE - unat (readPtr q)) mod APP_CMD_Q_SIZE)"

definition app_cmdQPush :: "cmdQ \<Rightarrow> u8 \<Rightarrow> bool \<times> cmdQ" where
  "app_cmdQPush q itm =
     (if (unat (writePtr q) + 1) mod APP_CMD_Q_SIZE = unat (readPtr q) then (False, q)
      else (True, q\<lparr>cmds := (cmds q)[unat (writePtr q) := itm],
                    writePtr := of_nat ((unat (writePtr q) + 1) mod APP_CMD_Q_SIZE)\<rparr>))"

definition app_cmdQPop :: "cmdQ \<Rightarrow> u8 \<times> cmdQ" where
  "app_cmdQPop q =
     (cmds q ! unat (readPtr q), q\<lparr>readPtr := of_nat ((unat (readPtr q) + 1) mod APP_CMD_Q_SIZE)\<rparr>)"

section \<open>The task ring as a FIFO\<close>

definition tq_view :: "tl_taskq \<Rightarrow> tl_zb_task list" where
  "tq_view q = ring_view TASKQ_SIZE (evt q) (unat (rptr q)) (unat (wptr q - rptr q))"

definition tq_inv :: "tl_taskq \<Rightarrow> bool" where
  "tq_inv q \<longleftrightarrow> length (evt q) = TASKQ_SIZE \<and> unat (wptr q - rptr q) \<le> TASKQ_SIZE"

definition tq_room :: "tl_taskq \<Rightarrow> tl_zb_task \<Rightarrow> bool" where
  "tq_room q t \<longleftrightarrow> unat (wptr q - rptr q) < TASKQ_SIZE"

lemma u8_plus_mod16: "unat (x + 1 :: u8) mod 16 = (unat x + 1) mod 16"
proof -
  have "unat (x + 1) = (unat x + 1) mod 256" by (simp add: unat_word_ariths)
  then show ?thesis by (simp add: mod_mod_cancel)
qed

lemma ptr_split: "unat (w :: u8) mod 16 = (unat r + unat (w - r)) mod 16"
proof -
  have "unat w = (unat r + unat (w - r)) mod 256"
    using unat_word_ariths(1)[of r "w - r"] by simp
  then show ?thesis by (simp add: mod_mod_cancel)
qed

lemma u8_diff_Suc: "unat (w - r :: u8) < 255 \<Longrightarrow> unat (w + 1 - r) = Suc (unat (w - r))"
proof -
  assume l: "unat (w - r) < 255"
  have "w + 1 - r = (w - r) + 1" by (simp add: algebra_simps)
  moreover have "unat ((w - r) + 1) = unat (w - r) + 1"
    using l by (subst unat_add_small) simp_all
  ultimately show ?thesis by (simp only: Suc_eq_plus1)
qed

lemma has_space_room: "unat (w - r) < 16 \<Longrightarrow> has_space w r 16"
proof -
  assume l: "unat (w - r) < 16"
  show ?thesis
  proof (cases "r \<le> w")
    case True
    then have "unat (w - r) = unat w - unat r" "unat r \<le> unat w"
      by (simp_all add: unat_sub word_le_nat_alt)
    with l show ?thesis unfolding has_space_def uint_nat by linarith
  next
    case False
    then show ?thesis by (simp add: has_space_def word_le_def)
  qed
qed

lemma tq_push_view:
  assumes "tq_inv q" "tq_room q t"
  shows "fst (tl_taskQPush q 0 t) = ZB_RET_OK \<and> tq_inv (snd (tl_taskQPush q 0 t)) \<and>
         tq_view (snd (tl_taskQPush q 0 t)) = tq_view q @ [t]"
proof -
  let ?n = "unat (wptr q - rptr q)"
  have n: "?n < 16" using assms(2) by (simp add: tq_room_def)
  have d: "unat (wptr q + 1 - rptr q) = Suc ?n" using n by (intro u8_diff_Suc) simp
  have "ring_view 16 ((evt q)[unat (wptr q) mod 16 := t]) (unat (rptr q)) (Suc ?n) =
        ring_view 16 (evt q) (unat (rptr q)) ?n @ [t]"
    using n assms(1) ring_view_put[of ?n 16 "evt q" "unat (rptr q)" t]
    unfolding ptr_split[of "wptr q" "rptr q"] by (simp add: tq_inv_def)
  with has_space_room[OF n] n d assms(1) show ?thesis
    by (simp add: tl_taskQPush_def tq_view_def tq_inv_def)
qed

lemma tq_pop_view:
  assumes "tq_inv q"
  shows "tq_inv (snd (tl_taskQPop q 0)) \<and> tq_view (snd (tl_taskQPop q 0)) = tl (tq_view q) \<and>
         fst (tl_taskQPop q 0) = (case tq_view q of [] \<Rightarrow> None | t # _ \<Rightarrow> Some t)"
proof (cases "rptr q = wptr q")
  case True
  then have "tq_view q = []" by (simp add: tq_view_def)
  with True assms show ?thesis by (simp add: tl_taskQPop_def)
next
  case False
  let ?n = "unat (wptr q - (rptr q + 1))"
  have nz: "wptr q - rptr q \<noteq> 0" using False by simp
  have "unat (wptr q - rptr q - 1) = unat (wptr q - rptr q) - 1" using nz by (rule unat_minus_one)
  moreover have "wptr q - rptr q - 1 = wptr q - (rptr q + 1)" by simp
  moreover have "0 < unat (wptr q - rptr q)" using nz unat_gt_0 by metis
  ultimately have n: "unat (wptr q - rptr q) = Suc ?n" by simp
  have "tq_view q = evt q ! (unat (rptr q) mod 16) # ring_view 16 (evt q) (Suc (unat (rptr q))) ?n"
    unfolding tq_view_def n ring_view_Suc ..
  also have "ring_view 16 (evt q) (Suc (unat (rptr q))) ?n = ring_view 16 (evt q) (unat (rptr q + 1)) ?n"
    using ring_view_mod[of 16 "evt q" "Suc (unat (rptr q))" ?n] ring_view_mod[of 16 "evt q" "unat (rptr q + 1)" ?n]
    by (simp add: u8_plus_mod16)
  finally have v: "tq_view q = evt q ! (unat (rptr q) mod 16) # ring_view 16 (evt q) (unat (rptr q + 1)) ?n" .
  then show ?thesis
    using False n assms by (simp add: tl_taskQPop_def tq_view_def[of "q\<lparr>rptr := r\<rparr>" for r] tq_inv_def)
qed

interpretation tq: fifo tq_inv tq_view tq_room "\<lambda>q t. snd (tl_taskQPush q 0 t)" "\<lambda>q. tl_taskQPop q 0"
  by unfold_locales (use tq_push_view tq_pop_view in auto)


section \<open>The command ring as a FIFO\<close>

definition cmdQ_ok :: "cmdQ \<Rightarrow> bool" where
  "cmdQ_ok q \<longleftrightarrow> length (cmds q) = APP_CMD_Q_SIZE \<and> unat (readPtr q) < APP_CMD_Q_SIZE \<and>
     unat (writePtr q) < APP_CMD_Q_SIZE"

definition cmdQ_view :: "cmdQ \<Rightarrow> u8 list" where
  "cmdQ_view q = ring_view APP_CMD_Q_SIZE (cmds q) (unat (readPtr q)) (unat (app_cmdQGetSize q))"

definition cmdQ_room :: "cmdQ \<Rightarrow> u8 \<Rightarrow> bool" where
  "cmdQ_room q c \<longleftrightarrow> unat (app_cmdQGetSize q) < 9"

text \<open>The callers pop only when \<open>app_cmdQGetSize\<close> is not 0.\<close>

definition cmdQ_deq :: "cmdQ \<Rightarrow> u8 option \<times> cmdQ" where
  "cmdQ_deq q = (if app_cmdQGetSize q \<noteq> 0 then (let (c, q') = app_cmdQPop q in (Some c, q')) else (None, q))"

lemma unat_small8: "n < 10 \<Longrightarrow> unat (of_nat n :: u8) = n"
  by (rule unat_of_nat_small) simp

lemma cmdQ_size: "unat (app_cmdQGetSize q) = (unat (writePtr q) + 10 - unat (readPtr q)) mod 10"
  unfolding app_cmdQGetSize_def by (rule unat_small8) simp

lemma ring_size:
  fixes r w :: nat
  assumes "r < 10" "w < 10"
  shows "(r + (w + 10 - r) mod 10) mod 10 = w"
    and "(w + 1) mod 10 = r \<longleftrightarrow> (w + 10 - r) mod 10 = 9"
    and "(w + 10 - r) mod 10 < 9 \<Longrightarrow> ((w + 1) mod 10 + 10 - r) mod 10 = Suc ((w + 10 - r) mod 10)"
    and "(w + 10 - r) mod 10 \<noteq> 0 \<Longrightarrow> (w + 10 - r) mod 10 = Suc ((w + 10 - (r + 1) mod 10) mod 10)"
proof -
  have d: "(v + 10 - u) mod 10 = (if u \<le> v then v - u else v + 10 - u)" if "u < 10" "v < 10" for u v :: nat
    using that by (simp add: mod_if)
  have p: "(v + 1) mod 10 = (if v = 9 then 0 else v + 1)" if "v < 10" for v :: nat
    using that by (simp add: mod_if)
  have m: "(v + 1) mod 10 < 10" for v :: nat by simp
  show "(r + (w + 10 - r) mod 10) mod 10 = w"
    unfolding d[OF assms] using assms by (simp add: mod_if)
  show "(w + 1) mod 10 = r \<longleftrightarrow> (w + 10 - r) mod 10 = 9"
    unfolding d[OF assms] p[OF assms(2)] using assms by auto
  show "(w + 10 - r) mod 10 < 9 \<Longrightarrow> ((w + 1) mod 10 + 10 - r) mod 10 = Suc ((w + 10 - r) mod 10)"
    unfolding d[OF assms] d[OF assms(1) m] unfolding p[OF assms(2)] using assms by (auto split: if_splits)
  show "(w + 10 - r) mod 10 \<noteq> 0 \<Longrightarrow> (w + 10 - r) mod 10 = Suc ((w + 10 - (r + 1) mod 10) mod 10)"
    unfolding d[OF assms] d[OF m assms(2)] unfolding p[OF assms(1)] using assms by (auto split: if_splits)
qed

lemma cmdQ_push_view:
  assumes "cmdQ_ok q"
  shows "fst (app_cmdQPush q c) = cmdQ_room q c"
    and "cmdQ_room q c \<Longrightarrow> cmdQ_ok (snd (app_cmdQPush q c)) \<and>
         cmdQ_view (snd (app_cmdQPush q c)) = cmdQ_view q @ [c]"
proof -
  let ?r = "unat (readPtr q)" and ?w = "unat (writePtr q)"
  have b: "?r < 10" "?w < 10" and l: "length (cmds q) = 10" using assms by (auto simp: cmdQ_ok_def)
  have lt: "(?w + 10 - ?r) mod 10 < 10" by simp
  show room: "fst (app_cmdQPush q c) = cmdQ_room q c"
    using ring_size(2)[OF b] lt by (auto simp: app_cmdQPush_def cmdQ_room_def cmdQ_size)
  assume r: "cmdQ_room q c"
  then have n: "(?w + 10 - ?r) mod 10 < 9" by (simp add: cmdQ_room_def cmdQ_size)
  have ne: "(?w + 1) mod 10 \<noteq> ?r" using ring_size(2)[OF b] n by simp
  let ?q = "snd (app_cmdQPush q c)"
  have q: "?q = q\<lparr>cmds := (cmds q)[?w := c], writePtr := of_nat ((?w + 1) mod 10)\<rparr>"
    using ne by (simp add: app_cmdQPush_def)
  have w: "unat (writePtr ?q) = (?w + 1) mod 10"
    unfolding q by (simp add: unat_small8)
  have s: "unat (app_cmdQGetSize ?q) = Suc ((?w + 10 - ?r) mod 10)"
    unfolding cmdQ_size w using ring_size(3)[OF b n] by (simp add: q)
  have "ring_view 10 ((cmds q)[?w := c]) ?r (Suc ((?w + 10 - ?r) mod 10)) = cmdQ_view q @ [c]"
    using ring_view_put[of "(?w + 10 - ?r) mod 10" 10 "cmds q" ?r c] n l
    unfolding ring_size(1)[OF b] cmdQ_view_def cmdQ_size by simp
  then have "cmdQ_view ?q = cmdQ_view q @ [c]"
    unfolding cmdQ_view_def[of ?q] s by (simp add: q)
  moreover have "cmdQ_ok ?q" using b l w by (simp add: cmdQ_ok_def q)
  ultimately show "cmdQ_ok ?q \<and> cmdQ_view ?q = cmdQ_view q @ [c]" by simp
qed

lemma cmdQ_deq_view:
  assumes "cmdQ_ok q"
  shows "cmdQ_ok (snd (cmdQ_deq q)) \<and> cmdQ_view (snd (cmdQ_deq q)) = tl (cmdQ_view q) \<and>
         fst (cmdQ_deq q) = (case cmdQ_view q of [] \<Rightarrow> None | c # _ \<Rightarrow> Some c)"
proof (cases "unat (app_cmdQGetSize q) = 0")
  case True
  then have "app_cmdQGetSize q = 0" by (metis unat_eq_0)
  with True assms show ?thesis by (simp add: cmdQ_deq_def cmdQ_view_def)
next
  case False
  let ?r = "unat (readPtr q)" and ?w = "unat (writePtr q)"
  let ?q = "q\<lparr>readPtr := of_nat ((?r + 1) mod 10)\<rparr>"
  have b: "?r < 10" "?w < 10" and l: "length (cmds q) = 10" using assms by (auto simp: cmdQ_ok_def)
  have nz: "app_cmdQGetSize q \<noteq> 0" using False by auto
  have d: "cmdQ_deq q = (Some (cmds q ! ?r), ?q)"
    using nz by (simp add: cmdQ_deq_def app_cmdQPop_def)
  have r: "unat (readPtr ?q) = (?r + 1) mod 10" by (simp add: unat_small8)
  have s: "unat (app_cmdQGetSize q) = Suc (unat (app_cmdQGetSize ?q))"
    using ring_size(4)[OF b] False unfolding cmdQ_size r by simp
  have "cmdQ_view q = cmds q ! (?r mod 10) # ring_view 10 (cmds q) (Suc ?r) (unat (app_cmdQGetSize ?q))"
    unfolding cmdQ_view_def s ring_view_Suc ..
  also have "ring_view 10 (cmds q) (Suc ?r) (unat (app_cmdQGetSize ?q)) = cmdQ_view ?q"
    using ring_view_mod[of 10 "cmds q" "Suc ?r"] unfolding cmdQ_view_def r by simp
  finally have v: "cmdQ_view q = cmds q ! ?r # cmdQ_view ?q" using b by simp
  have "cmdQ_ok ?q" using b l r by (simp add: cmdQ_ok_def)
  with v d show ?thesis by simp
qed

interpretation cmdq: fifo cmdQ_ok cmdQ_view cmdQ_room "\<lambda>q c. snd (app_cmdQPush q c)" cmdQ_deq
  by unfold_locales (use cmdQ_push_view cmdQ_deq_view in auto)


section \<open>Properties\<close>

text \<open>C24: as long as a task is only posted when fewer than 16 are pending, every post is accepted
  and the tasks run in posting order, over any interleaving and any number of wraps of the 8-bit
  pointers.\<close>

theorem task_queue_fifo:
  assumes "tq_inv q"
  shows "fst (tq.run q ops) @ tq_view (snd (tq.run q ops)) = tq_view q @ tq.accepted q ops \<and>
         (tq_room q t \<longrightarrow> fst (tl_taskQPush q 0 t) = ZB_RET_OK)"
  using tq.run_fifo[OF assms] tq_push_view[OF assms] by simp

lemma sched_init: "tq_inv (task_sched_init q) \<and> tq_view (task_sched_init q) = []"
  by (simp add: task_sched_init_def tq_inv_def tq_view_def)

theorem task_queue_fifo_witness:
  "let q = task_sched_init \<lparr>evt = [], wptr = 3, rptr = 1\<rparr>; t = \<lparr>tlCb = 7, task_data = 8\<rparr>
   in fst (tq.run q [Put t, Get, Get]) @ tq_view (snd (tq.run q [Put t, Get, Get])) =
      tq_view q @ tq.accepted q [Put t, Get, Get] \<and>
      (tq_room q t \<longrightarrow> fst (tl_taskQPush q 0 t) = ZB_RET_OK)"
  unfolding Let_def by (rule task_queue_fifo) (simp add: sched_init)

lemma full_wrapped_push:
  assumes "tq_inv q" "length (tq_view q) = 16"
  shows "fst (tl_taskQPush q 0 t) = (if wptr q < rptr q then ZB_RET_OK else ZB_RET_OVERFLOW)"
proof -
  have n: "unat (wptr q - rptr q) = 16" using assms(2) by (simp add: tq_view_def)
  have "has_space (wptr q) (rptr q) 16 \<longleftrightarrow> wptr q < rptr q"
  proof (cases "rptr q \<le> wptr q")
    case True
    then have "unat (wptr q - rptr q) = unat (wptr q) - unat (rptr q)" "unat (rptr q) \<le> unat (wptr q)"
      by (simp_all add: unat_sub word_le_nat_alt)
    with n have "uint (wptr q) - uint (rptr q) = 16" unfolding uint_nat by linarith
    with True show ?thesis by (simp add: has_space_def)
  next
    case False
    then show ?thesis by (simp add: has_space_def word_le_def word_less_def)
  qed
  then show ?thesis by (simp add: tl_taskQPush_def)
qed

text \<open>C37: with 16 tasks pending a further post is refused only while the write pointer is not behind
  the read pointer; after the write pointer has wrapped past 255 the post is accepted although the
  ring is full, and the next task to run is the new one: the oldest task is lost.\<close>

theorem task_queue_full_wrap_overwrites:
  assumes "tq_inv q" "length (tq_view q) = 16"
  shows "fst (tl_taskQPush q 0 t) = (if wptr q < rptr q then ZB_RET_OK else ZB_RET_OVERFLOW)
     \<and> (wptr q < rptr q \<longrightarrow> fst (tl_taskQPop (snd (tl_taskQPush q 0 t)) 0) = Some t)"
proof -
  have n: "unat (wptr q - rptr q) = 16" using assms(2) by (simp add: tq_view_def)
  have l: "length (evt q) = 16" using assms(1) by (simp add: tq_inv_def)
  have same: "unat (wptr q) mod 16 = unat (rptr q) mod 16"
    using ptr_split[of "wptr q" "rptr q"] n by simp
  have ne: "rptr q \<noteq> wptr q + 1"
  proof
    assume "rptr q = wptr q + 1"
    then have "wptr q - rptr q = -1" by simp
    then have "unat (wptr q - rptr q) = 255" by (simp add: unsigned_minus_1_eq_mask mask_eq_exp_minus_1)
    with n show False by simp
  qed
  show ?thesis
    using full_wrapped_push[OF assms, of t] l same ne
    by (auto simp: tl_taskQPush_def tl_taskQPop_def split: if_splits)
qed

lemma cycles_reach:
  "tq_inv q \<Longrightarrow> tq_view q = [] \<Longrightarrow>
   \<exists>q'. snd (tq.run q (concat (replicate n [Put t, Get]))) = q' \<and> tq_inv q' \<and> tq_view q' = [] \<and>
        wptr q' = wptr q + of_nat n \<and> rptr q' = rptr q + of_nat n"
proof (induction n arbitrary: q)
  case 0
  then show ?case by simp
next
  case (Suc n)
  have w: "rptr q = wptr q" and r: "tq_room q t"
    using Suc.prems by (auto simp: tq_view_def tq_room_def unat_eq_0)
  obtain q1 where q1: "tl_taskQPush q 0 t = (ZB_RET_OK, q1)" "tq_inv q1" "tq_view q1 = [t]"
    using tq_push_view[OF Suc.prems(1) r] Suc.prems(2) by (cases "tl_taskQPush q 0 t") auto
  then have p1: "wptr q1 = wptr q + 1" "rptr q1 = rptr q" by (auto simp: tl_taskQPush_def split: if_splits)
  obtain q2 where q2: "tl_taskQPop q1 0 = (Some t, q2)" "tq_inv q2" "tq_view q2 = []"
    using tq_pop_view[OF q1(2)] q1(3) by (cases "tl_taskQPop q1 0") auto
  then have p2: "wptr q2 = wptr q1" "rptr q2 = rptr q1 + 1" by (auto simp: tl_taskQPop_def split: if_splits)
  have run: "snd (tq.run q (concat (replicate (Suc n) [Put t, Get]))) = snd (tq.run q2 (concat (replicate n [Put t, Get])))"
    using r q1 q2 by (simp add: split_beta)
  show ?case
    unfolding run using Suc.IH[OF q2(2,3)] p1 p2 by (simp add: add.assoc)
qed

lemma puts_reach:
  "tq_inv q \<Longrightarrow> length (tq_view q) + n \<le> 16 \<Longrightarrow>
   \<exists>q'. snd (tq.run q (replicate n (Put t))) = q' \<and> tq_inv q' \<and> length (tq_view q') = length (tq_view q) + n \<and>
        wptr q' = wptr q + of_nat n \<and> rptr q' = rptr q"
proof (induction n arbitrary: q)
  case 0
  then show ?case by simp
next
  case (Suc n)
  have r: "tq_room q t" using Suc.prems(2) by (simp add: tq_view_def tq_room_def)
  obtain q1 where q1: "tl_taskQPush q 0 t = (ZB_RET_OK, q1)" "tq_inv q1" "tq_view q1 = tq_view q @ [t]"
    using tq_push_view[OF Suc.prems(1) r] by (cases "tl_taskQPush q 0 t") auto
  then have p1: "wptr q1 = wptr q + 1" "rptr q1 = rptr q" by (auto simp: tl_taskQPush_def split: if_splits)
  have run: "snd (tq.run q (replicate (Suc n) (Put t))) = snd (tq.run q1 (replicate n (Put t)))"
    using r q1 by simp
  show ?case
    unfolding run using Suc.IH[OF q1(2)] Suc.prems(2) p1 q1(3) by (simp add: add.assoc)
qed

text \<open>The state is reached from the initial one: 248 tasks posted and run one after the other, then
  16 posts.\<close>

theorem task_queue_full_wrap_overwrites_witness:
  "let q0 = task_sched_init \<lparr>evt = [], wptr = 3, rptr = 1\<rparr>; t = \<lparr>tlCb = 7, task_data = 8\<rparr>;
       t' = \<lparr>tlCb = 9, task_data = 9\<rparr>;
       q = snd (tq.run (snd (tq.run q0 (concat (replicate 248 [Put t, Get])))) (replicate 16 (Put t)))
   in fst (tl_taskQPush q 0 t') = ZB_RET_OK \<and> fst (tl_taskQPop (snd (tl_taskQPush q 0 t')) 0) = Some t'"
proof -
  let ?q0 = "task_sched_init \<lparr>evt = [], wptr = 3, rptr = 1\<rparr>"
  let ?t = "\<lparr>tlCb = 7, task_data = 8\<rparr>" and ?t' = "\<lparr>tlCb = 9, task_data = 9\<rparr>"
  have i: "tq_inv ?q0" "tq_view ?q0 = []" "wptr ?q0 = 0" "rptr ?q0 = 0"
    by (simp_all add: sched_init) (simp_all add: task_sched_init_def)
  obtain q1 where q1: "snd (tq.run ?q0 (concat (replicate 248 [Put ?t, Get]))) = q1" "tq_inv q1"
      "tq_view q1 = []" and p1: "wptr q1 = wptr ?q0 + of_nat 248" "rptr q1 = rptr ?q0 + of_nat 248"
    using cycles_reach[OF i(1,2), of 248 ?t] by blast
  have "length (tq_view q1) + 16 \<le> 16" using q1 by simp
  then obtain q2 where q2: "snd (tq.run q1 (replicate 16 (Put ?t))) = q2" "tq_inv q2"
      "length (tq_view q2) = length (tq_view q1) + 16"
      and p2: "wptr q2 = wptr q1 + of_nat 16" "rptr q2 = rptr q1"
    using puts_reach[OF q1(2), of 16 ?t] by blast
  have v: "length (tq_view q2) = 16" using q1 q2 by simp
  have w: "wptr q2 < rptr q2" using p1 p2 i by simp
  show ?thesis
    unfolding Let_def q1(1) q2(1)
    using task_queue_full_wrap_overwrites[OF q2(2) v, of ?t'] w by simp
qed

text \<open>The command ring of the remote keeps at most nine commands, refuses a push exactly when
  nine are pending, and hands them out in order.\<close>

theorem cmd_queue_fifo:
  assumes "cmdQ_ok q"
  shows "fst (cmdq.run q ops) @ cmdQ_view (snd (cmdq.run q ops)) = cmdQ_view q @ cmdq.accepted q ops \<and>
         (fst (app_cmdQPush q c) \<longleftrightarrow> length (cmdQ_view q) < 9)"
  using cmdq.run_fifo[OF assms] cmdQ_push_view(1)[OF assms] by (simp add: cmdQ_room_def cmdQ_view_def)

theorem cmd_queue_fifo_witness:
  "let q = app_cmdQInit \<lparr>readPtr = 1, writePtr = 2, cmds = []\<rparr>
   in fst (cmdq.run q [Put 5, Get]) @ cmdQ_view (snd (cmdq.run q [Put 5, Get])) =
      cmdQ_view q @ cmdq.accepted q [Put 5, Get] \<and> (fst (app_cmdQPush q 4) \<longleftrightarrow> length (cmdQ_view q) < 9)"
  unfolding Let_def by (rule cmd_queue_fifo) (simp add: app_cmdQInit_def cmdQ_ok_def)

end
