(* ===== verification/TimerEvent.thy ===== *)
theory TimerEvent
  imports Prelude "HOL-Library.Sublist"
begin

text \<open>
  The software timers of \<open>proj/os/timer_event.c\<close>: two arrays of timer entries (12 for the
  application, 10 for the stack), allocated round robin, fired by \<open>ev_process_timer\<close> on the wrapping
  32-bit clock. A callback is an address; what it does is an argument of the model: from the state
  of the world it computes its return value, the timer calls it makes, and the next world. A call
  that hangs (\<open>while(1)\<close>: no free entry, null callback, a pointer outside the list) gives \<open>None\<close>.
  \<open>S_TIMER_CLOCK_1US\<close> (clock ticks per microsecond) is the field \<open>ticks_us\<close>.
\<close>

section \<open>Model\<close>

record ev_time_event =
  te_cb :: ptr
  te_t :: u32
  te_interval :: u32
  te_data :: ptr
  te_valid :: u8
  te_busy :: u8

record timers =
  evTimer_list :: "ev_time_event list"
  stackTimer_list :: "ev_time_event list"
  evtimer_current_pos :: nat
  stacktimer_current_pos :: nat
  ticks_us :: u32

text \<open>A pointer into one of the two lists.\<close>

datatype timer_ref = EvTimer nat | StackTimer nat

definition TL_EV_TASK :: u8 where "TL_EV_TASK = 0xA5"
definition TL_STACK_TASK :: u8 where "TL_STACK_TASK = 0xA6"
definition EV_TIMER_SAFE_MARGIN_US :: u32 where "EV_TIMER_SAFE_MARGIN_US = 4000000"

definition ev_is_timer_expired :: "u32 \<Rightarrow> ev_time_event \<Rightarrow> u32 \<Rightarrow> bool" where
  "ev_is_timer_expired us e now \<longleftrightarrow> now - te_t e < EV_TIMER_SAFE_MARGIN_US * us"

definition start_timer :: "u32 \<Rightarrow> ev_time_event \<Rightarrow> ev_time_event" where
  "start_timer now e = e\<lparr>te_t := now + te_interval e, te_valid := 1\<rparr>"

definition cancel_timer :: "ev_time_event \<Rightarrow> ev_time_event" where
  "cancel_timer e = e\<lparr>te_valid := 2, te_busy := 2\<rparr>"

text \<open>The search loop of \<open>on_timer\<close>: \<open>n\<close> probes remain; \<open>(Some k, pos)\<close> when entry \<open>k\<close> is free.\<close>

fun find_free :: "ev_time_event list \<Rightarrow> nat \<Rightarrow> nat \<Rightarrow> nat option \<times> nat" where
  "find_free es 0 pos = (None, pos)"
| "find_free es (Suc n) pos =
     (if te_busy (es ! pos) = 0 then (Some pos, (pos + 1) mod length es)
      else find_free es n ((pos + 1) mod length es))"

definition alloc_entry ::
  "u32 \<Rightarrow> u32 \<Rightarrow> ptr \<Rightarrow> ptr \<Rightarrow> u32 \<Rightarrow> ev_time_event list \<Rightarrow> nat \<Rightarrow> (nat \<times> ev_time_event list \<times> nat) option" where
  "alloc_entry now us cb data t_us es pos =
     (case find_free es (length es) pos of
        (None, _) \<Rightarrow> None
      | (Some k, pos') \<Rightarrow>
          Some (k, es[k := start_timer now ((es ! k)\<lparr>te_busy := 1, te_interval := t_us * us,
                                                    te_cb := cb, te_data := data\<rparr>)], pos'))"

definition on_timer ::
  "u32 \<Rightarrow> u8 \<Rightarrow> ptr \<Rightarrow> ptr \<Rightarrow> u32 \<Rightarrow> timers \<Rightarrow> (timer_ref option \<times> timers) option" where
  "on_timer now idx cb data t_us s =
     (if cb = NULL then None
      else if idx = TL_EV_TASK then
        (case alloc_entry now (ticks_us s) cb data t_us (evTimer_list s) (evtimer_current_pos s) of
           None \<Rightarrow> None
         | Some (k, es, pos) \<Rightarrow> Some (Some (EvTimer k), s\<lparr>evTimer_list := es, evtimer_current_pos := pos\<rparr>))
      else if idx = TL_STACK_TASK then
        (case alloc_entry now (ticks_us s) cb data t_us (stackTimer_list s) (stacktimer_current_pos s) of
           None \<Rightarrow> None
         | Some (k, es, pos) \<Rightarrow> Some (Some (StackTimer k), s\<lparr>stackTimer_list := es, stacktimer_current_pos := pos\<rparr>))
      else Some (None, s))"

definition ev_on_timer :: "u32 \<Rightarrow> ptr \<Rightarrow> ptr \<Rightarrow> u32 \<Rightarrow> timers \<Rightarrow> (timer_ref option \<times> timers) option" where
  "ev_on_timer now cb data t_us s = on_timer now TL_EV_TASK cb data t_us s"

definition stk_on_timer :: "u32 \<Rightarrow> ptr \<Rightarrow> ptr \<Rightarrow> u32 \<Rightarrow> timers \<Rightarrow> (timer_ref option \<times> timers) option" where
  "stk_on_timer now cb data t_us s = on_timer now TL_STACK_TASK cb data t_us s"

text \<open>Cancelling: \<open>None\<close> as a reference is the null pointer.\<close>

definition ev_unon_timer :: "timer_ref option \<Rightarrow> timers \<Rightarrow> timers option" where
  "ev_unon_timer r s =
     (case r of
        None \<Rightarrow> Some s
      | Some (EvTimer k) \<Rightarrow>
          if k < length (evTimer_list s)
          then Some (s\<lparr>evTimer_list := (evTimer_list s)[k := cancel_timer (evTimer_list s ! k)]\<rparr>)
          else None
      | Some (StackTimer k) \<Rightarrow> None)"

definition stk_unon_timer :: "timer_ref option \<Rightarrow> timers \<Rightarrow> timers option" where
  "stk_unon_timer r s =
     (case r of
        None \<Rightarrow> Some s
      | Some (StackTimer k) \<Rightarrow>
          if k < length (stackTimer_list s)
          then Some (s\<lparr>stackTimer_list := (stackTimer_list s)[k := cancel_timer (stackTimer_list s ! k)]\<rparr>)
          else None
      | Some (EvTimer k) \<Rightarrow> None)"

definition is_timer_expired :: "ev_time_event option \<Rightarrow> bool" where
  "is_timer_expired e =
     (case e of None \<Rightarrow> True | Some e \<Rightarrow> if te_valid e = 1 then False else True)"

text \<open>The timer calls a callback can make, each with its own clock reading.\<close>

datatype timer_call =
  OnTimer u32 u8 ptr ptr u32
| EvUnon "timer_ref option"
| StkUnon "timer_ref option"

fun exec_call :: "timer_call \<Rightarrow> timers \<Rightarrow> timers option" where
  "exec_call (OnTimer now idx cb data t_us) s = map_option snd (on_timer now idx cb data t_us s)"
| "exec_call (EvUnon r) s = ev_unon_timer r s"
| "exec_call (StkUnon r) s = stk_unon_timer r s"

fun exec_calls :: "timer_call list \<Rightarrow> timers \<Rightarrow> timers option" where
  "exec_calls [] s = Some s"
| "exec_calls (c # cs) s = (case exec_call c s of None \<Rightarrow> None | Some s' \<Rightarrow> exec_calls cs s')"

type_synonym 'w callback = "ptr \<Rightarrow> ptr \<Rightarrow> 'w \<Rightarrow> int \<times> timer_call list \<times> 'w"

definition get_timer :: "timers \<Rightarrow> timer_ref \<Rightarrow> ev_time_event" where
  "get_timer s r = (case r of EvTimer k \<Rightarrow> evTimer_list s ! k | StackTimer k \<Rightarrow> stackTimer_list s ! k)"

definition set_timer :: "timers \<Rightarrow> timer_ref \<Rightarrow> ev_time_event \<Rightarrow> timers" where
  "set_timer s r e =
     (case r of EvTimer k \<Rightarrow> s\<lparr>evTimer_list := (evTimer_list s)[k := e]\<rparr>
      | StackTimer k \<Rightarrow> s\<lparr>stackTimer_list := (stackTimer_list s)[k := e]\<rparr>)"

definition reap :: "ev_time_event \<Rightarrow> ev_time_event" where
  "reap e = (if te_valid e = 2 then e\<lparr>te_busy := 0, te_valid := 0\<rparr> else e)"

definition reap_all :: "timers \<Rightarrow> timers" where
  "reap_all s = s\<lparr>evTimer_list := map reap (evTimer_list s), stackTimer_list := map reap (stackTimer_list s)\<rparr>"

text \<open>What happens to an entry after its callback has returned \<open>t\<close>.\<close>

definition after_callback :: "u32 \<Rightarrow> u32 \<Rightarrow> int \<Rightarrow> ev_time_event \<Rightarrow> ev_time_event" where
  "after_callback us now t e =
     (if t < 0 then cancel_timer e
      else if t = 0 then e\<lparr>te_t := now + te_interval e\<rparr>
      else e\<lparr>te_interval := of_int t * us, te_t := now + of_int t * us\<rparr>)"

definition due :: "u32 \<Rightarrow> timers \<Rightarrow> timer_ref \<Rightarrow> bool" where
  "due now s r \<longleftrightarrow> \<not> is_timer_expired (Some (get_timer s r)) \<and> ev_is_timer_expired (ticks_us s) (get_timer s r) now"

definition fire :: "'w callback \<Rightarrow> u32 \<Rightarrow> timer_ref \<Rightarrow> timers \<Rightarrow> 'w \<Rightarrow> (timers \<times> 'w) option" where
  "fire call now r s w =
     (let e = get_timer s r; (t, cs, w') = call (te_cb e) (te_data e) w in
      case exec_calls cs s of
        None \<Rightarrow> None
      | Some s' \<Rightarrow> Some (set_timer s' r (after_callback (ticks_us s') now t (get_timer s' r)), w'))"

text \<open>The firing loop over the given entries; the list of fired entries is recorded.\<close>

fun fire_loop ::
  "'w callback \<Rightarrow> u32 \<Rightarrow> timer_ref list \<Rightarrow> timers \<Rightarrow> 'w \<Rightarrow> (timer_ref list \<times> timers \<times> 'w) option" where
  "fire_loop call now [] s w = Some ([], s, w)"
| "fire_loop call now (r # rs) s w =
     (if due now s r then
        (case fire call now r s w of
           None \<Rightarrow> None
         | Some (s', w') \<Rightarrow> map_option (\<lambda>(fs, t). (r # fs, t)) (fire_loop call now rs s' w'))
      else fire_loop call now rs s w)"

definition all_refs :: "timers \<Rightarrow> timer_ref list" where
  "all_refs s = map EvTimer [0..<length (evTimer_list s)] @ map StackTimer [0..<length (stackTimer_list s)]"

definition ev_process_timer ::
  "'w callback \<Rightarrow> u32 \<Rightarrow> timers \<Rightarrow> 'w \<Rightarrow> (timer_ref list \<times> timers \<times> 'w) option" where
  "ev_process_timer call now s w = (let s1 = reap_all s in fire_loop call now (all_refs s1) s1 w)"

definition ev_timer_event_idle :: "timers \<Rightarrow> bool" where
  "ev_timer_event_idle s = list_all (\<lambda>e. te_busy e = 0) (evTimer_list s)"

definition stack_timer_event_idle :: "timers \<Rightarrow> bool" where
  "stack_timer_event_idle s = list_all (\<lambda>e. te_busy e = 0) (stackTimer_list s)"

definition timer_event_idle :: "timers \<Rightarrow> bool" where
  "timer_event_idle s =
     (list_all (\<lambda>e. te_busy e = 0) (evTimer_list s) \<and> list_all (\<lambda>e. te_busy e = 0) (stackTimer_list s))"

section \<open>The invariant\<close>

text \<open>An entry is free, running, or cancelled and not yet reaped.\<close>

definition entry_ok :: "ev_time_event \<Rightarrow> bool" where
  "entry_ok e \<longleftrightarrow> (te_valid e, te_busy e) \<in> {(0, 0), (1, 1), (2, 2)}"

definition timers_ok :: "timers \<Rightarrow> bool" where
  "timers_ok s \<longleftrightarrow> length (evTimer_list s) = 12 \<and> length (stackTimer_list s) = 10 \<and>
     evtimer_current_pos s < 12 \<and> stacktimer_current_pos s < 10 \<and>
     (\<forall>e \<in> set (evTimer_list s). entry_ok e) \<and> (\<forall>e \<in> set (stackTimer_list s). entry_ok e)"

definition valid_ref :: "timer_ref \<Rightarrow> bool" where
  "valid_ref r = (case r of EvTimer k \<Rightarrow> k < 12 | StackTimer k \<Rightarrow> k < 10)"


section \<open>Allocation\<close>

lemma find_free_some:
  "find_free es n pos = (Some k, p) \<Longrightarrow> pos < length es \<Longrightarrow>
   k < length es \<and> te_busy (es ! k) = 0 \<and> p = (k + 1) mod length es"
proof (induction n arbitrary: pos)
  case 0
  then show ?case by simp
next
  case (Suc n)
  show ?case
  proof (cases "te_busy (es ! pos) = 0")
    case True
    with Suc.prems show ?thesis by auto
  next
    case False
    with Suc.prems have "find_free es n ((pos + 1) mod length es) = (Some k, p)" by simp
    then show ?thesis using mod_less_of[OF Suc.prems(2)] by (rule Suc.IH)
  qed
qed

lemma find_free_none:
  "find_free es n pos = (None, p) \<Longrightarrow> pos < length es \<Longrightarrow> j < n \<Longrightarrow> te_busy (es ! ((pos + j) mod length es)) \<noteq> 0"
proof (induction n arbitrary: pos j)
  case 0
  then show ?case by simp
next
  case (Suc n)
  show ?case
  proof (cases j)
    case 0
    with Suc.prems show ?thesis by (auto split: if_splits)
  next
    case (Suc i)
    have "find_free es n ((pos + 1) mod length es) = (None, p)"
      using Suc.prems by (auto split: if_splits)
    moreover have "(pos + 1) mod length es < length es" using Suc.prems(2) by (rule mod_less_of)
    moreover have "i < n" using Suc.prems(3) Suc by simp
    ultimately have "te_busy (es ! (((pos + 1) mod length es + i) mod length es)) \<noteq> 0" by (rule Suc.IH)
    moreover have "((pos + 1) mod length es + i) mod length es = (pos + j) mod length es"
      using Suc by (simp add: mod_simps)
    ultimately show ?thesis by simp
  qed
qed

text \<open>\<open>length es\<close> probes from any position look at every entry.\<close>

lemma probes_cover: "pos < N \<Longrightarrow> k < N \<Longrightarrow> \<exists>j < N. (pos + j) mod N = (k :: nat)"
  by (rule exI[of _ "if pos \<le> k then k - pos else N - pos + k"]) (auto simp: mod_if)

lemma alloc_entry_none:
  "pos < length es \<Longrightarrow> alloc_entry now us cb data t es pos = None \<longleftrightarrow> (\<forall>k < length es. te_busy (es ! k) \<noteq> 0)"
proof -
  assume pos: "pos < length es"
  obtain o' p where f: "find_free es (length es) pos = (o', p)" by (cases "find_free es (length es) pos")
  show ?thesis
  proof (cases o')
    case None
    have "te_busy (es ! k) \<noteq> 0" if "k < length es" for k
      using find_free_none[OF f[unfolded None] pos] probes_cover[OF pos that] by auto
    with f None show ?thesis by (simp add: alloc_entry_def)
  next
    case (Some k)
    with f find_free_some[OF f[unfolded Some] pos] show ?thesis by (auto simp: alloc_entry_def)
  qed
qed

lemma alloc_entry_some:
  "alloc_entry now us cb data t es pos = Some (k, es', p) \<Longrightarrow> pos < length es \<Longrightarrow>
   k < length es \<and> te_busy (es ! k) = 0 \<and> p < length es \<and>
   es' = es[k := \<lparr>te_cb = cb, te_t = now + t * us, te_interval = t * us, te_data = data, te_valid = 1, te_busy = 1\<rparr>]"
proof -
  assume a: "alloc_entry now us cb data t es pos = Some (k, es', p)" and pos: "pos < length es"
  then obtain j q where f: "find_free es (length es) pos = (Some j, q)"
    by (cases "find_free es (length es) pos") (auto simp: alloc_entry_def split: option.splits)
  from a f have e: "j = k" "q = p"
    "es' = es[k := start_timer now ((es ! k)\<lparr>te_busy := 1, te_interval := t * us, te_cb := cb, te_data := data\<rparr>)]"
    by (auto simp: alloc_entry_def)
  have "p < length es" using find_free_some[OF f pos] mod_less_of[OF pos] e by simp
  moreover have "start_timer now (x\<lparr>te_busy := 1, te_interval := t * us, te_cb := cb, te_data := data\<rparr>) =
      \<lparr>te_cb = cb, te_t = now + t * us, te_interval = t * us, te_data = data, te_valid = 1, te_busy = 1\<rparr>" for x
    by (cases x) (simp add: start_timer_def)
  ultimately show ?thesis using e find_free_some[OF f pos] by simp
qed

definition started :: "u32 \<Rightarrow> u32 \<Rightarrow> ptr \<Rightarrow> ptr \<Rightarrow> u32 \<Rightarrow> ev_time_event" where
  "started now us cb data t_us =
     \<lparr>te_cb = cb, te_t = now + t_us * us, te_interval = t_us * us, te_data = data, te_valid = 1, te_busy = 1\<rparr>"

lemma entry_ok_simps [simp]:
  "entry_ok (started now us cb data t)" "entry_ok (cancel_timer e)" "entry_ok e \<Longrightarrow> entry_ok (reap e)"
  "entry_ok e \<Longrightarrow> entry_ok (after_callback us now ret e)"
  by (auto simp: entry_ok_def started_def cancel_timer_def reap_def after_callback_def)

lemma on_timer_some:
  assumes ok: "timers_ok s" and r: "on_timer now idx cb data t_us s = Some (ret, s')"
  shows "timers_ok s' \<and> ticks_us s' = ticks_us s \<and>
    (case ret of None \<Rightarrow> s' = s
     | Some r \<Rightarrow> valid_ref r \<and> te_busy (get_timer s r) = 0 \<and>
         get_timer s' r = started now (ticks_us s) cb data t_us \<and>
         (\<forall>q. valid_ref q \<longrightarrow> q \<noteq> r \<longrightarrow> get_timer s' q = get_timer s q))"
proof -
  have len: "evtimer_current_pos s < length (evTimer_list s)" "stacktimer_current_pos s < length (stackTimer_list s)"
    using ok by (auto simp: timers_ok_def)
  have cb: "cb \<noteq> NULL" using r by (auto simp: on_timer_def)
  have ne: "TL_STACK_TASK \<noteq> TL_EV_TASK" by (simp add: TL_STACK_TASK_def TL_EV_TASK_def)
  consider (ev) k es p where "alloc_entry now (ticks_us s) cb data t_us (evTimer_list s) (evtimer_current_pos s) = Some (k, es, p)"
       "ret = Some (EvTimer k)" "s' = s\<lparr>evTimer_list := es, evtimer_current_pos := p\<rparr>"
    | (stk) k es p where "alloc_entry now (ticks_us s) cb data t_us (stackTimer_list s) (stacktimer_current_pos s) = Some (k, es, p)"
       "ret = Some (StackTimer k)" "s' = s\<lparr>stackTimer_list := es, stacktimer_current_pos := p\<rparr>"
    | (bad) "ret = None" "s' = s"
  proof (cases "idx = TL_EV_TASK")
    case True
    show ?thesis
    proof (cases "alloc_entry now (ticks_us s) cb data t_us (evTimer_list s) (evtimer_current_pos s)")
      case None with r True cb show ?thesis by (simp add: on_timer_def)
    next
      case (Some a) with r True cb ev show ?thesis by (cases a) (simp add: on_timer_def)
    qed
  next
    case False
    show ?thesis
    proof (cases "idx = TL_STACK_TASK")
      case True
      show ?thesis
      proof (cases "alloc_entry now (ticks_us s) cb data t_us (stackTimer_list s) (stacktimer_current_pos s)")
        case None with r True ne cb show ?thesis by (simp add: on_timer_def)
      next
        case (Some a) with r True ne cb stk show ?thesis by (cases a) (simp add: on_timer_def)
      qed
    next
      case f: False
      with r \<open>idx \<noteq> TL_EV_TASK\<close> cb bad show ?thesis by (simp add: on_timer_def)
    qed
  qed
  then show ?thesis
  proof cases
    case ev
    note a = alloc_entry_some[OF ev(1) len(1), folded started_def]
    with ok have "\<forall>e \<in> set es. entry_ok e"
      by (auto simp: timers_ok_def dest!: set_update_subset_insert[THEN subsetD])
    with a ok ev(2,3) show ?thesis
      by (auto simp: timers_ok_def valid_ref_def get_timer_def split: timer_ref.split)
  next
    case stk
    note a = alloc_entry_some[OF stk(1) len(2), folded started_def]
    with ok have "\<forall>e \<in> set es. entry_ok e"
      by (auto simp: timers_ok_def dest!: set_update_subset_insert[THEN subsetD])
    with a ok stk(2,3) show ?thesis
      by (auto simp: timers_ok_def valid_ref_def get_timer_def split: timer_ref.split)
  next
    case bad
    with ok show ?thesis by simp
  qed
qed

lemma set_timer_ok:
  assumes "timers_ok s" "entry_ok e"
  shows "timers_ok (set_timer s r e) \<and> ticks_us (set_timer s r e) = ticks_us s"
  using assms unfolding timers_ok_def set_timer_def
  by (cases r) (auto dest!: set_update_subset_insert[THEN subsetD])

lemma get_set_timer:
  "timers_ok s \<Longrightarrow> valid_ref r \<Longrightarrow> get_timer (set_timer s r e) q = (if q = r then e else get_timer s q)"
  by (cases r; cases q) (auto simp: get_timer_def set_timer_def timers_ok_def valid_ref_def)

lemma unon_set_timer:
  "timers_ok s \<Longrightarrow> ev_unon_timer (Some (EvTimer k)) s = (if k < 12 then Some (set_timer s (EvTimer k) (cancel_timer (get_timer s (EvTimer k)))) else None)"
  "timers_ok s \<Longrightarrow> stk_unon_timer (Some (StackTimer k)) s = (if k < 10 then Some (set_timer s (StackTimer k) (cancel_timer (get_timer s (StackTimer k)))) else None)"
  by (auto simp: ev_unon_timer_def stk_unon_timer_def set_timer_def get_timer_def timers_ok_def)

lemma unon_cases:
  "timers_ok s \<Longrightarrow> ev_unon_timer r s = Some s' \<or> stk_unon_timer r s = Some s' \<Longrightarrow>
   s' = s \<or> (\<exists>q. valid_ref q \<and> s' = set_timer s q (cancel_timer (get_timer s q)))"
proof -
  assume ok: "timers_ok s" and u: "ev_unon_timer r s = Some s' \<or> stk_unon_timer r s = Some s'"
  show ?thesis
  proof (cases r)
    case None with u show ?thesis by (auto simp: ev_unon_timer_def stk_unon_timer_def)
  next
    case (Some q)
    have "valid_ref q \<and> s' = set_timer s q (cancel_timer (get_timer s q))"
    proof (cases q)
      case (EvTimer k)
      with u Some have "ev_unon_timer (Some (EvTimer k)) s = Some s'" by (auto simp: stk_unon_timer_def)
      with unon_set_timer(1)[OF ok] EvTimer show ?thesis by (auto simp: valid_ref_def split: if_splits)
    next
      case (StackTimer k)
      with u Some have "stk_unon_timer (Some (StackTimer k)) s = Some s'" by (auto simp: ev_unon_timer_def)
      with unon_set_timer(2)[OF ok] StackTimer show ?thesis by (auto simp: valid_ref_def split: if_splits)
    qed
    then show ?thesis by blast
  qed
qed

text \<open>What every timer call keeps: the invariant, and cancelled entries stay cancelled.\<close>

definition cancelled :: "timers \<Rightarrow> timer_ref \<Rightarrow> bool" where
  "cancelled s r \<longleftrightarrow> te_valid (get_timer s r) = 2 \<and> te_busy (get_timer s r) = 2"

lemma cancel_keeps:
  assumes "timers_ok s" "valid_ref q"
  shows "timers_ok (set_timer s q (cancel_timer e)) \<and> ticks_us (set_timer s q (cancel_timer e)) = ticks_us s \<and>
    cancelled (set_timer s q (cancel_timer e)) q \<and>
    (\<forall>r. valid_ref r \<longrightarrow> cancelled s r \<longrightarrow> cancelled (set_timer s q (cancel_timer e)) r)"
proof -
  have "timers_ok (set_timer s q (cancel_timer e)) \<and> ticks_us (set_timer s q (cancel_timer e)) = ticks_us s"
    by (rule set_timer_ok[OF assms(1)]) simp
  then show ?thesis
    using get_set_timer[OF assms] by (simp add: cancelled_def) (simp add: cancel_timer_def)
qed

lemma exec_call_ok:
  assumes ok: "timers_ok s" and c: "exec_call c s = Some s'"
  shows "timers_ok s' \<and> ticks_us s' = ticks_us s \<and> (\<forall>r. valid_ref r \<longrightarrow> cancelled s r \<longrightarrow> cancelled s' r)"
proof (cases c)
  case (OnTimer now idx cb data t_us)
  with c obtain ret where "on_timer now idx cb data t_us s = Some (ret, s')" by auto
  note o = on_timer_some[OF ok this]
  have "cancelled s' r" if "valid_ref r" "cancelled s r" for r
    using o that by (cases ret) (auto simp: cancelled_def)
  with o show ?thesis by blast
next
  case (EvUnon r)
  with unon_cases[OF ok, of r s'] c ok cancel_keeps[OF ok] show ?thesis by auto
next
  case (StkUnon r)
  with unon_cases[OF ok, of r s'] c ok cancel_keeps[OF ok] show ?thesis by auto
qed

lemma exec_calls_ok:
  "timers_ok s \<Longrightarrow> exec_calls cs s = Some s' \<Longrightarrow>
   timers_ok s' \<and> ticks_us s' = ticks_us s \<and> (\<forall>r. valid_ref r \<longrightarrow> cancelled s r \<longrightarrow> cancelled s' r)"
proof (induction cs arbitrary: s)
  case Nil
  then show ?case by simp
next
  case (Cons c cs)
  then obtain s1 where "exec_call c s = Some s1" "exec_calls cs s1 = Some s'" by (auto split: option.splits)
  with exec_call_ok[OF Cons.prems(1)] Cons.IH[of s1] show ?case by auto
qed


definition timers0 :: "u32 \<Rightarrow> timers" where
  "timers0 us = \<lparr>evTimer_list = replicate 12 \<lparr>te_cb = 0, te_t = 0, te_interval = 0, te_data = 0, te_valid = 0, te_busy = 0\<rparr>,
     stackTimer_list = replicate 10 \<lparr>te_cb = 0, te_t = 0, te_interval = 0, te_data = 0, te_valid = 0, te_busy = 0\<rparr>,
     evtimer_current_pos = 0, stacktimer_current_pos = 0, ticks_us = us\<rparr>"

lemma timers0_ok: "timers_ok (timers0 us)"
  by (simp add: timers0_def timers_ok_def entry_ok_def)

section \<open>Firing\<close>

lemma after_callback_keeps:
  "cancelled s r \<Longrightarrow> te_valid (after_callback us now t (get_timer s r)) = 2 \<and>
                     te_busy (after_callback us now t (get_timer s r)) = 2"
  by (simp add: cancelled_def after_callback_def cancel_timer_def)

lemma get_timer_ok: "timers_ok s \<Longrightarrow> valid_ref r \<Longrightarrow> entry_ok (get_timer s r)"
  by (cases r) (auto simp: timers_ok_def valid_ref_def get_timer_def)

lemma fire_ok:
  assumes ok: "timers_ok s" and r: "valid_ref r" and f: "fire call now r s w = Some (s', w')"
  shows "timers_ok s' \<and> ticks_us s' = ticks_us s \<and> (\<forall>q. valid_ref q \<longrightarrow> cancelled s q \<longrightarrow> cancelled s' q)"
proof -
  obtain t cs v where c: "call (te_cb (get_timer s r)) (te_data (get_timer s r)) w = (t, cs, v)"
    by (metis prod_cases3)
  with f obtain s1 where s1: "exec_calls cs s = Some s1"
    and s': "s' = set_timer s1 r (after_callback (ticks_us s1) now t (get_timer s1 r))"
    by (auto simp: fire_def split: option.splits)
  note e = exec_calls_ok[OF ok s1]
  have "entry_ok (after_callback (ticks_us s1) now t (get_timer s1 r))"
    using get_timer_ok e r by simp
  with e have "timers_ok s'" "ticks_us s' = ticks_us s" using set_timer_ok s' by auto
  moreover have "cancelled s' q" if "valid_ref q" "cancelled s q" for q
    using that e r after_callback_keeps[of s1 r] get_set_timer[of s1 r _ q]
    by (auto simp: s' cancelled_def)
  ultimately show ?thesis by blast
qed

lemma fire_loop_ok:
  "timers_ok s \<Longrightarrow> \<forall>r \<in> set rs. valid_ref r \<Longrightarrow> fire_loop call now rs s w = Some (fs, s', w') \<Longrightarrow>
   timers_ok s' \<and> ticks_us s' = ticks_us s \<and> subseq fs rs \<and>
   (\<forall>q. valid_ref q \<longrightarrow> cancelled s q \<longrightarrow> cancelled s' q \<and> q \<notin> set fs)"
proof (induction rs arbitrary: s w fs)
  case Nil
  then show ?case by simp
next
  case (Cons r rs)
  show ?case
  proof (cases "due now s r")
    case True
    with Cons.prems obtain s1 w1 where f: "fire call now r s w = Some (s1, w1)"
      by (auto split: option.splits)
    with Cons.prems True obtain gs where g: "fire_loop call now rs s1 w1 = Some (gs, s', w')" "fs = r # gs"
      by auto
    note fo = fire_ok[OF Cons.prems(1) _ f]
    have "\<not> cancelled s r" using True by (auto simp: due_def is_timer_expired_def cancelled_def split: if_splits)
    with fo Cons.IH[OF _ _ g(1)] Cons.prems(2) g(2) show ?thesis by auto
  next
    case False
    with Cons show ?thesis by auto
  qed
qed

lemma reap_all_ok: "timers_ok s \<Longrightarrow> timers_ok (reap_all s) \<and> ticks_us (reap_all s) = ticks_us s"
  by (auto simp: timers_ok_def reap_all_def)

lemma reap_all_free: "timers_ok s \<Longrightarrow> valid_ref r \<Longrightarrow> \<not> cancelled (reap_all s) r"
  by (cases r) (auto simp: timers_ok_def valid_ref_def cancelled_def get_timer_def reap_all_def reap_def)

lemma all_refs_valid: "timers_ok s \<Longrightarrow> r \<in> set (all_refs s) \<longleftrightarrow> valid_ref r"
  by (cases r) (auto simp: all_refs_def timers_ok_def valid_ref_def)

lemma all_refs_distinct: "distinct (all_refs s)"
  by (auto simp: all_refs_def distinct_map inj_on_def)

lemma subseq_distinct: "subseq xs ys \<Longrightarrow> distinct ys \<Longrightarrow> distinct xs"
  by (auto simp: subseq_conv_nths intro: distinct_nthsI)

text \<open>Timer calls that cannot hang: cancels of null or of entries of the right list.\<close>

fun cancel_call :: "timer_call \<Rightarrow> bool" where
  "cancel_call (OnTimer _ _ _ _ _) = False"
| "cancel_call (EvUnon r) = (case r of None \<Rightarrow> True | Some (EvTimer k) \<Rightarrow> k < 12 | Some (StackTimer k) \<Rightarrow> False)"
| "cancel_call (StkUnon r) = (case r of None \<Rightarrow> True | Some (StackTimer k) \<Rightarrow> k < 10 | Some (EvTimer k) \<Rightarrow> False)"

definition cancels_only :: "'w callback \<Rightarrow> bool" where
  "cancels_only call \<longleftrightarrow> (\<forall>cb data w. list_all cancel_call (fst (snd (call cb data w))))"

lemma cancel_calls_return: "timers_ok s \<Longrightarrow> list_all cancel_call cs \<Longrightarrow> \<exists>s'. exec_calls cs s = Some s'"
proof (induction cs arbitrary: s)
  case Nil
  then show ?case by simp
next
  case (Cons c cs)
  have "\<exists>s1. exec_call c s = Some s1"
    using Cons.prems
    by (cases c) (auto simp: ev_unon_timer_def stk_unon_timer_def timers_ok_def split: option.splits timer_ref.splits)
  then obtain s1 where s1: "exec_call c s = Some s1" by blast
  with exec_call_ok[OF Cons.prems(1)] have "timers_ok s1" by blast
  from Cons.IH[OF this] Cons.prems(2) s1 show ?case by auto
qed

lemma fire_loop_returns:
  "timers_ok s \<Longrightarrow> \<forall>r \<in> set rs. valid_ref r \<Longrightarrow> cancels_only call \<Longrightarrow>
   \<exists>fs s' w'. fire_loop call now rs s w = Some (fs, s', w')"
proof (induction rs arbitrary: s w)
  case Nil
  then show ?case by simp
next
  case (Cons r rs)
  obtain t cs v where c: "call (te_cb (get_timer s r)) (te_data (get_timer s r)) w = (t, cs, v)"
    by (metis prod_cases3)
  have "list_all cancel_call cs"
    using Cons.prems(3) c unfolding cancels_only_def by (metis fst_conv snd_conv)
  then obtain s1 where "exec_calls cs s = Some s1" using cancel_calls_return[OF Cons.prems(1)] by blast
  with c obtain s2 w2 where f: "fire call now r s w = Some (s2, w2)" by (simp add: fire_def)
  with fire_ok[OF Cons.prems(1) _ f] Cons.prems(2) have "timers_ok s2" by simp
  then obtain fs s' w' where "fire_loop call now rs s2 w2 = Some (fs, s', w')"
    using Cons.IH Cons.prems by fastforce
  moreover obtain gs t' v' where "fire_loop call now rs s w = Some (gs, t', v')"
    using Cons.IH[OF Cons.prems(1), of w] Cons.prems by fastforce
  ultimately show ?case using f by simp
qed

text \<open>C15: Whatever the callbacks do with timers, when \<open>ev_process_timer\<close> returns it leaves every entry
  free, running or cancelled, both positions inside their lists, and has fired entries in list
  order, each at most once; and it does return if the callbacks start no timers and cancel only
  through the right list.\<close>

theorem ev_process_timer_invariant:
  assumes "timers_ok s"
  shows "(\<forall>fs s' w'. ev_process_timer call now s w = Some (fs, s', w') \<longrightarrow>
            timers_ok s' \<and> subseq fs (all_refs s) \<and> distinct fs)
         \<and> (cancels_only call \<longrightarrow> ev_process_timer call now s w \<noteq> None)"
proof -
  have r: "timers_ok (reap_all s)" using reap_all_ok[OF assms] by simp
  have a: "all_refs (reap_all s) = all_refs s" by (simp add: all_refs_def reap_all_def)
  have v: "\<forall>r \<in> set (all_refs s). valid_ref r" using all_refs_valid[OF assms] by blast
  have p: "ev_process_timer call now s w = fire_loop call now (all_refs s) (reap_all s) w"
    using a by (simp add: ev_process_timer_def)
  show ?thesis
    unfolding p
  proof (intro conjI allI impI)
    fix fs s' w' assume f: "fire_loop call now (all_refs s) (reap_all s) w = Some (fs, s', w')"
    note l = fire_loop_ok[OF r v f]
    then show "timers_ok s'" "subseq fs (all_refs s)" by simp_all
    then show "distinct fs" using subseq_distinct all_refs_distinct by metis
  next
    assume "cancels_only call"
    then show "fire_loop call now (all_refs s) (reap_all s) w \<noteq> None"
      using fire_loop_returns[OF r v, of call now w] by auto
  qed
qed

text \<open>C39: A cancelled entry is out of use until the next \<open>ev_process_timer\<close>: after a successful
  \<open>ev_unon_timer\<close> no sequence of timer calls makes \<open>on_timer\<close> return the same entry, so a stale
  pointer cannot cancel somebody else's timer before then.\<close>

theorem cancelled_timer_not_reused:
  assumes "timers_ok s" "ev_unon_timer (Some r) s = Some s1" "exec_calls cs s1 = Some s2"
    "on_timer now idx cb data t_us s2 = Some (ret, s3)"
  shows "ret \<noteq> Some r \<and> cancelled s3 r"
proof -
  obtain k where k: "r = EvTimer k" using assms(2) by (cases r) (auto simp: ev_unon_timer_def)
  have v: "valid_ref r" and s1: "s1 = set_timer s r (cancel_timer (get_timer s r))"
    using assms(2) unon_set_timer(1)[OF assms(1)] k by (auto simp: valid_ref_def split: if_splits)
  have ok1: "timers_ok s1" and c1: "cancelled s1 r"
    using cancel_keeps[OF assms(1) v] s1 by auto
  have ok2: "timers_ok s2" and c2: "cancelled s2 r"
    using exec_calls_ok[OF ok1 assms(3)] c1 v by auto
  note o = on_timer_some[OF ok2 assms(4)]
  have ne: "ret \<noteq> Some r" using o c2 by (auto simp: cancelled_def)
  have "cancelled s3 r"
    using exec_call_ok[OF ok2, of "OnTimer now idx cb data t_us" s3] assms(4) c2 v by auto
  with ne show ?thesis by blast
qed

section \<open>Which timers fire\<close>

text \<open>With callbacks that make no timer calls, what fires depends only on the entries at the start.\<close>

definition quiet :: "'w callback \<Rightarrow> bool" where
  "quiet call \<longleftrightarrow> (\<forall>cb data w. fst (snd (call cb data w)) = [])"

text \<open>The calls of the given entries in turn, and the result of each.\<close>

fun call_all :: "'w callback \<Rightarrow> timers \<Rightarrow> timer_ref list \<Rightarrow> 'w \<Rightarrow> (timer_ref \<times> int) list \<times> 'w" where
  "call_all call s [] w = ([], w)"
| "call_all call s (r # rs) w =
     (let e = get_timer s r; (t, cs, w1) = call (te_cb e) (te_data e) w; (ts, w2) = call_all call s rs w1
      in ((r, t) # ts, w2))"

lemma call_all_cong: "\<forall>r \<in> set rs. get_timer s r = get_timer s' r \<Longrightarrow> call_all call s rs w = call_all call s' rs w"
  by (induction rs arbitrary: w) (simp_all add: Let_def)

lemma call_all_refs: "map fst (fst (call_all call s rs w)) = rs"
  by (induction rs arbitrary: w) (simp_all add: Let_def split: prod.splits, metis fst_conv)

lemma fire_loop_quiet:
  "timers_ok s \<Longrightarrow> \<forall>r \<in> set rs. valid_ref r \<Longrightarrow> distinct rs \<Longrightarrow> quiet call \<Longrightarrow>
   call_all call s (filter (due now s) rs) w = (ts, w') \<Longrightarrow>
   \<exists>s'. fire_loop call now rs s w = Some (filter (due now s) rs, s', w') \<and>
     (\<forall>q. valid_ref q \<longrightarrow> get_timer s' q =
        (case map_of ts q of Some t \<Rightarrow> after_callback (ticks_us s) now t (get_timer s q) | None \<Rightarrow> get_timer s q))"
proof (induction rs arbitrary: s w ts w')
  case (Cons r rs)
  show ?case
  proof (cases "due now s r")
    case True
    obtain t cs w1 where c: "call (te_cb (get_timer s r)) (te_data (get_timer s r)) w = (t, cs, w1)"
      by (metis prod_cases3)
    obtain us where u: "call_all call s (filter (due now s) rs) w1 = (us, w')" "ts = (r, t) # us"
      using Cons.prems(5) True c by (auto simp: Let_def split: prod.splits)
    let ?s = "set_timer s r (after_callback (ticks_us s) now t (get_timer s r))"
    have "cs = []" using Cons.prems(4) c unfolding quiet_def by (metis fst_conv snd_conv)
    then have f: "fire call now r s w = Some (?s, w1)" by (simp add: fire_def c)
    have r: "valid_ref r" using Cons.prems(2) by simp
    have ok: "timers_ok ?s" "ticks_us ?s = ticks_us s" using fire_ok[OF Cons.prems(1) r f] by auto
    have g: "get_timer ?s q = (if q = r then after_callback (ticks_us s) now t (get_timer s r) else get_timer s q)" for q
      using get_set_timer[OF Cons.prems(1) r] .
    have n: "q \<in> set rs \<Longrightarrow> q \<noteq> r" for q using Cons.prems(3) by auto
    have e: "filter (due now ?s) rs = filter (due now s) rs"
      by (rule filter_cong[OF refl]) (use n in \<open>simp add: due_def ok(2) g\<close>)
    have k: "call_all call ?s (filter (due now ?s) rs) w1 = (us, w')"
      unfolding e u(1)[symmetric] by (rule call_all_cong) (use n in \<open>simp add: g\<close>)
    have vs: "\<forall>r \<in> set rs. valid_ref r" "distinct rs" using Cons.prems(2,3) by auto
    obtain s' where s': "fire_loop call now rs ?s w1 = Some (filter (due now ?s) rs, s', w')"
      "\<forall>q. valid_ref q \<longrightarrow> get_timer s' q =
        (case map_of us q of Some t \<Rightarrow> after_callback (ticks_us ?s) now t (get_timer ?s q) | None \<Rightarrow> get_timer ?s q)"
      using Cons.IH[OF ok(1) vs Cons.prems(4) k] by blast
    have "map fst us = filter (due now s) rs" using call_all_refs[of call s "filter (due now s) rs" w1] u(1) by simp
    moreover have "r \<notin> set (filter (due now s) rs)" using n[of r] by auto
    ultimately have "map_of us r = None" unfolding map_of_eq_None_iff by (metis list.set_map)
    then have "\<forall>q. valid_ref q \<longrightarrow> get_timer s' q =
        (case map_of ts q of Some t \<Rightarrow> after_callback (ticks_us s) now t (get_timer s q) | None \<Rightarrow> get_timer s q)"
      using s'(2) by (auto simp: u(2) g ok(2) split: option.splits)
    then show ?thesis using s'(1) f True e by auto
  next
    case False
    then show ?thesis using Cons.IH[OF Cons.prems(1), of w ts w'] Cons.prems(2-5) by auto
  qed
qed simp

lemma due_reaped:
  assumes "timers_ok s" "valid_ref r"
  shows "get_timer (reap_all s) r = reap (get_timer s r)"
    "due now (reap_all s) r \<longleftrightarrow> te_valid (get_timer s r) = 1 \<and> now - te_t (get_timer s r) < 4000000 * ticks_us s"
proof -
  show g: "get_timer (reap_all s) r = reap (get_timer s r)"
    using assms by (cases r) (auto simp: get_timer_def reap_all_def timers_ok_def valid_ref_def)
  show "due now (reap_all s) r \<longleftrightarrow> te_valid (get_timer s r) = 1 \<and> now - te_t (get_timer s r) < 4000000 * ticks_us s"
    using reap_all_ok[OF assms(1)]
    by (simp add: due_def g is_timer_expired_def ev_is_timer_expired_def EV_TIMER_SAFE_MARGIN_US_def reap_def)
qed

text \<open>C32: With callbacks that make no timer calls, one pass of \<open>ev_process_timer\<close> calls the callbacks of exactly
  the running entries that expired less than four seconds ago, in list order, each once with its own data (so their
  effect on the rest is the one of these calls in turn), and does to each entry what its own callback's result says:
  a negative one cancels it, 0 restarts it with its interval, a positive one with that number of microseconds. Entries
  cancelled before the pass become free, all others stay as they were.\<close>

theorem ev_process_timer_fires:
  assumes "timers_ok s" "quiet call"
    "call_all call s (filter (\<lambda>r. te_valid (get_timer s r) = 1 \<and> now - te_t (get_timer s r) < 4000000 * ticks_us s)
       (all_refs s)) w = (ts, w')"
  shows "\<exists>fs s'. ev_process_timer call now s w = Some (fs, s', w') \<and>
    (\<forall>q. valid_ref q \<longrightarrow> get_timer s' q = (let e = get_timer s q in
       case map_of ts q of
         Some t \<Rightarrow> if t < 0 then e\<lparr>te_valid := 2, te_busy := 2\<rparr>
           else let i = (if t = 0 then te_interval e else of_int t * ticks_us s)
                in e\<lparr>te_interval := i, te_t := now + i\<rparr>
       | None \<Rightarrow> if te_valid e = 2 then e\<lparr>te_busy := 0, te_valid := 0\<rparr> else e))"
proof -
  let ?F = "filter (\<lambda>r. te_valid (get_timer s r) = 1 \<and> now - te_t (get_timer s r) < 4000000 * ticks_us s) (all_refs s)"
  have r: "timers_ok (reap_all s)" "ticks_us (reap_all s) = ticks_us s" using reap_all_ok[OF assms(1)] by auto
  have a: "all_refs (reap_all s) = all_refs s" by (simp add: all_refs_def reap_all_def)
  have v: "\<forall>r \<in> set (all_refs s). valid_ref r" using all_refs_valid[OF assms(1)] by blast
  have d: "filter (due now (reap_all s)) (all_refs s) = ?F"
    by (rule filter_cong[OF refl]) (use due_reaped[OF assms(1)] v in blast)
  have k: "get_timer (reap_all s) q = get_timer s q" if "q \<in> set ?F" for q
    using that v due_reaped(1)[OF assms(1), of q] by (auto simp: reap_def)
  have "call_all call (reap_all s) ?F w = (ts, w')" unfolding assms(3)[symmetric] by (rule call_all_cong) (use k in blast)
  with fire_loop_quiet[OF r(1) v all_refs_distinct assms(2), of now w ts w'] obtain s' where
    s': "fire_loop call now (all_refs s) (reap_all s) w = Some (?F, s', w')"
    "\<And>q. valid_ref q \<Longrightarrow> get_timer s' q = (case map_of ts q of
       Some t \<Rightarrow> after_callback (ticks_us s) now t (get_timer (reap_all s) q) | None \<Rightarrow> get_timer (reap_all s) q)"
    unfolding d r(2) by blast
  have m: "map fst ts = ?F" using call_all_refs[of call s ?F w] assms(3) by simp
  have n: "get_timer (reap_all s) q = get_timer s q" if "map_of ts q = Some t" for q t
  proof -
    have "q \<in> set (map fst ts)" using map_of_SomeD[OF that] by force
    then show ?thesis unfolding m by (rule k)
  qed
  have "get_timer s' q = (let e = get_timer s q in
       case map_of ts q of
         Some t \<Rightarrow> if t < 0 then e\<lparr>te_valid := 2, te_busy := 2\<rparr>
           else let i = (if t = 0 then te_interval e else of_int t * ticks_us s)
                in e\<lparr>te_interval := i, te_t := now + i\<rparr>
       | None \<Rightarrow> if te_valid e = 2 then e\<lparr>te_busy := 0, te_valid := 0\<rparr> else e)" if q: "valid_ref q" for q
  proof (cases "map_of ts q")
    case None
    show ?thesis unfolding s'(2)[OF q] None by (simp add: due_reaped(1)[OF assms(1) q] reap_def Let_def)
  next
    case (Some t)
    show ?thesis unfolding s'(2)[OF q] Some n[OF Some] by (simp add: after_callback_def cancel_timer_def Let_def)
  qed
  moreover have "ev_process_timer call now s w = Some (?F, s', w')" using s'(1) a by (simp add: ev_process_timer_def)
  ultimately show ?thesis by blast
qed

definition timers1 :: timers where
  "timers1 = (timers0 16)\<lparr>evTimer_list := (evTimer_list (timers0 16))
     [3 := \<lparr>te_cb = 0x100, te_t = 2, te_interval = 160, te_data = 7, te_valid = 1, te_busy = 1\<rparr>]\<rparr>"

text \<open>A timer whose callback asks for 50 microseconds, and counts by its data.\<close>

theorem ev_process_timer_fires_witness:
  "\<exists>fs s'. ev_process_timer (\<lambda>cb data w. (50, [], w + unat data)) 5 timers1 (1 :: nat) = Some (fs, s', 8) \<and>
     te_t (get_timer s' (EvTimer 3)) = 805 \<and> te_interval (get_timer s' (EvTimer 3)) = 800"
proof -
  have r: "all_refs timers1 = [EvTimer 0, EvTimer 1, EvTimer 2, EvTimer 3, EvTimer 4, EvTimer 5, EvTimer 6, EvTimer 7,
      EvTimer 8, EvTimer 9, EvTimer 10, EvTimer 11, StackTimer 0, StackTimer 1, StackTimer 2, StackTimer 3, StackTimer 4,
      StackTimer 5, StackTimer 6, StackTimer 7, StackTimer 8, StackTimer 9]"
    by (simp add: all_refs_def timers1_def timers0_def upt_rec)
  have k: "timers_ok timers1" by (simp add: timers1_def timers0_def timers_ok_def entry_ok_def set_update_distinct
    numeral_eq_Suc)
  have t: "get_timer timers1 (EvTimer 3) = \<lparr>te_cb = 0x100, te_t = 2, te_interval = 160, te_data = 7, te_valid = 1, te_busy = 1\<rparr>"
    "ticks_us timers1 = 16" by (simp_all add: get_timer_def timers1_def timers0_def)
  have "filter (\<lambda>r. te_valid (get_timer timers1 r) = 1 \<and> 5 - te_t (get_timer timers1 r) < 4000000 * ticks_us timers1)
      (all_refs timers1) = [EvTimer 3]"
    unfolding r by (simp add: get_timer_def timers1_def timers0_def)
  then have c: "call_all (\<lambda>cb data w. (50, [], w + unat data)) timers1
      (filter (\<lambda>r. te_valid (get_timer timers1 r) = 1 \<and> 5 - te_t (get_timer timers1 r) < 4000000 * ticks_us timers1)
      (all_refs timers1)) (1 :: nat) = ([(EvTimer 3, 50)], 8)"
    using t by simp
  have "quiet (\<lambda>cb data (w :: nat). (50, [], w + unat data))" by (simp add: quiet_def)
  from ev_process_timer_fires[OF k this c] obtain fs s' where
    "ev_process_timer (\<lambda>cb data w. (50, [], w + unat data)) 5 timers1 (1 :: nat) = Some (fs, s', 8)"
    "get_timer s' (EvTimer 3) = (get_timer timers1 (EvTimer 3))\<lparr>te_interval := 800, te_t := 805\<rparr>"
    using t by (auto simp: valid_ref_def Let_def split: timer_ref.splits)
  then show ?thesis by auto
qed

section \<open>Time\<close>

lemma of_nat_diff_u32: "a \<le> b \<Longrightarrow> (of_nat b :: u32) - of_nat a = of_nat (b - a)"
  by (simp add: of_nat_diff)

lemma expired_iff:
  fixes I W d :: nat
  assumes "I + W \<le> 2 ^ 32" "d < 2 ^ 32" "W < 2 ^ 32"
  shows "(now0 + of_nat d) - (now0 + of_nat I) < (of_nat W :: u32) \<longleftrightarrow> I \<le> d \<and> d < I + W"
proof (cases "W = 0")
  case True
  then show ?thesis by simp
next
  case False
  have w: "unat (of_nat W :: u32) = W" using assms by (intro unat_of_nat_u32) simp
  have e: "(now0 + of_nat d) - (now0 + of_nat I) = (of_nat d - of_nat I :: u32)" by simp
  show ?thesis
  proof (cases "I \<le> d")
    case True
    have "unat (of_nat (d - I) :: u32) = d - I" using assms by (intro unat_of_nat_u32) simp
    then show ?thesis
      unfolding e of_nat_diff_u32[OF True] using True w by (auto simp: word_less_nat_alt)
  next
    case f: False
    have u: "unat (of_nat I :: u32) = I" "unat (of_nat d :: u32) = d"
      using assms f False by (auto intro!: unat_of_nat_u32)
    have "unat (of_nat d - of_nat I :: u32) = d + 2 ^ 32 - I"
      using f unat_sub_if'[of "of_nat d :: u32" "of_nat I"] unfolding u by simp
    then show ?thesis
      unfolding e using f assms w by (auto simp: word_less_nat_alt)
  qed
qed


theorem ev_process_timer_invariant_witness:
  "\<exists>fs s' w'. ev_process_timer (\<lambda>cb data w. (0, [], w + 1)) 5 (timers0 16) (0 :: nat) = Some (fs, s', w') \<and>
     timers_ok s' \<and> subseq fs (all_refs (timers0 16)) \<and> distinct fs"
proof -
  have c: "cancels_only (\<lambda>cb data w. (0, [], w + 1 :: nat))" by (simp add: cancels_only_def)
  note t = ev_process_timer_invariant[OF timers0_ok[of 16], of "\<lambda>cb data w. (0, [], w + 1)" 5 "0 :: nat"]
  obtain fs s' w' where e: "ev_process_timer (\<lambda>cb data w. (0, [], w + 1)) 5 (timers0 16) (0 :: nat) = Some (fs, s', w')"
    using t c by (metis option.exhaust prod_cases3)
  with t show ?thesis by blast
qed

lemma alloc_entry_free:
  "es \<noteq> [] \<Longrightarrow> te_busy (es ! pos) = 0 \<Longrightarrow>
   alloc_entry now us cb data t es pos =
     Some (pos, es[pos := start_timer now ((es ! pos)\<lparr>te_busy := 1, te_interval := t * us, te_cb := cb, te_data := data\<rparr>)],
           (pos + 1) mod length es)"
  by (cases es) (simp_all add: alloc_entry_def)

lemma on_timer_free:
  "cb \<noteq> NULL \<Longrightarrow> evTimer_list s \<noteq> [] \<Longrightarrow> te_busy (evTimer_list s ! evtimer_current_pos s) = 0 \<Longrightarrow>
   \<exists>e. on_timer now TL_EV_TASK cb data t s =
     Some (Some (EvTimer (evtimer_current_pos s)),
           s\<lparr>evTimer_list := (evTimer_list s)[evtimer_current_pos s := e],
             evtimer_current_pos := (evtimer_current_pos s + 1) mod length (evTimer_list s)\<rparr>)"
  by (auto simp: on_timer_def alloc_entry_free)

lemma timers0_eval:
  "\<exists>s1 s2 s3. ev_on_timer 1 0x100 0 50 (timers0 16) = Some (Some (EvTimer 0), s1) \<and>
     timers_ok s1 \<and> ev_unon_timer (Some (EvTimer 0)) s1 = Some s2 \<and>
     on_timer 9 TL_EV_TASK 0x200 0 70 s2 = Some (Some (EvTimer 1), s3)"
proof -
  have i: "timers_ok (timers0 16)" by (rule timers0_ok)
  have "te_busy (evTimer_list (timers0 16) ! evtimer_current_pos (timers0 16)) = 0"
    "te_busy (evTimer_list (timers0 16) ! 1) = 0" "length (evTimer_list (timers0 16)) = 12"
    "evtimer_current_pos (timers0 16) = 0"
    by (simp_all add: timers0_def)
  note t = this
  have ne: "evTimer_list (timers0 16) \<noteq> []" using t(3) by auto
  obtain s1 where s1: "ev_on_timer 1 0x100 0 50 (timers0 16) = Some (Some (EvTimer 0), s1)"
    "evtimer_current_pos s1 = 1" "te_busy (evTimer_list s1 ! 1) = 0" "length (evTimer_list s1) = 12"
    using on_timer_free[OF _ ne t(1), of "0x100" 1 0 50] t by (auto simp: ev_on_timer_def)
  have ok: "timers_ok s1" using on_timer_some[OF i s1(1)[unfolded ev_on_timer_def]] by simp
  obtain s2 where s2: "ev_unon_timer (Some (EvTimer 0)) s1 = Some s2"
    "evtimer_current_pos s2 = 1" "te_busy (evTimer_list s2 ! 1) = 0" "length (evTimer_list s2) = 12"
    using s1 by (simp add: ev_unon_timer_def)
  have ne2: "evTimer_list s2 \<noteq> []" using s2(4) by auto
  have "te_busy (evTimer_list s2 ! evtimer_current_pos s2) = 0" using s2 by simp
  from on_timer_free[OF _ ne2 this, of "0x200" 9 0 70] s2(2)
  have "\<exists>s3. on_timer 9 TL_EV_TASK 0x200 0 70 s2 = Some (Some (EvTimer 1), s3)" by auto
  with s1 s2 ok show ?thesis by blast
qed

theorem cancelled_timer_not_reused_witness:
  "\<exists>s1 s2 s3. ev_unon_timer (Some (EvTimer 0)) s1 = Some s2 \<and>
     on_timer 9 TL_EV_TASK 0x200 0 70 s2 = Some (Some (EvTimer 1), s3) \<and>
     Some (EvTimer 1) \<noteq> Some (EvTimer 0) \<and> cancelled s3 (EvTimer 0)"
proof -
  obtain s1 s2 s3 where s: "timers_ok s1" "ev_unon_timer (Some (EvTimer 0)) s1 = Some s2"
     "on_timer 9 TL_EV_TASK 0x200 0 70 s2 = Some (Some (EvTimer 1), s3)"
    using timers0_eval by blast
  have "Some (EvTimer 1) \<noteq> Some (EvTimer 0) \<and> cancelled s3 (EvTimer 0)"
    using cancelled_timer_not_reused[of s1 "EvTimer 0" s2 "[]", OF s(1,2) _ s(3)] by simp
  with s show ?thesis by blast
qed

text \<open>A timer is never early and is recognised as expired in exactly the four seconds after its
  interval. For an interval of \<open>I\<close> ticks with \<open>I + W <= 2^32\<close>, \<open>W\<close> the four seconds in ticks, and a
  clock that has advanced by \<open>d < 2^32\<close> ticks since the start, the entry is expired iff
  \<open>I <= d < I + W\<close>; a timer that is not looked at for longer is missed until the clock wraps.\<close>

theorem timer_expiry_window:
  assumes "unat t_us * unat us + 4000000 * unat us \<le> 2 ^ 32" "d < 2 ^ 32"
  shows "ev_is_timer_expired us (started now0 us cb data t_us) (now0 + of_nat d) \<longleftrightarrow>
         unat t_us * unat us \<le> d \<and> d < unat t_us * unat us + 4000000 * unat us"
proof -
  have m: "t_us * us = of_nat (unat t_us * unat us)" "(4000000 :: u32) * us = of_nat (4000000 * unat us)"
    by simp_all
  show ?thesis
  proof (cases "unat us = 0")
    case True
    then have "us = 0" by (simp add: unat_eq_0)
    then show ?thesis by (simp add: ev_is_timer_expired_def EV_TIMER_SAFE_MARGIN_US_def)
  next
    case False
    show ?thesis
    proof (cases "4000000 * unat us < 2 ^ 32")
      case True
      show ?thesis
        using expired_iff[OF assms True, of now0]
        unfolding ev_is_timer_expired_def EV_TIMER_SAFE_MARGIN_US_def started_def m by simp
    next
      case f: False
      have "(4000000 * unat us) mod 4000000 = 0" by simp
      moreover have "(2 ^ 32 :: nat) mod 4000000 \<noteq> 0" by simp
      ultimately have "4000000 * unat us \<noteq> 2 ^ 32" by metis
      with f assms(1) show ?thesis by linarith
    qed
  qed
qed

theorem timer_expiry_window_witness:
  "ev_is_timer_expired 16 (started 0xFFFFFF00 16 1 2 100) (0xFFFFFF00 + of_nat 1600) \<longleftrightarrow>
   unat (100 :: u32) * unat (16 :: u32) \<le> 1600 \<and>
   1600 < unat (100 :: u32) * unat (16 :: u32) + 4000000 * unat (16 :: u32)"
  by (rule timer_expiry_window) simp_all

end
