(* ===== verification/EvMain.thy ===== *)
theory EvMain
  imports EvBuffer TaskQueue TimerEvent
begin

text \<open>
  One pass of the main loop, \<open>ev_main\<close> of \<open>proj/os/ev.c\<close> (the configured version, without
  \<open>USE_NEW_EV_MAIN\<close>, the test hooks and the tick measurements): the timers, one task, one message
  dispatched through the table \<open>buf_item_cb\<close>, and the idle handlers. What a callback, task, handler or
  poll function does to the system is an argument: a record of state transformers.
\<close>

section \<open>Model\<close>

record 'x os =
  os_timers :: timers
  os_tasks :: tl_taskq
  os_bufs :: ev_buf
  os_stackRun :: bool
  os_taskRun :: u32
  os_world :: 'x

datatype handler =
  process_Phy2Mac | process_CSMA2Mac | process_Mac2Nwk | process_Nwk2Profile
| process_Profile2Nwk | process_Nwk2Mac | process_Mac2CSMA

definition buf_item_cb :: "(nat \<times> handler) list" where
  "buf_item_cb =
    [(ST_PHY2MAC, process_Phy2Mac), (ST_CSMA2MAC, process_CSMA2Mac), (ST_MAC2NWK, process_Mac2Nwk),
     (ST_NWK2PROFILE, process_Nwk2Profile), (ST_PROFILE2NWK, process_Profile2Nwk),
     (ST_NWK2MAC, process_Nwk2Mac), (ST_MAC2CSMA, process_Mac2CSMA)]"

text \<open>The parts of the system a timer callback can change besides the timers.\<close>

type_synonym 'x rest = "tl_taskq \<times> ev_buf \<times> bool \<times> u32 \<times> 'x"

record 'x os_code =
  timer_cb :: "'x rest callback"
  task_cb :: "ptr \<Rightarrow> ptr \<Rightarrow> 'x os \<Rightarrow> 'x os"
  msg_cb :: "handler \<Rightarrow> ptr \<Rightarrow> 'x os \<Rightarrow> 'x os"
  sys_idle_handler :: "('x os \<Rightarrow> 'x os) option"
  rf_edDetect :: "('x os \<Rightarrow> 'x os) option"
  usb_handle_irq :: "('x os \<Rightarrow> 'x os) option"

definition ev_rf4ceStackEnable :: "bool \<Rightarrow> 'x os \<Rightarrow> 'x os" where
  "ev_rf4ceStackEnable en s = s\<lparr>os_stackRun := en\<rparr>"

definition run_timers :: "'x os_code \<Rightarrow> u32 \<Rightarrow> 'x os \<Rightarrow> 'x os option" where
  "run_timers c now s =
     (case ev_process_timer (timer_cb c) now (os_timers s)
             (os_tasks s, os_bufs s, os_stackRun s, os_taskRun s, os_world s) of
        None \<Rightarrow> None
      | Some (_, t, (q, b, r, n, x)) \<Rightarrow>
          Some \<lparr>os_timers = t, os_tasks = q, os_bufs = b, os_stackRun = r, os_taskRun = n, os_world = x\<rparr>)"

definition run_task :: "'x os_code \<Rightarrow> 'x os \<Rightarrow> 'x os" where
  "run_task c s =
     (case tl_taskQPop (os_tasks s) 0 of
        (Some t, q) \<Rightarrow> task_cb c (tlCb t) (task_data t) (s\<lparr>os_tasks := q\<rparr>)
      | (None, q) \<Rightarrow> s\<lparr>os_tasks := q\<rparr>)"

definition run_message :: "'x os_code \<Rightarrow> 'x os \<Rightarrow> 'x os" where
  "run_message c s =
     (if os_stackRun s then
        (case buf_message_poll (os_bufs s) of
           ((p, st), b) \<Rightarrow>
             let s1 = s\<lparr>os_bufs := b\<rparr> in
             if p = NULL then s1
             else (case find (\<lambda>(item, _). Some item = st) buf_item_cb of
                     Some (_, h) \<Rightarrow> msg_cb c h p (s1\<lparr>os_taskRun := os_taskRun s1 + 1\<rparr>)
                   | None \<Rightarrow> s1))
      else s)"

definition opt_call :: "('s \<Rightarrow> 's) option \<Rightarrow> 's \<Rightarrow> 's" where
  "opt_call f s = (case f of None \<Rightarrow> s | Some g \<Rightarrow> g s)"

definition ev_main :: "'x os_code \<Rightarrow> u32 \<Rightarrow> 'x os \<Rightarrow> 'x os option" where
  "ev_main c now s =
     (case run_timers c now s of
        None \<Rightarrow> None
      | Some s1 \<Rightarrow>
          let s2 = run_message c (run_task c s1)
          in Some (opt_call (usb_handle_irq c) (opt_call (rf_edDetect c) (opt_call (sys_idle_handler c) s2))))"

section \<open>Dispatch\<close>

definition handler_of :: "nat \<Rightarrow> handler" where
  "handler_of st = snd (buf_item_cb ! (st - 1))"

lemma find_handler:
  "1 \<le> st \<Longrightarrow> st \<le> 7 \<Longrightarrow> find (\<lambda>(item, _). Some item = Some st) buf_item_cb = Some (st, handler_of st)"
proof -
  assume "1 \<le> st" "st \<le> 7"
  then have "st = 1 \<or> st = 2 \<or> st = 3 \<or> st = 4 \<or> st = 5 \<or> st = 6 \<or> st = 7" by arith
  then show ?thesis by (elim disjE) (simp_all add: buf_item_cb_def handler_of_def)
qed

lemma msg_view_poll:
  assumes "msg_inv s" "msg_view s = (p, st) # ms"
  shows "\<exists>s'. buf_message_poll s = ((p, Some st), s') \<and> msg_inv s' \<and> msg_view s' = ms \<and> p \<noteq> NULL \<and> 1 \<le> st \<and> st \<le> 7"
proof -
  have P: "pool_of s (pool_items s)" using assms(1) by (simp add: msg_inv_def)
  obtain x xs where x: "pool_items s = x # xs" "p = data_of x" "st = hd (flags s x)"
    using assms(2) by (cases "pool_items s") (auto simp: msg_view_def)
  have xi: "x \<in> all_items s" and pl: "placed s" using P x by (auto simp: pool_of_def)
  obtain i where i: "flags s x = [i]" using P x by (auto simp: pool_of_def)
  then have "st \<in> set (flags s x)" using x by simp
  then have st: "1 \<le> st" "st \<le> 7" by (auto simp: flags_def)
  have nn: "p \<noteq> NULL" using xi pl x data_nonnull by (auto simp: all_items_def)
  obtain s' where "buf_message_poll s = ((p, Some st), s')"
    using poll_pool[OF P[unfolded x(1)]] x by (cases "buf_message_poll s") auto
  with msg_deq_view[OF assms(1)] assms(2) st nn show ?thesis
    by (auto simp: msg_deq_def)
qed

lemma run_message_some:
  assumes "os_stackRun s" "msg_inv (os_bufs s)" "msg_view (os_bufs s) = (p, st) # ms"
  shows "\<exists>b. run_message c s = msg_cb c (handler_of st) p (s\<lparr>os_bufs := b, os_taskRun := os_taskRun s + 1\<rparr>) \<and>
             msg_inv b \<and> msg_view b = ms"
proof -
  obtain b where b: "buf_message_poll (os_bufs s) = ((p, Some st), b)" "msg_inv b" "msg_view b = ms"
      "p \<noteq> NULL" "1 \<le> st" "st \<le> 7"
    using msg_view_poll[OF assms(2,3)] by blast
  then show ?thesis
    using assms(1) find_handler[of st] by (auto simp: run_message_def Let_def)
qed

lemma run_message_none:
  assumes "msg_inv (os_bufs s)" "msg_view (os_bufs s) = []"
  shows "run_message c s = s"
proof -
  have "pool_of (os_bufs s) []" using assms by (simp add: msg_inv_def msg_view_def)
  from poll_empty[OF this] show ?thesis by (simp add: run_message_def)
qed

end
