(* ===== verification/DrvFlash.thy ===== *)
theory DrvFlash
  imports CMem
begin

text \<open>
  The flash driver: \<open>proj/drivers/drv_flash.c\<close> and the page loop of \<open>platform/tlsr_8258/flash.c\<close>.
  The flash chip behind the SPI bus is not code: its state \<open>'c\<close> and its commands (program within a
  page, read, sector erase, lock, unlock) are parameters, and the locale \<open>nor_flash\<close> states what
  their data sheet promises: programming clears bits, erasing sets a 4096-byte sector to 0xFF.
  \<open>cells c\<close> is the contents by address, \<open>writable c\<close> that no protection is active.
  The driver is shown to promise the same for blocks of any length and alignment.
\<close>

section \<open>Model\<close>

record 'c drv_flash =
  drv_write :: "'c \<Rightarrow> u32 \<Rightarrow> u8 list \<Rightarrow> 'c"
  drv_read :: "'c \<Rightarrow> u32 \<Rightarrow> nat \<Rightarrow> u8 list"
  drv_erase :: "'c \<Rightarrow> u32 \<Rightarrow> 'c"

abbreviation mk_drv where "mk_drv wr rd er \<equiv> \<lparr>drv_write = wr, drv_read = rd, drv_erase = er\<rparr>"

abbreviation PAGE_SIZE :: nat where "PAGE_SIZE \<equiv> 256"

text \<open>\<open>flash_write_page\<close> of the 8258 platform: program commands that do not cross a page.
  \<open>ns\<close> is 256 from the second round on.\<close>

function write_page_rounds :: "('c \<Rightarrow> u32 \<Rightarrow> u8 list \<Rightarrow> 'c) \<Rightarrow> 'c \<Rightarrow> u32 \<Rightarrow> u8 list \<Rightarrow> 'c" where
  "write_page_rounds program c addr buf =
     (if buf = [] then c
      else let nw = (if length buf > PAGE_SIZE then PAGE_SIZE else length buf)
           in write_page_rounds program (program c addr (take nw buf)) (addr + of_nat nw) (drop nw buf))"
  by auto

termination
  by (relation "measure (\<lambda>(program, c, addr, buf). length buf)") auto

definition flash_write_page :: "('c \<Rightarrow> u32 \<Rightarrow> u8 list \<Rightarrow> 'c) \<Rightarrow> 'c \<Rightarrow> u32 \<Rightarrow> u8 list \<Rightarrow> 'c" where
  "flash_write_page program c addr buf =
     (let ns = PAGE_SIZE - unat (addr AND 0xff);
          nw = (if length buf > ns then ns else length buf)
      in write_page_rounds program (program c addr (take nw buf)) (addr + of_nat nw) (drop nw buf))"

text \<open>The rounds of \<open>flash_op\<close> after the first one, where \<open>pageReLen\<close> is 256. Writing consumes
  \<open>buf\<close>, reading fills a list.\<close>

function flash_write_rounds :: "'c drv_flash \<Rightarrow> 'c \<Rightarrow> u32 \<Rightarrow> u8 list \<Rightarrow> 'c" where
  "flash_write_rounds d c addr buf =
     (if buf = [] then c
      else let writeLen = (if length buf \<le> 256 then length buf else 256)
           in flash_write_rounds d (drv_write d c addr (take writeLen buf)) (addr + of_nat writeLen) (drop writeLen buf))"
  by auto

termination
  by (relation "measure (\<lambda>(d, c, addr, buf). length buf)") auto

definition flash_write :: "'c drv_flash \<Rightarrow> 'c \<Rightarrow> u32 \<Rightarrow> u8 list \<Rightarrow> 'c" where
  "flash_write d c addr buf =
     (let re = unat addr mod 256;
          pageReLen = (if re \<noteq> 0 then 256 - re else 256);
          writeLen = (if length buf \<le> pageReLen then length buf else pageReLen)
      in flash_write_rounds d (drv_write d c addr (take writeLen buf)) (addr + of_nat writeLen) (drop writeLen buf))"

function flash_read_rounds :: "'c drv_flash \<Rightarrow> 'c \<Rightarrow> u32 \<Rightarrow> nat \<Rightarrow> u8 list" where
  "flash_read_rounds d c addr len =
     (if len = 0 then []
      else let readLen = (if len \<le> 256 then len else 256)
           in drv_read d c addr readLen @ flash_read_rounds d c (addr + of_nat readLen) (len - readLen))"
  by auto

termination
  by (relation "measure (\<lambda>(d, c, addr, len). len)") auto

definition flash_read :: "'c drv_flash \<Rightarrow> 'c \<Rightarrow> u32 \<Rightarrow> nat \<Rightarrow> u8 list" where
  "flash_read d c addr len =
     (let re = unat addr mod 256;
          pageReLen = (if re \<noteq> 0 then 256 - re else 256);
          readLen = (if len \<le> pageReLen then len else pageReLen)
      in drv_read d c addr readLen @ flash_read_rounds d c (addr + of_nat readLen) (len - readLen))"

definition flash_erase :: "'c drv_flash \<Rightarrow> 'c \<Rightarrow> u32 \<Rightarrow> 'c" where
  "flash_erase d c addr = drv_erase d c addr"

text \<open>The verification loop: 48 bytes at a time; \<open>memcmp\<close> of equally long buffers is list equality. The
  length is converted to a signed word first, so from \<open>2 ^ 31\<close> bytes on the loop is not entered.\<close>

function check_rounds :: "'c drv_flash \<Rightarrow> 'c \<Rightarrow> u32 \<Rightarrow> u8 list \<Rightarrow> bool" where
  "check_rounds d c sAddr src =
     (if src = [] then True
      else let wLen = (if length src > 48 then 48 else length src)
           in if flash_read d c sAddr wLen \<noteq> take wLen src then False
              else check_rounds d c (sAddr + of_nat wLen) (drop wLen src))"
  by auto

termination
  by (relation "measure (\<lambda>(d, c, sAddr, src). length src)") auto

declare write_page_rounds.simps [simp del] flash_write_rounds.simps [simp del]
  flash_read_rounds.simps [simp del] check_rounds.simps [simp del]

definition flash_writeWithCheck :: "'c drv_flash \<Rightarrow> 'c \<Rightarrow> u32 \<Rightarrow> u8 list \<Rightarrow> bool \<times> 'c" where
  "flash_writeWithCheck d c addr buf =
     (let c' = flash_write d c addr buf; toalLen = sint (of_nat (length buf) :: u32)
      in (toalLen > 0 \<longrightarrow> check_rounds d c' addr buf, c'))"

text \<open>Protection. The lock and unlock routines of the flash type found at start-up, with their
  block size; \<open>None\<close> is the null pointer.\<close>

record 'c flash_opt =
  opt_mid :: u32
  opt_unlock :: "'c \<Rightarrow> u8 \<times> 'c"
  opt_lock :: "u32 \<Rightarrow> 'c \<Rightarrow> u8 \<times> 'c"
  opt_blockSize :: u32

record 'c flash_st =
  fl_chip :: 'c
  pFlashOpt :: "'c flash_opt option"
  g_flashLocked :: bool

definition flash_loadOpt :: "'c flash_opt list \<Rightarrow> u32 \<Rightarrow> bool \<Rightarrow> 'c flash_st \<Rightarrow> 'c flash_st" where
  "flash_loadOpt optList mid lock_not_allowed s =
     (if lock_not_allowed then s\<lparr>pFlashOpt := None\<rparr>
      else case find (\<lambda>o'. opt_mid o' = mid) optList of
        Some o' \<Rightarrow> s\<lparr>pFlashOpt := Some o'\<rparr>
      | None \<Rightarrow> s)"

definition flash_lock :: "'c flash_st \<Rightarrow> 'c flash_st" where
  "flash_lock s =
     (case pFlashOpt s of
        None \<Rightarrow> s
      | Some o' \<Rightarrow>
          if g_flashLocked s then s
          else (case opt_lock o' (opt_blockSize o') (fl_chip s) of
                  (r, c) \<Rightarrow> if r = 1 then s\<lparr>fl_chip := c, g_flashLocked := True\<rparr> else s\<lparr>fl_chip := c\<rparr>))"

definition flash_unlock :: "'c flash_st \<Rightarrow> 'c flash_st" where
  "flash_unlock s =
     (case pFlashOpt s of
        None \<Rightarrow> s
      | Some o' \<Rightarrow>
          if \<not> g_flashLocked s then s
          else (case opt_unlock o' (fl_chip s) of
                  (r, c) \<Rightarrow> if r = 1 then s\<lparr>fl_chip := c, g_flashLocked := False\<rparr> else s\<lparr>fl_chip := c\<rparr>))"

section \<open>What NOR flash does\<close>

definition nor_write :: "mem \<Rightarrow> u32 \<Rightarrow> u8 list \<Rightarrow> mem" where
  "nor_write m a bs = (\<lambda>x. if within a (length bs) x then m x AND bs ! unat (x - a) else m x)"

definition sector :: "u32 \<Rightarrow> nat" where
  "sector a = unat a div 4096"

definition nor_erase :: "mem \<Rightarrow> u32 \<Rightarrow> mem" where
  "nor_erase m a = (\<lambda>x. if sector x = sector a then 0xff else m x)"

definition in_page :: "u32 \<Rightarrow> nat \<Rightarrow> bool" where
  "in_page a n \<longleftrightarrow> unat a mod PAGE_SIZE + n \<le> PAGE_SIZE"

lemma nor_write_Nil [simp]: "nor_write m a [] = m"
  by (simp add: nor_write_def)

lemma length_take_drop_sum: "n \<le> length bs \<Longrightarrow> length (take n bs) = n \<and> length (drop n bs) = length bs - n"
  by simp

text \<open>Writing in two pieces is writing in one.\<close>

lemma within_split:
  assumes "n \<le> k" "k < 2 ^ 32"
  shows "within a k x \<longleftrightarrow> within a n x \<or> within (a + of_nat n) (k - n) x"
    and "within (a + of_nat n) (k - n) x \<Longrightarrow> unat (x - a) = n + unat (x - (a + of_nat n)) \<and> \<not> within a n x"
proof -
  have u: "unat (of_nat n :: u32) = n" using assms by (intro unat_of_nat_u32) simp
  have e: "x - (a + of_nat n) = (x - a) - of_nat n" by simp
  have hi: "unat (x - a) = n + unat (x - (a + of_nat n)) \<and> n \<le> unat (x - a)"
    if "within (a + of_nat n) (k - n) x"
  proof -
    have l: "unat (x - (a + of_nat n)) < k - n" using that by (simp add: within_def)
    have "x - a = of_nat n + (x - (a + of_nat n))" by simp
    moreover have "unat (of_nat n + (x - (a + of_nat n))) = n + unat (x - (a + of_nat n))"
      using l assms u by (subst unat_add_small) simp_all
    ultimately show ?thesis by simp
  qed
  show "within (a + of_nat n) (k - n) x \<Longrightarrow> unat (x - a) = n + unat (x - (a + of_nat n)) \<and> \<not> within a n x"
    using hi by (simp add: within_def)
  show "within a k x \<longleftrightarrow> within a n x \<or> within (a + of_nat n) (k - n) x"
  proof
    assume w: "within a k x"
    show "within a n x \<or> within (a + of_nat n) (k - n) x"
    proof (cases "unat (x - a) < n")
      case True then show ?thesis by (simp add: within_def)
    next
      case False
      then have "of_nat n \<le> x - a" using u by (simp add: word_le_nat_alt)
      then have "unat (x - a - of_nat n) = unat (x - a) - n" using u by (simp add: unat_sub)
      then show ?thesis using w False unfolding within_def e by linarith
    qed
  next
    assume "within a n x \<or> within (a + of_nat n) (k - n) x"
    then show "within a k x"
    proof
      assume "within a n x" then show ?thesis using assms by (simp add: within_def)
    next
      assume b: "within (a + of_nat n) (k - n) x"
      then show ?thesis using hi[OF b] by (simp add: within_def)
    qed
  qed
qed

lemma nor_write_append:
  assumes "n \<le> length bs" "length bs < 2 ^ 32"
  shows "nor_write (nor_write m a (take n bs)) (a + of_nat n) (drop n bs) = nor_write m a bs"
proof (rule ext)
  fix x
  have l: "length (take n bs) = n" "length (drop n bs) = length bs - n" using assms by simp_all
  note s = within_split[OF assms, of a x]
  show "nor_write (nor_write m a (take n bs)) (a + of_nat n) (drop n bs) x = nor_write m a bs x"
  proof (cases "within (a + of_nat n) (length bs - n) x")
    case True
    with s l assms show ?thesis by (auto simp: nor_write_def)
  next
    case False
    with s l assms show ?thesis by (auto simp: nor_write_def within_def)
  qed
qed

lemma block_append: "block m a n @ block m (a + of_nat n) k = block m a (n + k)"
proof -
  have "[0..<n + k] = [0..<n] @ map (\<lambda>i. n + i) [0..<k]"
    by (induction k) auto
  then show ?thesis by (simp add: block_def comp_def add.assoc)
qed


lemma mod256: "unat (a + of_nat n :: u32) mod 256 = (unat a + n) mod 256"
proof -
  have "unat (a + of_nat n) = (unat a + unat (of_nat n :: u32)) mod 2 ^ 32"
    by (simp add: unat_word_ariths)
  then show ?thesis by (simp add: unat_of_nat mod_mod_cancel mod_add_right_eq take_bit_eq_mod)
qed

lemma page_end: "u mod 256 + p = 256 \<or> u mod 256 = 0 \<and> p = (256 :: nat) \<Longrightarrow> (u + p) mod 256 = 0"
  by (metis mod_add_left_eq mod_self add_0)

locale nor_flash =
  fixes wr :: "'c \<Rightarrow> u32 \<Rightarrow> u8 list \<Rightarrow> 'c"
    and rd :: "'c \<Rightarrow> u32 \<Rightarrow> nat \<Rightarrow> u8 list"
    and er :: "'c \<Rightarrow> u32 \<Rightarrow> 'c"
    and cells :: "'c \<Rightarrow> mem"
    and writable :: "'c \<Rightarrow> bool"
  assumes wr_cells: "writable c \<Longrightarrow> in_page a (length bs) \<Longrightarrow> cells (wr c a bs) = nor_write (cells c) a bs"
    and wr_writable: "writable c \<Longrightarrow> writable (wr c a bs)"
    and rd_cells: "in_page a n \<Longrightarrow> rd c a n = block (cells c) a n"
    and er_cells: "writable c \<Longrightarrow> cells (er c a) = nor_erase (cells c) a"
    and er_writable: "writable c \<Longrightarrow> writable (er c a)"
begin

lemma flash_write_rounds_cells:
  "writable c \<Longrightarrow> unat a mod 256 = 0 \<Longrightarrow> length bs < 2 ^ 32 \<Longrightarrow>
   cells (flash_write_rounds (mk_drv wr rd er) c a bs) = nor_write (cells c) a bs \<and>
   writable (flash_write_rounds (mk_drv wr rd er) c a bs)"
proof (induction bs arbitrary: c a rule: length_induct)
  case (1 bs)
  let ?d = "(mk_drv wr rd er)"
  show ?case
  proof (cases "bs = []")
    case True
    with 1 show ?thesis by (simp add: flash_write_rounds.simps)
  next
    case False
    define n where "n = (if length bs \<le> 256 then length bs else 256)"
    have n: "0 < n" "n \<le> length bs" "n \<le> 256" using False by (auto simp: n_def)
    let ?c = "wr c a (take n bs)" and ?a = "a + of_nat n"
    have r: "flash_write_rounds ?d c a bs = flash_write_rounds ?d ?c ?a (drop n bs)"
      using False by (subst flash_write_rounds.simps) (simp add: n_def Let_def)
    have cc: "cells ?c = nor_write (cells c) a (take n bs)" and w: "writable ?c"
      using 1(2,3) n wr_writable by (auto intro!: wr_cells simp: in_page_def)
    show ?thesis
    proof (cases "drop n bs = []")
      case True
      then have "n = length bs" using n by simp
      with r cc w True show ?thesis by (simp add: flash_write_rounds.simps)
    next
      case f: False
      then have "n = 256" by (auto simp: n_def split: if_splits)
      then have "unat ?a mod 256 = 0" using mod256[of a n] 1(3) by simp
      moreover have "length (drop n bs) < length bs" using n False by simp
      ultimately have "cells (flash_write_rounds ?d ?c ?a (drop n bs)) = nor_write (cells ?c) ?a (drop n bs) \<and>
          writable (flash_write_rounds ?d ?c ?a (drop n bs))"
        using 1(1) w 1(4) by simp
      then show ?thesis
        unfolding r cc nor_write_append[OF n(2) 1(4)] by simp
    qed
  qed
qed


lemma flash_write_cells:
  assumes "writable c" "length bs < 2 ^ 32"
  shows "cells (flash_write (mk_drv wr rd er) c a bs) = nor_write (cells c) a bs \<and>
         writable (flash_write (mk_drv wr rd er) c a bs)"
proof -
  let ?p = "if unat a mod 256 \<noteq> 0 then 256 - unat a mod 256 else 256 :: nat"
  define n where "n = (if length bs \<le> ?p then length bs else ?p)"
  have p: "unat a mod 256 + ?p = 256 \<or> unat a mod 256 = 0 \<and> ?p = 256" "?p \<le> 256"
    using mod_less_divisor[of 256 "unat a"] by auto
  have n: "n \<le> length bs" "n \<le> ?p" by (auto simp: n_def)
  let ?c = "wr c a (take n bs)" and ?a = "a + of_nat n"
  have r: "flash_write (mk_drv wr rd er) c a bs = flash_write_rounds (mk_drv wr rd er) ?c ?a (drop n bs)"
    by (simp add: flash_write_def Let_def n_def)
  have ip: "in_page a (length (take n bs))" using n p by (auto simp: in_page_def)
  have cc: "cells ?c = nor_write (cells c) a (take n bs)" and w: "writable ?c"
    using wr_cells[OF assms(1) ip] wr_writable[OF assms(1)] by auto
  show ?thesis
  proof (cases "drop n bs = []")
    case True
    then have "take n bs = bs" by simp
    with r cc w True show ?thesis by (simp add: flash_write_rounds.simps)
  next
    case False
    then have "n = ?p" by (auto simp: n_def split: if_splits)
    then have "unat ?a mod 256 = 0" using mod256[of a n] page_end[of "unat a" ?p] p by auto
    with flash_write_rounds_cells[OF w, of ?a "drop n bs"] assms(2)
    have "cells (flash_write_rounds (mk_drv wr rd er) ?c ?a (drop n bs)) = nor_write (cells ?c) ?a (drop n bs) \<and>
          writable (flash_write_rounds (mk_drv wr rd er) ?c ?a (drop n bs))" by simp
    then show ?thesis
      unfolding r cc nor_write_append[OF n(1) assms(2)] by simp
  qed
qed

lemma flash_read_rounds_cells:
  "unat a mod 256 = 0 \<Longrightarrow> flash_read_rounds (mk_drv wr rd er) c a n = block (cells c) a n"
proof (induction n arbitrary: a rule: less_induct)
  case (less n)
  show ?case
  proof (cases "n = 0")
    case True
    then show ?thesis by (simp add: flash_read_rounds.simps)
  next
    case False
    define k where "k = (if n \<le> 256 then n else 256)"
    have k: "0 < k" "k \<le> n" "k \<le> 256" using False by (auto simp: k_def)
    have "unat (a + of_nat k) mod 256 = 0 \<or> n - k = 0"
      using mod256[of a k] less.prems by (auto simp: k_def)
    then have ih: "flash_read_rounds (mk_drv wr rd er) c (a + of_nat k) (n - k) = block (cells c) (a + of_nat k) (n - k)"
    proof
      assume "unat (a + of_nat k) mod 256 = 0"
      then show ?thesis using less.IH[of "n - k" "a + of_nat k"] k False by simp
    next
      assume "n - k = 0"
      then show ?thesis unfolding \<open>n - k = 0\<close> by (simp add: flash_read_rounds.simps)
    qed
    have "rd c a k = block (cells c) a k"
      using less.prems k by (intro rd_cells) (simp add: in_page_def)
    moreover have "flash_read_rounds (mk_drv wr rd er) c a n =
        rd c a k @ flash_read_rounds (mk_drv wr rd er) c (a + of_nat k) (n - k)"
      using False flash_read_rounds.simps[of "mk_drv wr rd er" c a n]
      unfolding k_def Let_def by (simp only: if_False drv_flash.select_convs)
    ultimately show ?thesis using ih block_append[of "cells c" a k "n - k"] k by simp
  qed
qed

lemma flash_read_cells: "flash_read (mk_drv wr rd er) c a n = block (cells c) a n"
proof -
  let ?p = "if unat a mod 256 \<noteq> 0 then 256 - unat a mod 256 else 256 :: nat"
  define k where "k = (if n \<le> ?p then n else ?p)"
  have p: "unat a mod 256 + ?p = 256 \<or> unat a mod 256 = 0 \<and> ?p = 256" "?p \<le> 256"
    using mod_less_divisor[of 256 "unat a"] by auto
  have k: "k \<le> n" "k \<le> ?p" by (auto simp: k_def)
  have r: "flash_read (mk_drv wr rd er) c a n = rd c a k @ flash_read_rounds (mk_drv wr rd er) c (a + of_nat k) (n - k)"
    by (simp add: flash_read_def Let_def k_def)
  have "rd c a k = block (cells c) a k" using k p by (intro rd_cells) (auto simp: in_page_def)
  moreover have "flash_read_rounds (mk_drv wr rd er) c (a + of_nat k) (n - k) = block (cells c) (a + of_nat k) (n - k)"
  proof (cases "n - k = 0")
    case True
    then show ?thesis by (simp add: flash_read_rounds.simps)
  next
    case False
    then have "k = ?p" by (auto simp: k_def split: if_splits)
    then have "unat (a + of_nat k) mod 256 = 0" using mod256[of a k] page_end[of "unat a" ?p] p by auto
    then show ?thesis by (rule flash_read_rounds_cells)
  qed
  ultimately show ?thesis using block_append[of "cells c" a k "n - k"] k by (simp add: r)
qed

lemma check_rounds_cells:
  "check_rounds (mk_drv wr rd er) c a src = (block (cells c) a (length src) = src)"
proof (induction src arbitrary: a rule: length_induct)
  case (1 src)
  show ?case
  proof (cases "src = []")
    case True
    then show ?thesis by (simp add: check_rounds.simps)
  next
    case False
    define n where "n = (if length src > 48 then 48 else length src)"
    have n: "0 < n" "n \<le> length src" using False by (auto simp: n_def)
    have r: "check_rounds (mk_drv wr rd er) c a src =
      (block (cells c) a n = take n src \<and> check_rounds (mk_drv wr rd er) c (a + of_nat n) (drop n src))"
      using False by (subst check_rounds.simps) (simp add: n_def Let_def flash_read_cells)
    have "length (drop n src) < length src" using n by simp
    then have ih: "check_rounds (mk_drv wr rd er) c (a + of_nat n) (drop n src) =
        (block (cells c) (a + of_nat n) (length (drop n src)) = drop n src)" using 1 by blast
    have b: "block (cells c) a (length src) = block (cells c) a n @ block (cells c) (a + of_nat n) (length (drop n src))"
      using block_append[of "cells c" a n "length src - n"] n by simp
    show ?thesis
      unfolding r ih b using n append_take_drop_id[of n src]
      by (metis append_eq_append_conv length_block length_take min.absorb2)
  qed
qed

lemma s32_pos: "n < 2 ^ 32 \<Longrightarrow> 0 < sint (of_nat n :: u32) \<longleftrightarrow> 0 < n \<and> n < 2 ^ 31"
proof -
  assume n: "n < 2 ^ 32"
  then have "uint (of_nat n :: u32) = int n" by (simp add: uint_nat unat_of_nat_u32)
  then have "sint (of_nat n :: u32) = (int n + 2 ^ 31) mod 2 ^ 32 - 2 ^ 31"
    by (simp add: sint_uint signed_take_bit_eq_take_bit_shift take_bit_eq_mod)
  moreover have "(int n + 2 ^ 31) mod 2 ^ 32 = (if n < 2 ^ 31 then int n + 2 ^ 31 else int n - 2 ^ 31)"
  proof (cases "n < 2 ^ 31")
    case True
    then show ?thesis by simp
  next
    case False
    have "(int n + 2 ^ 31) mod 2 ^ 32 = (int n + 2 ^ 31 - 2 ^ 32) mod 2 ^ 32" by (rule minus_mod_self2[symmetric])
    also have "\<dots> = int n - 2 ^ 31" using n False by simp
    finally show ?thesis using False by simp
  qed
  ultimately show ?thesis using n by auto
qed

lemma flash_writeWithCheck_cells:
  assumes "writable c" "length bs < 2 ^ 31"
  shows "cells (snd (flash_writeWithCheck (mk_drv wr rd er) c a bs)) = nor_write (cells c) a bs \<and>
         writable (snd (flash_writeWithCheck (mk_drv wr rd er) c a bs)) \<and>
         (fst (flash_writeWithCheck (mk_drv wr rd er) c a bs) \<longleftrightarrow> block (nor_write (cells c) a bs) a (length bs) = bs)"
  using flash_write_cells[OF assms(1), of bs a] s32_pos[of "length bs"] assms(2)
  by (auto simp: flash_writeWithCheck_def Let_def check_rounds_cells)

lemma flash_writeWithCheck_long:
  assumes "writable c" "length bs < 2 ^ 32" "2 ^ 31 \<le> length bs"
  shows "fst (flash_writeWithCheck (mk_drv wr rd er) c a bs) \<and>
         cells (snd (flash_writeWithCheck (mk_drv wr rd er) c a bs)) = nor_write (cells c) a bs"
  using flash_write_cells[OF assms(1,2), of a] s32_pos[OF assms(2)] assms(3) by (simp add: flash_writeWithCheck_def Let_def)

end

section \<open>The platform driver provides the interface\<close>

lemma write_page_rounds_eq:
  "write_page_rounds program c a bs = flash_write_rounds (mk_drv program rd er) c a bs"
proof (induction bs arbitrary: c a rule: length_induct)
  case (1 bs)
  show ?case
  proof (cases "bs = []")
    case True
    then show ?thesis by (simp add: flash_write_rounds.simps write_page_rounds.simps)
  next
    case False
    define n where "n = (if length bs \<le> 256 then length bs else 256)"
    have "length (drop n bs) < length bs" using False by (auto simp: n_def)
    with 1 False show ?thesis
      by (subst flash_write_rounds.simps, subst write_page_rounds.simps) (auto simp: n_def Let_def)
  qed
qed

lemma and_0xff: "unat (a AND 0xff :: u32) = unat a mod 256"
proof -
  have "a AND 0xff = a AND mask 8" by (simp add: mask_eq_exp_minus_1)
  then show ?thesis by (simp add: unsigned_take_bit_eq take_bit_eq_mod unat_mod_distrib flip: take_bit_eq_mask)
qed

lemma flash_write_page_eq: "flash_write_page program c a bs = flash_write (mk_drv program rd er) c a bs"
  using mod_less_divisor[of 256 "unat a"]
  by (auto simp: flash_write_page_def flash_write_def Let_def and_0xff write_page_rounds_eq[of program _ _ _ rd er])


text \<open>The commands of the chip promise the laws within a page; the platform's \<open>flash_write_page\<close>
  promises them too (in fact for any block), with reads and erases passed straight on.\<close>

locale nor_chip =
  fixes program :: "'c \<Rightarrow> u32 \<Rightarrow> u8 list \<Rightarrow> 'c"
    and read_cmd :: "'c \<Rightarrow> u32 \<Rightarrow> nat \<Rightarrow> u8 list"
    and erase_cmd :: "'c \<Rightarrow> u32 \<Rightarrow> 'c"
    and cells :: "'c \<Rightarrow> mem"
    and writable :: "'c \<Rightarrow> bool"
  assumes program_cells: "writable c \<Longrightarrow> in_page a (length bs) \<Longrightarrow> cells (program c a bs) = nor_write (cells c) a bs"
    and program_writable: "writable c \<Longrightarrow> writable (program c a bs)"
    and read_cmd_cells: "in_page a n \<Longrightarrow> read_cmd c a n = block (cells c) a n"
    and erase_cmd_cells: "writable c \<Longrightarrow> cells (erase_cmd c a) = nor_erase (cells c) a"
    and erase_cmd_writable: "writable c \<Longrightarrow> writable (erase_cmd c a)"

sublocale nor_chip \<subseteq> raw: nor_flash program read_cmd erase_cmd cells writable
  by unfold_locales
     (auto simp: program_cells program_writable read_cmd_cells erase_cmd_cells erase_cmd_writable)

lemma flash_write_rounds_cong:
  "flash_write_rounds (mk_drv wr rd er) c a bs = flash_write_rounds (mk_drv wr rd' er') c a bs"
  using write_page_rounds_eq by metis

context nor_flash begin

lemma flash_write_rounds_writable: "writable c \<Longrightarrow> writable (flash_write_rounds (mk_drv wr rd er) c a bs)"
proof (induction bs arbitrary: c a rule: length_induct)
  case (1 bs)
  show ?case
  proof (cases "bs = []")
    case True
    with 1 show ?thesis by (simp add: flash_write_rounds.simps)
  next
    case False
    define n where "n = (if length bs \<le> 256 then length bs else 256)"
    have "length (drop n bs) < length bs" using False by (auto simp: n_def)
    moreover have "writable (wr c a (take n bs))" using 1 wr_writable by blast
    moreover have "flash_write_rounds (mk_drv wr rd er) c a bs =
        flash_write_rounds (mk_drv wr rd er) (wr c a (take n bs)) (a + of_nat n) (drop n bs)"
      using False by (subst flash_write_rounds.simps) (simp add: n_def Let_def)
    ultimately show ?thesis using 1 by simp
  qed
qed

lemma flash_write_writable: "writable c \<Longrightarrow> writable (flash_write (mk_drv wr rd er) c a bs)"
  by (simp add: flash_write_def Let_def flash_write_rounds_writable wr_writable)

end

sublocale nor_chip \<subseteq> platform: nor_flash "flash_write_page program" read_cmd erase_cmd cells writable
proof unfold_locales
  fix c a and bs :: "u8 list" and n
  show "writable c \<Longrightarrow> in_page a (length bs) \<Longrightarrow> cells (flash_write_page program c a bs) = nor_write (cells c) a bs"
    using raw.flash_write_cells[of c bs a]
    by (simp add: flash_write_page_eq[of program _ _ _ read_cmd erase_cmd] in_page_def)
  show "writable c \<Longrightarrow> writable (flash_write_page program c a bs)"
    by (simp add: flash_write_page_eq[of program _ _ _ read_cmd erase_cmd] raw.flash_write_writable)
qed (auto simp: read_cmd_cells erase_cmd_cells erase_cmd_writable)

context nor_chip begin

lemma platform_nor: "nor_flash (flash_write_page program) read_cmd erase_cmd cells writable"
  by unfold_locales

end

text \<open>An ideal chip, for evaluation: its state is its cells, protection is off.\<close>

interpretation ideal: nor_chip nor_write block nor_erase "\<lambda>m. m" "\<lambda>_. True"
  by unfold_locales simp_all

abbreviation myFlashDrv_ideal :: "mem drv_flash" where
  "myFlashDrv_ideal \<equiv> mk_drv (flash_write_page nor_write) block nor_erase"

section \<open>Protection\<close>

definition opt_ok :: "('c \<Rightarrow> mem) \<Rightarrow> ('c \<Rightarrow> bool) \<Rightarrow> 'c flash_opt \<Rightarrow> bool" where
  "opt_ok cells writable o' \<longleftrightarrow>
     (\<forall>c. fst (opt_unlock o' c) = 1 \<and> cells (snd (opt_unlock o' c)) = cells c \<and> writable (snd (opt_unlock o' c))) \<and>
     (\<forall>b c. cells (snd (opt_lock o' b c)) = cells c \<and> (fst (opt_lock o' b c) \<noteq> 1 \<longrightarrow> writable c \<longrightarrow> writable (snd (opt_lock o' b c))))"

text \<open>The flag says the truth: not locked means writable.\<close>

definition flash_ok :: "('c \<Rightarrow> mem) \<Rightarrow> ('c \<Rightarrow> bool) \<Rightarrow> 'c flash_st \<Rightarrow> bool" where
  "flash_ok cells writable s \<longleftrightarrow> (\<not> g_flashLocked s \<longrightarrow> writable (fl_chip s)) \<and>
     (case pFlashOpt s of None \<Rightarrow> \<not> g_flashLocked s | Some o' \<Rightarrow> opt_ok cells writable o')"

lemma flash_unlock_ok:
  "flash_ok cells writable s \<Longrightarrow>
   flash_ok cells writable (flash_unlock s) \<and> \<not> g_flashLocked (flash_unlock s) \<and> writable (fl_chip (flash_unlock s)) \<and>
   cells (fl_chip (flash_unlock s)) = cells (fl_chip s) \<and> pFlashOpt (flash_unlock s) = pFlashOpt s"
  by (auto simp: flash_ok_def flash_unlock_def opt_ok_def split: option.splits prod.splits)
     (metis fst_conv snd_conv)+

lemma flash_lock_ok:
  "flash_ok cells writable s \<Longrightarrow>
   flash_ok cells writable (flash_lock s) \<and> cells (fl_chip (flash_lock s)) = cells (fl_chip s) \<and>
   pFlashOpt (flash_lock s) = pFlashOpt s"
  by (auto simp: flash_ok_def flash_lock_def opt_ok_def split: option.splits prod.splits)
     (metis fst_conv snd_conv)+


text \<open>A new device, for the evaluations: the chip is erased, there is no lock.\<close>

definition new_device :: "mem flash_st" where
  "new_device = \<lparr>fl_chip = (\<lambda>_. 0xff), pFlashOpt = None, g_flashLocked = False\<rparr>"

lemma new_device_ok: "flash_ok (\<lambda>m. m) (\<lambda>_. True) new_device"
  by (simp add: flash_ok_def new_device_def)

section \<open>Properties\<close>

lemma block_nor_write:
  "length bs < 2 ^ 32 \<Longrightarrow> block (nor_write m a bs) a (length bs) = map (\<lambda>i. m (a + of_nat i) AND bs ! i) [0..<length bs]"
  by (auto simp: block_def nor_write_def within_def unat_of_nat_u32)

lemma nor_write_stores_iff:
  "length bs < 2 ^ 32 \<Longrightarrow>
   block (nor_write m a bs) a (length bs) = bs \<longleftrightarrow> (\<forall>i < length bs. m (a + of_nat i) AND bs ! i = bs ! i)"
  unfolding list_eq_iff_nth_eq length_block by (simp add: block_nor_write)

text \<open>C21: On any NOR chip, with protection off, \<open>flash_writeWithCheck\<close> through the platform driver
  reports success, for a block below \<open>2 ^ 31\<close> bytes, exactly when no bit has to go from 0 to 1; then reading
  the range back returns the written bytes. A longer block is reported as a success without being checked, because
  its length is negative as a signed word. Whatever the address, the length and the page boundaries in
  between, no cell outside the range changes.\<close>

theorem flash_writeWithCheck_correct:
  assumes "nor_chip program read_cmd erase_cmd cells writable" "writable c" "length bs < 2 ^ 32"
  defines "d \<equiv> mk_drv (flash_write_page program) read_cmd erase_cmd"
  shows "(fst (flash_writeWithCheck d c a bs) \<longleftrightarrow>
       2 ^ 31 \<le> length bs \<or> (\<forall>i < length bs. cells c (a + of_nat i) AND bs ! i = bs ! i)) \<and>
    (fst (flash_writeWithCheck d c a bs) \<longrightarrow> length bs < 2 ^ 31 \<longrightarrow>
       flash_read d (snd (flash_writeWithCheck d c a bs)) a (length bs) = bs) \<and>
    (\<forall>x. \<not> within a (length bs) x \<longrightarrow> cells (snd (flash_writeWithCheck d c a bs)) x = cells c x)"
proof -
  have N: "nor_flash (flash_write_page program) read_cmd erase_cmd cells writable"
    by (rule nor_chip.platform_nor[OF assms(1)])
  let ?r = "flash_writeWithCheck d c a bs"
  have r: "flash_read d c' a n = block (cells c') a n" for c' n
    unfolding d_def by (rule nor_flash.flash_read_cells[OF N])
  show ?thesis
  proof (cases "length bs < 2 ^ 31")
    case True
    note w = nor_flash.flash_writeWithCheck_cells[OF N assms(2) True, of a, folded d_def]
    have "fst ?r \<longleftrightarrow> (\<forall>i < length bs. cells c (a + of_nat i) AND bs ! i = bs ! i)"
      using w unfolding nor_write_stores_iff[OF assms(3)] by blast
    moreover have "fst ?r \<longrightarrow> flash_read d (snd ?r) a (length bs) = bs" using w by (simp add: r)
    moreover have "cells (snd ?r) x = cells c x" if "\<not> within a (length bs) x" for x
      using w that by (simp add: nor_write_def)
    ultimately show ?thesis using True by (simp only: not_le[symmetric]) blast
  next
    case False
    then have w: "fst ?r" "cells (snd ?r) = nor_write (cells c) a bs"
      using nor_flash.flash_writeWithCheck_long[OF N assms(2,3), of a, folded d_def] by simp_all
    moreover have "cells (snd ?r) x = cells c x" if "\<not> within a (length bs) x" for x
      using w that by (simp add: nor_write_def)
    ultimately show ?thesis using False by (simp only: not_less[symmetric]) blast
  qed
qed

theorem flash_writeWithCheck_correct_witness:
  "let d = myFlashDrv_ideal; bs = [1, 2, 3, 4 :: u8]; r = flash_writeWithCheck d (\<lambda>_. 0xff) 0x340FE bs
   in fst r \<and> flash_read d (snd r) 0x340FE (length bs) = bs \<and> snd r 0x340FD = 0xff \<and> snd r 0x34102 = 0xff"
proof -
  have w: "\<not> within 0x340FE (Suc (Suc (Suc (Suc 0)))) (0x340FD :: u32)" "\<not> within 0x340FE (Suc (Suc (Suc (Suc 0)))) (0x34102 :: u32)"
    by (simp_all add: within_def unsigned_minus_1_eq_mask mask_eq_exp_minus_1)
  have b: "\<forall>i < length [1, 2, 3, 4 :: u8]. (0xff :: u8) AND [1, 2, 3, 4] ! i = [1, 2, 3, 4] ! i"
  proof -
    have "(0xff :: u8) = - 1" by simp
    then have "(0xff :: u8) AND x = x" for x by (simp only: and.left_neutral)
    then show ?thesis by blast
  qed
  show ?thesis
    using flash_writeWithCheck_correct[OF ideal.nor_chip_axioms, where c = "\<lambda>_. 0xff" and bs = "[1, 2, 3, 4]" and a = "0x340FE"] w b
    unfolding Let_def by simp
qed

end
