(* ===== verification/NvLayout.thy ===== *)
theory NvLayout
  imports Crc DrvFlash
begin

text \<open>
  The flash layout of the NV store, \<open>proj/drivers/nv.h\<close>, on the 32-bit cores with 512 KB of flash
  (no \<open>FLASH_CAP_SIZE_1M\<close>; index entries of 8 bytes): where the modules, their two sectors, the
  index and the items are, and the three packed structs with their byte images (little endian).
\<close>

section \<open>Constants and addresses\<close>

datatype nv_sts =
  NV_SUCC | NV_INVALID_MODULS | NV_INVALID_ID | NV_ITEM_NOT_FOUND | NV_NOT_ENOUGH_SAPCE
| NV_ITEM_LEN_NOT_MATCH | NV_CHECK_SUM_ERROR | NV_ENABLE_PROTECT_ERROR | NV_NO_MEDIA
| NV_DATA_CHECK_ERROR | NV_ITEM_CHECK_ERROR | NV_MODULE_NOT_FOUND | NV_MODULE_ERASE_NEED | NV_NOT_PERMIT

abbreviation DS_NWK_FRAMECOUNT_MODULE :: nat where "DS_NWK_FRAMECOUNT_MODULE \<equiv> 5"
abbreviation DS_IR_LEARN_MODULE :: nat where "DS_IR_LEARN_MODULE \<equiv> 6"
abbreviation DS_MAX_MODULS :: nat where "DS_MAX_MODULS \<equiv> 7"

definition NV_SECTOR_VALID :: u16 where "NV_SECTOR_VALID = 0x5A5A"
definition NV_SECTOR_VALID_CHECKCRC :: u16 where "NV_SECTOR_VALID_CHECKCRC = 0x7A7A"
definition NV_SECTOR_VALID_READY_CHECKCRC :: u16 where "NV_SECTOR_VALID_READY_CHECKCRC = 0xFAFA"
definition NV_SECTOR_INVALID :: u16 where "NV_SECTOR_INVALID = 0x5050"

definition ITEM_FIELD_VALID :: u8 where "ITEM_FIELD_VALID = 0x5A"
definition ITEM_FIELD_VALID_SINGLE :: u8 where "ITEM_FIELD_VALID_SINGLE = 0x7A"
definition ITEM_FIELD_INVALID :: u8 where "ITEM_FIELD_INVALID = 0x50"
definition ITEM_FIELD_OPERATION :: u8 where "ITEM_FIELD_OPERATION = 0xFA"
definition ITEM_FIELD_IDLE :: u8 where "ITEM_FIELD_IDLE = 0xFF"
definition ITEM_HDR_FIELD_VALID_CHECKSUM :: u8 where "ITEM_HDR_FIELD_VALID_CHECKSUM = 0x5A"
definition ITEM_HDR_FIELD_VALID_CHECKCRC :: u8 where "ITEM_HDR_FIELD_VALID_CHECKCRC = 0x7A"

definition mod_start :: "nat \<Rightarrow> nat" where
  "mod_start md = (if md < 6 then 0x34000 + 4096 * (2 * md) else 0x78000 + 4096 * (2 * (md - 6)))"

definition NV_SECTOR_SIZE :: "nat \<Rightarrow> nat" where
  "NV_SECTOR_SIZE md = (if md = DS_IR_LEARN_MODULE then 4096 * 4 else 4096)"

definition MODULE_INFO_SIZE :: "nat \<Rightarrow> nat" where
  "MODULE_INFO_SIZE md = (if md = DS_IR_LEARN_MODULE then 256 * 2 else 256)"

abbreviation MODULE_SECTOR_NUM :: nat where "MODULE_SECTOR_NUM \<equiv> 2"
abbreviation SECT_INFO_SIZE :: nat where "SECT_INFO_SIZE \<equiv> 4"
abbreviation IDX_SIZE :: nat where "IDX_SIZE \<equiv> 8"
abbreviation HDR_SIZE :: nat where "HDR_SIZE \<equiv> 8"

definition sect_start :: "nat \<Rightarrow> nat \<Rightarrow> nat" where
  "sect_start md sectNo = mod_start md + sectNo * NV_SECTOR_SIZE md"

definition MODULES_START_ADDR :: "nat \<Rightarrow> u32" where
  "MODULES_START_ADDR md = of_nat (mod_start md)"

definition MODULE_SECT_START :: "nat \<Rightarrow> nat \<Rightarrow> u32" where
  "MODULE_SECT_START md sectNo = of_nat (sect_start md sectNo)"

definition MODULE_SECT_END :: "nat \<Rightarrow> nat \<Rightarrow> u32" where
  "MODULE_SECT_END md sectNo = of_nat (sect_start md (sectNo + 1))"

definition MODULE_IDX_START :: "nat \<Rightarrow> nat \<Rightarrow> u32" where
  "MODULE_IDX_START md sectNo = MODULE_SECT_START md sectNo + of_nat SECT_INFO_SIZE"

definition MODULE_IDX_NUM :: "nat \<Rightarrow> nat" where
  "MODULE_IDX_NUM md = (MODULE_INFO_SIZE md - SECT_INFO_SIZE) div IDX_SIZE"

definition MODULE_CONTEXT_START :: "nat \<Rightarrow> nat \<Rightarrow> u32" where
  "MODULE_CONTEXT_START md sectNo = MODULE_SECT_START md sectNo + of_nat (MODULE_INFO_SIZE md)"

definition idx_addr :: "nat \<Rightarrow> nat \<Rightarrow> nat \<Rightarrow> u32" where
  "idx_addr md sectNo k = MODULE_IDX_START md sectNo + of_nat (k * IDX_SIZE)"

definition ITEM_TOTAL_LEN :: "u16 \<Rightarrow> u32" where
  "ITEM_TOTAL_LEN len = ucast len + of_nat HDR_SIZE"

definition FRAMECOUNT_PAYLOAD_START :: "nat \<Rightarrow> u32" where
  "FRAMECOUNT_PAYLOAD_START opSect =
     (MODULE_SECT_START DS_NWK_FRAMECOUNT_MODULE opSect + of_nat SECT_INFO_SIZE + 3) AND NOT 3"

text \<open>\<open>FRAMECOUNT_NUM_PER_SECT()\<close>.\<close>

definition FRAMECOUNT_NUM :: nat where
  "FRAMECOUNT_NUM = (4096 - SECT_INFO_SIZE) div 4 * 4 div 4"

definition align4 :: "u32 \<Rightarrow> u32" where
  "align4 a = (a + 3) AND NOT 3"

section \<open>Structs and their bytes\<close>

definition u16_bytes :: "u16 \<Rightarrow> u8 list" where
  "u16_bytes w = [ucast w, ucast (drop_bit 8 w)]"

definition u32_bytes :: "u32 \<Rightarrow> u8 list" where
  "u32_bytes w = [ucast w, ucast (drop_bit 8 w), ucast (drop_bit 16 w), ucast (drop_bit 24 w)]"

definition get16 :: "u8 list \<Rightarrow> nat \<Rightarrow> u16" where
  "get16 bs i = ucast (bs ! i) OR push_bit 8 (ucast (bs ! (i + 1)))"

definition get32 :: "u8 list \<Rightarrow> nat \<Rightarrow> u32" where
  "get32 bs i = ucast (bs ! i) OR push_bit 8 (ucast (bs ! (i + 1)))
     OR push_bit 16 (ucast (bs ! (i + 2))) OR push_bit 24 (ucast (bs ! (i + 3)))"

record nv_sect_info =
  si_usedFlag :: u16
  si_idName :: u8
  si_opSect :: u8

record nv_info_idx =
  ix_offset :: u32
  ix_size :: u16
  ix_itemId :: u8
  ix_usedState :: u8

record item_hdr =
  hd_checkSum :: u32
  hd_size :: u16
  hd_itemId :: u8
  hd_used :: u8

definition sect_bytes :: "nv_sect_info \<Rightarrow> u8 list" where
  "sect_bytes s = u16_bytes (si_usedFlag s) @ [si_idName s, si_opSect s]"

definition sect_of :: "u8 list \<Rightarrow> nv_sect_info" where
  "sect_of bs = \<lparr>si_usedFlag = get16 bs 0, si_idName = bs ! 2, si_opSect = bs ! 3\<rparr>"

definition idx_bytes :: "nv_info_idx \<Rightarrow> u8 list" where
  "idx_bytes i = u32_bytes (ix_offset i) @ u16_bytes (ix_size i) @ [ix_itemId i, ix_usedState i]"

definition idx_of :: "u8 list \<Rightarrow> nv_info_idx" where
  "idx_of bs = \<lparr>ix_offset = get32 bs 0, ix_size = get16 bs 4, ix_itemId = bs ! 6, ix_usedState = bs ! 7\<rparr>"

definition hdr_bytes :: "item_hdr \<Rightarrow> u8 list" where
  "hdr_bytes h = u32_bytes (hd_checkSum h) @ u16_bytes (hd_size h) @ [hd_itemId h, hd_used h]"

definition hdr_of :: "u8 list \<Rightarrow> item_hdr" where
  "hdr_of bs = \<lparr>hd_checkSum = get32 bs 0, hd_size = get16 bs 4, hd_itemId = bs ! 6, hd_used = bs ! 7\<rparr>"

lemma length_bytes [simp]:
  "length (u16_bytes a) = 2" "length (u32_bytes b) = 4" "length (sect_bytes s) = 4"
  "length (idx_bytes i) = 8" "length (hdr_bytes h) = 8"
  by (simp_all add: u16_bytes_def u32_bytes_def sect_bytes_def idx_bytes_def hdr_bytes_def)

lemma get16_bytes: "get16 (u16_bytes w @ bs) 0 = w"
proof (rule bit_word_eqI)
  fix n assume "n < LENGTH(16)"
  then consider "n < 8" | "8 \<le> n \<and> n < 16" by fastforce
  then show "bit (get16 (u16_bytes w @ bs) 0) n = bit w n"
    by cases (auto simp: get16_def u16_bytes_def bit_simps dest: bit_imp_le_length)
qed

lemma get32_bytes: "get32 (u32_bytes w @ bs) 0 = w"
proof (rule bit_word_eqI)
  fix n assume "n < LENGTH(32)"
  then consider "n < 8" | "8 \<le> n \<and> n < 16" | "16 \<le> n \<and> n < 24" | "24 \<le> n \<and> n < 32" by fastforce
  then show "bit (get32 (u32_bytes w @ bs) 0) n = bit w n"
    by cases (auto simp: get32_def u32_bytes_def bit_simps dest: bit_imp_le_length)
qed

lemma get16_skip: "length xs = k \<Longrightarrow> get16 (xs @ ys) k = get16 ys 0"
  by (simp add: get16_def nth_append)

lemma sect_of_bytes [simp]: "sect_of (sect_bytes s) = s"
  using get16_bytes[of "si_usedFlag s" "[si_idName s, si_opSect s]"]
  by (simp add: sect_of_def sect_bytes_def nth_append)

lemma idx_of_bytes [simp]: "idx_of (idx_bytes i) = i"
  using get32_bytes[of "ix_offset i"] get16_bytes[of "ix_size i"]
  by (simp add: idx_of_def idx_bytes_def nth_append get16_skip)

lemma hdr_of_bytes [simp]: "hdr_of (hdr_bytes h) = h"
  using get32_bytes[of "hd_checkSum h"] get16_bytes[of "hd_size h"]
  by (simp add: hdr_of_def hdr_bytes_def nth_append get16_skip)

section \<open>Where things are\<close>

lemma mod_start_bounds: "md < DS_MAX_MODULS \<Longrightarrow> 0x34000 \<le> mod_start md \<and> mod_start md + 2 * NV_SECTOR_SIZE md \<le> 0x80000"
  by (auto simp: mod_start_def NV_SECTOR_SIZE_def)

text \<open>The regions of different modules do not overlap.\<close>

lemma mod_regions_disjoint:
  "md < DS_MAX_MODULS \<Longrightarrow> md' < DS_MAX_MODULS \<Longrightarrow> md \<noteq> md' \<Longrightarrow>
   mod_start md + 2 * NV_SECTOR_SIZE md \<le> mod_start md' \<or> mod_start md' + 2 * NV_SECTOR_SIZE md' \<le> mod_start md"
  by (auto simp: mod_start_def NV_SECTOR_SIZE_def split: if_splits)

end
