(* ===== verification/FlashMap.thy ===== *)
theory FlashMap
  imports NvLayout
begin

text \<open>
  The contents of the flash by natural address: what a write and an erase do to a byte and to a 32-bit
  word, and the checked write of the driver in these terms. All proofs about the NV store are in
  terms of \<open>at\<close> and \<open>word_at\<close>.
\<close>

definition at :: "mem \<Rightarrow> nat \<Rightarrow> u8" where
  "at m j = m (of_nat j)"

definition word_at :: "mem \<Rightarrow> nat \<Rightarrow> u32" where
  "word_at m a = get32 (map (at m) [a..<a + 4]) 0"

lemma block_at: "block m (of_nat a) n = map (at m) [a..<a + n]"
  by (rule nth_equalityI) (simp_all add: block_def at_def)

lemma within_of_nat:
  assumes "a + n \<le> 2 ^ 32" "j < 2 ^ 32" "n < 2 ^ 32" "a < 2 ^ 32"
  shows "within (of_nat a) n (of_nat j) \<longleftrightarrow> a \<le> j \<and> j < a + n"
    and "a \<le> j \<Longrightarrow> unat (of_nat j - of_nat a :: u32) = j - a"
proof -
  have u: "unat (of_nat a :: u32) = a" "unat (of_nat j :: u32) = j" using assms by (auto intro!: unat_of_nat_u32)
  show s: "a \<le> j \<Longrightarrow> unat (of_nat j - of_nat a :: u32) = j - a"
    using u by (simp add: unat_sub word_le_nat_alt)
  show "within (of_nat a) n (of_nat j) \<longleftrightarrow> a \<le> j \<and> j < a + n"
  proof (cases "a \<le> j")
    case True
    then show ?thesis using s by (auto simp: within_def)
  next
    case False
    have "n \<le> unat (of_nat j - of_nat a :: u32)"
    proof (rule ccontr)
      assume k: "\<not> n \<le> unat (of_nat j - of_nat a :: u32)"
      have "unat (of_nat a + (of_nat j - of_nat a) :: u32) = a + unat (of_nat j - of_nat a :: u32)"
        using k u assms by (subst unat_add_small) simp_all
      then show False using u False by simp
    qed
    then show ?thesis using False assms by (simp add: within_def)
  qed
qed

lemma at_write:
  assumes "a + length bs \<le> 2 ^ 32" "j < 2 ^ 32" "length bs < 2 ^ 32" "a < 2 ^ 32"
  shows "at (nor_write m (of_nat a) bs) j = (if a \<le> j \<and> j < a + length bs then at m j AND bs ! (j - a) else at m j)"
  using within_of_nat[OF assms] by (simp add: at_def nor_write_def)

lemma at_erase:
  "a < 2 ^ 32 \<Longrightarrow> j < 2 ^ 32 \<Longrightarrow> at (nor_erase m (of_nat a)) j = (if j div 4096 = a div 4096 then 0xff else at m j)"
  by (simp add: at_def nor_erase_def sector_def unat_of_nat_u32)

lemma ff_and: "(0xff :: u8) AND x = x"
proof -
  have "(0xff :: u8) = - 1" by simp
  then show ?thesis by (simp only: and.left_neutral)
qed

section \<open>Words\<close>

lemma word_at_cong: "(\<And>j. a \<le> j \<Longrightarrow> j < a + 4 \<Longrightarrow> at m' j = at m j) \<Longrightarrow> word_at m' a = word_at m a"
  unfolding word_at_def by (rule arg_cong[where f = "\<lambda>l. get32 l 0"]) auto

lemma upt4: "[a..<a + 4] = [a, a + 1, a + 2, a + 3]"
  by (simp add: upt_rec)

lemma u8_bit_ge: "8 \<le> n \<Longrightarrow> \<not> bit (b :: u8) n"
  using bit_imp_le_length[of b n] by auto

lemma u32_bytes_get32: "length bs = 4 \<Longrightarrow> u32_bytes (get32 bs 0) = bs"
proof -
  assume "length bs = 4"
  then obtain b0 b1 b2 b3 where b: "bs = [b0, b1, b2, b3]" by (auto simp: numeral_eq_Suc length_Suc_conv)
  have "ucast (get32 bs 0) = b0"
    by (rule bit_word_eqI) (simp add: b get32_def bit_simps)
  moreover have "ucast (drop_bit 8 (get32 bs 0)) = b1"
    by (rule bit_word_eqI) (simp add: b get32_def bit_simps u8_bit_ge)
  moreover have "ucast (drop_bit 16 (get32 bs 0)) = b2"
    by (rule bit_word_eqI) (simp add: b get32_def bit_simps u8_bit_ge)
  moreover have "ucast (drop_bit 24 (get32 bs 0)) = b3"
    by (rule bit_word_eqI) (simp add: b get32_def bit_simps u8_bit_ge)
  ultimately show ?thesis by (simp add: u32_bytes_def b)
qed

lemma replicate_4: "replicate 4 x = [x, x, x, x]"
  by (simp add: numeral_eq_Suc)

lemma u32_bytes_ff: "u32_bytes 0xffffffff = replicate 4 0xff"
  by (simp add: u32_bytes_def replicate_4)

lemma word_at_blank: "word_at m a = 0xffffffff \<longleftrightarrow> (\<forall>i < 4. at m (a + i) = 0xff)"
proof
  assume "word_at m a = 0xffffffff"
  then have "u32_bytes (get32 (map (at m) [a..<a + 4]) 0) = u32_bytes 0xffffffff" by (simp add: word_at_def)
  then have "map (at m) [a..<a + 4] = u32_bytes 0xffffffff" by (simp add: u32_bytes_get32)
  then have e: "map (at m) [a..<a + 4] = replicate 4 0xff" by (simp only: u32_bytes_ff)
  show "\<forall>i < 4. at m (a + i) = 0xff"
  proof (intro allI impI)
    fix i :: nat assume "i < 4"
    then show "at m (a + i) = 0xff" using arg_cong[OF e, of "\<lambda>l. l ! i"] by simp
  qed
next
  assume "\<forall>i < 4. at m (a + i) = 0xff"
  then have "map (at m) [a..<a + 4] = replicate 4 0xff"
    by (intro nth_equalityI) auto
  then show "word_at m a = 0xffffffff"
    using get32_bytes[of "0xffffffff" "[]"] by (simp only: word_at_def u32_bytes_ff append_Nil2)
qed

lemma get32_and:
  "get32 [a0 AND b0, a1 AND b1, a2 AND b2, a3 AND b3] 0 = get32 [a0, a1, a2, a3] 0 AND get32 [b0, b1, b2, b3] 0"
proof (rule bit_word_eqI)
  fix n assume "n < LENGTH(32)"
  then consider "n < 8" | "8 \<le> n \<and> n < 16" | "16 \<le> n \<and> n < 24" | "24 \<le> n \<and> n < 32" by fastforce
  then show "bit (get32 [a0 AND b0, a1 AND b1, a2 AND b2, a3 AND b3] 0) n =
      bit (get32 [a0, a1, a2, a3] 0 AND get32 [b0, b1, b2, b3] 0) n"
    by cases (auto simp: get32_def bit_simps u8_bit_ge)
qed

lemma word_at_write:
  assumes "a + 4 \<le> 2 ^ 32" "b + 4 \<le> 2 ^ 32" "a + 4 \<le> b \<or> b + 4 \<le> a \<or> a = b"
  shows "word_at (nor_write m (of_nat a) (u32_bytes v)) b =
    (if a = b then word_at m a AND v else word_at m b)"
proof (cases "a = b")
  case False
  then show ?thesis using assms by (auto intro!: word_at_cong simp: at_write)
next
  case True
  have "word_at (nor_write m (of_nat a) (u32_bytes v)) a = word_at m a AND v"
  proof -
    obtain v0 v1 v2 v3 where v: "u32_bytes v = [v0, v1, v2, v3]" by (simp add: u32_bytes_def)
    have "map (at (nor_write m (of_nat a) (u32_bytes v))) [a, a + 1, a + 2, a + 3] =
        [at m a AND v0, at m (a + 1) AND v1, at m (a + 2) AND v2, at m (a + 3) AND v3]"
      using assms(1) by (simp add: at_write v)
    then have "word_at (nor_write m (of_nat a) (u32_bytes v)) a = word_at m a AND get32 (u32_bytes v) 0"
      unfolding word_at_def upt4 v by (simp add: get32_and)
    then show ?thesis using get32_bytes[of v "[]"] by simp
  qed
  then show ?thesis using True by simp
qed

lemma word_at_erase:
  assumes "a < 2 ^ 32" "b + 4 \<le> 2 ^ 32" "b mod 4096 \<le> 4092"
  shows "word_at (nor_erase m (of_nat a)) b = (if b div 4096 = a div 4096 then 0xffffffff else word_at m b)"
proof -
  have d: "j div 4096 = b div 4096" if "b \<le> j" "j < b + 4" for j
  proof -
    obtain q r where b: "b = 4096 * q + r" "r = b mod 4096" by (metis mult_div_mod_eq)
    moreover define k where "k = r + (j - b)"
    ultimately have "j = 4096 * q + k" "k < 4096" "r < 4096" using that assms(3) by simp_all
    then have "j div 4096 = q" "b div 4096 = q" using b(1) by (simp_all add: div_mult_self4)
    then show ?thesis by simp
  qed
  show ?thesis
  proof (cases "b div 4096 = a div 4096")
    case True
    have "\<forall>i < 4. at (nor_erase m (of_nat a)) (b + i) = 0xff"
    proof (intro allI impI)
      fix i :: nat assume i: "i < 4"
      have "(b + i) div 4096 = a div 4096" using d[of "b + i"] i True by simp
      moreover have "b + i < 2 ^ 32" using i assms(2) by simp
      ultimately show "at (nor_erase m (of_nat a)) (b + i) = 0xff" using assms(1) at_erase by simp
    qed
    then show ?thesis using True by (simp add: word_at_blank)
  next
    case False
    have "word_at (nor_erase m (of_nat a)) b = word_at m b"
    proof (rule word_at_cong)
      fix j assume j: "b \<le> j" "j < b + 4"
      have "j div 4096 \<noteq> a div 4096" using d[OF j] False by metis
      moreover have "j < 2 ^ 32" using j assms(2) by simp
      ultimately show "at (nor_erase m (of_nat a)) j = at m j" using assms(1) at_erase by simp
    qed
    then show ?thesis using False by metis
  qed
qed

section \<open>Erased ranges\<close>

definition blank :: "mem \<Rightarrow> nat \<Rightarrow> nat \<Rightarrow> bool" where
  "blank m a b \<longleftrightarrow> (\<forall>j. a \<le> j \<and> j < b \<longrightarrow> at m j = 0xff)"

lemma blank_map: "blank m a b \<Longrightarrow> a + n \<le> b \<Longrightarrow> map (at m) [a..<a + n] = replicate n 0xff"
  by (intro nth_equalityI) (simp_all add: blank_def)

lemma at_write_blank:
  assumes "blank m a (a + length bs)" "a + length bs \<le> 2 ^ 31" "j < 2 ^ 32"
  shows "at (nor_write m (of_nat a) bs) j = (if a \<le> j \<and> j < a + length bs then bs ! (j - a) else at m j)"
proof -
  have "at (nor_write m (of_nat a) bs) j = (if a \<le> j \<and> j < a + length bs then at m j AND bs ! (j - a) else at m j)"
    by (rule at_write) (use assms in simp_all)
  moreover have "at m j = 0xff" if "a \<le> j \<and> j < a + length bs" using assms(1) that unfolding blank_def by blast
  ultimately show ?thesis by (auto simp: ff_and)
qed

lemma map_at_cong: "(\<And>j. a \<le> j \<Longrightarrow> j < b \<Longrightarrow> at m' j = at m j) \<Longrightarrow> map (at m') [a..<b] = map (at m) [a..<b]"
  by simp

lemma map_write_blank:
  assumes "blank m a (a + length bs)" "a + length bs \<le> 2 ^ 31"
  shows "map (at (nor_write m (of_nat a) bs)) [a..<a + length bs] = bs"
  using assms by (intro nth_equalityI) (simp_all add: at_write_blank)

section \<open>The driver\<close>

text \<open>A run of sector erases, as the loops of the NV store and of the update code do it.\<close>

definition erase_run :: "'c drv_flash \<Rightarrow> u32 \<Rightarrow> nat \<Rightarrow> 'c \<Rightarrow> 'c" where
  "erase_run d start n c = fold (\<lambda>j c. flash_erase d c (start + of_nat (j * 4096))) [0..<n] c"

context nor_flash begin

abbreviation D where "D \<equiv> mk_drv wr rd er"

lemma read_at: "flash_read D c (of_nat a) n = map (at (cells c)) [a..<a + n]"
  by (simp add: flash_read_cells block_at)

lemma checked_write:
  assumes "writable c" "a + length bs \<le> 2 ^ 32" "length bs < 2 ^ 31" "a < 2 ^ 32"
    "\<And>i. i < length bs \<Longrightarrow> at (cells c) (a + i) AND bs ! i = bs ! i"
  obtains c' where "flash_writeWithCheck D c (of_nat a) bs = (True, c')"
    "cells c' = nor_write (cells c) (of_nat a) bs" "writable c'"
proof -
  have "\<forall>i < length bs. cells c (of_nat a + of_nat i) AND bs ! i = bs ! i"
    using assms(5) by (simp add: at_def)
  then have "block (nor_write (cells c) (of_nat a) bs) (of_nat a) (length bs) = bs"
    using nor_write_stores_iff[of bs] assms(3) by simp
  with flash_writeWithCheck_cells[OF assms(1,3), of "of_nat a"] that show thesis
    by (metis prod.collapse)
qed

lemma erase_at: "writable c \<Longrightarrow> cells (flash_erase D c (of_nat a)) = nor_erase (cells c) (of_nat a) \<and>
    writable (flash_erase D c (of_nat a))"
  by (simp add: flash_erase_def er_cells er_writable)

lemma checked_blank:
  assumes "writable c" "blank (cells c) a (a + length bs)" "a + length bs \<le> 2 ^ 31" "length bs < 2 ^ 31"
  obtains c' where "flash_writeWithCheck D c (of_nat a) bs = (True, c')"
    "cells c' = nor_write (cells c) (of_nat a) bs" "writable c'"
proof (rule checked_write[OF assms(1)])
  show "a + length bs \<le> 2 ^ 32" "length bs < 2 ^ 31" "a < 2 ^ 32" using assms(3,4) by simp_all
  fix i assume "i < length bs"
  then have "at (cells c) (a + i) = 0xff" using assms(2) unfolding blank_def by simp
  then show "at (cells c) (a + i) AND bs ! i = bs ! i" by (simp add: ff_and)
qed

lemma erase_run_at:
  assumes "writable c" "a mod 4096 = 0" "a + n * 4096 \<le> 2 ^ 31"
  shows "writable (erase_run D (of_nat a) n c) \<and>
    (\<forall>j < 2 ^ 32. at (cells (erase_run D (of_nat a) n c)) j = (if a \<le> j \<and> j < a + n * 4096 then 0xff else at (cells c) j))"
  using assms(3)
proof (induction n)
  case 0
  then show ?case using assms(1) by (auto simp: erase_run_def)
next
  case (Suc n)
  let ?c = "erase_run D (of_nat a) n c" and ?a = "a + n * 4096"
  have ih: "writable ?c" "\<And>j. j < 2 ^ 32 \<Longrightarrow> at (cells ?c) j = (if a \<le> j \<and> j < ?a then 0xff else at (cells c) j)"
    using Suc by simp_all
  have e: "erase_run D (of_nat a) (Suc n) c = flash_erase D ?c (of_nat ?a)" by (simp add: erase_run_def)
  note er = erase_at[OF ih(1), of ?a]
  have "at (cells (flash_erase D ?c (of_nat ?a))) j = (if a \<le> j \<and> j < a + Suc n * 4096 then 0xff else at (cells c) j)" if j: "j < 2 ^ 32" for j
  proof -
    obtain q where q: "a = 4096 * q" using assms(2) by auto
    have "?a div 4096 = q + n" using q by simp
    moreover have "j div 4096 = q + n \<longleftrightarrow> ?a \<le> j \<and> j < ?a + 4096" unfolding q by (auto simp: div_nat_eqI dest: sym) 
    ultimately show ?thesis using er at_erase[of ?a j "cells ?c"] Suc.prems j ih(2)[OF j] by auto
  qed
  then show ?case unfolding e using er by blast
qed

end

end
