(* ===== verification/Nv.thy ===== *)
theory Nv
  imports NvLayout
begin

text \<open>
  The NV item store, \<open>proj/drivers/nv.c\<close>. Every function takes the flash driver \<open>d\<close> and the state
  \<open>c\<close> of the chip and returns the chip it leaves; the exported ones also run the lock and unlock of
  \<open>drv_flash.c\<close>. Early returns are branches, out-parameters are results (\<open>None\<close> where the code leaves
  them unset), the caller's buffer is a list of bytes. The module number is a natural number below
  \<open>DS_MAX_MODULS\<close> (the code's enum), sector numbers are 0 and 1.
\<close>

section \<open>Checks\<close>

definition SECT_VALID_CHECK :: "nv_sect_info \<Rightarrow> bool" where
  "SECT_VALID_CHECK s \<longleftrightarrow> si_usedFlag s = NV_SECTOR_VALID \<or> si_usedFlag s = NV_SECTOR_VALID_CHECKCRC"

definition ITEM_VALID_FLAG_CHECK :: "u8 \<Rightarrow> bool" where
  "ITEM_VALID_FLAG_CHECK v \<longleftrightarrow> v = ITEM_FIELD_VALID \<or> v = ITEM_FIELD_VALID_SINGLE"

definition ITEM_FLAG_CHECK :: "u8 \<Rightarrow> bool" where
  "ITEM_FLAG_CHECK v \<longleftrightarrow> v = ITEM_FIELD_VALID \<or> v = ITEM_FIELD_VALID_SINGLE \<or> v = ITEM_FIELD_INVALID \<or>
     v = ITEM_FIELD_OPERATION"

definition ITEM_OFT_CHECK :: "u32 \<Rightarrow> u16 \<Rightarrow> nat \<Rightarrow> nat \<Rightarrow> bool" where
  "ITEM_OFT_CHECK oft sz md sec \<longleftrightarrow>
     oft \<ge> MODULE_CONTEXT_START md sec \<and> oft < MODULE_SECT_END md sec \<and> MODULE_SECT_END md sec - oft \<ge> ucast sz"

definition ITEM_HDR_VALID_CHECK :: "u8 \<Rightarrow> bool" where
  "ITEM_HDR_VALID_CHECK v \<longleftrightarrow> v = ITEM_HDR_FIELD_VALID_CHECKSUM \<or> v = ITEM_HDR_FIELD_VALID_CHECKCRC"

text \<open>\<open>len % unitLen\<close>; a unit of 0 is a division by zero in C and does not occur.\<close>

definition NV_ITEMLEN_MATCH :: "u32 \<Rightarrow> u16 \<Rightarrow> bool" where
  "NV_ITEMLEN_MATCH len unitLen \<longleftrightarrow> len mod ucast unitLen = 0"

record nv_len_tbl =
  g_nvItemLengthCheckNum :: nat
  g_nvItemLenCheckTbl :: "(u8 \<times> u16) list"

definition nv_itemLengthCheckAdd :: "u8 \<Rightarrow> u16 \<Rightarrow> nv_len_tbl \<Rightarrow> nv_len_tbl" where
  "nv_itemLengthCheckAdd itemId len t =
     (case find (\<lambda>i. fst (g_nvItemLenCheckTbl t ! i) = itemId) [0..<g_nvItemLengthCheckNum t] of
        Some i \<Rightarrow> t\<lparr>g_nvItemLenCheckTbl := (g_nvItemLenCheckTbl t)[i := (itemId, len)]\<rparr>
      | None \<Rightarrow>
          if g_nvItemLengthCheckNum t \<ge> 16 then t
          else t\<lparr>g_nvItemLenCheckTbl := (g_nvItemLenCheckTbl t)[g_nvItemLengthCheckNum t := (itemId, len)],
                 g_nvItemLengthCheckNum := g_nvItemLengthCheckNum t + 1\<rparr>)"

definition nv_itemLengthValidCheck :: "nv_len_tbl \<Rightarrow> u8 \<Rightarrow> u16 \<Rightarrow> u16" where
  "nv_itemLengthValidCheck t itemId len =
     (case find (\<lambda>e. fst e = itemId) (g_nvItemLenCheckTbl t) of
        Some e \<Rightarrow> min (snd e) len
      | None \<Rightarrow> len)"

section \<open>Reading the index and the sector headers\<close>

definition read_sect :: "'c drv_flash \<Rightarrow> 'c \<Rightarrow> u32 \<Rightarrow> nv_sect_info" where
  "read_sect d c a = sect_of (flash_read d c a SECT_INFO_SIZE)"

definition read_idx :: "'c drv_flash \<Rightarrow> 'c \<Rightarrow> u32 \<Rightarrow> nv_info_idx" where
  "read_idx d c a = idx_of (flash_read d c a IDX_SIZE)"

definition read_hdr :: "'c drv_flash \<Rightarrow> 'c \<Rightarrow> u32 \<Rightarrow> item_hdr" where
  "read_hdr d c a = hdr_of (flash_read d c a HDR_SIZE)"

text \<open>Up to four index entries in one read.\<close>

definition read_idxs :: "'c drv_flash \<Rightarrow> 'c \<Rightarrow> u32 \<Rightarrow> nat \<Rightarrow> nv_info_idx list" where
  "read_idxs d c a n =
     (let bs = flash_read d c a (n * IDX_SIZE) in map (\<lambda>i. idx_of (take IDX_SIZE (drop (i * IDX_SIZE) bs))) [0..<n])"

definition nv_sect_info_check :: "'c drv_flash \<Rightarrow> 'c \<Rightarrow> nat \<Rightarrow> nat \<Rightarrow> nv_sts" where
  "nv_sect_info_check d c sect md =
     (if \<not> SECT_VALID_CHECK (read_sect d c (MODULE_SECT_START md sect)) then NV_MODULE_NOT_FOUND else NV_SUCC)"

text \<open>The inner loop of \<open>nv_index_read_op\<close>: entries \<open>i - 1, ..., 0\<close> of the block are still to be looked
  at. \<open>Inl i\<close> is a jump at entry \<open>i\<close>, \<open>Inr\<close> carries the item length and the status on.\<close>

fun idx_inner ::
  "u8 \<Rightarrow> u16 \<Rightarrow> u32 \<Rightarrow> bool \<Rightarrow> nv_info_idx list \<Rightarrow> nat \<Rightarrow> u16 \<Rightarrow> nv_sts \<Rightarrow> nat + (u16 \<times> nv_sts)" where
  "idx_inner itemId len totalSize lenCheck es 0 itemLen ret = Inr (itemLen, ret)"
| "idx_inner itemId len totalSize lenCheck es (Suc i) itemLen ret =
     (let e = es ! i in
      if itemId \<noteq> ITEM_FIELD_IDLE then
        if ITEM_VALID_FLAG_CHECK (ix_usedState e) \<and> ix_itemId e = itemId then
          if lenCheck then
            if NV_ITEMLEN_MATCH (ucast (ix_size e) - of_nat HDR_SIZE) len then Inl i
            else idx_inner itemId len totalSize lenCheck es i itemLen ret
          else Inr (ix_size e - of_nat HDR_SIZE, NV_SUCC)
        else idx_inner itemId len totalSize lenCheck es i itemLen ret
      else if ix_usedState e \<noteq> ITEM_FIELD_IDLE \<or> ucast (ix_size e) \<noteq> totalSize \<or> ix_itemId e \<noteq> itemId then Inl i
      else idx_inner itemId len totalSize lenCheck es i itemLen ret)"

text \<open>\<open>itemTotalSize\<close> is a \<open>u16\<close>: 0xffff for the idle search.\<close>

definition item_total_size :: "u8 \<Rightarrow> u16 \<Rightarrow> u32" where
  "item_total_size itemId len =
     (if itemId = ITEM_FIELD_IDLE then 0xffff else ucast (ucast (ITEM_TOTAL_LEN len) :: u16))"

function idx_outer ::
  "'c drv_flash \<Rightarrow> 'c \<Rightarrow> nat \<Rightarrow> u8 \<Rightarrow> u16 \<Rightarrow> nat \<Rightarrow> bool \<Rightarrow> nat \<Rightarrow> u16 \<Rightarrow> nv_sts \<Rightarrow> nv_sts \<times> u16 \<times> nat option" where
  "idx_outer d c md itemId len opSect lenCheck idxTotalNum itemLen ret =
     (if idxTotalNum = 0 then (ret, itemLen, None)
      else
        let readIdxNum = (if idxTotalNum > 4 then 4 else idxTotalNum);
            left = idxTotalNum - readIdxNum;
            es = read_idxs d c (idx_addr md opSect left) readIdxNum
        in case idx_inner itemId len (item_total_size itemId len) lenCheck es readIdxNum itemLen ret of
             Inl i \<Rightarrow> (NV_SUCC, itemLen, Some (left + i))
           | Inr (itemLen', ret') \<Rightarrow> idx_outer d c md itemId len opSect lenCheck left itemLen' ret')"
  by auto

termination
  by (relation "measure (\<lambda>(d, c, md, itemId, len, opSect, lenCheck, n, itemLen, ret). n)") auto

declare idx_outer.simps [simp del]

definition nv_index_read_op ::
  "'c drv_flash \<Rightarrow> 'c \<Rightarrow> nat \<Rightarrow> u8 \<Rightarrow> u16 \<Rightarrow> nat \<Rightarrow> nat \<Rightarrow> bool \<Rightarrow> nv_sts \<times> u16 \<times> nat option" where
  "nv_index_read_op d c md itemId itemLen opSect totalItemNum lenCheck =
     idx_outer d c md itemId itemLen opSect lenCheck totalItemNum itemLen NV_ITEM_NOT_FOUND"

definition nv_index_read ::
  "'c drv_flash \<Rightarrow> 'c \<Rightarrow> nat \<Rightarrow> u8 \<Rightarrow> u16 \<Rightarrow> nat \<Rightarrow> nat \<Rightarrow> nv_sts \<times> nat option" where
  "nv_index_read d c md itemId len opSect totalItemNum =
     (case nv_index_read_op d c md itemId len opSect totalItemNum True of (ret, _, idxNo) \<Rightarrow> (ret, idxNo))"

definition sect_crc :: "u8 \<Rightarrow> u8 \<Rightarrow> u8" where
  "sect_crc idName opSect = ucast (xcrc32 [idName, opSect] 0xffffffff AND 0x3f)"

definition nv_sectInfoCrcCheck :: "nv_sect_info \<Rightarrow> bool" where
  "nv_sectInfoCrcCheck s \<longleftrightarrow> sect_crc (si_idName s) (si_opSect s AND 3) = (drop_bit 2 (si_opSect s) AND 0x3f)"

text \<open>The loop of \<open>nv_sector_read\<close> over the sector headers, with \<open>sectVN\<close>, \<open>sectValidCrc\<close>, \<open>sectPrev\<close>.\<close>

fun sect_scan :: "nat \<Rightarrow> nv_sect_info list \<Rightarrow> u8 \<Rightarrow> nat \<Rightarrow> u8 \<Rightarrow> u8" where
  "sect_scan md [] vn validCrc prev = vn"
| "sect_scan md (s # ss) vn validCrc prev =
     (let cur = si_opSect s AND 3 in
      if si_usedFlag s = NV_SECTOR_VALID_READY_CHECKCRC then
        if nv_sectInfoCrcCheck s then cur else sect_scan md ss vn validCrc prev
      else if SECT_VALID_CHECK s \<and> si_idName s = of_nat md then
        if si_usedFlag s = NV_SECTOR_VALID_CHECKCRC then
          if nv_sectInfoCrcCheck s then
            if validCrc + 1 \<ge> 2 then
              (if (if cur > prev then cur - prev else prev - cur) = 1 then max cur prev else min cur prev)
            else sect_scan md ss cur (validCrc + 1) cur
          else sect_scan md ss vn validCrc prev
        else sect_scan md ss cur (validCrc + 1) prev
      else sect_scan md ss vn validCrc prev)"

definition nv_sector_read ::
  "'c drv_flash \<Rightarrow> 'c \<Rightarrow> bool \<Rightarrow> nat \<Rightarrow> nat \<Rightarrow> nv_sts \<times> nv_sect_info option \<times> 'c" where
  "nv_sector_read d c fw md sectTotalNum =
     (if sectTotalNum > MODULE_SECTOR_NUM then (NV_ITEM_NOT_FOUND, None, c)
      else
        let ss = map (\<lambda>i. read_sect d c (MODULE_SECT_START md i)) [0..<sectTotalNum];
            sectVN = sect_scan md ss 0xff 0 0
        in if sectVN = 0xff then (NV_ITEM_NOT_FOUND, None, c)
           else
             let sectDel = unat ((sectVN + 1) AND 1);
                 sectOp = unat (sectVN AND 1);
                 (ret, c1) =
                   (if fw \<and> si_usedFlag (ss ! sectOp) = NV_SECTOR_VALID_READY_CHECKCRC then
                      (case flash_writeWithCheck d c (MODULE_SECT_START md sectOp) (u16_bytes NV_SECTOR_VALID_CHECKCRC) of
                         (ok, c1) \<Rightarrow> (if ok then NV_SUCC else NV_DATA_CHECK_ERROR, c1))
                    else (NV_SUCC, c));
                 c2 = (if fw \<and> ret = NV_SUCC \<and> SECT_VALID_CHECK (ss ! sectDel)
                       then flash_write d c1 (MODULE_SECT_START md sectDel) (u16_bytes NV_SECTOR_INVALID) else c1)
             in (ret, Some (ss ! sectOp), c2))"

section \<open>Writing an item\<close>

text \<open>The CRC over a flash range, read in pieces of \<open>piece\<close> bytes (16 in \<open>nv_write_item\<close>, 32 in
  \<open>nv_flashReadByIndex\<close>).\<close>

function flash_crc :: "'c drv_flash \<Rightarrow> 'c \<Rightarrow> nat \<Rightarrow> u32 \<Rightarrow> nat \<Rightarrow> u32 \<Rightarrow> u32" where
  "flash_crc d c piece a n crc =
     (if n = 0 \<or> piece = 0 then crc
      else let k = (if n > piece then piece else n)
           in flash_crc d c piece (a + of_nat k) (n - k) (xcrc32 (flash_read d c a k) crc))"
  by auto

termination
  by (relation "measure (\<lambda>(d, c, piece, a, n, crc). n)") auto

function flash_sum :: "'c drv_flash \<Rightarrow> 'c \<Rightarrow> nat \<Rightarrow> u32 \<Rightarrow> nat \<Rightarrow> u32 \<Rightarrow> u32" where
  "flash_sum d c piece a n s =
     (if n = 0 \<or> piece = 0 then s
      else let k = (if n > piece then piece else n)
           in flash_sum d c piece (a + of_nat k) (n - k) (foldl (\<lambda>s b. s + ucast b) s (flash_read d c a k)))"
  by auto

termination
  by (relation "measure (\<lambda>(d, c, piece, a, n, s). n)") auto

text \<open>The copy loop, 48 bytes at a time. \<open>None\<close>: a write failed.\<close>

function copy_loop ::
  "'c drv_flash \<Rightarrow> u8 \<Rightarrow> nat \<Rightarrow> u32 \<Rightarrow> u32 \<Rightarrow> 'c \<Rightarrow> u32 \<Rightarrow> u32 \<Rightarrow> u32 \<Rightarrow> (u32 \<times> u32 \<times> u32) option \<times> 'c" where
  "copy_loop d used left sAddr dAddr c checkSum crcOri crcOld =
     (if left = 0 then (Some (checkSum, crcOri, crcOld), c)
      else
        let wLen = (if left > 48 then 48 else left);
            pTemp = flash_read d c sAddr wLen;
            checkSum' = (if used = ITEM_HDR_FIELD_VALID_CHECKSUM then foldl (\<lambda>s b. s + ucast b) checkSum pTemp else checkSum);
            crcOld' = (if used = ITEM_HDR_FIELD_VALID_CHECKSUM then xcrc32 pTemp crcOld else crcOld);
            crcOri' = (if used = ITEM_HDR_FIELD_VALID_CHECKSUM then crcOri else xcrc32 pTemp crcOri)
        in case flash_writeWithCheck d c dAddr pTemp of
             (ok, c') \<Rightarrow>
               if \<not> ok then (None, c')
               else copy_loop d used (left - wLen) (sAddr + of_nat wLen) (dAddr + of_nat wLen) c' checkSum' crcOri' crcOld')"
  by auto

termination
  by (relation "measure (\<lambda>(d, used, left, sAddr, dAddr, c, checkSum, crcOri, crcOld). left)") auto

declare flash_crc.simps [simp del] flash_sum.simps [simp del] copy_loop.simps [simp del]

text \<open>Where the content comes from: the caller's buffer or, when a sector is compacted, the flash.\<close>

datatype item_src = FromRam "u8 list" | FromFlash u32

text \<open>\<open>(u8 * )&hdr.size\<close>, 4 bytes.\<close>

definition hdr_tail :: "item_hdr \<Rightarrow> u8 list" where
  "hdr_tail h = u16_bytes (hd_size h) @ [hd_itemId h, hd_used h]"

text \<open>The content: the header to be written (without its checksum) and the CRC over content and header
  tail, or an error.\<close>

definition write_content ::
  "'c drv_flash \<Rightarrow> 'c \<Rightarrow> item_src \<Rightarrow> u8 \<Rightarrow> u16 \<Rightarrow> u32 \<Rightarrow> u16 \<Rightarrow> (nv_sts + item_hdr \<times> u32) \<times> 'c" where
  "write_content d c src itemId len offset sz =
     (case src of
        FromFlash sAddr \<Rightarrow>
          let hdr = read_hdr d c sAddr in
          (case copy_loop d (hd_used hdr) (unat (sz - of_nat HDR_SIZE)) (sAddr + of_nat HDR_SIZE)
                  (offset + of_nat HDR_SIZE) c 0 0xffffffff 0xffffffff of
             (None, c') \<Rightarrow> (Inl NV_CHECK_SUM_ERROR, c')
           | (Some (checkSum, crcOri, crcOld), c') \<Rightarrow>
               if hd_used hdr = ITEM_HDR_FIELD_VALID_CHECKSUM then
                 if hd_checkSum hdr \<noteq> checkSum then (Inl NV_DATA_CHECK_ERROR, c')
                 else let hdr' = hdr\<lparr>hd_used := ITEM_HDR_FIELD_VALID_CHECKCRC\<rparr>
                      in (Inr (hdr', xcrc32 (hdr_tail hdr') crcOld), c')
               else let crc = xcrc32 (hdr_tail hdr) crcOri in
                 if (crc AND 0xffff) \<noteq> (hd_checkSum hdr AND 0xffff) then (Inl NV_DATA_CHECK_ERROR, c')
                 else (Inr (hdr, crc), c'))
      | FromRam buf \<Rightarrow>
          let payloadAddr = offset + of_nat HDR_SIZE;
              crcOri = xcrc32 buf 0xffffffff;
              c' = flash_write d c payloadAddr buf;
              crcDst = flash_crc d c' 16 payloadAddr (unat len) 0xffffffff
          in if crcDst = crcOri then
               let hdr = \<lparr>hd_checkSum = 0, hd_size = len, hd_itemId = itemId, hd_used = ITEM_HDR_FIELD_VALID_CHECKCRC\<rparr>
               in (Inr (hdr, xcrc32 (hdr_tail hdr) crcOri), c')
             else (Inl NV_CHECK_SUM_ERROR, c'))"

text \<open>The offset of a new item: behind the item of the previous index entry, which is checked.\<close>

definition next_offset :: "'c drv_flash \<Rightarrow> 'c \<Rightarrow> nat \<Rightarrow> nat \<Rightarrow> nat \<Rightarrow> u32 option" where
  "next_offset d c md opSect opItemIdx =
     (if opItemIdx = 0 then Some (MODULE_CONTEXT_START md opSect)
      else
        let idx = read_idx d c (idx_addr md opSect (opItemIdx - 1));
            hdr = read_hdr d c (ix_offset idx)
        in if hd_used hdr = ITEM_HDR_FIELD_VALID_CHECKCRC \<and>
              (xcrc32 (take (IDX_SIZE - 1) (idx_bytes idx)) 0xffffffff AND 0xffff) \<noteq> (drop_bit 16 (hd_checkSum hdr) AND 0xffff)
           then None
           else if ITEM_FLAG_CHECK (ix_usedState idx) \<and> ITEM_OFT_CHECK (ix_offset idx) (ix_size idx) md opSect
           then Some (align4 (ix_offset idx + ucast (ix_size idx)))
           else None)"

definition nv_write_item ::
  "'c drv_flash \<Rightarrow> 'c \<Rightarrow> bool \<Rightarrow> nat \<Rightarrow> u8 \<Rightarrow> nat \<Rightarrow> nat \<Rightarrow> u16 \<Rightarrow> item_src \<Rightarrow> nv_sts \<times> 'c" where
  "nv_write_item d c single md itemId opSect opItemIdx len src =
     (case next_offset d c md opSect opItemIdx of
        None \<Rightarrow> (NV_ITEM_CHECK_ERROR, c)
      | Some offset \<Rightarrow>
          let idx = \<lparr>ix_offset = offset, ix_size = len + of_nat HDR_SIZE, ix_itemId = itemId, ix_usedState = ITEM_FIELD_OPERATION\<rparr>;
              entry = idx_addr md opSect opItemIdx
          in if \<not> ITEM_OFT_CHECK (ix_offset idx) (ix_size idx) md opSect then (NV_ITEM_CHECK_ERROR, c)
             else
               case flash_writeWithCheck d c entry (idx_bytes idx) of
                 (ok1, c1) \<Rightarrow>
                   if \<not> ok1 then (NV_ITEM_CHECK_ERROR, c1)
                   else
                     case write_content d c1 src itemId len (ix_offset idx) (ix_size idx) of
                       (Inl err, c2) \<Rightarrow> (err, c2)
                     | (Inr (hdr, crcOri), c2) \<Rightarrow>
                         let idx' = idx\<lparr>ix_usedState := (if single then ITEM_FIELD_VALID_SINGLE else ITEM_FIELD_VALID)\<rparr>;
                             crcIdx = xcrc32 (take (IDX_SIZE - 1) (idx_bytes idx')) 0xffffffff;
                             hdr' = hdr\<lparr>hd_checkSum := push_bit 16 (crcIdx AND 0xffff) OR (crcOri AND 0xffff)\<rparr>
                         in case flash_writeWithCheck d c2 (ix_offset idx') (hdr_bytes hdr') of
                              (ok3, c3) \<Rightarrow>
                                if \<not> ok3 then (NV_CHECK_SUM_ERROR, c3)
                                else (NV_SUCC, snd (flash_writeWithCheck d c3 (entry + 7) [ix_usedState idx'])))"

section \<open>Reading and deleting an item\<close>

text \<open>The bytes put into the caller's buffer; the CRC or sum runs over the whole stored item.\<close>

definition nv_flashReadByIndex ::
  "'c drv_flash \<Rightarrow> 'c \<Rightarrow> nv_len_tbl \<Rightarrow> nat \<Rightarrow> u8 \<Rightarrow> nat \<Rightarrow> nat \<Rightarrow> u16 \<Rightarrow> nv_sts \<times> u8 list" where
  "nv_flashReadByIndex d c t md itemId opSect opIdx len =
     (let idx = read_idx d c (idx_addr md opSect opIdx) in
      if \<not> ITEM_VALID_FLAG_CHECK (ix_usedState idx) then (NV_ITEM_NOT_FOUND, [])
      else
        let hdr = read_hdr d c (ix_offset idx);
            lenMatch = NV_ITEMLEN_MATCH (ucast (hd_size hdr)) len;
            realLen = unat (nv_itemLengthValidCheck t itemId (hd_size hdr))
        in if lenMatch \<and> ITEM_HDR_VALID_CHECK (hd_used hdr) \<and> hd_itemId hdr = itemId then
             let buf = flash_read d c (ix_offset idx + of_nat HDR_SIZE) realLen;
                 readOft = ix_offset idx + of_nat HDR_SIZE + of_nat realLen;
                 leftSize = unat (hd_size hdr) - realLen
             in if hd_used hdr = ITEM_HDR_FIELD_VALID_CHECKSUM then
                  let sum = flash_sum d c 32 readOft leftSize (foldl (\<lambda>s b. s + ucast b) 0 buf)
                  in (if sum \<noteq> hd_checkSum hdr then NV_CHECK_SUM_ERROR else NV_SUCC, buf)
                else
                  let crc = xcrc32 (hdr_tail hdr) (flash_crc d c 32 readOft leftSize (xcrc32 buf 0xffffffff))
                  in (if (crc AND 0xffff) \<noteq> (hd_checkSum hdr AND 0xffff) then NV_CHECK_SUM_ERROR else NV_SUCC, buf)
           else (NV_ITEM_NOT_FOUND, []))"

definition nv_itemDeleteByIndex :: "'c drv_flash \<Rightarrow> 'c \<Rightarrow> nat \<Rightarrow> nat \<Rightarrow> nat \<Rightarrow> 'c" where
  "nv_itemDeleteByIndex d c md opSect opIdx = flash_write d c (idx_addr md opSect opIdx + 7) [ITEM_FIELD_INVALID]"

end
