(* ===== verification/NvOps.thy ===== *)
theory NvOps
  imports Nv
begin

text \<open>
  The exported operations of \<open>proj/drivers/nv.c\<close>: writing an item (with the compaction into the other
  sector when the current one is full), reading one, the frame counter kept in a module of its own,
  and the resets. Built on the functions of \<open>Nv\<close>.
\<close>

section \<open>Deleting duplicates\<close>

text \<open>The loop of \<open>nv_exceptionDataHandler\<close>: entries \<open>k - 1, ..., 0\<close> are still to be looked at;
  \<open>tbl\<close> is \<open>idxTbl[0 .. validNum - 1]\<close>. The flag \<open>add\<close> is set again for every entry.\<close>

fun dup_loop ::
  "'c drv_flash \<Rightarrow> bool \<Rightarrow> nat \<Rightarrow> nat \<Rightarrow> u8 \<Rightarrow> nat \<Rightarrow> u8 list \<Rightarrow> 'c \<Rightarrow> 'c" where
  "dup_loop d single opSect md itemId 0 tbl c = c"
| "dup_loop d single opSect md itemId (Suc k) tbl c =
     (let idx = read_idx d c (idx_addr md opSect k) in
      if \<not> ITEM_VALID_FLAG_CHECK (ix_usedState idx) then dup_loop d single opSect md itemId k tbl c
      else if ix_usedState idx = ITEM_FIELD_VALID_SINGLE \<or> (ix_itemId idx = itemId \<and> single) then
        let hits = filter (\<lambda>x. x = ix_itemId idx) tbl;
            c' = fold (\<lambda>_ c. nv_itemDeleteByIndex d c md opSect k) hits c;
            tbl' = (if hits = [] then tbl @ [ix_itemId idx] else tbl)
        in dup_loop d single opSect md itemId k tbl' c'
      else dup_loop d single opSect md itemId k tbl c)"

text \<open>\<open>buf_ok\<close>: \<open>ev_buf_allocate\<close> gave a buffer for the table.\<close>

definition nv_exceptionDataHandler ::
  "'c drv_flash \<Rightarrow> 'c \<Rightarrow> bool \<Rightarrow> bool \<Rightarrow> nat \<Rightarrow> nat \<Rightarrow> u8 \<Rightarrow> 'c" where
  "nv_exceptionDataHandler d c buf_ok single opSect md itemId =
     (if buf_ok then dup_loop d single opSect md itemId (MODULE_IDX_NUM md) [] c else c)"

section \<open>Compaction\<close>

text \<open>The state of the copying loops of \<open>nv_flashWriteNewHandler\<close>.\<close>

record 'c compact =
  cp_c :: 'c
  cp_wItemIdx :: nat
  cp_sizeused :: u32
  cp_startChk :: bool
  cp_search :: bool
  cp_offsetPrev :: u32
  cp_sizePrev :: u16

text \<open>One entry: \<open>Inl\<close> is a return of the handler with an error; \<open>search\<close> false is the break.\<close>

definition compact_entry ::
  "'c drv_flash \<Rightarrow> nat \<Rightarrow> bool \<Rightarrow> u8 \<Rightarrow> nat \<Rightarrow> nat \<Rightarrow> nv_info_idx \<Rightarrow> 'c compact \<Rightarrow> nv_sts \<times> 'c + 'c compact" where
  "compact_entry d md single itemId oldSect opSect e st =
     (let expected = (if cp_startChk st then MODULE_CONTEXT_START md oldSect
                      else align4 (cp_offsetPrev st + ucast (cp_sizePrev st)))
      in if ix_offset e \<noteq> expected \<or> MODULE_SECT_END md oldSect - ix_offset e < ucast (ix_size e)
         then Inr (st\<lparr>cp_search := False\<rparr>)
         else
           let st1 = st\<lparr>cp_startChk := False, cp_offsetPrev := ix_offset e, cp_sizePrev := ix_size e\<rparr> in
           if ITEM_VALID_FLAG_CHECK (ix_usedState e) \<and> (ix_itemId e \<noteq> itemId \<or> (ix_itemId e = itemId \<and> \<not> single)) then
             let sgl = (ix_usedState e = ITEM_FIELD_VALID_SINGLE);
                 hdr = read_hdr d (cp_c st1) (ix_offset e)
             in if hd_used hdr = ITEM_HDR_FIELD_VALID_CHECKCRC \<and>
                   (xcrc32 (take (IDX_SIZE - 1) (idx_bytes e)) 0xffffffff AND 0xffff) \<noteq> (drop_bit 16 (hd_checkSum hdr) AND 0xffff)
                then Inr st1
                else
                  case nv_write_item d (cp_c st1) sgl md (ix_itemId e) opSect (cp_wItemIdx st1)
                         (ix_size e - of_nat HDR_SIZE) (FromFlash (ix_offset e)) of
                    (ret, c') \<Rightarrow>
                      let st2 = st1\<lparr>cp_c := c', cp_sizeused := align4 (cp_sizeused st1 + ucast (ix_size e)),
                                    cp_wItemIdx := cp_wItemIdx st1 + 1\<rparr>
                      in if ret \<noteq> NV_SUCC then
                           if ret = NV_ITEM_CHECK_ERROR then Inr (st2\<lparr>cp_search := False\<rparr>)
                           else if ret = NV_NOT_ENOUGH_SAPCE \<or> ret = NV_CHECK_SUM_ERROR then Inl (ret, c')
                           else Inr st2
                         else Inr st2
           else Inr st1)"

fun compact_block ::
  "'c drv_flash \<Rightarrow> nat \<Rightarrow> bool \<Rightarrow> u8 \<Rightarrow> nat \<Rightarrow> nat \<Rightarrow> nv_info_idx list \<Rightarrow> 'c compact \<Rightarrow> nv_sts \<times> 'c + 'c compact" where
  "compact_block d md single itemId oldSect opSect [] st = Inr st"
| "compact_block d md single itemId oldSect opSect (e # es) st =
     (case compact_entry d md single itemId oldSect opSect e st of
        Inl err \<Rightarrow> Inl err
      | Inr st' \<Rightarrow> if cp_search st' then compact_block d md single itemId oldSect opSect es st' else Inr st')"

function compact_loop ::
  "'c drv_flash \<Rightarrow> nat \<Rightarrow> bool \<Rightarrow> u8 \<Rightarrow> nat \<Rightarrow> nat \<Rightarrow> nat \<Rightarrow> nat \<Rightarrow> 'c compact \<Rightarrow> nv_sts \<times> 'c + 'c compact" where
  "compact_loop d md single itemId oldSect opSect k idxTotalNum st =
     (if idxTotalNum = 0 \<or> \<not> cp_search st then Inr st
      else
        let readIdxNum = (if idxTotalNum > 4 then 4 else idxTotalNum);
            es = read_idxs d (cp_c st) (idx_addr md oldSect k) readIdxNum
        in case compact_block d md single itemId oldSect opSect es st of
             Inl err \<Rightarrow> Inl err
           | Inr st' \<Rightarrow> compact_loop d md single itemId oldSect opSect (k + readIdxNum) (idxTotalNum - readIdxNum) st')"
  by auto

termination
  by (relation "measure (\<lambda>(d, md, single, itemId, oldSect, opSect, k, n, st). n)") auto

declare compact_loop.simps [simp del]

definition erase_sectors :: "'c drv_flash \<Rightarrow> u32 \<Rightarrow> nat \<Rightarrow> 'c \<Rightarrow> 'c" where
  "erase_sectors d start n c = fold (\<lambda>j c. flash_erase d c (start + of_nat (j * 4096))) [0..<n] c"

text \<open>The \<open>sectorUpdate\<close> branch: erase the other sector and copy the live items.\<close>

definition change_sector ::
  "'c drv_flash \<Rightarrow> 'c \<Rightarrow> bool \<Rightarrow> nat \<Rightarrow> bool \<Rightarrow> u8 \<Rightarrow> u16 \<Rightarrow> nat \<Rightarrow> nat \<Rightarrow> nv_sts \<times> 'c + nat \<times> 'c" where
  "change_sector d c buf_ok md single itemId len oldSect opSect =
     (let c1 = erase_sectors d (MODULE_SECT_START md opSect) (NV_SECTOR_SIZE md div 4096) c;
          c2 = nv_exceptionDataHandler d c1 buf_ok single oldSect md itemId;
          st0 = \<lparr>cp_c = c2, cp_wItemIdx = 0, cp_sizeused = MODULE_CONTEXT_START md opSect, cp_startChk = True,
                 cp_search = True, cp_offsetPrev = 0, cp_sizePrev = 0\<rparr>;
          res = (if nv_sect_info_check d c2 oldSect md = NV_SUCC
                 then compact_loop d md single itemId oldSect opSect 0 (MODULE_IDX_NUM md) st0 else Inr st0)
      in case res of
           Inl err \<Rightarrow> Inl err
         | Inr st \<Rightarrow>
             if cp_wItemIdx st = MODULE_IDX_NUM md \<or> cp_sizeused st + ITEM_TOTAL_LEN len > MODULE_SECT_END md opSect
             then Inl (NV_NOT_ENOUGH_SAPCE, cp_c st)
             else Inr (cp_wItemIdx st, cp_c st))"

section \<open>Writing\<close>

text \<open>Where to write: \<open>(sectorUpdate, wItemIdx)\<close>.\<close>

definition find_slot :: "'c drv_flash \<Rightarrow> 'c \<Rightarrow> bool \<Rightarrow> nat \<Rightarrow> u16 \<Rightarrow> nat \<Rightarrow> bool \<times> nat" where
  "find_slot d c forceChgSec md len opSect =
     (if forceChgSec then (True, 0)
      else
        case nv_index_read d c md ITEM_FIELD_IDLE len opSect (MODULE_IDX_NUM md) of
          (NV_SUCC, Some wItemIdx) \<Rightarrow>
            let e = read_idx d c (idx_addr md opSect wItemIdx) in
            if wItemIdx = MODULE_IDX_NUM md - 1 \<or>
               ix_offset e + ucast (ix_size e) + ITEM_TOTAL_LEN len > MODULE_SECT_END md opSect
            then (True, wItemIdx)
            else if ITEM_FLAG_CHECK (ix_usedState e) \<and> ITEM_OFT_CHECK (ix_offset e) (ix_size e) md opSect
            then (False, wItemIdx + 1)
            else (True, wItemIdx)
        | _ \<Rightarrow> (False, 0))"

text \<open>The sector header written for a new or changed sector.\<close>

definition new_sect_info :: "nat \<Rightarrow> u8 \<Rightarrow> nv_sect_info" where
  "new_sect_info md seq =
     (let s = seq AND 3
      in \<lparr>si_usedFlag = NV_SECTOR_VALID_CHECKCRC, si_idName = of_nat md,
          si_opSect = push_bit 2 (sect_crc (of_nat md) s) OR s\<rparr>)"

definition nv_flashWriteNewHandler ::
  "'c drv_flash \<Rightarrow> 'c \<Rightarrow> bool \<Rightarrow> bool \<Rightarrow> bool \<Rightarrow> nat \<Rightarrow> u8 \<Rightarrow> u16 \<Rightarrow> u8 list \<Rightarrow> nv_sts \<times> 'c" where
  "nv_flashWriteNewHandler d c buf_ok forceChgSec single md itemId len buf =
     (if of_nat (NV_SECTOR_SIZE md) < ITEM_TOTAL_LEN len + of_nat (MODULE_INFO_SIZE md) then (NV_NOT_ENOUGH_SAPCE, c)
      else
        case nv_sector_read d c True md MODULE_SECTOR_NUM of
          (ret, info, c0) \<Rightarrow>
            let (sect0, seq0, c1) =
                  (case (ret, info) of
                     (NV_SUCC, Some s) \<Rightarrow> (unat (si_opSect s AND 1), si_opSect s, c0)
                   | _ \<Rightarrow> (0, 0, erase_sectors d (MODULES_START_ADDR md) (NV_SECTOR_SIZE md div 4096) c0));
                (sectorUpdate, slot) = find_slot d c1 forceChgSec md len sect0;
                opSect = (if sectorUpdate then (sect0 + 1) mod 2 else sect0);
                seq = (if sectorUpdate then seq0 + 1 else seq0);
                prep = (if sectorUpdate then change_sector d c1 buf_ok md single itemId len sect0 opSect
                        else Inr (slot, c1))
            in case prep of
                 Inl err \<Rightarrow> err
               | Inr (wItemIdx, c2) \<Rightarrow>
                   let del = (if single
                              then (case nv_index_read d c2 md itemId len opSect (MODULE_IDX_NUM md) of
                                      (NV_SUCC, Some k) \<Rightarrow> Some k | _ \<Rightarrow> None)
                              else None)
                   in case nv_write_item d c2 single md itemId opSect wItemIdx len (FromRam buf) of
                        (ret3, c3) \<Rightarrow>
                          if ret3 \<noteq> NV_SUCC then (ret3, c3)
                          else
                            case (case del of
                                    Some k \<Rightarrow> flash_writeWithCheck d c3 (idx_addr md opSect k + 7) [ITEM_FIELD_INVALID]
                                  | None \<Rightarrow> (True, c3)) of
                              (ok4, c4) \<Rightarrow>
                                if \<not> ok4 then (NV_CHECK_SUM_ERROR, c4)
                                else if sectorUpdate then
                                  (case flash_writeWithCheck d c4 (MODULE_SECT_START md opSect) (sect_bytes (new_sect_info md seq)) of
                                     (ok5, c5) \<Rightarrow>
                                       if \<not> ok5 then (NV_CHECK_SUM_ERROR, c5)
                                       else (NV_SUCC, snd (flash_writeWithCheck d c5 (MODULE_SECT_START md sect0)
                                                             (u16_bytes NV_SECTOR_INVALID))))
                                else if wItemIdx = 0 then
                                  (NV_SUCC, snd (flash_writeWithCheck d c4 (MODULE_SECT_START md opSect)
                                                   (sect_bytes (new_sect_info md (of_nat opSect)))))
                                else (NV_SUCC, c4))"

definition on_chip :: "('c \<Rightarrow> 'r \<times> 'c) \<Rightarrow> 'c flash_st \<Rightarrow> 'r \<times> 'c flash_st" where
  "on_chip f s = (case f (fl_chip s) of (r, c) \<Rightarrow> (r, s\<lparr>fl_chip := c\<rparr>))"

definition nv_flashWriteNew ::
  "'c drv_flash \<Rightarrow> 'c flash_st \<Rightarrow> bool \<Rightarrow> bool \<Rightarrow> nat \<Rightarrow> u8 \<Rightarrow> u16 \<Rightarrow> u8 list \<Rightarrow> nv_sts \<times> 'c flash_st" where
  "nv_flashWriteNew d s buf_ok single md itemId len buf =
     (if md = DS_NWK_FRAMECOUNT_MODULE then (NV_INVALID_MODULS, s)
      else case on_chip (\<lambda>c. nv_flashWriteNewHandler d c buf_ok False single md itemId len buf) (flash_unlock s) of
             (ret, s') \<Rightarrow> (ret, flash_lock s'))"

section \<open>Reading\<close>

text \<open>The bytes read, and for \<open>single\<close> false the item's place (\<open>itemIfno_t\<close>). The handler unlocks again
  and returns without locking when there is no valid sector.\<close>

definition nv_flashReadNewHandler ::
  "'c drv_flash \<Rightarrow> 'c flash_st \<Rightarrow> nv_len_tbl \<Rightarrow> bool \<Rightarrow> nat \<Rightarrow> u8 \<Rightarrow> u16 \<Rightarrow>
     (nv_sts \<times> u8 list \<times> (nat option \<times> nat) option) \<times> 'c flash_st" where
  "nv_flashReadNewHandler d s t single md itemId len =
     (if md = DS_NWK_FRAMECOUNT_MODULE then ((NV_INVALID_MODULS, [], None), s)
      else
        let s1 = flash_unlock s in
        case nv_sector_read d (fl_chip s1) False md MODULE_SECTOR_NUM of
          (NV_SUCC, Some info, c1) \<Rightarrow>
            let opSect = unat (si_opSect info AND 1) in
            (case nv_index_read d c1 md itemId len opSect (MODULE_IDX_NUM md) of
               (ret, opIdx) \<Rightarrow>
                 if single then
                   (case (ret, opIdx) of
                      (NV_SUCC, Some k) \<Rightarrow>
                        (case nv_flashReadByIndex d c1 t md itemId opSect k len of
                           (ret', buf) \<Rightarrow>
                             let c2 = (if ret' = NV_CHECK_SUM_ERROR then nv_itemDeleteByIndex d c1 md opSect k else c1)
                             in ((ret', buf, None), flash_lock (s1\<lparr>fl_chip := c2\<rparr>)))
                    | _ \<Rightarrow> ((ret, [], None), flash_lock (s1\<lparr>fl_chip := c1\<rparr>)))
                 else ((ret, [], Some (opIdx, opSect)), flash_lock (s1\<lparr>fl_chip := c1\<rparr>)))
        | (ret, _, c1) \<Rightarrow> ((ret, [], None), s1\<lparr>fl_chip := c1\<rparr>))"

definition nv_flashReadNew ::
  "'c drv_flash \<Rightarrow> 'c flash_st \<Rightarrow> nv_len_tbl \<Rightarrow> nat \<Rightarrow> u8 \<Rightarrow> u16 \<Rightarrow> (nv_sts \<times> u8 list) \<times> 'c flash_st" where
  "nv_flashReadNew d s t md itemId len =
     (if md = DS_NWK_FRAMECOUNT_MODULE then ((NV_INVALID_MODULS, []), s)
      else case nv_flashReadNewHandler d (flash_unlock s) t True md itemId len of
             ((ret, buf, _), s') \<Rightarrow> ((ret, buf), flash_lock s'))"

section \<open>Resets\<close>

definition nv_resetModule :: "'c drv_flash \<Rightarrow> 'c flash_st \<Rightarrow> nat \<Rightarrow> nv_sts \<times> 'c flash_st" where
  "nv_resetModule d s md =
     (case on_chip (\<lambda>c. (NV_SUCC, erase_sectors d (MODULES_START_ADDR md) (MODULE_SECTOR_NUM * (NV_SECTOR_SIZE md div 4096)) c))
             (flash_unlock s) of
        (ret, s') \<Rightarrow> (ret, flash_lock s'))"

definition nv_resetAll :: "'c drv_flash \<Rightarrow> 'c flash_st \<Rightarrow> nv_sts \<times> 'c flash_st" where
  "nv_resetAll d s = (NV_SUCC, fold (\<lambda>i s. snd (nv_resetModule d s i)) [0..<DS_MAX_MODULS] s)"

definition nv_init :: "'c drv_flash \<Rightarrow> 'c flash_st \<Rightarrow> bool \<Rightarrow> nv_sts \<times> 'c flash_st" where
  "nv_init d s rst = (if rst then (NV_SUCC, snd (nv_resetAll d s)) else (NV_SUCC, s))"

end
