(* ===== verification/NvSector.thy ===== *)
theory NvSector
  imports FlashMap NvOps
begin

text \<open>
  What all modules of the NV store share: the header of a sector, when it is valid, and that
  \<open>nv_sector_read\<close> finds the one valid sector of a module.
\<close>

section \<open>Alignment\<close>

lemma and_not_mask_of_nat:
  assumes "n < 2 ^ 32" "k \<le> 32"
  shows "(of_nat n AND NOT (mask k) :: u32) = of_nat (n div 2 ^ k * 2 ^ k)"
proof -
  have "n div 2 ^ k * 2 ^ k = push_bit k (drop_bit k n)" by (simp add: push_bit_eq_mult drop_bit_eq_div)
  moreover have "(of_nat n AND NOT (mask k) :: u32) = of_nat (push_bit k (drop_bit k n))"
    by (rule bit_word_eqI) (auto simp: bit_simps)
  ultimately show ?thesis by simp
qed

lemma page_align: "n < 2 ^ 32 \<Longrightarrow> (of_nat n AND NOT 0xff :: u32) = of_nat (n div 256 * 256)"
  using and_not_mask_of_nat[of n 8] by (simp add: mask_eq_exp_minus_1)

lemma word_align: "n < 2 ^ 32 \<Longrightarrow> (of_nat n AND NOT 3 :: u32) = of_nat (n div 4 * 4)"
  using and_not_mask_of_nat[of n 2] by (simp add: mask_eq_exp_minus_1)

section \<open>Sector headers\<close>

lemma u32_bytes_inject: "u32_bytes a = u32_bytes b \<longleftrightarrow> a = b"
  using get32_bytes[of a "[]"] get32_bytes[of b "[]"] by (metis append_Nil2)

definition sect_word :: "nv_sect_info \<Rightarrow> u32" where
  "sect_word h = get32 (sect_bytes h) 0"

lemma u32_bytes_sect_word: "u32_bytes (sect_word h) = sect_bytes h"
  by (simp add: sect_word_def u32_bytes_get32)

lemma bytes_of_word: "u32_bytes (word_at m a) = map (at m) [a..<a + 4]"
  by (simp add: word_at_def u32_bytes_get32)

definition sect_hdr :: "mem \<Rightarrow> nat \<Rightarrow> nat \<Rightarrow> nv_sect_info" where
  "sect_hdr m md s = sect_of (map (at m) [sect_start md s..<sect_start md s + 4])"

text \<open>A dead sector is not valid and not about to become valid; a live one has the header the code writes.\<close>

definition sect_dead :: "mem \<Rightarrow> nat \<Rightarrow> nat \<Rightarrow> bool" where
  "sect_dead m md s \<longleftrightarrow> \<not> SECT_VALID_CHECK (sect_hdr m md s) \<and> si_usedFlag (sect_hdr m md s) \<noteq> NV_SECTOR_VALID_READY_CHECKCRC"

definition sect_live :: "mem \<Rightarrow> nat \<Rightarrow> nat \<Rightarrow> bool" where
  "sect_live m md s \<longleftrightarrow> (\<exists>seq. unat (seq AND 1) = s \<and>
     map (at m) [sect_start md s..<sect_start md s + 4] = sect_bytes (new_sect_info md seq))"

lemma and_3_1: "(x AND 3) AND 1 = (x AND 1 :: u8)"
  by (simp add: and.assoc)

lemma crc_bits: "sect_crc a b AND 0x3f = sect_crc a b"
proof -
  have "(0x3f :: u32) = mask 6" "(0x3f :: u8) = mask 6" by (simp_all add: mask_eq_exp_minus_1)
  then show ?thesis unfolding sect_crc_def by (intro bit_word_eqI) (auto simp: bit_simps)
qed

lemma op_bits:
  assumes "c AND 0x3f = c" "s AND 3 = s"
  shows "(push_bit 2 c OR s) AND 3 = (s :: u8)" "drop_bit 2 (push_bit 2 c OR s) AND 0x3f = (c :: u8)"
proof -
  have m: "(0x3f :: u8) = mask 6" "(3 :: u8) = mask 2" by (simp_all add: mask_eq_exp_minus_1)
  have c: "bit c n \<Longrightarrow> n < 6" for n using arg_cong[OF assms(1), of "\<lambda>w. bit w n"] unfolding m by (simp add: bit_simps)
  have s: "bit s n \<Longrightarrow> n < 2" for n using arg_cong[OF assms(2), of "\<lambda>w. bit w n"] unfolding m by (simp add: bit_simps)
  show "(push_bit 2 c OR s) AND 3 = s" unfolding m by (rule bit_word_eqI) (auto simp: bit_simps dest: s)
  show "drop_bit 2 (push_bit 2 c OR s) AND 0x3f = c" unfolding m by (rule bit_word_eqI) (auto simp: bit_simps dest: s c)
qed

lemma new_sect_fields:
  "si_usedFlag (new_sect_info md q) = NV_SECTOR_VALID_CHECKCRC" "si_idName (new_sect_info md q) = of_nat md"
  "si_opSect (new_sect_info md q) AND 3 = q AND 3" "si_opSect (new_sect_info md q) AND 1 = q AND 1"
  "nv_sectInfoCrcCheck (new_sect_info md q)"
proof -
  have q: "(q AND 3) AND 3 = q AND 3" by (simp add: and.assoc)
  note o = op_bits[OF crc_bits q]
  show "si_usedFlag (new_sect_info md q) = NV_SECTOR_VALID_CHECKCRC" "si_idName (new_sect_info md q) = of_nat md"
    by (simp_all add: new_sect_info_def Let_def)
  show 3: "si_opSect (new_sect_info md q) AND 3 = q AND 3" by (simp add: new_sect_info_def Let_def o)
  show "si_opSect (new_sect_info md q) AND 1 = q AND 1" using arg_cong[OF 3, of "\<lambda>x. x AND 1"] by (simp only: and_3_1)
  show "nv_sectInfoCrcCheck (new_sect_info md q)" unfolding nv_sectInfoCrcCheck_def 3 by (simp only: new_sect_info_def Let_def nv_sect_info.simps o)
qed

lemma flip_bit0: "unat ((x + 1) AND 1 :: u8) = 1 - unat (x AND 1)"
  by (cases "even x") (simp_all add: and_one_eq mod_2_eq_odd)

lemma live_hdr: "sect_live m md s \<Longrightarrow> \<exists>seq. unat (seq AND 1) = s \<and> sect_hdr m md s = new_sect_info md seq"
  by (auto simp: sect_live_def sect_hdr_def)

lemma flash_ok_chip: "flash_ok cells writable s \<Longrightarrow> writable c \<Longrightarrow> flash_ok cells writable (s\<lparr>fl_chip := c\<rparr>)"
  by (simp add: flash_ok_def split: option.splits)

context nor_flash begin

lemma read_sect_at: "read_sect D c (MODULE_SECT_START md s) = sect_hdr (cells c) md s"
  by (simp add: read_sect_def MODULE_SECT_START_def read_at sect_hdr_def)

lemma sector_read_dead:
  assumes "sect_dead (cells c) md 0" "sect_dead (cells c) md 1"
  shows "nv_sector_read D c fw md MODULE_SECTOR_NUM = (NV_ITEM_NOT_FOUND, None, c)"
  using assms by (simp add: nv_sector_read_def read_sect_at upt_rec sect_dead_def Let_def)

lemma sector_read_live:
  assumes "s < 2" "sect_live (cells c) md s" "sect_dead (cells c) md (1 - s)"
  shows "nv_sector_read D c fw md MODULE_SECTOR_NUM = (NV_SUCC, Some (sect_hdr (cells c) md s), c)"
proof -
  obtain q where q: "unat (q AND 1) = s" "sect_hdr (cells c) md s = new_sect_info md q" using live_hdr[OF assms(2)] by auto
  have flags: "NV_SECTOR_VALID_CHECKCRC \<noteq> NV_SECTOR_VALID_READY_CHECKCRC"
    by (simp add: NV_SECTOR_VALID_CHECKCRC_def NV_SECTOR_VALID_READY_CHECKCRC_def)
  have v: "SECT_VALID_CHECK (new_sect_info md q)" by (simp add: SECT_VALID_CHECK_def new_sect_fields)
  have d: "\<not> SECT_VALID_CHECK (sect_hdr (cells c) md (1 - s))" "si_usedFlag (sect_hdr (cells c) md (1 - s)) \<noteq> NV_SECTOR_VALID_READY_CHECKCRC"
    using assms(3) by (simp_all add: sect_dead_def)
  have q3: "q AND 3 \<noteq> 0xff"
  proof
    assume "q AND 3 = 0xff"
    then have "bit (q AND 3) 7" by simp
    then show False by (simp add: bit_simps)
  qed
  have sel: "unat ((q AND 3) AND 1) = s" "unat (((q AND 3) + 1) AND 1) = 1 - s"
    unfolding flip_bit0 and_3_1 by (simp_all add: q)
  let ?ss = "[sect_hdr (cells c) md 0, sect_hdr (cells c) md 1]"
  have s01: "s = 0 \<or> s = 1" using assms(1) by auto
  have sc: "sect_scan md ?ss 0xff 0 0 = q AND 3"
    using s01 q(2) d flags v by (auto simp: new_sect_fields)
  have nth: "?ss ! s = sect_hdr (cells c) md s" "?ss ! (1 - s) = sect_hdr (cells c) md (1 - s)"
    using s01 by auto
  have rd: "map (\<lambda>i. read_sect D c (MODULE_SECT_START md i)) [0..<MODULE_SECTOR_NUM] = ?ss"
    by (simp add: read_sect_at upt_rec)
  show ?thesis
    unfolding nv_sector_read_def rd Let_def sc sel nth using q3 flags d q(2)
    by (simp add: new_sect_fields)
qed

text \<open>The operation sector, as the callers compute it from the header.\<close>

lemma live_op:
  assumes "sect_live m md s"
  shows "unat (si_opSect (sect_hdr m md s) AND 1) = s" "unat ((si_opSect (sect_hdr m md s) + 1) AND 1) = 1 - s"
proof -
  obtain q where q: "unat (q AND 1) = s" "sect_hdr m md s = new_sect_info md q" using live_hdr[OF assms] by auto
  show "unat (si_opSect (sect_hdr m md s) AND 1) = s" unfolding q(2) new_sect_fields q(1) ..
  then show "unat ((si_opSect (sect_hdr m md s) + 1) AND 1) = 1 - s" unfolding flip_bit0 by simp
qed

lemma unlocked:
  assumes "flash_ok cells writable s"
  shows "writable (fl_chip (flash_unlock s))" "cells (fl_chip (flash_unlock s)) = cells (fl_chip s)"
    "writable c \<Longrightarrow> flash_ok cells writable (flash_lock ((flash_unlock s)\<lparr>fl_chip := c\<rparr>))"
    "writable c \<Longrightarrow> cells (fl_chip (flash_lock ((flash_unlock s)\<lparr>fl_chip := c\<rparr>))) = cells c"
  using flash_unlock_ok[OF assms] flash_ok_chip[of cells writable "flash_unlock s" c]
    flash_lock_ok[of cells writable "(flash_unlock s)\<lparr>fl_chip := c\<rparr>"] by simp_all

end

end
