(* ===== verification/NvFrame.thy ===== *)
theory NvFrame
  imports NvOps
begin

text \<open>
  The network frame counter, the last part of \<open>proj/drivers/nv.c\<close>: a module of its own whose two
  sectors are logs of 32-bit counter values. Saving appends to the log and moves to the other sector
  when it is full; loading returns the last value and backs off from an implausible one. The proofs
  are in \<open>NvFrameProps\<close>.
\<close>

section \<open>Searching the log\<close>

text \<open>The loop over the pages, from the last one down; \<open>n\<close> rounds are left. The flag says that the
  loop was left by \<open>break\<close>.\<close>

fun page_scan :: "'c drv_flash \<Rightarrow> 'c \<Rightarrow> u32 \<Rightarrow> nat \<Rightarrow> u32 \<Rightarrow> u32 \<times> bool \<times> u32" where
  "page_scan d c opPageAddr 0 validAddr = (opPageAddr, False, validAddr)"
| "page_scan d c opPageAddr (Suc n) validAddr =
     (if get32 (flash_read d c opPageAddr 4) 0 \<noteq> 0xffffffff then (opPageAddr, True, validAddr)
      else page_scan d c (opPageAddr - of_nat PAGE_SIZE) n opPageAddr)"

text \<open>The words of one unit after the first: the last value seen, and where the log ends if it ends
  in this unit.\<close>

fun word_scan :: "u32 list \<Rightarrow> nat \<Rightarrow> u32 \<Rightarrow> u32 \<times> nat option" where
  "word_scan [] i fc = (fc, None)"
| "word_scan (w # ws) i fc =
     (if w \<noteq> 0xffffffff then (if ws = [] then (w, Some (i + 1)) else word_scan ws (i + 1) w) else (fc, Some i))"

definition read_words :: "'c drv_flash \<Rightarrow> 'c \<Rightarrow> u32 \<Rightarrow> nat \<Rightarrow> u32 list" where
  "read_words d c a readSize = (let bs = flash_read d c a readSize in map (\<lambda>i. get32 bs (4 * i)) [0..<readSize div 4])"

function unit_scan ::
  "'c drv_flash \<Rightarrow> 'c \<Rightarrow> u32 \<Rightarrow> nat \<Rightarrow> u32 option \<Rightarrow> u32 \<Rightarrow> nv_sts \<times> u32 option \<times> u32" where
  "unit_scan d c opPageAddr checkSize frameCount validAddr =
     (if checkSize = 0 then (NV_ITEM_NOT_FOUND, frameCount, validAddr)
      else
        let readSize = (if checkSize > 16 then 16 else checkSize);
            a = opPageAddr - of_nat (readSize div 4 * 4);
            checkValid = read_words d c a readSize
        in if hd checkValid \<noteq> 0xffffffff then
             (case word_scan (tl checkValid) 1 (hd checkValid) of
                (fc, Some i) \<Rightarrow> (NV_SUCC, Some fc, a + of_nat (4 * i))
              | (fc, None) \<Rightarrow> unit_scan d c a (checkSize - readSize) (Some fc) validAddr)
           else unit_scan d c a (checkSize - readSize) frameCount a)"
  by auto

termination
  by (relation "measure (\<lambda>(d, c, a, checkSize, fc, va). checkSize)") auto

declare unit_scan.simps [simp del]

text \<open>Both out-parameters: the counter (\<open>None\<close> when unset) and the address behind the log.\<close>

definition nv_nwkFrameCountSearch :: "'c drv_flash \<Rightarrow> 'c \<Rightarrow> nat \<Rightarrow> nat \<Rightarrow> nv_sts \<times> u32 option \<times> u32" where
  "nv_nwkFrameCountSearch d c md opSect =
     (let sizeUsed = FRAMECOUNT_NUM * 4;
          pageUsed = (if sizeUsed mod 256 \<noteq> 0 then sizeUsed div PAGE_SIZE + 1 else sizeUsed div PAGE_SIZE);
          start = FRAMECOUNT_PAYLOAD_START opSect
      in case page_scan d c (MODULE_SECT_END md opSect - of_nat PAGE_SIZE) (pageUsed - 1) start of
           (page, found, validAddr) \<Rightarrow>
             let opPageAddr = (if found then page else start);
                 checkSize = (if found then PAGE_SIZE else (PAGE_SIZE - SECT_INFO_SIZE) div 4 * 4)
             in unit_scan d c ((opPageAddr + of_nat PAGE_SIZE) AND NOT 0xff) checkSize None validAddr)"

section \<open>Saving\<close>

text \<open>\<open>errSect\<close> is in and out. The counter a search without success leaves unset is never used.\<close>

definition nv_nwkFrameCountSaveToFlashHandler ::
  "'c drv_flash \<Rightarrow> 'c \<Rightarrow> bool \<Rightarrow> nat \<Rightarrow> u32 \<Rightarrow> nv_sts \<times> nat \<times> 'c" where
  "nv_nwkFrameCountSaveToFlashHandler d c forceChgSec errSect frameCount =
     (let md = DS_NWK_FRAMECOUNT_MODULE in
      if forceChgSec \<and> errSect > 1 then (NV_NOT_PERMIT, errSect, c)
      else
        case nv_sector_read d c True md MODULE_SECTOR_NUM of
          (ret, info, c0) \<Rightarrow>
            let (opSect0, seq0, c1) =
                  (case (ret, info) of
                     (NV_SUCC, Some s) \<Rightarrow>
                       if forceChgSec then
                         let o' = (errSect + 1) mod 2
                         in (o', si_opSect s + 1,
                             erase_sectors d (MODULES_START_ADDR md + of_nat (o' * NV_SECTOR_SIZE md)) (NV_SECTOR_SIZE md div 4096) c0)
                       else (unat (si_opSect s AND 1), si_opSect s, c0)
                   | _ \<Rightarrow> (0, 0, erase_sectors d (MODULES_START_ADDR md) MODULE_SECTOR_NUM c0));
                (ret2, lastFrmCnt, wAddr0) = nv_nwkFrameCountSearch d c1 md opSect0;
                full = (ret2 = NV_SUCC \<and> wAddr0 = MODULE_SECT_END md opSect0);
                opSect = (if full then (opSect0 + 1) mod 2 else opSect0);
                seq = (if full then seq0 + 1 else seq0);
                (ok2, c2) = (if full
                             then flash_writeWithCheck d (flash_erase d c1 (MODULES_START_ADDR md + of_nat (opSect * 4096)))
                                    (FRAMECOUNT_PAYLOAD_START opSect) (u32_bytes (the lastFrmCnt))
                             else (True, c1));
                wAddr = (if full then FRAMECOUNT_PAYLOAD_START opSect + 4 else wAddr0)
            in if \<not> ok2 then (NV_CHECK_SUM_ERROR, opSect, c2)
               else
                 case flash_writeWithCheck d c2 wAddr (u32_bytes frameCount) of
                   (ok3, c3) \<Rightarrow>
                     if \<not> ok3 then (NV_CHECK_SUM_ERROR, opSect, c3)
                     else if full \<or> wAddr = FRAMECOUNT_PAYLOAD_START opSect then
                       (case flash_writeWithCheck d c3 (MODULE_SECT_START md opSect) (sect_bytes (new_sect_info md seq)) of
                          (ok4, c4) \<Rightarrow>
                            if \<not> ok4 then (NV_CHECK_SUM_ERROR, opSect, c4)
                            else if full \<or> forceChgSec then
                              (case flash_writeWithCheck d c4 (MODULE_SECT_START md (if forceChgSec then errSect else opSect0))
                                      (u16_bytes NV_SECTOR_INVALID) of
                                 (ok5, c5) \<Rightarrow>
                                   if \<not> ok5 then (NV_CHECK_SUM_ERROR, opSect, c5)
                                   else (ret, errSect, c5))
                            else (ret, errSect, c4))
                     else (ret, errSect, c3))"

definition nv_nwkFrameCountSaveToFlash :: "'c drv_flash \<Rightarrow> 'c flash_st \<Rightarrow> u32 \<Rightarrow> nv_sts \<times> 'c flash_st" where
  "nv_nwkFrameCountSaveToFlash d s frameCount =
     (case on_chip (\<lambda>c. case nv_nwkFrameCountSaveToFlashHandler d c False 0xff frameCount of (ret, _, c') \<Rightarrow> (ret, c'))
             (flash_unlock s) of
        (ret, s') \<Rightarrow> (ret, flash_lock s'))"

section \<open>Loading\<close>

abbreviation UPDATE_FRAMECOUNT_THRES :: u32 where "UPDATE_FRAMECOUNT_THRES \<equiv> 1024"

definition absSub :: "u32 \<Rightarrow> u32 \<Rightarrow> u32" where
  "absSub a b = (if a > b then a - b else b - a)"

definition nv_nwkFrameCountFromFlash :: "'c drv_flash \<Rightarrow> 'c flash_st \<Rightarrow> (nv_sts \<times> u32 option) \<times> 'c flash_st" where
  "nv_nwkFrameCountFromFlash d s =
     (let s1 = flash_unlock s; md = DS_NWK_FRAMECOUNT_MODULE in
      case nv_sector_read d (fl_chip s1) False md MODULE_SECTOR_NUM of
        (NV_SUCC, Some info, c1) \<Rightarrow>
          let opSect = unat (si_opSect info AND 1) in
          (case nv_nwkFrameCountSearch d c1 md opSect of
             (NV_SUCC, lastFrmCnt, wAddr) \<Rightarrow>
               if wAddr > FRAMECOUNT_PAYLOAD_START opSect + 8 then
                 let pCnt = read_words d c1 (wAddr - 8) 8 in
                 if pCnt ! 1 < pCnt ! 0 \<or> absSub (pCnt ! 1) (pCnt ! 0) > UPDATE_FRAMECOUNT_THRES * 2 then
                   let fc = pCnt ! 0 + UPDATE_FRAMECOUNT_THRES;
                       (_, _, c2) = nv_nwkFrameCountSaveToFlashHandler d c1 True opSect fc
                   in ((NV_SUCC, Some fc), flash_lock (s1\<lparr>fl_chip := c2\<rparr>))
                 else ((NV_SUCC, lastFrmCnt), flash_lock (s1\<lparr>fl_chip := c1\<rparr>))
               else ((NV_SUCC, lastFrmCnt), flash_lock (s1\<lparr>fl_chip := c1\<rparr>))
           | (ret, _, _) \<Rightarrow> ((ret, None), flash_lock (s1\<lparr>fl_chip := c1\<rparr>)))
      | (ret, _, c1) \<Rightarrow> ((ret, None), flash_lock (s1\<lparr>fl_chip := c1\<rparr>)))"

end
