(* ===== verification/NvFrameProps.thy ===== *)
theory NvFrameProps
  imports NvSector NvFrame "HOL-Library.Sublist"
begin

text \<open>
  Proofs about the frame counter: the search finds the end of the log, saving keeps the two sectors in
  the form of one valid log, and so a saved counter is what is loaded, through any number of sector
  changes. Everything is by natural address (\<open>FlashMap\<close>), for any chip that keeps the NOR contract.
\<close>

section \<open>The log of one sector\<close>

definition fc_base :: "nat \<Rightarrow> nat" where
  "fc_base s = 0x3e000 + 4096 * s"

abbreviation fcw :: "mem \<Rightarrow> nat \<Rightarrow> nat \<Rightarrow> u32" where
  "fcw m s k \<equiv> word_at m (fc_base s + 4 * k)"

definition fc_log :: "mem \<Rightarrow> nat \<Rightarrow> u32 list \<Rightarrow> bool" where
  "fc_log m s xs \<longleftrightarrow> length xs < 1024 \<and> 0xffffffff \<notin> set xs \<and>
     (\<forall>k. 1 \<le> k \<and> k < 1024 \<longrightarrow> fcw m s k = (if k \<le> length xs then xs ! (k - 1) else 0xffffffff))"

lemma fc_word:
  "fc_log m s xs \<Longrightarrow> 1 \<le> k \<Longrightarrow> k < 1024 \<Longrightarrow> fcw m s k = (if k \<le> length xs then xs ! (k - 1) else 0xffffffff)"
  by (simp only: fc_log_def)

lemma fc_nonblank:
  assumes "fc_log m s xs" "1 \<le> k" "k < 1024"
  shows "fcw m s k \<noteq> 0xffffffff \<longleftrightarrow> k \<le> length xs"
proof -
  have "xs ! (k - 1) \<in> set xs" if "k \<le> length xs" using that assms(2) by (intro nth_mem) simp
  moreover have "0xffffffff \<notin> set xs" using assms(1) by (simp add: fc_log_def)
  ultimately show ?thesis unfolding fc_word[OF assms] by metis
qed

lemma fc_addr:
  "MODULE_SECT_START 5 s = of_nat (fc_base s)" "MODULE_SECT_END 5 s = of_nat (fc_base s + 4096)"
  "MODULES_START_ADDR 5 = of_nat (fc_base 0)"
  by (simp_all add: MODULE_SECT_START_def MODULE_SECT_END_def sect_start_def mod_start_def NV_SECTOR_SIZE_def fc_base_def
      MODULES_START_ADDR_def algebra_simps)

lemma fc_payload: "s < 2 \<Longrightarrow> FRAMECOUNT_PAYLOAD_START s = of_nat (fc_base s + 4)"
proof -
  assume s: "s < 2"
  have "(of_nat (fc_base s + 4 + 3) AND NOT 3 :: u32) = of_nat ((fc_base s + 4 + 3) div 4 * 4)"
    using s by (intro word_align) (simp add: fc_base_def)
  moreover have "(fc_base s + 4 + 3) div 4 * 4 = fc_base s + 4"
  proof -
    have "s = 0 \<or> s = 1" using s by auto
    then show ?thesis by (auto simp: fc_base_def)
  qed
  ultimately have "(of_nat (fc_base s + 4 + 3) AND NOT 3 :: u32) = of_nat (fc_base s + 4)" by (rule trans[OF _ arg_cong])
  then show ?thesis unfolding FRAMECOUNT_PAYLOAD_START_def fc_addr of_nat_add of_nat_numeral .
qed

lemma word_scan_run:
  "0xffffffff \<notin> set us \<Longrightarrow> (vs = [] \<or> hd vs = 0xffffffff) \<Longrightarrow> us @ vs \<noteq> [] \<Longrightarrow>
   word_scan (us @ vs) i fc = (last (fc # us), Some (i + length us))"
  by (induction us arbitrary: i fc) (auto simp: neq_Nil_conv)

context nor_flash begin

lemma read_words_at: "read_words D c (of_nat a) (4 * r) = map (\<lambda>i. word_at (cells c) (a + 4 * i)) [0..<r]"
proof -
  have "get32 (map (at (cells c)) [a..<a + 4 * r]) (4 * i) = word_at (cells c) (a + 4 * i)" if "i < r" for i
    using that by (simp add: get32_def word_at_def add.assoc)
  then show ?thesis by (simp add: read_words_def Let_def read_at)
qed

lemma unit_scan_log:
  assumes "fc_log (cells c) s xs" "s < 2" "1 \<le> b" "e \<le> 1024" "length xs < e" "b \<le> e" "(e - b) mod 4 = 0 \<or> (e - b) mod 4 = 3"
  shows "unit_scan D c (of_nat (fc_base s + 4 * e)) (4 * (e - b)) fc va =
    (if b \<le> length xs then (NV_SUCC, Some (last xs), of_nat (fc_base s + 4 * (length xs + 1)))
     else (NV_ITEM_NOT_FOUND, fc, if e = b then va else of_nat (fc_base s + 4 * b)))"
  using assms(4-7)
proof (induction "e - b" arbitrary: e fc va rule: less_induct)
  case less
  let ?n = "length xs"
  show ?case
  proof (cases "e = b")
    case True
    then show ?thesis using less.prems by (simp add: unit_scan.simps)
  next
    case False
    define r where "r = (if e - b > 4 then 4 else e - b)"
    have r: "3 \<le> r" "r \<le> 4" "r \<le> e - b" "(e - r - b) mod 4 = 0 \<or> (e - r - b) mod 4 = 3"
    proof -
      have "3 \<le> e - b" using False less.prems(3,4) by (cases "e - b \<in> {1, 2}") auto
      then show "3 \<le> r" "r \<le> 4" "r \<le> e - b" by (auto simp: r_def)
      show "(e - r - b) mod 4 = 0 \<or> (e - r - b) mod 4 = 3"
      proof (cases "e - b > 4")
        case True
        then have "e - b = (e - r - b) + 4" by (simp add: r_def)
        then have "(e - b) mod 4 = (e - r - b) mod 4" by (metis mod_add_self2)
        then show ?thesis using less.prems(4) by simp
      next
        case f: False
        then show ?thesis by (simp add: r_def)
      qed
    qed
    have rs: "(if 4 * (e - b) > 16 then 16 else 4 * (e - b)) = 4 * r" by (auto simp: r_def)
    let ?a = "fc_base s + 4 * (e - r)"
    have a: "(of_nat (fc_base s + 4 * e) - of_nat (4 * r div 4 * 4) :: u32) = of_nat ?a"
      using r less.prems by (simp add: of_nat_diff)
    let ?ws = "map (\<lambda>i. word_at (cells c) (?a + 4 * i)) [0..<r]"
    have w: "word_at (cells c) (?a + 4 * i) = (if e - r + i \<le> ?n then xs ! (e - r + i - 1) else 0xffffffff)" if "i < r" for i
    proof -
      have "fcw (cells c) s (e - r + i) = (if e - r + i \<le> ?n then xs ! (e - r + i - 1) else 0xffffffff)"
        using assms(1,3) that r less.prems by (simp add: fc_log_def)
      then show ?thesis by (simp add: algebra_simps)
    qed
    have step: "unit_scan D c (of_nat (fc_base s + 4 * e)) (4 * (e - b)) fc va =
      (if hd ?ws \<noteq> 0xffffffff then
             (case word_scan (tl ?ws) 1 (hd ?ws) of
                (fc, Some i) \<Rightarrow> (NV_SUCC, Some fc, of_nat ?a + of_nat (4 * i))
              | (fc, None) \<Rightarrow> unit_scan D c (of_nat ?a) (4 * (e - b) - 4 * r) (Some fc) va)
           else unit_scan D c (of_nat ?a) (4 * (e - b) - 4 * r) fc (of_nat ?a))"
      using False less.prems(3)
      by (subst unit_scan.simps) (simp only: Let_def rs a read_words_at, simp)
    have hd: "hd ?ws = (if e - r \<le> ?n then xs ! (e - r - 1) else 0xffffffff)"
      using w[of 0] r by (simp add: hd_map)
    show ?thesis
    proof (cases "e - r \<le> ?n")
      case True
      let ?us = "map (\<lambda>k. xs ! (k - 1)) [e - r + 1..<?n + 1]"
      have tl: "tl ?ws = ?us @ replicate (e - 1 - ?n) 0xffffffff"
      proof (rule nth_equalityI)
        show "length (tl ?ws) = length (?us @ replicate (e - 1 - ?n) 0xffffffff)"
          using True r less.prems unfolding length_tl length_map length_upt length_append length_replicate by arith
        fix i assume "i < length (tl ?ws)"
        then have i: "i + 1 < r" by simp
        then have "tl ?ws ! i = word_at (cells c) (?a + 4 * (i + 1))" by (simp add: nth_tl)
        also have "\<dots> = (?us @ replicate (e - 1 - ?n) 0xffffffff) ! i"
        proof (cases "i < ?n - (e - r)")
          case t: True
          then have "e - r + (i + 1) \<le> ?n" by simp
          then show ?thesis unfolding w[OF i] using t True by (simp add: nth_append del: upt_Suc)
        next
          case False
          then have "\<not> e - r + (i + 1) \<le> ?n" by simp
          moreover have "i - (?n - (e - r)) < e - 1 - ?n" using False i True r less.prems by arith
          ultimately show ?thesis unfolding w[OF i] using False by (simp add: nth_append del: upt_Suc)
        qed
        finally show "tl ?ws ! i = (?us @ replicate (e - 1 - ?n) 0xffffffff) ! i" .
      qed
      have nb: "0xffffffff \<notin> set xs" using assms(1) by (simp add: fc_log_def)
      have pos: "1 \<le> e - r" using assms(3) r by simp
      have us: "0xffffffff \<notin> set ?us"
      proof
        assume "0xffffffff \<in> set ?us"
        then obtain k where k: "e - r + 1 \<le> k" "k < ?n + 1" "xs ! (k - 1) = 0xffffffff" by auto
        then have "k - 1 < length xs" by simp
        then have "xs ! (k - 1) \<in> set xs" by (rule nth_mem)
        then show False using nb k(3) by simp
      qed
      have h: "hd ?ws \<noteq> 0xffffffff" "hd ?ws = xs ! (e - r - 1)"
      proof -
        show "hd ?ws = xs ! (e - r - 1)" using hd True by simp
        moreover have "xs ! (e - r - 1) \<in> set xs" using True pos by (intro nth_mem) simp
        ultimately show "hd ?ws \<noteq> 0xffffffff" using nb by metis
      qed
      have l: "last (hd ?ws # ?us) = last xs"
      proof (cases "e - r = ?n")
        case True
        moreover from this have "xs \<noteq> []" using pos by auto
        ultimately show ?thesis using h(2) by (simp add: last_conv_nth)
      next
        case False
        moreover have "xs \<noteq> []" using True pos by auto
        ultimately show ?thesis using True by (simp add: last_conv_nth)
      qed
      have ne: "?us @ replicate (e - 1 - ?n) 0xffffffff \<noteq> []"
        using True r less.prems by auto
      have vs: "replicate (e - 1 - ?n) (0xffffffff :: u32) = [] \<or> hd (replicate (e - 1 - ?n) (0xffffffff :: u32)) = 0xffffffff"
        by (cases "e - 1 - ?n") simp_all
      have "word_scan (tl ?ws) 1 (hd ?ws) = (last xs, Some (1 + (?n - (e - r))))"
        unfolding tl word_scan_run[OF us vs ne] l by (simp del: upt_Suc)
      moreover have "of_nat ?a + of_nat (4 * (1 + (?n - (e - r)))) = (of_nat (fc_base s + 4 * (?n + 1)) :: u32)"
      proof -
        have "?a + 4 * (1 + (?n - (e - r))) = fc_base s + 4 * (?n + 1)"
        proof -
          obtain k where "?n = e - r + k" using le_Suc_ex[OF True] ..
          then show ?thesis by simp
        qed
        then show ?thesis by (metis of_nat_add)
      qed
      moreover have "b \<le> ?n" using True r by simp
      ultimately show ?thesis using step h(1) by simp
    next
      case f: False
      have "4 * (e - b) - 4 * r = 4 * (e - r - b)" by simp
      moreover have "unit_scan D c (of_nat ?a) (4 * (e - r - b)) fc (of_nat ?a) =
        (if b \<le> length xs then (NV_SUCC, Some (last xs), of_nat (fc_base s + 4 * (length xs + 1)))
         else (NV_ITEM_NOT_FOUND, fc, if e - r = b then of_nat ?a else of_nat (fc_base s + 4 * b)))"
        using r less.prems f by (intro less.hyps) simp_all
      ultimately show ?thesis using step hd f False by simp
    qed
  qed
qed

lemma num_mult: "4 * 64 = (256 :: nat)" by simp

lemma page_scan_log:
  assumes "fc_log (cells c) s xs" "p \<le> 15"
  shows "page_scan D c (of_nat (fc_base s + 256 * p)) p va =
    (let q = min p (length xs div 64)
     in (of_nat (fc_base s + 256 * q), q \<noteq> 0, if q = p then va else of_nat (fc_base s + 256 * (q + 1))))"
  using assms(2)
proof (induction p arbitrary: va)
  case (Suc p)
  let ?n = "length xs"
  have w: "get32 (flash_read D c (of_nat (fc_base s + 256 * Suc p)) 4) 0 = fcw (cells c) s (64 * Suc p)"
    unfolding read_at word_at_def mult.assoc[symmetric] by (simp only: num_mult)
  have v: "fcw (cells c) s (64 * Suc p) \<noteq> 0xffffffff \<longleftrightarrow> 64 * Suc p \<le> ?n"
    by (rule fc_nonblank[OF assms(1)]) (use Suc.prems in simp_all)
  show ?case
  proof (cases "64 * Suc p \<le> ?n")
    case True
    then have "min (Suc p) (?n div 64) = Suc p" by (simp add: less_eq_div_iff_mult_less_eq)
    then show ?thesis using True v w by (simp only: page_scan.simps Let_def if_P) simp
  next
    case False
    then have m: "min (Suc p) (?n div 64) = min p (?n div 64)" "?n div 64 \<le> p" by simp_all
    have a: "of_nat (fc_base s + 256 * Suc p) - of_nat PAGE_SIZE = (of_nat (fc_base s + 256 * p) :: u32)" by simp
    have "page_scan D c (of_nat (fc_base s + 256 * Suc p)) (Suc p) va =
        page_scan D c (of_nat (fc_base s + 256 * p)) p (of_nat (fc_base s + 256 * Suc p))"
      using False v w by (simp only: page_scan.simps a) simp
    also have "\<dots> = (let q = min p (?n div 64)
        in (of_nat (fc_base s + 256 * q), q \<noteq> 0, if q = p then of_nat (fc_base s + 256 * Suc p) else of_nat (fc_base s + 256 * (q + 1))))"
      by (rule Suc.IH) (use Suc.prems in simp)
    also have "\<dots> = (let q = min (Suc p) (?n div 64)
        in (of_nat (fc_base s + 256 * q), q \<noteq> 0, if q = Suc p then va else of_nat (fc_base s + 256 * (q + 1))))"
      unfolding m(1) Let_def by auto
    finally show ?thesis .
  qed
qed simp

text \<open>The search finds the end of the log and its last value.\<close>

lemma search_log:
  assumes "fc_log (cells c) s xs" "s < 2"
  shows "nv_nwkFrameCountSearch D c DS_NWK_FRAMECOUNT_MODULE s =
    (if xs = [] then (NV_ITEM_NOT_FOUND, None, of_nat (fc_base s + 4))
     else (NV_SUCC, Some (last xs), of_nat (fc_base s + 4 * (length xs + 1))))"
proof -
  let ?n = "length xs"
  define q where "q = min 15 (?n div 64)"
  have n: "?n < 1024" using assms(1) by (simp add: fc_log_def)
  have e15: "MODULE_SECT_END 5 s - of_nat PAGE_SIZE = (of_nat (fc_base s + 256 * 15) :: u32)" by (simp add: fc_addr)
  obtain va where ps: "page_scan D c (of_nat (fc_base s + 256 * 15)) 15 (of_nat (fc_base s + 4)) = (of_nat (fc_base s + 256 * q), q \<noteq> 0, va)"
    using page_scan_log[OF assms(1), of 15] unfolding Let_def q_def by simp
  have al: "(of_nat (fc_base s + k) + of_nat PAGE_SIZE AND NOT 0xff :: u32) = of_nat (fc_base s + 256 * (k div 256 + 1))" if "k < 4096" for k
  proof -
    have "(of_nat (fc_base s + k + 256) AND NOT 0xff :: u32) = of_nat ((fc_base s + k + 256) div 256 * 256)"
      using that assms(2) by (intro page_align) (simp add: fc_base_def)
    moreover have "(fc_base s + k + 256) div 256 * 256 = fc_base s + 256 * (k div 256 + 1)"
    proof -
      have "fc_base s + k + 256 = k + 256 * (0x3e1 + 16 * s)" by (simp add: fc_base_def)
      then have "(fc_base s + k + 256) div 256 = (0x3e1 + 16 * s) + k div 256" by (simp only: div_mult_self2[OF numeral_neq_zero])
      then show ?thesis by (simp add: fc_base_def)
    qed
    ultimately have "(of_nat (fc_base s + k + 256) AND NOT 0xff :: u32) = of_nat (fc_base s + 256 * (k div 256 + 1))" by (rule trans[OF _ arg_cong])
    then show ?thesis by (simp only: of_nat_add)
  qed
  have num: "FRAMECOUNT_NUM * 4 mod 256 \<noteq> 0" "FRAMECOUNT_NUM * 4 div PAGE_SIZE + 1 - 1 = 15" "(PAGE_SIZE - SECT_INFO_SIZE) div 4 * 4 = 4 * (64 - 1)"
    by (simp_all add: FRAMECOUNT_NUM_def)
  have nil: "xs = [] \<longleftrightarrow> \<not> 1 \<le> ?n" by (cases xs) simp_all
  show ?thesis
  proof (cases "q = 0")
    case True
    then have lt: "?n < 64" by (auto simp: q_def min_def split: if_splits)
    have a0: "of_nat (fc_base s + 4) + of_nat PAGE_SIZE AND NOT 0xff = (of_nat (fc_base s + 4 * 64) :: u32)" using al[of 4] by simp
    have "nv_nwkFrameCountSearch D c 5 s = unit_scan D c (of_nat (fc_base s + 4 * 64)) (4 * (64 - 1)) None va"
      unfolding nv_nwkFrameCountSearch_def Let_def if_P[OF num(1)] num(2,3) fc_payload[OF assms(2)] e15 ps True
      by (simp only: prod.case if_False a0 HOL.simp_thms)
    then show ?thesis using unit_scan_log[OF assms, of 1 64 None va] lt nil by simp
  next
    case False
    have q: "64 * q \<le> ?n" "?n < 64 * (q + 1)" "q \<le> 15" using n by (auto simp: q_def min_def)
    have a0: "of_nat (fc_base s + 256 * q) + of_nat PAGE_SIZE AND NOT 0xff = (of_nat (fc_base s + 4 * (64 * (q + 1))) :: u32)"
      using al[of "256 * q"] q(3) by simp
    have "nv_nwkFrameCountSearch D c 5 s = unit_scan D c (of_nat (fc_base s + 4 * (64 * (q + 1)))) (4 * (64 * (q + 1) - 64 * q)) None va"
      unfolding nv_nwkFrameCountSearch_def Let_def if_P[OF num(1)] num(2,3) fc_payload[OF assms(2)] e15 ps
      using False by (simp only: prod.case if_True a0 HOL.simp_thms) simp
    then show ?thesis using unit_scan_log[OF assms, of "64 * q" "64 * (q + 1)" None va] q False nil by simp
  qed
qed

end

section \<open>What writes and erases do to the two logs\<close>

lemma fc_far:
  assumes "s < 2" "s' < 2" "k < 1024" "k' < 1024" "(s, k) \<noteq> (s', k')"
  shows "fc_base s + 4 * k + 4 \<le> fc_base s' + 4 * k' \<or> fc_base s' + 4 * k' + 4 \<le> fc_base s + 4 * k"
proof -
  have "s = 0 \<or> s = 1" "s' = 0 \<or> s' = 1" using assms(1,2) by auto
  then show ?thesis using assms(3-5) by (auto simp: fc_base_def)
qed

lemma fc_lt: "s < 2 \<Longrightarrow> k < 1024 \<Longrightarrow> fc_base s + 4 * k + 4 \<le> 2 ^ 32"
  by (simp add: fc_base_def)

lemma fcw_write:
  assumes "s < 2" "s' < 2" "k < 1024" "k' < 1024"
  shows "fcw (nor_write m (of_nat (fc_base s + 4 * k)) (u32_bytes v)) s' k' =
    (if s' = s \<and> k' = k then fcw m s k AND v else fcw m s' k')"
proof (cases "(s, k) = (s', k')")
  case True
  then show ?thesis using word_at_write[OF fc_lt[OF assms(1,3)] fc_lt[OF assms(1,3)], of m v] by simp
next
  case False
  then have "fc_base s + 4 * k \<noteq> fc_base s' + 4 * k'" using fc_far[OF assms False] by auto
  then show ?thesis
    using word_at_write[OF fc_lt[OF assms(1,3)] fc_lt[OF assms(2,4)], of m v] fc_far[OF assms False] False by auto
qed

lemma fcw_erase:
  assumes "s < 2" "s' < 2" "k < 1024"
  shows "fcw (nor_erase m (of_nat (fc_base s))) s' k = (if s' = s then 0xffffffff else fcw m s' k)"
proof -
  have "fc_base s' + 4 * k = 4 * k + 4096 * (0x3e + s')" by (simp add: fc_base_def)
  then have "(fc_base s' + 4 * k) mod 4096 = 4 * k mod 4096" "(fc_base s' + 4 * k) div 4096 = 0x3e + s' + 4 * k div 4096"
    by (simp_all only: mod_mult_self2 div_mult_self2[OF numeral_neq_zero])
  then have "(fc_base s' + 4 * k) mod 4096 = 4 * k" "(fc_base s' + 4 * k) div 4096 = 0x3e + s'"
    using assms(3) by simp_all
  moreover have "fc_base s = 4096 * (0x3e + s)" by (simp add: fc_base_def)
  then have "fc_base s div 4096 = 0x3e + s" by simp
  moreover have "fc_base s < 2 ^ 32" using assms(1) by (simp add: fc_base_def)
  ultimately show ?thesis
    using word_at_erase[of "fc_base s" "fc_base s' + 4 * k" m] fc_lt[OF assms(2,3)] assms(3) by simp
qed

abbreviation fc_hdr :: "mem \<Rightarrow> nat \<Rightarrow> nv_sect_info" where
  "fc_hdr m s \<equiv> sect_hdr m DS_NWK_FRAMECOUNT_MODULE s"

abbreviation fc_dead :: "mem \<Rightarrow> nat \<Rightarrow> bool" where
  "fc_dead m s \<equiv> sect_dead m DS_NWK_FRAMECOUNT_MODULE s"

abbreviation fc_live :: "mem \<Rightarrow> nat \<Rightarrow> bool" where
  "fc_live m s \<equiv> sect_live m DS_NWK_FRAMECOUNT_MODULE s"

lemma fc_start: "sect_start DS_NWK_FRAMECOUNT_MODULE s = fc_base s"
  by (simp add: sect_start_def mod_start_def NV_SECTOR_SIZE_def fc_base_def)

lemma fc_hdr_bytes: "fc_hdr m s = sect_of (map (at m) [fc_base s..<fc_base s + 4])"
  by (simp add: sect_hdr_def fc_start)

lemma fc_hdr_word: "fc_hdr m s = sect_of (u32_bytes (fcw m s 0))"
  by (simp add: fc_hdr_bytes bytes_of_word)

lemma fc_live_word:
  "fc_live m s \<longleftrightarrow> (\<exists>seq. unat (seq AND 1) = s \<and> fcw m s 0 = sect_word (new_sect_info DS_NWK_FRAMECOUNT_MODULE seq))"
proof -
  have "map (at m) [fc_base s..<fc_base s + 4] = sect_bytes h \<longleftrightarrow> fcw m s 0 = sect_word h" for h
    by (simp add: bytes_of_word[symmetric] u32_bytes_sect_word[symmetric] u32_bytes_inject)
  then show ?thesis by (simp add: sect_live_def fc_start)
qed

text \<open>One valid log \<open>xs\<close> in sector \<open>s\<close>; the other sector is not valid.\<close>

definition fc_state :: "mem \<Rightarrow> nat \<Rightarrow> u32 list \<Rightarrow> bool" where
  "fc_state m s xs \<longleftrightarrow> s < 2 \<and> xs \<noteq> [] \<and> fc_log m s xs \<and> fc_live m s \<and> fc_dead m (1 - s)"

section \<open>Saving\<close>

lemma ff32_and: "(0xffffffff :: u32) AND x = x"
proof -
  have "(0xffffffff :: u32) = - 1" by simp
  then show ?thesis by (simp only: and.left_neutral)
qed

lemma fc_log_append:
  assumes "fc_log m s xs" "s < 2" "length xs < 1023" "v \<noteq> 0xffffffff"
  shows "fc_log (nor_write m (of_nat (fc_base s + 4 * (length xs + 1))) (u32_bytes v)) s (xs @ [v])"
  unfolding fc_log_def
proof (intro conjI allI impI)
  show "length (xs @ [v]) < 1024" "0xffffffff \<notin> set (xs @ [v])" using assms by (auto simp: fc_log_def)
  fix k :: nat assume k: "1 \<le> k \<and> k < 1024"
  have "fcw (nor_write m (of_nat (fc_base s + 4 * (length xs + 1))) (u32_bytes v)) s k =
      (if k = length xs + 1 then fcw m s (length xs + 1) AND v else fcw m s k)"
    using fcw_write[of s s "length xs + 1" k m v] assms(2,3) k by simp
  moreover have "fcw m s (length xs + 1) = 0xffffffff" using fc_word[OF assms(1), of "length xs + 1"] assms(3) by simp
  moreover have "fcw m s k = (if k \<le> length xs then xs ! (k - 1) else 0xffffffff)" using fc_word[OF assms(1)] k by simp
  ultimately show "fcw (nor_write m (of_nat (fc_base s + 4 * (length xs + 1))) (u32_bytes v)) s k =
      (if k \<le> length (xs @ [v]) then (xs @ [v]) ! (k - 1) else 0xffffffff)"
    using k by (auto simp: ff32_and nth_append)
qed

lemma fc_log_cong:
  "(\<And>k. 1 \<le> k \<Longrightarrow> k < 1024 \<Longrightarrow> fcw m' s k = fcw m s k) \<Longrightarrow> fc_log m s xs \<Longrightarrow> fc_log m' s xs"
  by (simp add: fc_log_def)

lemma fc_log_blank: "(\<And>k. k < 1024 \<Longrightarrow> fcw m s k = 0xffffffff) \<Longrightarrow> fc_log m s []"
  by (simp add: fc_log_def)

lemma fc_dead_blank: "fcw m s 0 = 0xffffffff \<Longrightarrow> fc_dead m s"
  by (simp add: sect_dead_def fc_hdr_word u32_bytes_ff replicate_4 sect_of_def get16_def SECT_VALID_CHECK_def NV_SECTOR_VALID_def
      NV_SECTOR_VALID_CHECKCRC_def NV_SECTOR_VALID_READY_CHECKCRC_def)

lemma fc_dead_cong: "fcw m' s 0 = fcw m s 0 \<Longrightarrow> fc_dead m' s = fc_dead m s"
  by (simp add: sect_dead_def fc_hdr_word)

lemma fc_live_cong: "fcw m' s 0 = fcw m s 0 \<Longrightarrow> fc_live m' s = fc_live m s"
  by (simp add: fc_live_word)

text \<open>The four ways through the handler.\<close>

lemma handler_append:
  assumes "nv_sector_read d c True DS_NWK_FRAMECOUNT_MODULE MODULE_SECTOR_NUM = (NV_SUCC, Some h, c0)" "unat (si_opSect h AND 1) = s"
    "nv_nwkFrameCountSearch d c0 DS_NWK_FRAMECOUNT_MODULE s = (r, lf, wa)" "wa \<noteq> MODULE_SECT_END DS_NWK_FRAMECOUNT_MODULE s"
    "wa \<noteq> FRAMECOUNT_PAYLOAD_START s" "flash_writeWithCheck d c0 wa (u32_bytes v) = (True, c1)"
  shows "nv_nwkFrameCountSaveToFlashHandler d c False e v = (NV_SUCC, e, c1)"
  using assms by (simp add: nv_nwkFrameCountSaveToFlashHandler_def)

lemma handler_rotate:
  assumes "nv_sector_read d c True DS_NWK_FRAMECOUNT_MODULE MODULE_SECTOR_NUM = (NV_SUCC, Some h, c0)" "unat (si_opSect h AND 1) = s"
    "nv_nwkFrameCountSearch d c0 DS_NWK_FRAMECOUNT_MODULE s = (NV_SUCC, Some lf, MODULE_SECT_END DS_NWK_FRAMECOUNT_MODULE s)"
    "s' = (s + 1) mod 2" "flash_erase d c0 (MODULES_START_ADDR DS_NWK_FRAMECOUNT_MODULE + of_nat (s' * 4096)) = c1"
    "flash_writeWithCheck d c1 (FRAMECOUNT_PAYLOAD_START s') (u32_bytes lf) = (True, c2)"
    "flash_writeWithCheck d c2 (FRAMECOUNT_PAYLOAD_START s' + 4) (u32_bytes v) = (True, c3)"
    "flash_writeWithCheck d c3 (MODULE_SECT_START DS_NWK_FRAMECOUNT_MODULE s') (sect_bytes (new_sect_info DS_NWK_FRAMECOUNT_MODULE (si_opSect h + 1))) = (True, c4)"
    "flash_writeWithCheck d c4 (MODULE_SECT_START DS_NWK_FRAMECOUNT_MODULE s) (u16_bytes NV_SECTOR_INVALID) = (True, c5)"
  shows "nv_nwkFrameCountSaveToFlashHandler d c False e v = (NV_SUCC, e, c5)"
  using assms by (simp add: nv_nwkFrameCountSaveToFlashHandler_def Let_def)

lemma handler_new:
  assumes "nv_sector_read d c True DS_NWK_FRAMECOUNT_MODULE MODULE_SECTOR_NUM = (NV_ITEM_NOT_FOUND, None, c0)"
    "erase_sectors d (MODULES_START_ADDR DS_NWK_FRAMECOUNT_MODULE) MODULE_SECTOR_NUM c0 = c1"
    "nv_nwkFrameCountSearch d c1 DS_NWK_FRAMECOUNT_MODULE 0 = (NV_ITEM_NOT_FOUND, lf, FRAMECOUNT_PAYLOAD_START 0)"
    "flash_writeWithCheck d c1 (FRAMECOUNT_PAYLOAD_START 0) (u32_bytes v) = (True, c2)"
    "flash_writeWithCheck d c2 (MODULE_SECT_START DS_NWK_FRAMECOUNT_MODULE 0) (sect_bytes (new_sect_info DS_NWK_FRAMECOUNT_MODULE 0)) = (True, c3)"
  shows "nv_nwkFrameCountSaveToFlashHandler d c False e v = (NV_ITEM_NOT_FOUND, e, c3)"
  using assms by (simp add: nv_nwkFrameCountSaveToFlashHandler_def Let_def)

lemma handler_force:
  assumes "nv_sector_read d c True DS_NWK_FRAMECOUNT_MODULE MODULE_SECTOR_NUM = (NV_SUCC, Some h, c0)" "s < 2" "s' = (s + 1) mod 2"
    "erase_sectors d (MODULES_START_ADDR DS_NWK_FRAMECOUNT_MODULE + of_nat (s' * NV_SECTOR_SIZE DS_NWK_FRAMECOUNT_MODULE))
       (NV_SECTOR_SIZE DS_NWK_FRAMECOUNT_MODULE div 4096) c0 = c1"
    "nv_nwkFrameCountSearch d c1 DS_NWK_FRAMECOUNT_MODULE s' = (NV_ITEM_NOT_FOUND, lf, FRAMECOUNT_PAYLOAD_START s')"
    "flash_writeWithCheck d c1 (FRAMECOUNT_PAYLOAD_START s') (u32_bytes v) = (True, c2)"
    "flash_writeWithCheck d c2 (MODULE_SECT_START DS_NWK_FRAMECOUNT_MODULE s') (sect_bytes (new_sect_info DS_NWK_FRAMECOUNT_MODULE (si_opSect h + 1))) = (True, c3)"
    "flash_writeWithCheck d c3 (MODULE_SECT_START DS_NWK_FRAMECOUNT_MODULE s) (u16_bytes NV_SECTOR_INVALID) = (True, c4)"
  shows "nv_nwkFrameCountSaveToFlashHandler d c True s v = (NV_SUCC, s, c4)"
  using assms by (simp add: nv_nwkFrameCountSaveToFlashHandler_def Let_def)

context nor_flash begin

lemma checked_word:
  assumes "writable c" "s < 2" "k < 1024" "fcw (cells c) s k = 0xffffffff"
  obtains c' where "flash_writeWithCheck D c (of_nat (fc_base s + 4 * k)) (u32_bytes v) = (True, c')"
    "cells c' = nor_write (cells c) (of_nat (fc_base s + 4 * k)) (u32_bytes v)" "writable c'"
proof (rule checked_write)
  show "writable c" by fact
  show "fc_base s + 4 * k + length (u32_bytes v) \<le> 2 ^ 32" "length (u32_bytes v) < 2 ^ 31" "fc_base s + 4 * k < 2 ^ 32"
    using assms(2,3) by (simp_all add: fc_base_def)
  show "at (cells c) (fc_base s + 4 * k + i) AND u32_bytes v ! i = u32_bytes v ! i" if "i < length (u32_bytes v)" for i
    using that assms(4) by (simp add: word_at_blank ff_and)
qed

lemma checked_invalid:
  assumes "writable c" "s < 2" "fc_live (cells c) s"
  obtains c' where "flash_writeWithCheck D c (MODULE_SECT_START 5 s) (u16_bytes NV_SECTOR_INVALID) = (True, c')"
    "writable c'" "fc_dead (cells c') s"
    "\<And>s' k. s' < 2 \<Longrightarrow> k < 1024 \<Longrightarrow> (s', k) \<noteq> (s, 0) \<Longrightarrow> fcw (cells c') s' k = fcw (cells c) s' k"
proof -
  let ?b = "fc_base s" and ?w = "u16_bytes NV_SECTOR_INVALID"
  have w: "?w = [0x50, 0x50]" by (simp add: u16_bytes_def NV_SECTOR_INVALID_def)
  obtain q where "fcw (cells c) s 0 = sect_word (new_sect_info 5 q)" using assms(3) by (auto simp: fc_live_word)
  then have "map (at (cells c)) [?b..<?b + 4] = sect_bytes (new_sect_info 5 q)"
    using bytes_of_word[of "cells c" ?b] by (simp add: u32_bytes_sect_word)
  then have h: "at (cells c) ?b = 0x7A" "at (cells c) (?b + 1) = 0x7A"
    unfolding upt4 by (simp_all add: sect_bytes_def u16_bytes_def new_sect_fields NV_SECTOR_VALID_CHECKCRC_def)
  have lt: "?b + 4096 \<le> 2 ^ 32" using assms(2) by (simp add: fc_base_def)
  obtain c' where c': "flash_writeWithCheck D c (of_nat ?b) ?w = (True, c')" "cells c' = nor_write (cells c) (of_nat ?b) ?w" "writable c'"
  proof (rule checked_write)
    show "writable c" by fact
    show "?b + length ?w \<le> 2 ^ 32" "length ?w < 2 ^ 31" "?b < 2 ^ 32" using lt by simp_all
    fix i assume "i < length ?w"
    then have "i = 0 \<or> i = 1" by auto
    then show "at (cells c) (?b + i) AND ?w ! i = ?w ! i" unfolding w using h by auto
  qed
  have at': "at (cells c') j = (if ?b \<le> j \<and> j < ?b + 2 then at (cells c) j AND ?w ! (j - ?b) else at (cells c) j)" if "j < 2 ^ 32" for j
    using at_write[of ?b ?w j "cells c"] lt that by (simp add: c'(2))
  have "at (cells c') ?b = 0x50" "at (cells c') (?b + 1) = 0x50"
    using at'[of ?b] at'[of "?b + 1"] lt h by (simp_all add: w)
  then have "fc_dead (cells c') s"
    unfolding sect_dead_def fc_hdr_bytes upt4
    by (simp add: sect_of_def get16_def SECT_VALID_CHECK_def NV_SECTOR_VALID_def NV_SECTOR_VALID_CHECKCRC_def NV_SECTOR_VALID_READY_CHECKCRC_def)
  moreover have "fcw (cells c') s' k = fcw (cells c) s' k" if "s' < 2" "k < 1024" "(s', k) \<noteq> (s, 0)" for s' k
  proof (rule word_at_cong)
    fix j assume j: "fc_base s' + 4 * k \<le> j" "j < fc_base s' + 4 * k + 4"
    have "\<not> (?b \<le> j \<and> j < ?b + 2)" using fc_far[of s s' 0 k] that assms(2) j by auto
    moreover have "j < 2 ^ 32" using j fc_lt[OF that(1,2)] by simp
    ultimately show "at (cells c') j = at (cells c) j" by (simp only: at' if_False)
  qed
  ultimately show thesis using that c' unfolding fc_addr by blast
qed

lemma fc_addr_eq:
  assumes "s < 2" "j \<le> 4096" "j' \<le> 4096"
  shows "(of_nat (fc_base s + j) :: u32) = of_nat (fc_base s + j') \<longleftrightarrow> j = j'"
proof -
  have "unat (of_nat (fc_base s + j) :: u32) = fc_base s + j" "unat (of_nat (fc_base s + j') :: u32) = fc_base s + j'"
  proof -
    have "fc_base s + j < 2 ^ 32" "fc_base s + j' < 2 ^ 32" using assms by (simp_all add: fc_base_def)
    then show "unat (of_nat (fc_base s + j) :: u32) = fc_base s + j" "unat (of_nat (fc_base s + j') :: u32) = fc_base s + j'"
      by (simp_all only: unat_of_nat_u32)
  qed
  then show ?thesis by (metis add_left_cancel)
qed

lemma erase_one: "s < 2 \<Longrightarrow>
  erase_sectors D (MODULES_START_ADDR 5 + of_nat (s * NV_SECTOR_SIZE 5)) (NV_SECTOR_SIZE 5 div 4096) c = flash_erase D c (of_nat (fc_base s))"
  by (simp add: erase_sectors_def NV_SECTOR_SIZE_def fc_addr fc_base_def mult.commute)

text \<open>A valid header written over an erased one.\<close>

lemma checked_header:
  assumes "writable c" "s < 2" "fcw (cells c) s 0 = 0xffffffff" "unat (seq AND 1) = s"
  obtains c' where "flash_writeWithCheck D c (MODULE_SECT_START 5 s) (sect_bytes (new_sect_info 5 seq)) = (True, c')"
    "writable c'" "fc_live (cells c') s"
    "\<And>s' k. s' < 2 \<Longrightarrow> k < 1024 \<Longrightarrow> (s', k) \<noteq> (s, 0) \<Longrightarrow> fcw (cells c') s' k = fcw (cells c) s' k"
proof -
  let ?v = "sect_word (new_sect_info 5 seq)"
  obtain c' where c': "flash_writeWithCheck D c (of_nat (fc_base s + 4 * 0)) (u32_bytes ?v) = (True, c')"
    "cells c' = nor_write (cells c) (of_nat (fc_base s + 4 * 0)) (u32_bytes ?v)" "writable c'"
    using checked_word[OF assms(1,2) _ assms(3), of ?v] by auto
  have w: "fcw (cells c') s' k = (if s' = s \<and> k = 0 then ?v else fcw (cells c) s' k)" if "s' < 2" "k < 1024" for s' k
    unfolding c'(2) using fcw_write[OF assms(2) that(1) _ that(2), of 0 "cells c" ?v] assms(3) by (simp add: ff32_and)
  have "fc_live (cells c') s"
    unfolding fc_live_word using w[of s 0] assms(2,4) by (intro exI[of _ seq]) simp
  moreover have "flash_writeWithCheck D c (MODULE_SECT_START 5 s) (sect_bytes (new_sect_info 5 seq)) = (True, c')"
    using c'(1) by (simp add: u32_bytes_sect_word fc_addr)
  moreover have "fcw (cells c') s' k = fcw (cells c) s' k" if "s' < 2" "k < 1024" "(s', k) \<noteq> (s, 0)" for s' k
    using w[OF that(1,2)] that(3) by auto
  ultimately show thesis using that c'(3) by blast
qed

text \<open>Saving into a log with room appends, into a full one starts the other sector with the last value
  and the new one.\<close>

lemma save_append:
  assumes "writable c" "fc_state (cells c) s xs" "v \<noteq> 0xffffffff" "length xs < 1023"
  obtains c' where "nv_nwkFrameCountSaveToFlashHandler D c False e v = (NV_SUCC, e, c')"
    "writable c'" "fc_state (cells c') s (xs @ [v])"
proof -
  let ?n = "length xs" and ?h = "fc_hdr (cells c) s"
  have st: "s < 2" "xs \<noteq> []" "fc_log (cells c) s xs" "fc_live (cells c) s" "fc_dead (cells c) (1 - s)"
    using assms(2) by (simp_all add: fc_state_def)
  note op = live_op(1)[OF st(4)] and sq = live_op(2)[OF st(4)]
  have nf: "(of_nat (fc_base s + 4 * (?n + 1)) :: u32) \<noteq> MODULE_SECT_END 5 s"
    and np: "(of_nat (fc_base s + 4 * (?n + 1)) :: u32) \<noteq> FRAMECOUNT_PAYLOAD_START s"
  proof -
    show "(of_nat (fc_base s + 4 * (?n + 1)) :: u32) \<noteq> MODULE_SECT_END 5 s"
      unfolding fc_addr using fc_addr_eq[OF st(1), of "4 * (?n + 1)" 4096] assms(4) by simp
    show "(of_nat (fc_base s + 4 * (?n + 1)) :: u32) \<noteq> FRAMECOUNT_PAYLOAD_START s"
      unfolding fc_payload[OF st(1)] using fc_addr_eq[OF st(1), of "4 * (?n + 1)" 4] assms(4) st(2) by simp
  qed
  have bl: "fcw (cells c) s (?n + 1) = 0xffffffff" using fc_word[OF st(3), of "?n + 1"] assms(4) by simp
  have k: "?n + 1 < 1024" using assms(4) by simp
  obtain c1 where c1: "flash_writeWithCheck D c (of_nat (fc_base s + 4 * (?n + 1))) (u32_bytes v) = (True, c1)"
    "cells c1 = nor_write (cells c) (of_nat (fc_base s + 4 * (?n + 1))) (u32_bytes v)" "writable c1"
    using checked_word[OF assms(1) st(1) k bl] by blast
  have w: "fcw (cells c1) s' 0 = fcw (cells c) s' 0" if "s' < 2" for s'
    unfolding c1(2) using fcw_write[OF st(1) that k, of 0 "cells c" v] by simp
  have "fc_state (cells c1) s (xs @ [v])"
    unfolding fc_state_def using st fc_log_append[OF st(3,1) assms(4,3)] w[of s] w[of "1 - s"]
    by (simp add: c1(2) cong: fc_live_cong fc_dead_cong)
  moreover have "nv_nwkFrameCountSaveToFlashHandler D c False e v = (NV_SUCC, e, c1)"
  proof -
    have sr: "nv_nwkFrameCountSearch D c 5 s = (NV_SUCC, Some (last xs), of_nat (fc_base s + 4 * (?n + 1)))"
      using search_log[OF st(3,1)] st(2) by simp
    show ?thesis by (rule handler_append[OF sector_read_live[OF st(1,4,5)] op sr nf np c1(1)])
  qed
  ultimately show thesis using that c1(3) by blast
qed

text \<open>Two words and a header in an erased sector.\<close>

lemma start_sector:
  assumes "writable c" "s < 2" "\<And>k. k < 1024 \<Longrightarrow> fcw (cells c) s k = 0xffffffff" "u \<noteq> 0xffffffff"
  obtains c' where "flash_writeWithCheck D c (FRAMECOUNT_PAYLOAD_START s) (u32_bytes u) = (True, c')" "writable c'"
    "fc_log (cells c') s [u]" "fcw (cells c') s 0 = 0xffffffff"
    "\<And>s' k. s' < 2 \<Longrightarrow> s' \<noteq> s \<Longrightarrow> k < 1024 \<Longrightarrow> fcw (cells c') s' k = fcw (cells c) s' k"
proof -
  obtain c' where c': "flash_writeWithCheck D c (of_nat (fc_base s + 4 * 1)) (u32_bytes u) = (True, c')"
    "cells c' = nor_write (cells c) (of_nat (fc_base s + 4 * 1)) (u32_bytes u)" "writable c'"
    using checked_word[OF assms(1,2) _ assms(3)[of 1], of u] by auto
  have w: "fcw (cells c') s' k = (if s' = s \<and> k = 1 then fcw (cells c) s 1 AND u else fcw (cells c) s' k)" if "s' < 2" "k < 1024" for s' k
    unfolding c'(2) by (rule fcw_write[OF assms(2) that(1) _ that(2)]) simp
  have "fc_log (cells c') s [u]"
    using fc_log_append[OF fc_log_blank[OF assms(3)] assms(2) _ assms(4)] by (simp add: c'(2))
  moreover have "fcw (cells c') s 0 = 0xffffffff" using w[of s 0] assms(2) assms(3)[of 0] by simp
  moreover have "flash_writeWithCheck D c (FRAMECOUNT_PAYLOAD_START s) (u32_bytes u) = (True, c')"
    using c'(1) unfolding fc_payload[OF assms(2)] by simp
  moreover have "fcw (cells c') s' k = fcw (cells c) s' k" if "s' < 2" "s' \<noteq> s" "k < 1024" for s' k
    using w[OF that(1,3)] that(2) by simp
  ultimately show thesis using that c'(3) by blast
qed

lemma erased_sector:
  assumes "writable c" "s < 2"
  obtains c' where "flash_erase D c (of_nat (fc_base s)) = c'" "writable c'"
    "\<And>k. k < 1024 \<Longrightarrow> fcw (cells c') s k = 0xffffffff"
    "\<And>s' k. s' < 2 \<Longrightarrow> s' \<noteq> s \<Longrightarrow> k < 1024 \<Longrightarrow> fcw (cells c') s' k = fcw (cells c) s' k"
  using erase_at[OF assms(1), of "fc_base s"] fcw_erase[OF assms(2)] that assms(2) by metis

lemma save_new:
  assumes "writable c" "fc_dead (cells c) 0" "fc_dead (cells c) 1" "v \<noteq> 0xffffffff"
  obtains c' where "nv_nwkFrameCountSaveToFlashHandler D c False e v = (NV_ITEM_NOT_FOUND, e, c')"
    "writable c'" "fc_state (cells c') 0 [v]"
proof -
  have z: "(0 :: nat) < 2" "(1 :: nat) < 2" "unat ((0 :: u8) AND 1) = 0" by simp_all
  obtain c1 where c1: "flash_erase D c (of_nat (fc_base 0)) = c1" "writable c1" "\<And>k. k < 1024 \<Longrightarrow> fcw (cells c1) 0 k = 0xffffffff"
    using erased_sector[OF assms(1) z(1)] by blast
  obtain c2 where c2: "flash_erase D c1 (of_nat (fc_base 1)) = c2" "writable c2" "\<And>k. k < 1024 \<Longrightarrow> fcw (cells c2) 1 k = 0xffffffff"
    "\<And>s' k. s' < 2 \<Longrightarrow> s' \<noteq> 1 \<Longrightarrow> k < 1024 \<Longrightarrow> fcw (cells c2) s' k = fcw (cells c1) s' k"
    using erased_sector[OF c1(2) z(2)] by blast
  have b2: "fcw (cells c2) 0 k = 0xffffffff" if "k < 1024" for k using c2(4)[of 0 k] c1(3)[OF that] that by simp
  have er: "erase_sectors D (MODULES_START_ADDR 5) MODULE_SECTOR_NUM c = c2"
    using c1(1) c2(1) by (simp add: erase_sectors_def fc_addr fc_base_def numeral_2_eq_2)
  have sr: "nv_nwkFrameCountSearch D c2 5 0 = (NV_ITEM_NOT_FOUND, None, FRAMECOUNT_PAYLOAD_START 0)"
    using search_log[OF fc_log_blank[OF b2]] by (simp add: fc_payload)
  obtain c3 where c3: "flash_writeWithCheck D c2 (FRAMECOUNT_PAYLOAD_START 0) (u32_bytes v) = (True, c3)" "writable c3"
    "fc_log (cells c3) 0 [v]" "fcw (cells c3) 0 0 = 0xffffffff"
    "\<And>s' k. s' < 2 \<Longrightarrow> s' \<noteq> 0 \<Longrightarrow> k < 1024 \<Longrightarrow> fcw (cells c3) s' k = fcw (cells c2) s' k"
    using start_sector[OF c2(2) z(1) b2 assms(4)] by blast
  obtain c4 where c4: "flash_writeWithCheck D c3 (MODULE_SECT_START 5 0) (sect_bytes (new_sect_info 5 0)) = (True, c4)"
    "writable c4" "fc_live (cells c4) 0"
    "\<And>s' k. s' < 2 \<Longrightarrow> k < 1024 \<Longrightarrow> (s', k) \<noteq> (0, 0) \<Longrightarrow> fcw (cells c4) s' k = fcw (cells c3) s' k"
    using checked_header[OF c3(2) z(1) c3(4) z(3)] by blast
  have "fc_state (cells c4) 0 [v]" unfolding fc_state_def
  proof (intro conjI)
    show "fc_log (cells c4) 0 [v]" by (rule fc_log_cong[OF _ c3(3)]) (simp add: c4(4))
    have "fcw (cells c4) 1 0 = 0xffffffff" using c4(4)[of 1 0] c3(5)[of 1 0] c2(3)[of 0] by simp
    then show "fc_dead (cells c4) (1 - 0)" using fc_dead_blank by simp
  qed (simp_all add: c4(3))
  moreover have "nv_nwkFrameCountSaveToFlashHandler D c False e v = (NV_ITEM_NOT_FOUND, e, c4)"
    by (rule handler_new[OF sector_read_dead[OF assms(2,3)] er sr c3(1) c4(1)])
  ultimately show thesis using that c4(2) by blast
qed

text \<open>The new sector becomes valid, then the old one invalid.\<close>

lemma switch_sector:
  assumes "writable c" "s < 2" "fc_live (cells c) s" "fc_log (cells c) (1 - s) ys" "ys \<noteq> []"
    "fcw (cells c) (1 - s) 0 = 0xffffffff" "unat (seq AND 1) = 1 - s"
  obtains c' c'' where "flash_writeWithCheck D c (MODULE_SECT_START 5 (1 - s)) (sect_bytes (new_sect_info 5 seq)) = (True, c')"
    "flash_writeWithCheck D c' (MODULE_SECT_START 5 s) (u16_bytes NV_SECTOR_INVALID) = (True, c'')"
    "writable c''" "fc_state (cells c'') (1 - s) ys"
proof -
  have s': "1 - s < 2" "s \<noteq> 1 - s" "1 - (1 - s) = s" using assms(2) by arith+
  obtain c1 where c1: "flash_writeWithCheck D c (MODULE_SECT_START 5 (1 - s)) (sect_bytes (new_sect_info 5 seq)) = (True, c1)"
    "writable c1" "fc_live (cells c1) (1 - s)"
    "\<And>s' k. s' < 2 \<Longrightarrow> k < 1024 \<Longrightarrow> (s', k) \<noteq> (1 - s, 0) \<Longrightarrow> fcw (cells c1) s' k = fcw (cells c) s' k"
    using checked_header[OF assms(1) s'(1) assms(6,7)] by blast
  have "fcw (cells c1) s 0 = fcw (cells c) s 0" by (rule c1(4)) (use assms(2) s'(2) in auto)
  then have l1: "fc_live (cells c1) s" using assms(3) fc_live_cong by blast
  obtain c2 where c2: "flash_writeWithCheck D c1 (MODULE_SECT_START 5 s) (u16_bytes NV_SECTOR_INVALID) = (True, c2)"
    "writable c2" "fc_dead (cells c2) s"
    "\<And>s' k. s' < 2 \<Longrightarrow> k < 1024 \<Longrightarrow> (s', k) \<noteq> (s, 0) \<Longrightarrow> fcw (cells c2) s' k = fcw (cells c1) s' k"
    using checked_invalid[OF c1(2) assms(2) l1] by blast
  have "fc_state (cells c2) (1 - s) ys" unfolding fc_state_def
  proof (intro conjI)
    show "fc_log (cells c2) (1 - s) ys"
    proof (rule fc_log_cong[OF _ assms(4)])
      fix k :: nat assume k: "1 \<le> k" "k < 1024"
      show "fcw (cells c2) (1 - s) k = fcw (cells c) (1 - s) k"
        using c2(4)[OF s'(1) k(2)] c1(4)[OF s'(1) k(2)] s'(2) k(1) by auto
    qed
    have "fcw (cells c2) (1 - s) 0 = fcw (cells c1) (1 - s) 0" by (rule c2(4)) (use s' in auto)
    then show "fc_live (cells c2) (1 - s)" using c1(3) fc_live_cong by blast
    show "fc_dead (cells c2) (1 - (1 - s))" using c2(3) unfolding s'(3) .
  qed (use s'(1) assms(5) in simp_all)
  then show thesis using that c1(1) c2(1,2) by blast
qed

lemma other_sector: "s < 2 \<Longrightarrow> (s + 1) mod 2 = 1 - (s :: nat)"
  by (cases s) auto

lemma save_rotate:
  assumes "writable c" "fc_state (cells c) s xs" "v \<noteq> 0xffffffff" "length xs = 1023"
  obtains c' where "nv_nwkFrameCountSaveToFlashHandler D c False e v = (NV_SUCC, e, c')"
    "writable c'" "fc_state (cells c') (1 - s) [last xs, v]"
proof -
  let ?h = "fc_hdr (cells c) s" and ?s = "1 - s"
  have st: "s < 2" "xs \<noteq> []" "fc_log (cells c) s xs" "fc_live (cells c) s" "fc_dead (cells c) (1 - s)"
    using assms(2) by (simp_all add: fc_state_def)
  have s': "?s < 2" "s \<noteq> ?s" using st(1) by arith+
  note op = live_op(1)[OF st(4)] and sq = live_op(2)[OF st(4)]
  have sr: "nv_nwkFrameCountSearch D c 5 s = (NV_SUCC, Some (last xs), MODULE_SECT_END 5 s)"
    using search_log[OF st(3,1)] st(2) assms(4) by (simp add: fc_addr)
  have lx: "last xs \<noteq> 0xffffffff" using st(2,3) last_in_set[of xs] unfolding fc_log_def by metis
  obtain c1 where c1: "flash_erase D c (of_nat (fc_base ?s)) = c1" "writable c1" "\<And>k. k < 1024 \<Longrightarrow> fcw (cells c1) ?s k = 0xffffffff"
    "\<And>s' k. s' < 2 \<Longrightarrow> s' \<noteq> ?s \<Longrightarrow> k < 1024 \<Longrightarrow> fcw (cells c1) s' k = fcw (cells c) s' k"
    using erased_sector[OF assms(1) s'(1)] by blast
  obtain c2 where c2: "flash_writeWithCheck D c1 (FRAMECOUNT_PAYLOAD_START ?s) (u32_bytes (last xs)) = (True, c2)" "writable c2"
    "fc_log (cells c2) ?s [last xs]" "fcw (cells c2) ?s 0 = 0xffffffff"
    "\<And>s' k. s' < 2 \<Longrightarrow> s' \<noteq> ?s \<Longrightarrow> k < 1024 \<Longrightarrow> fcw (cells c2) s' k = fcw (cells c1) s' k"
    using start_sector[OF c1(2) s'(1) c1(3) lx] by blast
  have b2: "fcw (cells c2) ?s 2 = 0xffffffff" using fc_word[OF c2(3), of 2] by simp
  obtain c3 where c3: "flash_writeWithCheck D c2 (of_nat (fc_base ?s + 4 * 2)) (u32_bytes v) = (True, c3)"
    "cells c3 = nor_write (cells c2) (of_nat (fc_base ?s + 4 * 2)) (u32_bytes v)" "writable c3"
    using checked_word[OF c2(2) s'(1) _ b2] by auto
  have w3: "fcw (cells c3) s' 0 = fcw (cells c2) s' 0" if "s' < 2" for s'
    unfolding c3(2) using fcw_write[OF s'(1) that, of 2 0 "cells c2" v] by simp
  have l3: "fc_log (cells c3) ?s [last xs, v]"
    using fc_log_append[OF c2(3) s'(1) _ assms(3)] by (simp add: c3(2))
  have "fcw (cells c3) s 0 = fcw (cells c) s 0" using w3[OF st(1)] c2(5)[OF st(1) s'(2), of 0] c1(4)[OF st(1) s'(2), of 0] by simp
  then have v3: "fc_live (cells c3) s" using st(4) fc_live_cong by blast
  have h3: "fcw (cells c3) ?s 0 = 0xffffffff" using w3[OF s'(1)] c2(4) by simp
  obtain c4 c5 where c5: "flash_writeWithCheck D c3 (MODULE_SECT_START 5 ?s) (sect_bytes (new_sect_info 5 (si_opSect ?h + 1))) = (True, c4)"
    "flash_writeWithCheck D c4 (MODULE_SECT_START 5 s) (u16_bytes NV_SECTOR_INVALID) = (True, c5)"
    "writable c5" "fc_state (cells c5) ?s [last xs, v]"
    using switch_sector[OF c3(3) st(1) v3 l3 _ h3 sq] by blast
  have er: "flash_erase D c (MODULES_START_ADDR 5 + of_nat (?s * 4096)) = c1"
    unfolding fc_addr by (subst of_nat_add[symmetric]) (use c1(1) in \<open>simp add: fc_base_def mult.commute\<close>)
  have w2: "flash_writeWithCheck D c2 (FRAMECOUNT_PAYLOAD_START ?s + 4) (u32_bytes v) = (True, c3)"
    unfolding fc_payload[OF s'(1)] using c3(1) by (simp add: algebra_simps)
  have "nv_nwkFrameCountSaveToFlashHandler D c False e v = (NV_SUCC, e, c5)"
    by (rule handler_rotate[OF sector_read_live[OF st(1,4,5)] op sr other_sector[OF st(1), symmetric] er c2(1) w2 c5(1,2)])
  then show thesis using that c5(3,4) by blast
qed

lemma save_force:
  assumes "writable c" "fc_state (cells c) s xs" "v \<noteq> 0xffffffff"
  obtains c' where "nv_nwkFrameCountSaveToFlashHandler D c True s v = (NV_SUCC, s, c')"
    "writable c'" "fc_state (cells c') (1 - s) [v]"
proof -
  let ?h = "fc_hdr (cells c) s" and ?s = "1 - s"
  have st: "s < 2" "xs \<noteq> []" "fc_log (cells c) s xs" "fc_live (cells c) s" "fc_dead (cells c) (1 - s)"
    using assms(2) by (simp_all add: fc_state_def)
  have s': "?s < 2" "s \<noteq> ?s" using st(1) by arith+
  note op = live_op(1)[OF st(4)] and sq = live_op(2)[OF st(4)]
  obtain c1 where c1: "flash_erase D c (of_nat (fc_base ?s)) = c1" "writable c1" "\<And>k. k < 1024 \<Longrightarrow> fcw (cells c1) ?s k = 0xffffffff"
    "\<And>s' k. s' < 2 \<Longrightarrow> s' \<noteq> ?s \<Longrightarrow> k < 1024 \<Longrightarrow> fcw (cells c1) s' k = fcw (cells c) s' k"
    using erased_sector[OF assms(1) s'(1)] by blast
  obtain c2 where c2: "flash_writeWithCheck D c1 (FRAMECOUNT_PAYLOAD_START ?s) (u32_bytes v) = (True, c2)" "writable c2"
    "fc_log (cells c2) ?s [v]" "fcw (cells c2) ?s 0 = 0xffffffff"
    "\<And>s' k. s' < 2 \<Longrightarrow> s' \<noteq> ?s \<Longrightarrow> k < 1024 \<Longrightarrow> fcw (cells c2) s' k = fcw (cells c1) s' k"
    using start_sector[OF c1(2) s'(1) c1(3) assms(3)] by blast
  have "fcw (cells c2) s 0 = fcw (cells c) s 0" using c2(5)[OF st(1) s'(2), of 0] c1(4)[OF st(1) s'(2), of 0] by simp
  then have v2: "fc_live (cells c2) s" using st(4) fc_live_cong by blast
  obtain c4 c5 where c5: "flash_writeWithCheck D c2 (MODULE_SECT_START 5 ?s) (sect_bytes (new_sect_info 5 (si_opSect ?h + 1))) = (True, c4)"
    "flash_writeWithCheck D c4 (MODULE_SECT_START 5 s) (u16_bytes NV_SECTOR_INVALID) = (True, c5)"
    "writable c5" "fc_state (cells c5) ?s [v]"
    using switch_sector[OF c2(2) st(1) v2 c2(3) _ c2(4) sq] by blast
  have er: "erase_sectors D (MODULES_START_ADDR 5 + of_nat (?s * NV_SECTOR_SIZE 5)) (NV_SECTOR_SIZE 5 div 4096) c = c1"
    using erase_one[OF s'(1)] c1(1) by simp
  have sr: "nv_nwkFrameCountSearch D c1 5 ?s = (NV_ITEM_NOT_FOUND, None, FRAMECOUNT_PAYLOAD_START ?s)"
    using search_log[OF fc_log_blank[OF c1(3)] s'(1)] unfolding fc_payload[OF s'(1)] by simp
  have "nv_nwkFrameCountSaveToFlashHandler D c True s v = (NV_SUCC, s, c5)"
    by (rule handler_force[OF sector_read_live[OF st(1,4,5)] st(1) other_sector[OF st(1), symmetric] er sr c2(1) c5(1,2)])
  then show thesis using that c5(3,4) by blast
qed

end

section \<open>Loading\<close>

text \<open>What the load accepts: the last step of a log of three or more goes up by at most 2048.\<close>

definition fc_step :: "u32 \<Rightarrow> u32 \<Rightarrow> bool" where
  "fc_step x y \<longleftrightarrow> x \<le> y \<and> y - x \<le> UPDATE_FRAMECOUNT_THRES * 2"

lemma fc_step_check: "(y < x \<or> absSub y x > UPDATE_FRAMECOUNT_THRES * 2) \<longleftrightarrow> \<not> fc_step x y"
  by (cases "x = y") (auto simp: fc_step_def absSub_def not_le)

context nor_flash begin

lemma save_flash_live:
  assumes "flash_ok cells writable s" "fc_state (cells (fl_chip s)) k xs" "v \<noteq> 0xffffffff"
  obtains s' k' where "nv_nwkFrameCountSaveToFlash D s v = (NV_SUCC, s')" "flash_ok cells writable s'"
    "fc_state (cells (fl_chip s')) k' (if length xs < 1023 then xs @ [v] else [last xs, v])"
proof -
  let ?c = "fl_chip (flash_unlock s)"
  note u = unlocked[OF assms(1)]
  have st: "fc_state (cells ?c) k xs" using assms(2) u(2) by simp
  have "length xs < 1024" using assms(2) by (simp add: fc_state_def fc_log_def)
  then have l: "length xs < 1023 \<or> length xs = 1023" by arith
  obtain c' k' where c': "nv_nwkFrameCountSaveToFlashHandler D ?c False 0xff v = (NV_SUCC, 0xff, c')" "writable c'"
    "fc_state (cells c') k' (if length xs < 1023 then xs @ [v] else [last xs, v])"
  proof (cases "length xs < 1023")
    case True
    obtain c' where "nv_nwkFrameCountSaveToFlashHandler D ?c False 0xff v = (NV_SUCC, 0xff, c')" "writable c'" "fc_state (cells c') k (xs @ [v])"
      using save_append[OF u(1) st assms(3) True] by blast
    then show thesis using that True by simp
  next
    case False
    then have l: "length xs = 1023" using l by simp
    obtain c' where "nv_nwkFrameCountSaveToFlashHandler D ?c False 0xff v = (NV_SUCC, 0xff, c')" "writable c'"
      "fc_state (cells c') (1 - k) [last xs, v]"
      using save_rotate[OF u(1) st assms(3) l] by blast
    then show thesis using that False by simp
  qed
  show thesis
  proof (rule that)
    show "nv_nwkFrameCountSaveToFlash D s v = (NV_SUCC, flash_lock ((flash_unlock s)\<lparr>fl_chip := c'\<rparr>))"
      by (simp add: nv_nwkFrameCountSaveToFlash_def on_chip_def c'(1))
    show "flash_ok cells writable (flash_lock ((flash_unlock s)\<lparr>fl_chip := c'\<rparr>))" by (rule u(3)[OF c'(2)])
    show "fc_state (cells (fl_chip (flash_lock ((flash_unlock s)\<lparr>fl_chip := c'\<rparr>)))) k' (if length xs < 1023 then xs @ [v] else [last xs, v])"
      unfolding u(4)[OF c'(2)] by (rule c'(3))
  qed
qed

lemma save_flash_new:
  assumes "flash_ok cells writable s" "fc_dead (cells (fl_chip s)) 0" "fc_dead (cells (fl_chip s)) 1" "v \<noteq> 0xffffffff"
  obtains s' where "nv_nwkFrameCountSaveToFlash D s v = (NV_ITEM_NOT_FOUND, s')" "flash_ok cells writable s'"
    "fc_state (cells (fl_chip s')) 0 [v]"
proof -
  let ?c = "fl_chip (flash_unlock s)"
  note u = unlocked[OF assms(1)]
  obtain c' where c': "nv_nwkFrameCountSaveToFlashHandler D ?c False 0xff v = (NV_ITEM_NOT_FOUND, 0xff, c')" "writable c'"
    "fc_state (cells c') 0 [v]"
    using save_new[OF u(1) _ _ assms(4)] assms(2,3) u(2) by metis
  show thesis
  proof (rule that)
    show "nv_nwkFrameCountSaveToFlash D s v = (NV_ITEM_NOT_FOUND, flash_lock ((flash_unlock s)\<lparr>fl_chip := c'\<rparr>))"
      by (simp add: nv_nwkFrameCountSaveToFlash_def on_chip_def c'(1))
    show "flash_ok cells writable (flash_lock ((flash_unlock s)\<lparr>fl_chip := c'\<rparr>))" by (rule u(3)[OF c'(2)])
    show "fc_state (cells (fl_chip (flash_lock ((flash_unlock s)\<lparr>fl_chip := c'\<rparr>)))) 0 [v]"
      unfolding u(4)[OF c'(2)] by (rule c'(3))
  qed
qed

text \<open>The last two values of the log, as the load reads them.\<close>

lemma last_two:
  assumes "fc_log (cells c) k xs" "k < 2" "2 \<le> length xs"
  shows "read_words D c (of_nat (fc_base k + 4 * (length xs + 1)) - 8) 8 = [xs ! (length xs - 2), last xs]"
proof -
  let ?n = "length xs"
  have a: "of_nat (fc_base k + 4 * (?n + 1)) - 8 = (of_nat (fc_base k + 4 * (?n - 1)) :: u32)"
    using assms(3) by (simp add: of_nat_diff algebra_simps)
  have n: "?n < 1024" using assms(1) by (simp add: fc_log_def)
  have w: "fcw (cells c) k (?n - 1) = xs ! (?n - 2)" "fcw (cells c) k ?n = last xs"
  proof -
    have "fcw (cells c) k (?n - 1) = xs ! (?n - 1 - 1)" using fc_word[OF assms(1), of "?n - 1"] assms(3) n by simp
    then show "fcw (cells c) k (?n - 1) = xs ! (?n - 2)" by (simp add: numeral_2_eq_2)
    have "fcw (cells c) k ?n = xs ! (?n - 1)" using fc_word[OF assms(1), of ?n] assms(3) n by simp
    moreover have "xs \<noteq> []" using assms(3) by auto
    ultimately show "fcw (cells c) k ?n = last xs" by (simp add: last_conv_nth)
  qed
  have e: "fc_base k + 4 * (?n - 1) + 4 = fc_base k + 4 * ?n" using assms(3) by simp
  have "read_words D c (of_nat (fc_base k + 4 * (?n - 1))) (4 * 2) =
      [fcw (cells c) k (?n - 1), word_at (cells c) (fc_base k + 4 * (?n - 1) + 4)]"
    unfolding read_words_at by (simp add: upt_rec)
  then show ?thesis unfolding a e w by simp
qed

lemma checked_length:
  assumes "fc_log m k xs" "k < 2"
  shows "(of_nat (fc_base k + 4 * (length xs + 1)) :: u32) > FRAMECOUNT_PAYLOAD_START k + 8 \<longleftrightarrow> length xs > 2"
proof -
  have n: "length xs < 1024" using assms(1) by (simp add: fc_log_def)
  have "FRAMECOUNT_PAYLOAD_START k + 8 = of_nat (fc_base k + 12)" unfolding fc_payload[OF assms(2)] by simp
  moreover have "unat (of_nat (fc_base k + 12) :: u32) = fc_base k + 12"
    "unat (of_nat (fc_base k + 4 * (length xs + 1)) :: u32) = fc_base k + 4 * (length xs + 1)"
    by (rule unat_of_nat_u32, use assms(2) n in \<open>simp add: fc_base_def\<close>)+
  ultimately show ?thesis by (simp only: word_less_nat_alt) auto
qed

lemma load_live:
  assumes "flash_ok cells writable s" "fc_state (cells (fl_chip s)) k xs"
    "length xs \<le> 2 \<or> fc_step (xs ! (length xs - 2)) (last xs)"
  obtains s' where "nv_nwkFrameCountFromFlash D s = ((NV_SUCC, Some (last xs)), s')" "flash_ok cells writable s'"
    "cells (fl_chip s') = cells (fl_chip s)"
proof -
  let ?s1 = "flash_unlock s" and ?n = "length xs"
  let ?c = "fl_chip ?s1"
  note u = unlocked[OF assms(1)]
  have st: "k < 2" "xs \<noteq> []" "fc_log (cells ?c) k xs" "fc_live (cells ?c) k" "fc_dead (cells ?c) (1 - k)"
    using assms(2) by (simp_all add: fc_state_def u(2))
  note op = live_op(1)[OF st(4)] and sq = live_op(2)[OF st(4)]
  have sr: "nv_nwkFrameCountSearch D ?c 5 k = (NV_SUCC, Some (last xs), of_nat (fc_base k + 4 * (?n + 1)))"
    using search_log[OF st(3,1)] st(2) by simp
  note gt = checked_length[OF st(3,1)]
  let ?r = "((NV_SUCC, Some (last xs)), flash_lock (?s1\<lparr>fl_chip := ?c\<rparr>))"
  have "nv_nwkFrameCountFromFlash D s = ?r"
  proof (cases "?n > 2")
    case True
    then have ck: "\<not> (last xs < xs ! (?n - 2) \<or> absSub (last xs) (xs ! (?n - 2)) > UPDATE_FRAMECOUNT_THRES * 2)"
      using assms(3) fc_step_check by auto
    have rw: "read_words D ?c (of_nat (fc_base k + 4 * (?n + 1)) - 8) 8 = [xs ! (?n - 2), last xs]"
      using last_two[OF st(3,1)] True by simp
    show ?thesis
      unfolding nv_nwkFrameCountFromFlash_def Let_def sector_read_live[OF st(1,4,5)] prod.case option.case nv_sts.case op sr rw
      using True gt ck by simp
  next
    case False
    then show ?thesis
      unfolding nv_nwkFrameCountFromFlash_def Let_def sector_read_live[OF st(1,4,5)] prod.case option.case nv_sts.case op sr
      using gt by simp
  qed
  then show thesis using that u by (metis)
qed

text \<open>An implausible last value: the one before it plus 1024 is taken and saved in the other sector.\<close>

lemma load_backoff:
  assumes "flash_ok cells writable s" "fc_state (cells (fl_chip s)) k xs"
    "length xs > 2" "\<not> fc_step (xs ! (length xs - 2)) (last xs)" "xs ! (length xs - 2) + UPDATE_FRAMECOUNT_THRES \<noteq> 0xffffffff"
  obtains s' where "nv_nwkFrameCountFromFlash D s = ((NV_SUCC, Some (xs ! (length xs - 2) + UPDATE_FRAMECOUNT_THRES)), s')"
    "flash_ok cells writable s'" "fc_state (cells (fl_chip s')) (1 - k) [xs ! (length xs - 2) + UPDATE_FRAMECOUNT_THRES]"
proof -
  let ?s1 = "flash_unlock s" and ?n = "length xs" and ?v = "xs ! (length xs - 2) + UPDATE_FRAMECOUNT_THRES"
  let ?c = "fl_chip ?s1"
  note u = unlocked[OF assms(1)]
  have fs: "fc_state (cells ?c) k xs" using assms(2) u(2) by simp
  then have st: "k < 2" "xs \<noteq> []" "fc_log (cells ?c) k xs" "fc_live (cells ?c) k" "fc_dead (cells ?c) (1 - k)"
    by (simp_all add: fc_state_def)
  note op = live_op(1)[OF st(4)] and sq = live_op(2)[OF st(4)]
  have sr: "nv_nwkFrameCountSearch D ?c 5 k = (NV_SUCC, Some (last xs), of_nat (fc_base k + 4 * (?n + 1)))"
    using search_log[OF st(3,1)] st(2) by simp
  obtain c' where c': "nv_nwkFrameCountSaveToFlashHandler D ?c True k ?v = (NV_SUCC, k, c')" "writable c'" "fc_state (cells c') (1 - k) [?v]"
    using save_force[OF u(1) fs assms(5)] by blast
  have ck: "last xs < xs ! (?n - 2) \<or> absSub (last xs) (xs ! (?n - 2)) > UPDATE_FRAMECOUNT_THRES * 2"
    using assms(4) fc_step_check by auto
  have rw: "read_words D ?c (of_nat (fc_base k + 4 * (?n + 1)) - 8) 8 = [xs ! (?n - 2), last xs]"
    using last_two[OF st(3,1)] assms(3) by simp
  have "nv_nwkFrameCountFromFlash D s = ((NV_SUCC, Some ?v), flash_lock (?s1\<lparr>fl_chip := c'\<rparr>))"
    unfolding nv_nwkFrameCountFromFlash_def Let_def sector_read_live[OF st(1,4,5)] prod.case option.case nv_sts.case op sr rw
    using checked_length[OF st(3,1)] ck assms(3) c'(1) by simp
  moreover have "fc_state (cells (fl_chip (flash_lock (?s1\<lparr>fl_chip := c'\<rparr>)))) (1 - k) [?v]"
    unfolding u(4)[OF c'(2)] by (rule c'(3))
  ultimately show thesis using that u(3)[OF c'(2)] by blast
qed

text \<open>A sequence of saves: the log is always a suffix of the saved values, and all of them as long as the
  first sector has room.\<close>

lemma save_all:
  assumes "flash_ok cells writable s" "fc_state (cells (fl_chip s)) k xs" "0xffffffff \<notin> set vs"
  shows "\<exists>k' ys. flash_ok cells writable (fold (\<lambda>v s. snd (nv_nwkFrameCountSaveToFlash D s v)) vs s) \<and>
      fc_state (cells (fl_chip (fold (\<lambda>v s. snd (nv_nwkFrameCountSaveToFlash D s v)) vs s))) k' ys \<and> suffix ys (xs @ vs) \<and>
      (length (xs @ vs) \<le> 1023 \<longrightarrow> ys = xs @ vs)"
  using assms
proof (induction vs arbitrary: s k xs)
  case Nil
  then show ?case by auto
next
  case (Cons v vs)
  let ?xs = "if length xs < 1023 then xs @ [v] else [last xs, v]"
  obtain s1 k1 where s1: "nv_nwkFrameCountSaveToFlash D s v = (NV_SUCC, s1)" "flash_ok cells writable s1"
    "fc_state (cells (fl_chip s1)) k1 ?xs"
    using save_flash_live[OF Cons.prems(1,2)] Cons.prems(3) by (metis list.set_intros(1))
  obtain k' ys where r: "flash_ok cells writable (fold (\<lambda>v s. snd (nv_nwkFrameCountSaveToFlash D s v)) vs s1)"
    "fc_state (cells (fl_chip (fold (\<lambda>v s. snd (nv_nwkFrameCountSaveToFlash D s v)) vs s1))) k' ys" "suffix ys (?xs @ vs)"
    "length (?xs @ vs) \<le> 1023 \<longrightarrow> ys = ?xs @ vs"
    using Cons.IH[OF s1(2,3)] Cons.prems(3) by auto
  have "xs \<noteq> []" using Cons.prems(2) by (simp add: fc_state_def)
  then have "suffix ?xs (xs @ [v])" by (auto simp: suffix_def) (metis append_butlast_last_id)
  then have "suffix (?xs @ vs) (xs @ v # vs)" unfolding suffix_def by (metis append.assoc append_Cons append_Nil)
  then have "suffix ys (xs @ v # vs)" using r(3) suffix_order.trans by blast
  moreover have "ys = xs @ v # vs" if "length (xs @ v # vs) \<le> 1023" using that r(4) by simp
  ultimately show ?case using r(1,2) s1(1) by auto
qed

lemma save_all_new:
  assumes "flash_ok cells writable s" "fc_dead (cells (fl_chip s)) 0" "fc_dead (cells (fl_chip s)) 1" "cs \<noteq> []" "0xffffffff \<notin> set cs"
  obtains k ys where "flash_ok cells writable (fold (\<lambda>v s. snd (nv_nwkFrameCountSaveToFlash D s v)) cs s)"
    "fc_state (cells (fl_chip (fold (\<lambda>v s. snd (nv_nwkFrameCountSaveToFlash D s v)) cs s))) k ys" "suffix ys cs"
    "length cs \<le> 1023 \<longrightarrow> ys = cs"
proof -
  obtain v vs where cs: "cs = v # vs" using assms(4) by (cases cs) auto
  obtain s1 where s1: "nv_nwkFrameCountSaveToFlash D s v = (NV_ITEM_NOT_FOUND, s1)" "flash_ok cells writable s1"
    "fc_state (cells (fl_chip s1)) 0 [v]"
    using save_flash_new[OF assms(1-3)] assms(5) cs by (metis list.set_intros(1))
  show thesis using save_all[OF s1(2,3), of vs] assms(5) that by (auto simp: cs s1(1))
qed

end

lemma step_of_suffix:
  assumes "successively fc_step cs" "suffix ys cs" "2 \<le> length ys"
  shows "fc_step (ys ! (length ys - 2)) (last ys)"
proof -
  have "successively fc_step ys" using assms(1,2) by (auto simp: suffix_def successively_append_iff)
  then have "fc_step (ys ! (length ys - 2)) (ys ! Suc (length ys - 2))"
    using assms(3) by (simp add: successively_conv_nth)
  moreover have "Suc (length ys - 2) = length ys - 1" "ys \<noteq> []" using assms(3) by auto
  ultimately show ?thesis by (simp add: last_conv_nth)
qed

section \<open>Properties\<close>

text \<open>C3: The frame counter persists. On any NOR chip on which neither sector of the module is valid,
  after saving any non-empty sequence of counters that never goes down and never up by more than 2048
  (0xffffffff excluded), through any number of sector changes, loading returns the last one.\<close>

theorem frame_counter_persists:
  assumes "nor_chip program read_cmd erase_cmd cells writable" "flash_ok cells writable s"
    "d = mk_drv (flash_write_page program) read_cmd erase_cmd"
    "fc_dead (cells (fl_chip s)) 0" "fc_dead (cells (fl_chip s)) 1" "cs \<noteq> []" "0xffffffff \<notin> set cs" "successively fc_step cs"
  shows "fst (nv_nwkFrameCountFromFlash d (fold (\<lambda>v s. snd (nv_nwkFrameCountSaveToFlash d s v)) cs s)) = (NV_SUCC, Some (last cs))"
proof -
  have N: "nor_flash (flash_write_page program) read_cmd erase_cmd cells writable"
    by (rule nor_chip.platform_nor[OF assms(1)])
  obtain k ys where st: "flash_ok cells writable (fold (\<lambda>v s. snd (nv_nwkFrameCountSaveToFlash d s v)) cs s)"
    "fc_state (cells (fl_chip (fold (\<lambda>v s. snd (nv_nwkFrameCountSaveToFlash d s v)) cs s))) k ys" "suffix ys cs"
    using nor_flash.save_all_new[OF N assms(2,4-7)] unfolding assms(3) by blast
  have ne: "ys \<noteq> []" using st(2) by (simp add: fc_state_def)
  then have l: "last ys = last cs" using st(3) by (auto simp: suffix_def)
  have "length ys \<le> 2 \<or> fc_step (ys ! (length ys - 2)) (last ys)"
    using step_of_suffix[OF assms(8) st(3)] by (cases "length ys \<le> 2") auto
  then show ?thesis
    using nor_flash.load_live[OF N st(1,2)] unfolding assms(3) l by (metis fst_conv)
qed

text \<open>A new device: the chip is erased, there is no lock.\<close>

lemma dead_new: "fc_dead (\<lambda>_. 0xff) k"
  by (rule fc_dead_blank) (simp add: word_at_blank at_def)

theorem frame_counter_persists_witness:
  "fst (nv_nwkFrameCountFromFlash myFlashDrv_ideal
     (fold (\<lambda>v s. snd (nv_nwkFrameCountSaveToFlash myFlashDrv_ideal s v)) [0, 1024, 2048, 2049] new_device)) = (NV_SUCC, Some 2049)"
proof -
  have "successively fc_step [0, 1024, 2048, 2049]" "[0, 1024, 2048, 2049 :: u32] \<noteq> []"
    "0xffffffff \<notin> set [0, 1024, 2048, 2049 :: u32]"
    by (simp_all add: fc_step_def)
  from frame_counter_persists[OF ideal.nor_chip_axioms new_device_ok refl _ _ this(2,3,1)]
  show ?thesis by (simp add: dead_new new_device_def)
qed

text \<open>C27: The back-off. In an empty store let at least three and at most 1023 counters be saved (all in the
  first sector), none of them 0xffffffff. When the last goes down or jumps by more than 2048 from the one before it,
  loading returns the one before it plus 1024 (if that is not 0xffffffff), and so does the next load: the value has
  been saved in the other sector.\<close>

theorem frame_counter_backs_off:
  assumes "nor_chip program read_cmd erase_cmd cells writable" "flash_ok cells writable s"
    "d = mk_drv (flash_write_page program) read_cmd erase_cmd"
    "fc_dead (cells (fl_chip s)) 0" "fc_dead (cells (fl_chip s)) 1" "0xffffffff \<notin> set (cs @ [x, y])" "0 < length cs"
    "length cs < 1022" "y < x \<or> y - x > 2048" "x + 1024 \<noteq> 0xffffffff"
    "nv_nwkFrameCountFromFlash d (fold (\<lambda>v s. snd (nv_nwkFrameCountSaveToFlash d s v)) (cs @ [x, y]) s) = (r, s')"
  shows "r = (NV_SUCC, Some (x + 1024)) \<and> fst (nv_nwkFrameCountFromFlash d s') = (NV_SUCC, Some (x + 1024))"
proof -
  let ?cs = "cs @ [x, y]"
  have N: "nor_flash (flash_write_page program) read_cmd erase_cmd cells writable"
    by (rule nor_chip.platform_nor[OF assms(1)])
  obtain k where st: "flash_ok cells writable (fold (\<lambda>v s. snd (nv_nwkFrameCountSaveToFlash d s v)) ?cs s)"
    "fc_state (cells (fl_chip (fold (\<lambda>v s. snd (nv_nwkFrameCountSaveToFlash d s v)) ?cs s))) k ?cs"
    using nor_flash.save_all_new[OF N assms(2,4,5) _ assms(6)] assms(8) unfolding assms(3) by auto
  have v: "?cs ! (length ?cs - 2) = x" "last ?cs = y" by (simp_all add: nth_append)
  have "\<not> fc_step x y" using assms(9) by (auto simp: fc_step_def)
  with assms(7,10) v obtain s1 where s1:
    "nv_nwkFrameCountFromFlash d (fold (\<lambda>v s. snd (nv_nwkFrameCountSaveToFlash d s v)) ?cs s) = ((NV_SUCC, Some (x + 1024)), s1)"
    "flash_ok cells writable s1" "fc_state (cells (fl_chip s1)) (1 - k) [x + 1024]"
    using nor_flash.load_backoff[OF N st] unfolding assms(3) v by auto
  have "length [x + 1024] \<le> 2 \<or> fc_step ([x + 1024] ! (length [x + 1024] - 2)) (last [x + 1024])" by simp
  then have "fst (nv_nwkFrameCountFromFlash d s1) = (NV_SUCC, Some (last [x + 1024]))"
    using nor_flash.load_live[OF N s1(2,3)] unfolding assms(3) by (metis fst_conv)
  then show ?thesis using s1(1) assms(11) by simp
qed

theorem frame_counter_backs_off_witness:
  "fst (nv_nwkFrameCountFromFlash myFlashDrv_ideal
     (fold (\<lambda>v s. snd (nv_nwkFrameCountSaveToFlash myFlashDrv_ideal s v)) [100, 200, 90000] new_device)) = (NV_SUCC, Some 1224)"
proof -
  obtain r s' where e: "nv_nwkFrameCountFromFlash myFlashDrv_ideal
     (fold (\<lambda>v s. snd (nv_nwkFrameCountSaveToFlash myFlashDrv_ideal s v)) ([100] @ [200, 90000]) new_device) = (r, s')" by fastforce
  show ?thesis
    using frame_counter_backs_off[OF ideal.nor_chip_axioms new_device_ok refl, of "[100]" 200 90000] e
    by (simp add: dead_new new_device_def)
qed

text \<open>The first save on a device stores the counter but reports \<open>NV_ITEM_NOT_FOUND\<close>: the status of the search for
  a valid sector is what the handler returns.\<close>

theorem first_save_reports_not_found:
  assumes "nor_chip program read_cmd erase_cmd cells writable" "flash_ok cells writable s"
    "d = mk_drv (flash_write_page program) read_cmd erase_cmd"
    "fc_dead (cells (fl_chip s)) 0" "fc_dead (cells (fl_chip s)) 1" "v \<noteq> 0xffffffff"
  shows "fst (nv_nwkFrameCountSaveToFlash d s v) = NV_ITEM_NOT_FOUND \<and>
    fst (nv_nwkFrameCountFromFlash d (snd (nv_nwkFrameCountSaveToFlash d s v))) = (NV_SUCC, Some v)"
proof -
  have N: "nor_flash (flash_write_page program) read_cmd erase_cmd cells writable"
    by (rule nor_chip.platform_nor[OF assms(1)])
  obtain s' where s': "nv_nwkFrameCountSaveToFlash d s v = (NV_ITEM_NOT_FOUND, s')" "flash_ok cells writable s'"
    "fc_state (cells (fl_chip s')) 0 [v]"
    using nor_flash.save_flash_new[OF N assms(2,4-6)] unfolding assms(3) by blast
  have "length [v] \<le> 2 \<or> fc_step ([v] ! (length [v] - 2)) (last [v])" by simp
  then show ?thesis using nor_flash.load_live[OF N s'(2,3)] s'(1) unfolding assms(3) by (metis fst_conv snd_conv last_ConsL)
qed

theorem first_save_reports_not_found_witness:
  "fst (nv_nwkFrameCountSaveToFlash myFlashDrv_ideal new_device 7) = NV_ITEM_NOT_FOUND"
  using first_save_reports_not_found[OF ideal.nor_chip_axioms new_device_ok refl, of 7]
  by (simp add: dead_new new_device_def)

end
