(* ===== verification/NvItems.thy ===== *)
theory NvItems
  imports NvSector
begin

text \<open>
  The item log of one sector, as the proofs about the NV store see it: where entry and item \<open>k\<close> are, what
  is on the flash for them, and that the search in the index finds the last entry that matches.
\<close>

section \<open>The search in the index\<close>

definition idx_hit :: "u8 \<Rightarrow> u16 \<Rightarrow> nv_info_idx \<Rightarrow> bool" where
  "idx_hit itemId len e \<longleftrightarrow>
     (if itemId \<noteq> ITEM_FIELD_IDLE
      then ITEM_VALID_FLAG_CHECK (ix_usedState e) \<and> ix_itemId e = itemId \<and> NV_ITEMLEN_MATCH (ucast (ix_size e) - of_nat HDR_SIZE) len
      else ix_usedState e \<noteq> ITEM_FIELD_IDLE \<or> ucast (ix_size e) \<noteq> item_total_size itemId len \<or> ix_itemId e \<noteq> itemId)"

text \<open>The search runs downwards.\<close>

definition last_hit :: "(nat \<Rightarrow> bool) \<Rightarrow> nat \<Rightarrow> nat option" where
  "last_hit P n = find P (rev [0..<n])"

lemma find_append: "find P (xs @ ys) = (case find P xs of None \<Rightarrow> find P ys | Some x \<Rightarrow> Some x)"
  by (induction xs) auto

lemma last_hit_0 [simp]: "last_hit P 0 = None"
  by (simp add: last_hit_def)

lemma last_hit_Suc: "last_hit P (Suc n) = (if P n then Some n else last_hit P n)"
  by (simp add: last_hit_def)

lemma last_hit_add: "last_hit P (n + r) = (case last_hit (\<lambda>i. P (n + i)) r of Some i \<Rightarrow> Some (n + i) | None \<Rightarrow> last_hit P n)"
  by (induction r) (auto simp: last_hit_Suc)

lemma last_hit_None: "last_hit P n = None \<longleftrightarrow> (\<forall>k < n. \<not> P k)"
  by (induction n) (auto simp: last_hit_Suc less_Suc_eq)

lemma last_hit_Some: "last_hit P n = Some k \<longleftrightarrow> k < n \<and> P k \<and> (\<forall>j < n. k < j \<longrightarrow> \<not> P j)"
proof (induction n)
  case (Suc n)
  then show ?case by (auto simp: last_hit_Suc less_Suc_eq)
qed simp

lemma last_hit_cong: "(\<And>k. k < n \<Longrightarrow> P k = Q k) \<Longrightarrow> last_hit P n = last_hit Q n"
  by (induction n) (simp_all add: last_hit_Suc)

lemma idx_inner_find:
  "idx_inner itemId len (item_total_size itemId len) True es i itemLen ret =
    (case last_hit (\<lambda>j. idx_hit itemId len (es ! j)) i of Some j \<Rightarrow> Inl j | None \<Rightarrow> Inr (itemLen, ret))"
  by (induction i) (auto simp: last_hit_Suc idx_hit_def Let_def)

lemma idx_outer_find:
  assumes "\<And>left r. left + r \<le> n \<Longrightarrow> read_idxs d c (idx_addr md s left) r = map tbl [left..<left + r]"
  shows "idx_outer d c md itemId len s True n itemLen ret =
    (case last_hit (\<lambda>k. idx_hit itemId len (tbl k)) n of Some k \<Rightarrow> (NV_SUCC, itemLen, Some k) | None \<Rightarrow> (ret, itemLen, None))"
  using assms
proof (induction n rule: less_induct)
  case (less n)
  show ?case
  proof (cases "n = 0")
    case True
    then show ?thesis by (simp add: idx_outer.simps)
  next
    case False
    define r where "r = (if n > 4 then 4 else n)"
    have r: "0 < r" "r \<le> n" using False by (auto simp: r_def)
    have es: "read_idxs d c (idx_addr md s (n - r)) r = map tbl [n - r..<n - r + r]" using less.prems[of "n - r" r] r by simp
    have ih: "idx_outer d c md itemId len s True (n - r) itemLen ret =
      (case last_hit (\<lambda>k. idx_hit itemId len (tbl k)) (n - r) of Some k \<Rightarrow> (NV_SUCC, itemLen, Some k) | None \<Rightarrow> (ret, itemLen, None))"
      using r less.prems by (intro less.IH) simp_all
    have lh: "last_hit (\<lambda>j. idx_hit itemId len (map tbl [n - r..<n - r + r] ! j)) r = last_hit (\<lambda>j. idx_hit itemId len (tbl (n - r + j))) r"
      by (rule last_hit_cong) simp
    have sp: "last_hit (\<lambda>k. idx_hit itemId len (tbl k)) n =
      (case last_hit (\<lambda>i. idx_hit itemId len (tbl (n - r + i))) r of Some i \<Rightarrow> Some (n - r + i)
       | None \<Rightarrow> last_hit (\<lambda>k. idx_hit itemId len (tbl k)) (n - r))"
      using last_hit_add[of "\<lambda>k. idx_hit itemId len (tbl k)" "n - r" r] r by simp
    have "idx_outer d c md itemId len s True n itemLen ret =
      (case idx_inner itemId len (item_total_size itemId len) True (read_idxs d c (idx_addr md s (n - r)) r) r itemLen ret of
             Inl i \<Rightarrow> (NV_SUCC, itemLen, Some (n - r + i))
           | Inr (itemLen', ret') \<Rightarrow> idx_outer d c md itemId len s True (n - r) itemLen' ret')"
      using False by (subst idx_outer.simps) (simp add: r_def[symmetric] Let_def)
    also have "\<dots> = (case last_hit (\<lambda>i. idx_hit itemId len (tbl (n - r + i))) r of Some i \<Rightarrow> (NV_SUCC, itemLen, Some (n - r + i))
       | None \<Rightarrow> idx_outer d c md itemId len s True (n - r) itemLen ret)"
      unfolding es idx_inner_find lh by (auto split: option.splits)
    finally show ?thesis unfolding sp ih by (auto split: option.splits)
  qed
qed

section \<open>Addresses\<close>

definition idx_at :: "nat \<Rightarrow> nat \<Rightarrow> nat \<Rightarrow> nat" where
  "idx_at md s k = sect_start md s + 4 + 8 * k"

definition content_at :: "nat \<Rightarrow> nat \<Rightarrow> nat" where
  "content_at md s = sect_start md s + MODULE_INFO_SIZE md"

definition sect_end :: "nat \<Rightarrow> nat \<Rightarrow> nat" where
  "sect_end md s = sect_start md s + NV_SECTOR_SIZE md"

lemma nv_addr:
  "MODULE_SECT_START md s = of_nat (sect_start md s)" "MODULE_SECT_END md s = of_nat (sect_end md s)"
  "MODULE_CONTEXT_START md s = of_nat (content_at md s)" "idx_addr md s k = of_nat (idx_at md s k)"
  by (simp_all add: MODULE_SECT_START_def MODULE_SECT_END_def sect_start_def sect_end_def MODULE_CONTEXT_START_def content_at_def
      idx_addr_def idx_at_def MODULE_IDX_START_def mult.commute)

lemma nv_bounds:
  assumes "md < DS_MAX_MODULS" "s < 2"
  shows "idx_at md s (MODULE_IDX_NUM md) \<le> content_at md s" "content_at md s < sect_end md s" "sect_end md s \<le> 0x80000"
    "sect_start md s + 4 \<le> idx_at md s 0" "sect_end md s - content_at md s \<le> 15872"
proof -
  have "md = 6 \<or> md < 6" "s = 0 \<or> s = 1" using assms by auto
  then show "idx_at md s (MODULE_IDX_NUM md) \<le> content_at md s" "content_at md s < sect_end md s" "sect_end md s \<le> 0x80000"
    "sect_start md s + 4 \<le> idx_at md s 0" "sect_end md s - content_at md s \<le> 15872"
    by (auto simp: idx_at_def content_at_def sect_end_def sect_start_def mod_start_def NV_SECTOR_SIZE_def MODULE_INFO_SIZE_def MODULE_IDX_NUM_def)
qed

lemma idx_at_mono: "k < n \<Longrightarrow> idx_at md s k + 8 \<le> idx_at md s n"
  by (simp add: idx_at_def)

definition align4n :: "nat \<Rightarrow> nat" where
  "align4n x = (x + 3) div 4 * 4"

lemma align4n_bounds: "x \<le> align4n x" "align4n x \<le> x + 3"
  by (simp_all add: align4n_def)

lemma align4_of_nat: "x < 2 ^ 31 \<Longrightarrow> align4 (of_nat x) = of_nat (align4n x)"
proof -
  assume "x < 2 ^ 31"
  then have "(of_nat (x + 3) AND NOT 3 :: u32) = of_nat ((x + 3) div 4 * 4)" by (intro word_align) simp
  then show ?thesis unfolding align4_def align4n_def of_nat_add of_nat_numeral .
qed

context nor_flash begin

lemma read_idx_at: "read_idx D c (idx_addr md s k) = idx_of (map (at (cells c)) [idx_at md s k..<idx_at md s k + 8])"
  by (simp add: read_idx_def nv_addr read_at)

lemma read_idxs_at:
  "read_idxs D c (idx_addr md s left) r = map (\<lambda>k. read_idx D c (idx_addr md s k)) [left..<left + r]"
proof -
  have "idx_of (take 8 (drop (i * 8) (map (at (cells c)) [idx_at md s left..<idx_at md s left + r * 8]))) =
      read_idx D c (idx_addr md s (left + i))" if "i < r" for i
    using that by (simp add: read_idx_at take_map drop_map idx_at_def mult.commute add.assoc)
  then show ?thesis
    by (intro nth_equalityI) (simp_all add: read_idxs_def nv_addr(4)[of md s left] read_at Let_def)
qed

end

section \<open>Entries on the flash\<close>

text \<open>An entry of the log: item number, flag and data; the offsets follow from the entries before it.\<close>

record nv_ent =
  en_id :: u8
  en_flag :: u8
  en_data :: "u8 list"

fun log_end :: "nat \<Rightarrow> nv_ent list \<Rightarrow> nat" where
  "log_end a [] = a"
| "log_end a (e # es) = log_end (align4n (a + 8 + length (en_data e))) es"

definition idx_img :: "nat \<Rightarrow> nv_ent \<Rightarrow> nv_info_idx" where
  "idx_img off e = \<lparr>ix_offset = of_nat off, ix_size = of_nat (length (en_data e) + 8), ix_itemId = en_id e, ix_usedState = en_flag e\<rparr>"

definition idx_crc :: "nat \<Rightarrow> nv_ent \<Rightarrow> u32" where
  "idx_crc off e = xcrc32 (take 7 (idx_bytes (idx_img off e))) 0xffffffff"

definition hdr_raw :: "nv_ent \<Rightarrow> item_hdr" where
  "hdr_raw e = \<lparr>hd_checkSum = 0, hd_size = of_nat (length (en_data e)), hd_itemId = en_id e, hd_used = ITEM_HDR_FIELD_VALID_CHECKCRC\<rparr>"

definition data_crc :: "nv_ent \<Rightarrow> u32" where
  "data_crc e = xcrc32 (hdr_tail (hdr_raw e)) (xcrc32 (en_data e) 0xffffffff)"

definition hdr_img :: "nat \<Rightarrow> nv_ent \<Rightarrow> item_hdr" where
  "hdr_img off e = (hdr_raw e)\<lparr>hd_checkSum := push_bit 16 (idx_crc off e AND 0xffff) OR (data_crc e AND 0xffff)\<rparr>"

definition ent_ok :: "nv_ent \<Rightarrow> bool" where
  "ent_ok e \<longleftrightarrow> en_flag e \<in> {ITEM_FIELD_VALID, ITEM_FIELD_VALID_SINGLE, ITEM_FIELD_INVALID} \<and> en_id e \<noteq> ITEM_FIELD_IDLE \<and> en_data e \<noteq> []"

text \<open>Entry \<open>k\<close> on the flash, its item at \<open>off\<close>.\<close>

definition ent_on :: "mem \<Rightarrow> nat \<Rightarrow> nat \<Rightarrow> nv_ent \<Rightarrow> bool" where
  "ent_on m ia off e \<longleftrightarrow> map (at m) [ia..<ia + 8] = idx_bytes (idx_img off e) \<and>
     map (at m) [off..<off + 8] = hdr_bytes (hdr_img off e) \<and>
     map (at m) [off + 8..<off + 8 + length (en_data e)] = en_data e"

text \<open>The log \<open>es\<close> in sector \<open>s\<close> of module \<open>md\<close>; behind it the sector is erased.\<close>

definition nv_log :: "mem \<Rightarrow> nat \<Rightarrow> nat \<Rightarrow> nv_ent list \<Rightarrow> bool" where
  "nv_log m md s es \<longleftrightarrow> length es \<le> MODULE_IDX_NUM md \<and>
     (\<forall>k < length es. ent_ok (es ! k) \<and>
        log_end (content_at md s) (take k es) + 8 + length (en_data (es ! k)) \<le> sect_end md s \<and>
        ent_on m (idx_at md s k) (log_end (content_at md s) (take k es)) (es ! k)) \<and>
     blank m (idx_at md s (length es)) (idx_at md s (MODULE_IDX_NUM md)) \<and>
     blank m (log_end (content_at md s) es) (sect_end md s)"

text \<open>One live sector.\<close>

definition nv_state :: "mem \<Rightarrow> nat \<Rightarrow> nat \<Rightarrow> nv_ent list \<Rightarrow> bool" where
  "nv_state m md s es \<longleftrightarrow> s < 2 \<and> es \<noteq> [] \<and> sect_live m md s \<and> sect_dead m md (1 - s) \<and> nv_log m md s es"

text \<open>What a read finds: the last valid entry of the item whose length is a multiple of the requested one.\<close>

definition ent_hit :: "u8 \<Rightarrow> nat \<Rightarrow> nv_ent \<Rightarrow> bool" where
  "ent_hit itemId len e \<longleftrightarrow> ITEM_VALID_FLAG_CHECK (en_flag e) \<and> en_id e = itemId \<and> length (en_data e) mod len = 0"

definition nv_lookup :: "nv_ent list \<Rightarrow> u8 \<Rightarrow> nat \<Rightarrow> nat option" where
  "nv_lookup es itemId len = last_hit (\<lambda>k. ent_hit itemId len (es ! k)) (length es)"

lemma log_end_append: "log_end a (es @ fs) = log_end (log_end a es) fs"
  by (induction es arbitrary: a) simp_all

lemma log_end_ge: "a \<le> log_end a es"
proof (induction es arbitrary: a)
  case (Cons e es)
  have "a \<le> align4n (a + 8 + length (en_data e))" using align4n_bounds(1)[of "a + 8 + length (en_data e)"] by simp
  then show ?case using Cons[of "align4n (a + 8 + length (en_data e))"] by simp
qed simp

lemma log_end_take_Suc:
  "k < length es \<Longrightarrow> log_end a (take (Suc k) es) = align4n (log_end a (take k es) + 8 + length (en_data (es ! k)))"
  by (simp add: take_Suc_conv_app_nth log_end_append)

lemma log_end_take_mono: "j \<le> k \<Longrightarrow> log_end a (take j es) \<le> log_end a (take k es)"
proof -
  assume "j \<le> k"
  then have "take k es = take j es @ drop j (take k es)" by (metis append_take_drop_id min.absorb1 take_take)
  then have "log_end a (take k es) = log_end (log_end a (take j es)) (drop j (take k es))" by (metis log_end_append)
  then show ?thesis using log_end_ge by simp
qed

lemma nv_log_ent:
  assumes "nv_log m md s es" "k < length es"
  shows "ent_ok (es ! k)" "log_end (content_at md s) (take k es) + 8 + length (en_data (es ! k)) \<le> sect_end md s"
    "ent_on m (idx_at md s k) (log_end (content_at md s) (take k es)) (es ! k)"
    "content_at md s \<le> log_end (content_at md s) (take k es)"
  using assms log_end_ge by (auto simp: nv_log_def)

lemma crc_parts:
  "drop_bit 16 (push_bit 16 (a AND 0xffff) OR (b AND 0xffff) :: u32) AND 0xffff = a AND 0xffff"
  "(push_bit 16 (a AND 0xffff) OR (b AND 0xffff) :: u32) AND 0xffff = b AND 0xffff"
proof -
  have m: "(0xffff :: u32) = mask 16" by (simp add: mask_eq_exp_minus_1)
  show "drop_bit 16 (push_bit 16 (a AND 0xffff) OR (b AND 0xffff) :: u32) AND 0xffff = a AND 0xffff"
    unfolding m by (rule bit_word_eqI) (auto simp: bit_simps)
  show "(push_bit 16 (a AND 0xffff) OR (b AND 0xffff) :: u32) AND 0xffff = b AND 0xffff"
    unfolding m by (rule bit_word_eqI) (auto simp: bit_simps)
qed

lemma hdr_img_sums:
  "drop_bit 16 (hd_checkSum (hdr_img off e)) AND 0xffff = idx_crc off e AND 0xffff"
  "hd_checkSum (hdr_img off e) AND 0xffff = data_crc e AND 0xffff"
  "hd_size (hdr_img off e) = of_nat (length (en_data e))" "hd_itemId (hdr_img off e) = en_id e"
  "hd_used (hdr_img off e) = ITEM_HDR_FIELD_VALID_CHECKCRC" "hdr_tail (hdr_img off e) = hdr_tail (hdr_raw e)"
proof -
  have c: "hd_checkSum (hdr_img off e) = push_bit 16 (idx_crc off e AND 0xffff) OR (data_crc e AND 0xffff)"
    by (simp add: hdr_img_def)
  show "drop_bit 16 (hd_checkSum (hdr_img off e)) AND 0xffff = idx_crc off e AND 0xffff"
    "hd_checkSum (hdr_img off e) AND 0xffff = data_crc e AND 0xffff"
    unfolding c by (rule crc_parts)+
qed (simp_all add: hdr_img_def hdr_raw_def hdr_tail_def)

section \<open>Reading the log\<close>

lemma last_hit_restrict:
  assumes "n \<le> N" "\<And>k. n \<le> k \<Longrightarrow> k < N \<Longrightarrow> \<not> P k"
  shows "last_hit P N = last_hit P n"
proof -
  have "last_hit (\<lambda>i. P (n + i)) (N - n) = None" unfolding last_hit_None using assms(2) by auto
  then show ?thesis using last_hit_add[of P n "N - n"] assms(1) by simp
qed

lemma itemlen_match: "dl < 2 ^ 16 \<Longrightarrow> NV_ITEMLEN_MATCH (of_nat dl) len \<longleftrightarrow> dl mod unat len = 0"
proof -
  assume dl: "dl < 2 ^ 16"
  have "unat (of_nat dl mod ucast len :: u32) = dl mod unat len"
    using dl u16_less_65536[of len] by (simp add: unat_mod_distrib unat_of_nat_u32 unsigned_ucast_eq take_bit_nat_eq_self)
  then show ?thesis unfolding NV_ITEMLEN_MATCH_def by (metis unat_eq_zero)
qed

lemma ucast_of_nat16: "n < 2 ^ 16 \<Longrightarrow> (ucast (of_nat n :: u16) :: u32) = of_nat n"
  by (simp add: unsigned_of_nat take_bit_nat_eq_self)

lemma upt_split: "a \<le> b \<Longrightarrow> b \<le> c \<Longrightarrow> [a..<b] @ [b..<c] = [a..<c]"
  using upt_add_eq_append[of a b "c - b"] by simp

lemma replicate_8': "replicate 8 x = [x, x, x, x, x, x, x, x]"
  by (simp add: numeral_eq_Suc)

lemma blank_idx: "idx_of (replicate 8 0xff) = \<lparr>ix_offset = 0xffffffff, ix_size = 0xffff, ix_itemId = 0xff, ix_usedState = 0xff\<rparr>"
  by (simp add: idx_of_def replicate_8' get32_def get16_def)

text \<open>The item behind a hit of the search.\<close>

definition real_len :: "nv_len_tbl \<Rightarrow> nv_ent \<Rightarrow> nat" where
  "real_len t e = unat (nv_itemLengthValidCheck t (en_id e) (of_nat (length (en_data e))))"

lemma real_len_le: "length (en_data e) < 2 ^ 16 \<Longrightarrow> real_len t e \<le> length (en_data e)"
proof -
  assume "length (en_data e) < 2 ^ 16"
  then have u: "unat (of_nat (length (en_data e)) :: u16) = length (en_data e)" by (intro unat_of_nat_small) simp
  have "nv_itemLengthValidCheck t (en_id e) l \<le> l" for l
    by (auto simp: nv_itemLengthValidCheck_def split: option.splits)
  then show ?thesis unfolding real_len_def by (metis u word_le_nat_alt)
qed

context nor_flash begin

lemma flash_crc_at: "0 < piece \<Longrightarrow> flash_crc D c piece (of_nat a) n crc = xcrc32 (map (at (cells c)) [a..<a + n]) crc"
proof (induction n arbitrary: a crc rule: less_induct)
  case (less n)
  show ?case
  proof (cases "n = 0")
    case True
    then show ?thesis by (simp add: flash_crc.simps)
  next
    case False
    define k where "k = (if n > piece then piece else n)"
    have k: "0 < k" "k \<le> n" using False less.prems by (auto simp: k_def)
    have "flash_crc D c piece (of_nat a) n crc =
        flash_crc D c piece (of_nat (a + k)) (n - k) (xcrc32 (map (at (cells c)) [a..<a + k]) crc)"
      using False less.prems by (subst flash_crc.simps) (simp add: k_def[symmetric] Let_def read_at)
    also have "\<dots> = xcrc32 (map (at (cells c)) [a + k..<a + k + (n - k)]) (xcrc32 (map (at (cells c)) [a..<a + k]) crc)"
      by (rule less.IH) (use k less.prems in auto)
    also have "\<dots> = xcrc32 (map (at (cells c)) [a..<a + k] @ map (at (cells c)) [a + k..<a + n]) crc"
      using k by (simp add: xcrc32_append)
    also have "map (at (cells c)) [a..<a + k] @ map (at (cells c)) [a + k..<a + n] = map (at (cells c)) [a..<a + n]"
      using k by (simp add: upt_split flip: map_append)
    finally show ?thesis .
  qed
qed

lemma read_idx_ent: "nv_log (cells c) md s es \<Longrightarrow> k < length es \<Longrightarrow>
    read_idx D c (idx_addr md s k) = idx_img (log_end (content_at md s) (take k es)) (es ! k)"
  using nv_log_ent(3)[of "cells c" md s es k] by (simp add: read_idx_at ent_on_def)

lemma read_idx_blank:
  assumes "nv_log (cells c) md s es" "length es \<le> k" "k < MODULE_IDX_NUM md"
  shows "read_idx D c (idx_addr md s k) = \<lparr>ix_offset = 0xffffffff, ix_size = 0xffff, ix_itemId = 0xff, ix_usedState = 0xff\<rparr>"
proof -
  have "blank (cells c) (idx_at md s (length es)) (idx_at md s (MODULE_IDX_NUM md))" using assms(1) by (simp add: nv_log_def)
  then have "blank (cells c) (idx_at md s k) (idx_at md s (MODULE_IDX_NUM md))" using assms(2) by (auto simp: blank_def idx_at_def)
  then have "map (at (cells c)) [idx_at md s k..<idx_at md s k + 8] = replicate 8 0xff"
    by (rule blank_map) (rule idx_at_mono[OF assms(3)])
  then show ?thesis by (simp add: read_idx_at blank_idx)
qed

lemma data_small:
  assumes "md < DS_MAX_MODULS" "s < 2" "nv_log m md s es" "k < length es"
  shows "length (en_data (es ! k)) + 8 \<le> 15872"
proof -
  have "content_at md s \<le> log_end (content_at md s) (take k es)" by (rule log_end_ge)
  then show ?thesis using nv_log_ent(2)[OF assms(3,4)] nv_bounds(5)[OF assms(1,2)] by simp
qed

lemma index_read_item:
  assumes "md < DS_MAX_MODULS" "s < 2" "nv_log (cells c) md s es" "itemId \<noteq> ITEM_FIELD_IDLE"
  shows "nv_index_read D c md itemId len s (MODULE_IDX_NUM md) =
    (case nv_lookup es itemId (unat len) of Some k \<Rightarrow> (NV_SUCC, Some k) | None \<Rightarrow> (NV_ITEM_NOT_FOUND, None))"
proof -
  let ?tbl = "\<lambda>k. read_idx D c (idx_addr md s k)" and ?N = "MODULE_IDX_NUM md"
  have n: "length es \<le> ?N" using assms(3) by (simp add: nv_log_def)
  have no: "\<not> idx_hit itemId len (?tbl k)" if "length es \<le> k" "k < ?N" for k
    unfolding read_idx_blank[OF assms(3) that] using assms(4)
    by (simp add: idx_hit_def ITEM_VALID_FLAG_CHECK_def ITEM_FIELD_VALID_def ITEM_FIELD_VALID_SINGLE_def)
  have yes: "idx_hit itemId len (?tbl k) = ent_hit itemId (unat len) (es ! k)" if "k < length es" for k
  proof -
    let ?e = "es ! k"
    have l: "length (en_data ?e) + 8 < 2 ^ 16" using data_small[OF assms(1-3) that] by simp
    have "(ucast (of_nat (length (en_data ?e) + 8) :: u16) - of_nat HDR_SIZE :: u32) = of_nat (length (en_data ?e))"
      unfolding ucast_of_nat16[OF l] by simp
    then show ?thesis
      using assms(4) itemlen_match[of "length (en_data ?e)" len] l
      unfolding read_idx_ent[OF assms(3) that] idx_hit_def ent_hit_def idx_img_def by simp
  qed
  have "last_hit (\<lambda>k. idx_hit itemId len (?tbl k)) ?N = last_hit (\<lambda>k. idx_hit itemId len (?tbl k)) (length es)"
    by (rule last_hit_restrict[OF n no])
  also have "\<dots> = nv_lookup es itemId (unat len)" unfolding nv_lookup_def by (rule last_hit_cong[OF yes])
  finally show ?thesis
    unfolding nv_index_read_def nv_index_read_op_def by (subst idx_outer_find[where tbl = ?tbl]) (auto simp: read_idxs_at split: option.splits)
qed

lemma index_read_idle:
  assumes "nv_log (cells c) md s es"
  shows "nv_index_read D c md ITEM_FIELD_IDLE len s (MODULE_IDX_NUM md) =
    (if es = [] then (NV_ITEM_NOT_FOUND, None) else (NV_SUCC, Some (length es - 1)))"
proof -
  let ?tbl = "\<lambda>k. read_idx D c (idx_addr md s k)" and ?N = "MODULE_IDX_NUM md"
  let ?P = "\<lambda>k. idx_hit ITEM_FIELD_IDLE len (?tbl k)"
  have n: "length es \<le> ?N" using assms by (simp add: nv_log_def)
  have no: "\<not> ?P k" if "length es \<le> k" "k < ?N" for k
    unfolding read_idx_blank[OF assms that] by (simp add: idx_hit_def ITEM_FIELD_IDLE_def item_total_size_def)
  have yes: "?P k" if "k < length es" for k
    using nv_log_ent(1)[OF assms that] unfolding read_idx_ent[OF assms that] by (simp add: idx_hit_def idx_img_def ent_ok_def)
  have "last_hit ?P ?N = last_hit ?P (length es)" by (rule last_hit_restrict[OF n no])
  also have "\<dots> = (if es = [] then None else Some (length es - 1))"
  proof (cases "es = []")
    case False
    then obtain n where l: "length es = Suc n" by (cases es) auto
    then show ?thesis using yes[of n] False by (simp add: last_hit_Suc)
  qed simp
  finally show ?thesis
    unfolding nv_index_read_def nv_index_read_op_def by (subst idx_outer_find[where tbl = ?tbl]) (auto simp: read_idxs_at)
qed

lemma read_by_index:
  assumes "md < DS_MAX_MODULS" "s < 2" "nv_log (cells c) md s es" "k < length es" "ent_hit itemId (unat len) (es ! k)"
  shows "nv_flashReadByIndex D c t md itemId s k len = (NV_SUCC, take (real_len t (es ! k)) (en_data (es ! k)))"
proof -
  let ?e = "es ! k" and ?off = "log_end (content_at md s) (take k es)"
  let ?dl = "length (en_data ?e)" and ?rl = "real_len t ?e" and ?h = "hdr_img ?off ?e"
  note en = nv_log_ent[OF assms(3,4)] and rd = read_idx_ent[OF assms(3,4)]
  have dl: "?dl + 8 < 2 ^ 16" using data_small[OF assms(1-4)] by simp
  have rl: "?rl \<le> ?dl" using real_len_le[of ?e t] dl by simp
  have hit: "ITEM_VALID_FLAG_CHECK (en_flag ?e)" "en_id ?e = itemId" "?dl mod unat len = 0" using assms(5) by (simp_all add: ent_hit_def)
  have ix: "ix_usedState (idx_img ?off ?e) = en_flag ?e" "ix_offset (idx_img ?off ?e) = of_nat ?off" by (simp_all add: idx_img_def)
  have hd: "read_hdr D c (of_nat ?off) = ?h" using en(3) by (simp add: read_hdr_def read_at ent_on_def)
  have sz: "unat (hd_size ?h) = ?dl" "(ucast (hd_size ?h) :: u32) = of_nat ?dl"
    using dl by (simp_all add: hdr_img_sums unat_of_nat_small ucast_of_nat16)
  have m: "NV_ITEMLEN_MATCH (ucast (hd_size ?h)) len" unfolding sz(2) using itemlen_match[of ?dl len] dl hit(3) by simp
  have hc: "ITEM_HDR_VALID_CHECK (hd_used ?h)" "hd_used ?h \<noteq> ITEM_HDR_FIELD_VALID_CHECKSUM"
    by (simp_all add: hdr_img_sums ITEM_HDR_VALID_CHECK_def ITEM_HDR_FIELD_VALID_CHECKCRC_def ITEM_HDR_FIELD_VALID_CHECKSUM_def)
  have rle: "unat (nv_itemLengthValidCheck t itemId (hd_size ?h)) = ?rl" by (simp add: real_len_def hit(2) hdr_img_sums)
  have dat: "map (at (cells c)) [?off + 8..<?off + 8 + ?dl] = en_data ?e" using en(3) by (simp add: ent_on_def)
  have sp: "map (at (cells c)) [?off + 8..<?off + 8 + ?rl] @ map (at (cells c)) [?off + 8 + ?rl..<?off + 8 + ?dl] = en_data ?e"
    using rl dat by (simp add: upt_split flip: map_append)
  have buf: "flash_read D c (of_nat ?off + of_nat HDR_SIZE) ?rl = take ?rl (en_data ?e)"
  proof -
    have "flash_read D c (of_nat (?off + 8)) ?rl = map (at (cells c)) [?off + 8..<?off + 8 + ?rl]" by (rule read_at)
    also have "\<dots> = take ?rl (en_data ?e)" using sp by (metis append_eq_conv_conj length_map length_upt add_diff_cancel_left')
    finally show ?thesis by simp
  qed
  have crc: "flash_crc D c 32 (of_nat ?off + of_nat HDR_SIZE + of_nat ?rl) (?dl - ?rl) (xcrc32 (take ?rl (en_data ?e)) 0xffffffff) =
      xcrc32 (en_data ?e) 0xffffffff"
  proof -
    have "flash_crc D c 32 (of_nat (?off + 8 + ?rl)) (?dl - ?rl) (xcrc32 (take ?rl (en_data ?e)) 0xffffffff) =
        xcrc32 (map (at (cells c)) [?off + 8 + ?rl..<?off + 8 + ?rl + (?dl - ?rl)]) (xcrc32 (take ?rl (en_data ?e)) 0xffffffff)"
      by (rule flash_crc_at) simp
    also have "\<dots> = xcrc32 (drop ?rl (en_data ?e)) (xcrc32 (take ?rl (en_data ?e)) 0xffffffff)"
    proof -
      have "?off + 8 + ?rl + (?dl - ?rl) = ?off + 8 + ?dl" using rl by simp
      moreover have "map (at (cells c)) [?off + 8 + ?rl..<?off + 8 + ?dl] = drop ?rl (en_data ?e)"
        using sp rl by (simp add: append_eq_conv_conj)
      ultimately show ?thesis by metis
    qed
    finally show ?thesis by (simp flip: xcrc32_append)
  qed
  show ?thesis
    unfolding nv_flashReadByIndex_def rd ix hd Let_def rle sz(1)
    using hit(1,2) m hc buf crc
    by (simp add: hdr_img_sums(2,4,6) data_crc_def)
qed

end

section \<open>Appending an item\<close>

lemma oft_check:
  assumes "md < DS_MAX_MODULS" "s < 2" "content_at md s \<le> off" "off + sz \<le> sect_end md s" "0 < sz" "sz < 2 ^ 16"
  shows "ITEM_OFT_CHECK (of_nat off) (of_nat sz) md s"
proof -
  have lt: "sect_end md s < 2 ^ 32" using nv_bounds(3)[OF assms(1,2)] by simp
  have u: "unat (of_nat off :: u32) = off" "unat (of_nat (content_at md s) :: u32) = content_at md s"
    "unat (of_nat (sect_end md s) :: u32) = sect_end md s" "unat (of_nat sz :: u32) = sz"
    using assms lt by (simp_all add: unat_of_nat_u32)
  have d: "unat (of_nat (sect_end md s) - of_nat off :: u32) = sect_end md s - off"
    using u assms(4,5) by (simp add: unat_sub word_le_nat_alt)
  show ?thesis
    unfolding ITEM_OFT_CHECK_def nv_addr ucast_of_nat16[OF assms(6)] word_le_nat_alt word_less_nat_alt u d
    using assms(3-5) by simp
qed

lemma idx_bytes_state: "idx_bytes (i\<lparr>ix_usedState := x\<rparr>) = take 7 (idx_bytes i) @ [x]"
  by (simp add: idx_bytes_def u32_bytes_def u16_bytes_def)

context nor_flash begin

lemma next_offset_log:
  assumes "md < DS_MAX_MODULS" "s < 2" "nv_log (cells c) md s es"
  shows "next_offset D c md s (length es) = Some (of_nat (log_end (content_at md s) es))"
proof (cases "length es")
  case 0
  then show ?thesis by (simp add: next_offset_def nv_addr)
next
  case (Suc n)
  let ?e = "es ! n" and ?off = "log_end (content_at md s) (take n es)"
  have n: "n < length es" using Suc by simp
  note en = nv_log_ent[OF assms(3) n]
  have dl: "length (en_data ?e) + 8 < 2 ^ 16" using data_small[OF assms n] by simp
  have hd: "read_hdr D c (of_nat ?off) = hdr_img ?off ?e" using en(3) by (simp add: read_hdr_def read_at ent_on_def)
  have fl: "ITEM_FLAG_CHECK (en_flag ?e)" using en(1) by (auto simp: ent_ok_def ITEM_FLAG_CHECK_def)
  have oc: "ITEM_OFT_CHECK (of_nat ?off) (of_nat (length (en_data ?e) + 8)) md s"
    by (rule oft_check[OF assms(1,2) en(4)]) (use en(2) dl in simp_all)
  have sm: "?off + (length (en_data ?e) + 8) < 2 ^ 31" using en(2) nv_bounds(3)[OF assms(1,2)] by simp
  have "(of_nat ?off + ucast (of_nat (length (en_data ?e) + 8) :: u16) :: u32) = of_nat (?off + (length (en_data ?e) + 8))"
    unfolding ucast_of_nat16[OF dl] by simp
  then have al: "align4 (of_nat ?off + ucast (of_nat (length (en_data ?e) + 8) :: u16)) = of_nat (align4n (?off + (length (en_data ?e) + 8)))"
    using align4_of_nat[OF sm] by simp
  have le: "log_end (content_at md s) es = align4n (?off + (length (en_data ?e) + 8))"
    using log_end_take_Suc[OF n, of "content_at md s"] Suc by (simp add: ac_simps)
  show ?thesis
    unfolding next_offset_def Suc diff_Suc_1 read_idx_ent[OF assms(3) n] Let_def
    using hd fl oc al le by (simp add: idx_img_def hdr_img_sums(1) idx_crc_def)
qed

text \<open>The writes of \<open>nv_write_item\<close> into erased flash.\<close>

lemma write_content_ram:
  assumes "writable c" "blank (cells c) (off + 8) (off + 8 + length buf)" "off + 8 + length buf \<le> 2 ^ 31"
    "unat len = length buf"
  obtains c' where "write_content D c (FromRam buf) itemId len (of_nat off) sz =
      (Inr (hdr_raw \<lparr>en_id = itemId, en_flag = f, en_data = buf\<rparr>, data_crc \<lparr>en_id = itemId, en_flag = f, en_data = buf\<rparr>), c')"
    "cells c' = nor_write (cells c) (of_nat (off + 8)) buf" "writable c'"
proof -
  let ?c = "flash_write D c (of_nat (off + 8)) buf"
  have w: "cells ?c = nor_write (cells c) (of_nat (off + 8)) buf" "writable ?c"
    using flash_write_cells[OF assms(1), of buf "of_nat (off + 8)"] assms(3) by auto
  have "flash_crc D ?c 16 (of_nat (off + 8)) (length buf) 0xffffffff = xcrc32 buf 0xffffffff"
    using flash_crc_at[of 16 ?c "off + 8" "length buf" "0xffffffff"] map_write_blank[OF assms(2,3)] unfolding w(1) by simp
  moreover have "of_nat (length buf) = len" by (simp flip: assms(4))
  ultimately have "write_content D c (FromRam buf) itemId len (of_nat off) sz =
      (Inr (hdr_raw \<lparr>en_id = itemId, en_flag = f, en_data = buf\<rparr>, data_crc \<lparr>en_id = itemId, en_flag = f, en_data = buf\<rparr>), ?c)"
    by (simp add: write_content_def Let_def assms(4) hdr_raw_def data_crc_def)
  then show thesis using that w by blast
qed

lemma write_item_raw:
  fixes itemId :: u8
  assumes "md < DS_MAX_MODULS" "s < 2" "writable c" "nv_log (cells c) md s es" "length es < MODULE_IDX_NUM md" "buf \<noteq> []"
    "unat len = length buf" "log_end (content_at md s) es + 8 + length buf \<le> sect_end md s"
    "f = (if single then ITEM_FIELD_VALID_SINGLE else ITEM_FIELD_VALID)"
  defines "e \<equiv> \<lparr>en_id = itemId, en_flag = f, en_data = buf\<rparr>" and "ia \<equiv> idx_at md s (length es)"
    and "off \<equiv> log_end (content_at md s) es"
  obtains c' where "nv_write_item D c single md itemId s (length es) len (FromRam buf) = (NV_SUCC, c')" "writable c'"
    "ent_on (cells c') ia off e"
    "\<And>j. j < 2 ^ 32 \<Longrightarrow> \<not> (ia \<le> j \<and> j < ia + 8) \<Longrightarrow> \<not> (off \<le> j \<and> j < off + 8 + length buf) \<Longrightarrow> at (cells c') j = at (cells c) j"
proof -
  let ?L = "length buf" and ?i0 = "(idx_img off e)\<lparr>ix_usedState := ITEM_FIELD_OPERATION\<rparr>"
  note b = nv_bounds[OF assms(1,2)]
  have io: "ia + 8 \<le> off"
    using idx_at_mono[OF assms(5), of md s] b(1) log_end_ge[of "content_at md s" es] unfolding ia_def off_def by simp
  have hi: "off + 8 + ?L \<le> 2 ^ 31" using assms(8) b(3) unfolding off_def by simp
  have bl: "blank (cells c) ia (ia + 8)" "blank (cells c) off (off + 8 + ?L)"
    using assms(4,8) idx_at_mono[OF assms(5), of md s] unfolding nv_log_def blank_def ia_def off_def by auto
  have L: "?L + 8 < 2 ^ 16" using assms(8) log_end_ge[of "content_at md s" es] b(5) unfolding off_def by simp
  have len: "len = of_nat ?L" by (simp flip: assms(7))
  have oc: "ITEM_OFT_CHECK (of_nat off) (of_nat (?L + 8)) md s"
    by (rule oft_check[OF assms(1,2)]) (use log_end_ge[of "content_at md s" es] assms(8) L in \<open>simp_all add: off_def\<close>)
  have no: "next_offset D c md s (length es) = Some (of_nat off)" using next_offset_log[OF assms(1,2,4)] unfolding off_def .
  have i0: "?i0 = \<lparr>ix_offset = of_nat off, ix_size = len + of_nat HDR_SIZE, ix_itemId = itemId, ix_usedState = ITEM_FIELD_OPERATION\<rparr>"
    by (simp add: idx_img_def e_def len)
  obtain c1 where c1: "flash_writeWithCheck D c (of_nat ia) (idx_bytes ?i0) = (True, c1)"
    "cells c1 = nor_write (cells c) (of_nat ia) (idx_bytes ?i0)" "writable c1"
    using checked_blank[OF assms(3), of ia "idx_bytes ?i0"] bl(1) io hi by auto
  have a1: "at (cells c1) j = (if ia \<le> j \<and> j < ia + 8 then idx_bytes ?i0 ! (j - ia) else at (cells c) j)" if "j < 2 ^ 32" for j
    using at_write_blank[of "cells c" ia "idx_bytes ?i0" j] bl(1) io hi that by (simp add: c1(2))
  have b1: "blank (cells c1) off (off + 8 + ?L)" unfolding blank_def
  proof (intro allI impI)
    fix j assume j: "off \<le> j \<and> j < off + 8 + ?L"
    then have "j < 2 ^ 32" using hi by simp
    then show "at (cells c1) j = 0xff" using a1[of j] j io bl(2) unfolding blank_def by simp
  qed
  have b1': "blank (cells c1) (off + 8) (off + 8 + ?L)" using b1 by (simp add: blank_def)
  obtain c2 where c2: "write_content D c1 (FromRam buf) itemId len (of_nat off) (ix_size ?i0) = (Inr (hdr_raw e, data_crc e), c2)"
    "cells c2 = nor_write (cells c1) (of_nat (off + 8)) buf" "writable c2"
    using write_content_ram[OF c1(3) b1' hi assms(7)] unfolding e_def by blast
  have a2: "at (cells c2) j = (if off + 8 \<le> j \<and> j < off + 8 + ?L then buf ! (j - (off + 8)) else at (cells c1) j)" if "j < 2 ^ 32" for j
    using at_write_blank[OF b1' hi that] by (simp add: c2(2))
  have b2: "blank (cells c2) off (off + length (hdr_bytes (hdr_img off e)))"
    using b1 a2 hi unfolding blank_def by simp
  obtain c3 where c3: "flash_writeWithCheck D c2 (of_nat off) (hdr_bytes (hdr_img off e)) = (True, c3)"
    "cells c3 = nor_write (cells c2) (of_nat off) (hdr_bytes (hdr_img off e))" "writable c3"
    using checked_blank[OF c2(3) b2] hi by auto
  have a3: "at (cells c3) j = (if off \<le> j \<and> j < off + 8 then hdr_bytes (hdr_img off e) ! (j - off) else at (cells c2) j)" if "j < 2 ^ 32" for j
    using at_write_blank[OF b2 _ that] hi by (simp add: c3(2))
  have f7: "at (cells c3) (ia + 7) = ITEM_FIELD_OPERATION"
    using a3[of "ia + 7"] a2[of "ia + 7"] a1[of "ia + 7"] io hi by (simp add: idx_bytes_def u32_bytes_def u16_bytes_def)
  have fl: "ITEM_FIELD_OPERATION AND f = f"
    unfolding assms(9) by (simp add: ITEM_FIELD_OPERATION_def ITEM_FIELD_VALID_def ITEM_FIELD_VALID_SINGLE_def)
  obtain c4 where c4: "flash_writeWithCheck D c3 (of_nat (ia + 7)) [f] = (True, c4)"
    "cells c4 = nor_write (cells c3) (of_nat (ia + 7)) [f]" "writable c4"
  proof (rule checked_write[OF c3(3), of "ia + 7" "[f]"])
    show "ia + 7 + length [f] \<le> 2 ^ 32" "length [f] < 2 ^ 31" "ia + 7 < 2 ^ 32" using io hi by simp_all
    show "at (cells c3) (ia + 7 + i) AND [f] ! i = [f] ! i" if "i < length [f]" for i using that f7 fl by simp
  qed
  have a4: "at (cells c4) j = (if j = ia + 7 then f else at (cells c3) j)" if "j < 2 ^ 32" for j
    using at_write[of "ia + 7" "[f]" j "cells c3"] that io hi f7 fl by (auto simp: c4(2))
  have "nv_write_item D c single md itemId s (length es) len (FromRam buf) = (NV_SUCC, c4)"
  proof -
    have i1: "?i0\<lparr>ix_usedState := f\<rparr> = idx_img off e" by (simp add: idx_img_def e_def)
    have ck: "xcrc32 (take (IDX_SIZE - 1) (idx_bytes (idx_img off e))) 0xffffffff = idx_crc off e" by (simp add: idx_crc_def)
    have h1: "(hdr_raw e)\<lparr>hd_checkSum := push_bit 16 (idx_crc off e AND 0xffff) OR (data_crc e AND 0xffff)\<rparr> = hdr_img off e"
      by (simp only: hdr_img_def)
    have oc': "ITEM_OFT_CHECK (ix_offset ?i0) (ix_size ?i0) md s" using oc by (simp add: idx_img_def e_def)
    have of0: "ix_offset ?i0 = of_nat off" "ix_offset (idx_img off e) = of_nat off" "ix_usedState (idx_img off e) = f" by (simp_all add: idx_img_def e_def)
    have w1: "flash_writeWithCheck D c (idx_addr md s (length es)) (idx_bytes ?i0) = (True, c1)" using c1(1) by (simp add: nv_addr ia_def)
    have w4: "flash_writeWithCheck D c3 (idx_addr md s (length es) + 7) [f] = (True, c4)" using c4(1) by (simp add: nv_addr ia_def)
    have "nv_write_item D c single md itemId s (length es) len (FromRam buf) = (NV_SUCC, snd (flash_writeWithCheck D c3 (idx_addr md s (length es) + 7) [f]))"
      unfolding nv_write_item_def no option.case Let_def i0[symmetric] assms(9)[symmetric] i1 ck w1 prod.case of0(1) c2(1) sum.case h1 of0(2,3) c3(1)
      using oc' of0 by simp
    then show ?thesis by (simp add: w4)
  qed
  moreover have "ent_on (cells c4) ia off e" unfolding ent_on_def
  proof (intro conjI)
    show "map (at (cells c4)) [ia..<ia + 8] = idx_bytes (idx_img off e)"
    proof (rule nth_equalityI)
      fix i assume "i < length (map (at (cells c4)) [ia..<ia + 8])"
      then have i: "i < 8" by simp
      have ib: "idx_bytes (idx_img off e) = take 7 (idx_bytes ?i0) @ [f]"
        using idx_bytes_state[of f ?i0] by (simp add: idx_img_def e_def)
      have "at (cells c4) (ia + i) = (if i = 7 then f else idx_bytes ?i0 ! i)"
        using a4[of "ia + i"] a3[of "ia + i"] a2[of "ia + i"] a1[of "ia + i"] i io hi by simp
      then show "map (at (cells c4)) [ia..<ia + 8] ! i = idx_bytes (idx_img off e) ! i"
        using i unfolding ib by (auto simp: nth_append less_Suc_eq)
    qed simp
    show "map (at (cells c4)) [off..<off + 8] = hdr_bytes (hdr_img off e)"
      by (rule nth_equalityI) (use a4 a3 io hi in simp_all)
    show "map (at (cells c4)) [off + 8..<off + 8 + length (en_data e)] = en_data e"
      by (rule nth_equalityI) (use a4 a3 a2 io hi in \<open>simp_all add: e_def\<close>)
  qed
  moreover have "at (cells c4) j = at (cells c) j" if "j < 2 ^ 32" "\<not> (ia \<le> j \<and> j < ia + 8)" "\<not> (off \<le> j \<and> j < off + 8 + ?L)" for j
    using a4[OF that(1)] a3[OF that(1)] a2[OF that(1)] a1[OF that(1)] that(2,3) by auto
  ultimately show thesis using that c4(3) by blast
qed

end

section \<open>The log after a write\<close>

lemma ent_on_frame:
  assumes "ent_on m ia off e" "\<And>j. ia \<le> j \<Longrightarrow> j < ia + 8 \<Longrightarrow> at m' j = at m j"
    "\<And>j. off \<le> j \<Longrightarrow> j < off + 8 + length (en_data e) \<Longrightarrow> at m' j = at m j"
  shows "ent_on m' ia off e"
proof -
  have "map (at m') [ia..<ia + 8] = map (at m) [ia..<ia + 8]" by (rule map_at_cong) (rule assms(2))
  moreover have "map (at m') [off..<off + 8] = map (at m) [off..<off + 8]" by (rule map_at_cong) (rule assms(3), simp_all)
  moreover have "map (at m') [off + 8..<off + 8 + length (en_data e)] = map (at m) [off + 8..<off + 8 + length (en_data e)]"
    by (rule map_at_cong) (rule assms(3), simp_all)
  ultimately show ?thesis using assms(1) unfolding ent_on_def by metis
qed

lemma log_end_fold: "log_end a es = fold (\<lambda>d a. align4n (a + 8 + length d)) (map en_data es) a"
  by (induction es arbitrary: a) simp_all

lemma item_before_end:
  assumes "k < length es"
  shows "log_end a (take k es) + 8 + length (en_data (es ! k)) \<le> log_end a es"
proof -
  have "log_end a (take k es) + 8 + length (en_data (es ! k)) \<le> log_end a (take (Suc k) es)"
    unfolding log_end_take_Suc[OF assms] by (rule align4n_bounds(1))
  also have "\<dots> \<le> log_end a (take (length es) es)" by (rule log_end_take_mono) (use assms in simp)
  finally show ?thesis by simp
qed

lemma nv_log_snoc:
  assumes "md < DS_MAX_MODULS" "s < 2" "nv_log m md s es" "length es < MODULE_IDX_NUM md" "ent_ok e"
    "log_end (content_at md s) es + 8 + length (en_data e) \<le> sect_end md s"
    "ent_on m' (idx_at md s (length es)) (log_end (content_at md s) es) e"
    "\<And>j. j < 2 ^ 32 \<Longrightarrow> \<not> (idx_at md s (length es) \<le> j \<and> j < idx_at md s (length es) + 8) \<Longrightarrow>
       \<not> (log_end (content_at md s) es \<le> j \<and> j < log_end (content_at md s) es + 8 + length (en_data e)) \<Longrightarrow> at m' j = at m j"
  shows "nv_log m' md s (es @ [e])"
proof -
  let ?ia = "idx_at md s (length es)" and ?off = "log_end (content_at md s) es"
  note b = nv_bounds[OF assms(1,2)]
  have io: "?ia + 8 \<le> content_at md s" using idx_at_mono[OF assms(4), of md s] b(1) by simp
  have co: "content_at md s \<le> ?off" by (rule log_end_ge)
  have se: "sect_end md s < 2 ^ 32" using b(3) by simp
  have old: "ent_on m' (idx_at md s k) (log_end (content_at md s) (take k es)) (es ! k)" if k: "k < length es" for k
  proof (rule ent_on_frame[OF nv_log_ent(3)[OF assms(3) k]])
    fix j assume j: "idx_at md s k \<le> j" "j < idx_at md s k + 8"
    then show "at m' j = at m j" using idx_at_mono[OF k, of md s] io co b(2) se by (intro assms(8)) simp_all
  next
    fix j assume j: "log_end (content_at md s) (take k es) \<le> j" "j < log_end (content_at md s) (take k es) + 8 + length (en_data (es ! k))"
    then show "at m' j = at m j"
      using item_before_end[OF k, of "content_at md s"] nv_log_ent(2,4)[OF assms(3) k] io se by (intro assms(8)) simp_all
  qed
  have le: "log_end (content_at md s) (es @ [e]) = align4n (?off + 8 + length (en_data e))" by (simp add: log_end_append)
  have bl: "blank m ?ia (idx_at md s (MODULE_IDX_NUM md))" "blank m ?off (sect_end md s)" using assms(3) by (simp_all add: nv_log_def)
  show ?thesis unfolding nv_log_def
  proof (intro conjI allI impI)
    show "length (es @ [e]) \<le> MODULE_IDX_NUM md" using assms(4) by simp
  next
    fix k assume "k < length (es @ [e])"
    then have "k < length es \<or> k = length es" by auto
    then show "ent_ok ((es @ [e]) ! k)"
      "log_end (content_at md s) (take k (es @ [e])) + 8 + length (en_data ((es @ [e]) ! k)) \<le> sect_end md s"
      "ent_on m' (idx_at md s k) (log_end (content_at md s) (take k (es @ [e]))) ((es @ [e]) ! k)"
      using nv_log_ent[OF assms(3)] old assms(5,6,7) by (auto simp: nth_append)
  next
    show "blank m' (idx_at md s (length (es @ [e]))) (idx_at md s (MODULE_IDX_NUM md))" unfolding blank_def
    proof (intro allI impI)
      fix j assume j: "idx_at md s (length (es @ [e])) \<le> j \<and> j < idx_at md s (MODULE_IDX_NUM md)"
      then have "at m' j = at m j" using b(1,2) co se by (intro assms(8)) (simp_all add: idx_at_def)
      then show "at m' j = 0xff" using bl(1) j unfolding blank_def by (simp add: idx_at_def)
    qed
    show "blank m' (log_end (content_at md s) (es @ [e])) (sect_end md s)" unfolding blank_def le
    proof (intro allI impI)
      fix j assume j: "align4n (?off + 8 + length (en_data e)) \<le> j \<and> j < sect_end md s"
      then have "?off + 8 + length (en_data e) \<le> j" using align4n_bounds(1)[of "?off + 8 + length (en_data e)"] by simp
      moreover from this have "at m' j = at m j" using io co se j by (intro assms(8)) simp_all
      ultimately show "at m' j = 0xff" using bl(2) j unfolding blank_def by simp
    qed
  qed
qed

lemma nv_log_delete:
  assumes "md < DS_MAX_MODULS" "s < 2" "nv_log m md s es" "k < length es"
    "\<And>j. j < 2 ^ 32 \<Longrightarrow> j \<noteq> idx_at md s k + 7 \<Longrightarrow> at m' j = at m j" "at m' (idx_at md s k + 7) = ITEM_FIELD_INVALID"
  shows "nv_log m' md s (es[k := (es ! k)\<lparr>en_flag := ITEM_FIELD_INVALID\<rparr>])"
proof -
  let ?e = "(es ! k)\<lparr>en_flag := ITEM_FIELD_INVALID\<rparr>" and ?off = "log_end (content_at md s) (take k es)"
  let ?es = "es[k := ?e]"
  note b = nv_bounds[OF assms(1,2)]
  have n: "length es \<le> MODULE_IDX_NUM md" using assms(3) by (simp add: nv_log_def)
  have ik: "idx_at md s k + 8 \<le> idx_at md s (length es)" "idx_at md s (length es) \<le> content_at md s"
    using idx_at_mono[OF assms(4)] n b(1) by (simp_all add: idx_at_def)
  have se: "sect_end md s < 2 ^ 32" using b(3) by simp
  have datas: "log_end a (take j ?es) = log_end a (take j es)" for a j
  proof -
    have "map en_data (take j ?es) = map en_data (take j es)"
    proof (rule nth_equalityI)
      fix i assume "i < length (map en_data (take j ?es))"
      then show "map en_data (take j ?es) ! i = map en_data (take j es) ! i" by (cases "i = k") simp_all
    qed simp
    then show ?thesis by (simp only: log_end_fold)
  qed
  have le: "log_end a ?es = log_end a es" for a using datas[of a "length es"] by simp
  have upd: "ent_on m' (idx_at md s k) ?off ?e"
  proof -
    have o: "ent_on m (idx_at md s k) ?off (es ! k)" by (rule nv_log_ent(3)[OF assms(3,4)])
    have lo: "content_at md s \<le> ?off" "?off + 8 + length (en_data (es ! k)) \<le> sect_end md s" using nv_log_ent[OF assms(3,4)] by simp_all
    have ib: "idx_bytes (idx_img ?off ?e) = take 7 (idx_bytes (idx_img ?off (es ! k))) @ [ITEM_FIELD_INVALID]"
      using idx_bytes_state[of ITEM_FIELD_INVALID "idx_img ?off (es ! k)"] by (simp add: idx_img_def)
    have crc: "hdr_img ?off ?e = hdr_img ?off (es ! k)"
    proof -
      have "idx_crc ?off ?e = idx_crc ?off (es ! k)"
        unfolding idx_crc_def ib by (simp add: idx_bytes_def u32_bytes_def u16_bytes_def)
      then show ?thesis by (simp add: hdr_img_def hdr_raw_def data_crc_def)
    qed
    have dd: "en_data ?e = en_data (es ! k)" by simp
    show ?thesis unfolding ent_on_def crc dd
    proof (intro conjI)
      show "map (at m') [idx_at md s k..<idx_at md s k + 8] = idx_bytes (idx_img ?off ?e)"
      proof (rule nth_equalityI)
        fix i assume "i < length (map (at m') [idx_at md s k..<idx_at md s k + 8])"
        then have i: "i < 8" by simp
        have "at m (idx_at md s k + i) = idx_bytes (idx_img ?off (es ! k)) ! i"
          using arg_cong[of _ _ "\<lambda>l. l ! i"] o i unfolding ent_on_def by (metis length_map length_upt nth_map nth_upt add_diff_cancel_left' add_less_cancel_left)
        then show "map (at m') [idx_at md s k..<idx_at md s k + 8] ! i = idx_bytes (idx_img ?off ?e) ! i"
          using i assms(5)[of "idx_at md s k + i"] assms(6) ik b(2) se unfolding ib by (cases "i = 7") (auto simp: nth_append)
      qed simp
      have fr: "at m' j = at m j" if "?off \<le> j" "j < sect_end md s" for j
        using that lo ik se by (intro assms(5)) simp_all
      have "map (at m') [?off..<?off + 8] = map (at m) [?off..<?off + 8]" by (rule map_at_cong) (use fr lo in simp)
      then show "map (at m') [?off..<?off + 8] = hdr_bytes (hdr_img ?off (es ! k))" using o unfolding ent_on_def by metis
      have "map (at m') [?off + 8..<?off + 8 + length (en_data (es ! k))] = map (at m) [?off + 8..<?off + 8 + length (en_data (es ! k))]"
        by (rule map_at_cong) (use fr lo in simp)
      then show "map (at m') [?off + 8..<?off + 8 + length (en_data (es ! k))] = en_data (es ! k)" using o unfolding ent_on_def by metis
    qed
  qed
  have old: "ent_on m' (idx_at md s i) (log_end (content_at md s) (take i es)) (es ! i)" if i: "i < length es" "i \<noteq> k" for i
  proof (rule ent_on_frame[OF nv_log_ent(3)[OF assms(3) i(1)]])
    fix j assume j: "idx_at md s i \<le> j" "j < idx_at md s i + 8"
    have "j < idx_at md s (length es)" using j idx_at_mono[OF i(1), of md s] by simp
    then show "at m' j = at m j" using j i(2) ik b(2) se by (intro assms(5)) (auto simp: idx_at_def)
  next
    fix j assume j: "log_end (content_at md s) (take i es) \<le> j" "j < log_end (content_at md s) (take i es) + 8 + length (en_data (es ! i))"
    then show "at m' j = at m j" using nv_log_ent(2,4)[OF assms(3) i(1)] ik se by (intro assms(5)) simp_all
  qed
  have bl: "blank m (idx_at md s (length es)) (idx_at md s (MODULE_IDX_NUM md))" "blank m (log_end (content_at md s) es) (sect_end md s)"
    using assms(3) by (simp_all add: nv_log_def)
  show ?thesis unfolding nv_log_def
  proof (intro conjI allI impI)
    show "length ?es \<le> MODULE_IDX_NUM md" using n by simp
  next
    fix i assume "i < length ?es"
    then have i: "i < length es" by simp
    have ei: "?es ! i = (if i = k then ?e else es ! i)" using i by simp
    show "ent_ok (?es ! i)" unfolding ei using nv_log_ent(1)[OF assms(3) i] by (auto simp: ent_ok_def)
    show "log_end (content_at md s) (take i ?es) + 8 + length (en_data (?es ! i)) \<le> sect_end md s"
      unfolding datas ei using nv_log_ent(2)[OF assms(3) i] by auto
    show "ent_on m' (idx_at md s i) (log_end (content_at md s) (take i ?es)) (?es ! i)"
      unfolding datas ei using upd old[OF i] by auto
  next
    show "blank m' (idx_at md s (length ?es)) (idx_at md s (MODULE_IDX_NUM md))" unfolding blank_def
    proof (intro allI impI)
      fix j assume j: "idx_at md s (length ?es) \<le> j \<and> j < idx_at md s (MODULE_IDX_NUM md)"
      then have "at m' j = at m j" using ik b(1,2) se by (intro assms(5)) simp_all
      then show "at m' j = 0xff" using bl(1) j unfolding blank_def by simp
    qed
    show "blank m' (log_end (content_at md s) ?es) (sect_end md s)" unfolding blank_def le
    proof (intro allI impI)
      fix j assume j: "log_end (content_at md s) es \<le> j \<and> j < sect_end md s"
      then have "at m' j = at m j" using ik se log_end_ge[of "content_at md s" es] by (intro assms(5)) simp_all
      then show "at m' j = 0xff" using bl(2) j unfolding blank_def by simp
    qed
  qed
qed

section \<open>The write operation\<close>

definition nv_fits :: "nat \<Rightarrow> nat \<Rightarrow> nv_ent list \<Rightarrow> nat \<Rightarrow> bool" where
  "nv_fits md s es L \<longleftrightarrow> length es < MODULE_IDX_NUM md \<and> log_end (content_at md s) es + 8 + L \<le> sect_end md s"

text \<open>The log after writing: the entry the index search finds is marked when the item is kept single.\<close>

definition log_write :: "bool \<Rightarrow> u8 \<Rightarrow> u8 list \<Rightarrow> nv_ent list \<Rightarrow> nv_ent list" where
  "log_write single itemId buf es =
     (case (if single then nv_lookup es itemId (length buf) else None) of
        Some k \<Rightarrow> es[k := (es ! k)\<lparr>en_flag := ITEM_FIELD_INVALID\<rparr>]
      | None \<Rightarrow> es) @ [\<lparr>en_id = itemId, en_flag = (if single then ITEM_FIELD_VALID_SINGLE else ITEM_FIELD_VALID), en_data = buf\<rparr>]"

lemma total_len: "unat len = L \<Longrightarrow> ITEM_TOTAL_LEN len = of_nat (L + 8)"
proof -
  assume "unat len = L"
  then have "(ucast len :: u32) = of_nat L" by (metis of_nat_unat)
  then show ?thesis by (simp add: ITEM_TOTAL_LEN_def)
qed

lemma nv_lookup_less: "nv_lookup es itemId L = Some k \<Longrightarrow> k < length es \<and> ent_hit itemId L (es ! k)"
  by (simp add: nv_lookup_def last_hit_Some)

context nor_flash begin

text \<open>The check of the free space leaves out the alignment of the new item.\<close>

lemma find_slot_last:
  assumes "md < DS_MAX_MODULS" "s < 2" "nv_log (cells c) md s es" "length es = Suc n" "Suc n < MODULE_IDX_NUM md" "unat len = L"
    "log_end (content_at md s) (take n es) + 8 + length (en_data (es ! n)) + (L + 8) \<le> sect_end md s"
  shows "find_slot D c False md len s = (False, Suc n)"
proof -
  have k: "n < length es" using assms(4) by simp
  let ?e = "es ! n" and ?off = "log_end (content_at md s) (take n es)"
  note en = nv_log_ent[OF assms(3) k] and b = nv_bounds[OF assms(1,2)]
  have dl: "length (en_data ?e) + 8 < 2 ^ 16" using data_small[OF assms(1-3) k] by simp
  have sum: "(of_nat ?off + ucast (of_nat (length (en_data ?e) + 8) :: u16) + ITEM_TOTAL_LEN len :: u32) =
      of_nat (?off + 8 + length (en_data ?e) + (L + 8))"
    unfolding ucast_of_nat16[OF dl] total_len[OF assms(6)] by simp
  have "\<not> (of_nat ?off + ucast (of_nat (length (en_data ?e) + 8) :: u16) + ITEM_TOTAL_LEN len > MODULE_SECT_END md s)"
  proof -
    have "unat (of_nat (?off + 8 + length (en_data ?e) + (L + 8)) :: u32) = ?off + 8 + length (en_data ?e) + (L + 8)"
      "unat (of_nat (sect_end md s) :: u32) = sect_end md s"
      by (rule unat_of_nat_u32, use assms(7) b(3) in simp)+
    then show ?thesis unfolding sum nv_addr word_less_nat_alt using assms(7) by simp
  qed
  moreover have "ITEM_FLAG_CHECK (en_flag ?e)" using en(1) by (auto simp: ent_ok_def ITEM_FLAG_CHECK_def)
  moreover have "ITEM_OFT_CHECK (of_nat ?off) (of_nat (length (en_data ?e) + 8)) md s"
    by (rule oft_check[OF assms(1,2) en(4)]) (use en(2) dl in simp_all)
  moreover have "n \<noteq> MODULE_IDX_NUM md - 1" using assms(5) by linarith
  moreover have ix: "ix_offset (idx_img ?off ?e) = of_nat ?off" "ix_size (idx_img ?off ?e) = of_nat (length (en_data ?e) + 8)"
    "ix_usedState (idx_img ?off ?e) = en_flag ?e" by (simp_all add: idx_img_def)
  moreover have "es \<noteq> []" using assms(4) by auto
  ultimately show ?thesis
    unfolding find_slot_def index_read_idle[OF assms(3)] assms(4) diff_Suc_1 using read_idx_ent[OF assms(3) k]
    by (simp only: if_False nv_sts.case option.case prod.case Let_def ix) simp
qed

lemma find_slot_fits:
  assumes "md < DS_MAX_MODULS" "s < 2" "nv_log (cells c) md s es" "nv_fits md s es L" "unat len = L"
  shows "find_slot D c False md len s = (False, length es)"
proof (cases "length es")
  case 0
  then show ?thesis using index_read_idle[OF assms(3), of len] by (simp add: find_slot_def)
next
  case (Suc n)
  have "log_end (content_at md s) (take n es) + 8 + length (en_data (es ! n)) + (L + 8) \<le> sect_end md s"
    using item_before_end[of n es "content_at md s"] Suc assms(4) by (simp add: nv_fits_def)
  then show ?thesis using find_slot_last[OF assms(1-3) Suc _ assms(5)] assms(4) Suc by (simp add: nv_fits_def)
qed

lemma delete_entry:
  assumes "md < DS_MAX_MODULS" "s < 2" "writable c" "nv_log (cells c) md s es" "k < length es" "ITEM_VALID_FLAG_CHECK (en_flag (es ! k))"
  obtains c' where "flash_writeWithCheck D c (idx_addr md s k + 7) [ITEM_FIELD_INVALID] = (True, c')" "writable c'"
    "nv_log (cells c') md s (es[k := (es ! k)\<lparr>en_flag := ITEM_FIELD_INVALID\<rparr>])"
    "\<And>j. j < 2 ^ 32 \<Longrightarrow> j \<noteq> idx_at md s k + 7 \<Longrightarrow> at (cells c') j = at (cells c) j"
proof -
  let ?a = "idx_at md s k + 7" and ?off = "log_end (content_at md s) (take k es)"
  have n: "length es \<le> MODULE_IDX_NUM md" using assms(4) by (simp add: nv_log_def)
  have a: "?a < 2 ^ 31" using nv_bounds[OF assms(1,2)] n assms(5) by (simp add: idx_at_def)
  have f: "at (cells c) ?a = en_flag (es ! k)"
  proof -
    have "map (at (cells c)) [idx_at md s k..<idx_at md s k + 8] = idx_bytes (idx_img ?off (es ! k))"
      using nv_log_ent(3)[OF assms(4,5)] by (simp add: ent_on_def)
    from arg_cong[OF this, of "\<lambda>l. l ! 7"] show ?thesis by (simp add: idx_bytes_def u32_bytes_def u16_bytes_def idx_img_def)
  qed
  have fi: "at (cells c) ?a AND ITEM_FIELD_INVALID = ITEM_FIELD_INVALID"
    using assms(6) unfolding f by (auto simp: ITEM_VALID_FLAG_CHECK_def ITEM_FIELD_VALID_def ITEM_FIELD_VALID_SINGLE_def ITEM_FIELD_INVALID_def)
  obtain c' where c': "flash_writeWithCheck D c (of_nat ?a) [ITEM_FIELD_INVALID] = (True, c')"
    "cells c' = nor_write (cells c) (of_nat ?a) [ITEM_FIELD_INVALID]" "writable c'"
    using checked_write[OF assms(3), of ?a "[ITEM_FIELD_INVALID]"] a fi by auto
  have at': "at (cells c') j = (if j = ?a then ITEM_FIELD_INVALID else at (cells c) j)" if "j < 2 ^ 32" for j
    using at_write[of ?a "[ITEM_FIELD_INVALID]" j "cells c"] a fi that by (auto simp: c'(2))
  have "nv_log (cells c') md s (es[k := (es ! k)\<lparr>en_flag := ITEM_FIELD_INVALID\<rparr>])"
    by (rule nv_log_delete[OF assms(1,2,4,5)]) (use at' a in auto)
  moreover have "flash_writeWithCheck D c (idx_addr md s k + 7) [ITEM_FIELD_INVALID] = (True, c')"
    using c'(1) by (simp add: nv_addr)
  ultimately show thesis using that c'(3) at' by simp
qed

text \<open>Writing the item and marking the old one; everything outside index, content and header is kept.\<close>

lemma write_and_mark:
  assumes "md < DS_MAX_MODULS" "s < 2" "writable c" "nv_log (cells c) md s es" "nv_fits md s es L" "unat len = L" "length buf = L"
    "buf \<noteq> []" "itemId \<noteq> ITEM_FIELD_IDLE"
  obtains c3 c4 where "nv_write_item D c single md itemId s (length es) len (FromRam buf) = (NV_SUCC, c3)"
    "(case (if single then (case nv_index_read D c md itemId len s (MODULE_IDX_NUM md) of (NV_SUCC, Some k) \<Rightarrow> Some k | _ \<Rightarrow> None) else None) of
        Some k \<Rightarrow> flash_writeWithCheck D c3 (idx_addr md s k + 7) [ITEM_FIELD_INVALID] | None \<Rightarrow> (True, c3)) = (True, c4)"
    "writable c4" "nv_log (cells c4) md s (log_write single itemId buf es)"
    "\<And>j. j < 2 ^ 32 \<Longrightarrow> \<not> (idx_at md s 0 \<le> j \<and> j < sect_end md s) \<Longrightarrow> at (cells c4) j = at (cells c) j"
proof -
  let ?f = "if single then ITEM_FIELD_VALID_SINGLE else ITEM_FIELD_VALID"
  let ?e = "\<lparr>en_id = itemId, en_flag = ?f, en_data = buf\<rparr>" and ?ia = "idx_at md s (length es)" and ?off = "log_end (content_at md s) es"
  note b = nv_bounds[OF assms(1,2)]
  have fit: "length es < MODULE_IDX_NUM md" "?off + 8 + length buf \<le> sect_end md s" using assms(5,7) by (simp_all add: nv_fits_def)
  have len: "unat len = length buf" using assms(6,7) by simp
  obtain c3 where c3: "nv_write_item D c single md itemId s (length es) len (FromRam buf) = (NV_SUCC, c3)" "writable c3"
    "ent_on (cells c3) ?ia ?off ?e"
    "\<And>j. j < 2 ^ 32 \<Longrightarrow> \<not> (?ia \<le> j \<and> j < ?ia + 8) \<Longrightarrow> \<not> (?off \<le> j \<and> j < ?off + 8 + length buf) \<Longrightarrow> at (cells c3) j = at (cells c) j"
    using write_item_raw[OF assms(1-4) fit(1) assms(8) len fit(2) refl] by blast
  have eo: "ent_ok ?e" using assms(8,9) by (simp add: ent_ok_def)
  have l3: "nv_log (cells c3) md s (es @ [?e])"
    by (rule nv_log_snoc[OF assms(1,2,4) fit(1) eo _ c3(3)]) (use fit(2) c3(4) in simp_all)
  have rng: "idx_at md s 0 \<le> ?ia" "?ia + 8 \<le> sect_end md s" "idx_at md s 0 \<le> ?off"
    using idx_at_mono[OF fit(1), of md s] b log_end_ge[of "content_at md s" es] by (simp_all add: idx_at_def)
  have fr3: "at (cells c3) j = at (cells c) j" if "j < 2 ^ 32" "\<not> (idx_at md s 0 \<le> j \<and> j < sect_end md s)" for j
    by (rule c3(4)[OF that(1)]) (use that(2) rng fit(2) in auto)
  show thesis
  proof (cases "if single then nv_lookup es itemId L else None")
    case None
    then have "(if single then (case nv_index_read D c md itemId len s (MODULE_IDX_NUM md) of (NV_SUCC, Some k) \<Rightarrow> Some k | _ \<Rightarrow> None) else None) = None"
      using index_read_item[OF assms(1,2,4,9), of len] assms(6) by (auto split: if_splits)
    moreover have "log_write single itemId buf es = es @ [?e]" using None assms(7) by (auto simp: log_write_def)
    ultimately show ?thesis using that c3(1,2) l3 fr3 by simp
  next
    case (Some k)
    then have sg: "single" and lk: "nv_lookup es itemId L = Some k" by (auto split: if_splits)
    note kh = nv_lookup_less[OF lk]
    have "(if single then (case nv_index_read D c md itemId len s (MODULE_IDX_NUM md) of (NV_SUCC, Some k) \<Rightarrow> Some k | _ \<Rightarrow> None) else None) = Some k"
      using index_read_item[OF assms(1,2,4,9), of len] assms(6) sg lk by simp
    moreover obtain c4 where c4: "flash_writeWithCheck D c3 (idx_addr md s k + 7) [ITEM_FIELD_INVALID] = (True, c4)" "writable c4"
      "nv_log (cells c4) md s ((es @ [?e])[k := ((es @ [?e]) ! k)\<lparr>en_flag := ITEM_FIELD_INVALID\<rparr>])"
      "\<And>j. j < 2 ^ 32 \<Longrightarrow> j \<noteq> idx_at md s k + 7 \<Longrightarrow> at (cells c4) j = at (cells c3) j"
      using delete_entry[OF assms(1,2) c3(2) l3, of k] kh by (auto simp: nth_append ent_hit_def)
    moreover have "(es @ [?e])[k := ((es @ [?e]) ! k)\<lparr>en_flag := ITEM_FIELD_INVALID\<rparr>] = log_write single itemId buf es"
      using sg lk kh assms(7) by (simp add: log_write_def nth_append list_update_append)
    moreover have "at (cells c4) j = at (cells c) j" if "j < 2 ^ 32" "\<not> (idx_at md s 0 \<le> j \<and> j < sect_end md s)" for j
    proof -
      have "idx_at md s k + 8 \<le> ?ia" by (rule idx_at_mono) (use kh in simp)
      then have "j \<noteq> idx_at md s k + 7" using that(2) rng by (auto simp: idx_at_def)
      then show ?thesis using c4(4)[OF that(1)] fr3[OF that] by simp
    qed
    ultimately show ?thesis using that c3(1) by (auto simp only: option.case)
  qed
qed

end

end
