(* ===== verification/NvItemProps.thy ===== *)
theory NvItemProps
  imports NvItems
begin

text \<open>
  Properties of the NV item store: writing and reading whole items on any NOR chip, over all modules.
\<close>

section \<open>The handler\<close>

lemma write_handler_live:
  assumes "of_nat (NV_SECTOR_SIZE md) \<ge> ITEM_TOTAL_LEN len + of_nat (MODULE_INFO_SIZE md)"
    "nv_sector_read d c True md MODULE_SECTOR_NUM = (NV_SUCC, Some h, c0)" "unat (si_opSect h AND 1) = s"
    "find_slot d c0 False md len s = (False, n)" "n \<noteq> 0"
    "nv_write_item d c0 single md itemId s n len (FromRam buf) = (NV_SUCC, c3)"
    "(case (if single then (case nv_index_read d c0 md itemId len s (MODULE_IDX_NUM md) of (NV_SUCC, Some k) \<Rightarrow> Some k | _ \<Rightarrow> None) else None) of
        Some k \<Rightarrow> flash_writeWithCheck d c3 (idx_addr md s k + 7) [ITEM_FIELD_INVALID] | None \<Rightarrow> (True, c3)) = (True, c4)"
  shows "nv_flashWriteNewHandler d c bo False single md itemId len buf = (NV_SUCC, c4)"
proof -
  have sz: "\<not> of_nat (NV_SECTOR_SIZE md) < ITEM_TOTAL_LEN len + of_nat (MODULE_INFO_SIZE md)" using assms(1) by simp
  show ?thesis
    unfolding nv_flashWriteNewHandler_def Let_def if_not_P[OF sz] assms(2) prod.case nv_sts.case option.case assms(3,4) if_False sum.case
      assms(6,7)
    using assms(5) by simp
qed

lemma write_handler_new:
  assumes "of_nat (NV_SECTOR_SIZE md) \<ge> ITEM_TOTAL_LEN len + of_nat (MODULE_INFO_SIZE md)"
    "nv_sector_read d c True md MODULE_SECTOR_NUM = (NV_ITEM_NOT_FOUND, None, c0)"
    "erase_sectors d (MODULES_START_ADDR md) (NV_SECTOR_SIZE md div 4096) c0 = c1"
    "find_slot d c1 False md len 0 = (False, 0)"
    "nv_write_item d c1 single md itemId 0 0 len (FromRam buf) = (NV_SUCC, c3)"
    "(case (if single then (case nv_index_read d c1 md itemId len 0 (MODULE_IDX_NUM md) of (NV_SUCC, Some k) \<Rightarrow> Some k | _ \<Rightarrow> None) else None) of
        Some k \<Rightarrow> flash_writeWithCheck d c3 (idx_addr md 0 k + 7) [ITEM_FIELD_INVALID] | None \<Rightarrow> (True, c3)) = (True, c4)"
    "flash_writeWithCheck d c4 (MODULE_SECT_START md 0) (sect_bytes (new_sect_info md 0)) = (ok, c5)"
  shows "nv_flashWriteNewHandler d c bo False single md itemId len buf = (NV_SUCC, c5)"
proof -
  have sz: "\<not> of_nat (NV_SECTOR_SIZE md) < ITEM_TOTAL_LEN len + of_nat (MODULE_INFO_SIZE md)" using assms(1) by simp
  show ?thesis
    unfolding nv_flashWriteNewHandler_def Let_def if_not_P[OF sz] assms(2) prod.case nv_sts.case option.case assms(3,4) if_False sum.case
      assms(5,6)
    using assms(7) by simp
qed

lemma size_check:
  assumes "md < DS_MAX_MODULS" "s < 2" "nv_fits md s es L" "unat len = L"
  shows "of_nat (NV_SECTOR_SIZE md) \<ge> ITEM_TOTAL_LEN len + of_nat (MODULE_INFO_SIZE md)"
proof -
  have "content_at md s + 8 + L \<le> sect_end md s"
    using assms(3) log_end_ge[of "content_at md s" es] by (simp add: nv_fits_def)
  then have le: "L + 8 + MODULE_INFO_SIZE md \<le> NV_SECTOR_SIZE md" by (simp add: content_at_def sect_end_def)
  have sz: "NV_SECTOR_SIZE md \<le> 16384" by (simp add: NV_SECTOR_SIZE_def)
  have "unat (of_nat (L + 8 + MODULE_INFO_SIZE md) :: u32) = L + 8 + MODULE_INFO_SIZE md"
    "unat (of_nat (NV_SECTOR_SIZE md) :: u32) = NV_SECTOR_SIZE md"
    by (rule unat_of_nat_u32, use le sz in simp)+
  moreover have "ITEM_TOTAL_LEN len + of_nat (MODULE_INFO_SIZE md) = of_nat (L + 8 + MODULE_INFO_SIZE md)"
    unfolding total_len[OF assms(4)] by simp
  ultimately show ?thesis using le by (simp only: word_le_nat_alt)
qed

lemma sect_live_frame:
  assumes "\<And>j. sect_start md s \<le> j \<Longrightarrow> j < sect_start md s + 4 \<Longrightarrow> at m' j = at m j"
  shows "sect_live m' md s = sect_live m md s" "sect_dead m' md s = sect_dead m md s"
proof -
  have e: "map (at m') [sect_start md s..<sect_start md s + 4] = map (at m) [sect_start md s..<sect_start md s + 4]"
    by (rule map_at_cong) (rule assms)
  show "sect_live m' md s = sect_live m md s" "sect_dead m' md s = sect_dead m md s"
    unfolding sect_live_def sect_dead_def sect_hdr_def e by (rule refl)+
qed

lemma other_hdr:
  assumes "md < DS_MAX_MODULS" "s < 2" "sect_start md (1 - s) \<le> j" "j < sect_start md (1 - s) + 4"
  shows "\<not> (sect_start md s \<le> j \<and> j < sect_end md s)" "j < 2 ^ 32"
proof -
  have "md = 6 \<or> md < 6" "s = 0 \<or> s = 1" using assms(1,2) by auto
  then show "\<not> (sect_start md s \<le> j \<and> j < sect_end md s)" "j < 2 ^ 32"
    using assms(3,4) by (auto simp: sect_start_def sect_end_def mod_start_def NV_SECTOR_SIZE_def)
qed

lemma nv_log_frame:
  assumes "md < DS_MAX_MODULS" "s < 2" "nv_log m md s es" "\<And>j. idx_at md s 0 \<le> j \<Longrightarrow> j < sect_end md s \<Longrightarrow> at m' j = at m j"
  shows "nv_log m' md s es"
proof -
  note b = nv_bounds[OF assms(1,2)]
  have i0: "idx_at md s 0 \<le> idx_at md s k" for k by (simp add: idx_at_def)
  have n: "length es \<le> MODULE_IDX_NUM md" using assms(3) by (simp add: nv_log_def)
  have bl: "blank m' x y" if "blank m x y" "idx_at md s 0 \<le> x" "y \<le> sect_end md s" for x y
    using that assms(4) unfolding blank_def by simp
  have c0: "idx_at md s 0 \<le> content_at md s" using b(1) i0[of "MODULE_IDX_NUM md"] by simp
  show ?thesis unfolding nv_log_def
  proof (intro conjI allI impI)
    fix k assume k: "k < length es"
    note en = nv_log_ent[OF assms(3) k]
    have ik: "idx_at md s k + 8 \<le> sect_end md s" using idx_at_mono[of k "MODULE_IDX_NUM md" md s] k n b(1,2) by simp
    show "ent_on m' (idx_at md s k) (log_end (content_at md s) (take k es)) (es ! k)"
      by (rule ent_on_frame[OF en(3)]; rule assms(4)) (use ik i0[of k] en(2,4) c0 in simp_all)
  qed (use assms(3) n i0 b bl c0 log_end_ge[of "content_at md s" es] in \<open>auto simp: nv_log_def\<close>)
qed

context nor_flash begin

lemma item_handler_live:
  assumes "md < DS_MAX_MODULS" "writable c" "nv_state (cells c) md s es" "nv_fits md s es L" "unat len = L" "length buf = L"
    "buf \<noteq> []" "itemId \<noteq> ITEM_FIELD_IDLE"
  obtains c' where "nv_flashWriteNewHandler D c bo False single md itemId len buf = (NV_SUCC, c')" "writable c'"
    "nv_state (cells c') md s (log_write single itemId buf es)"
    "\<And>j. j < 2 ^ 32 \<Longrightarrow> \<not> (sect_start md s \<le> j \<and> j < sect_end md s) \<Longrightarrow> at (cells c') j = at (cells c) j"
proof -
  have st: "s < 2" "es \<noteq> []" "sect_live (cells c) md s" "sect_dead (cells c) md (1 - s)" "nv_log (cells c) md s es"
    using assms(3) by (simp_all add: nv_state_def)
  note b = nv_bounds[OF assms(1) st(1)]
  obtain c3 c4 where w: "nv_write_item D c single md itemId s (length es) len (FromRam buf) = (NV_SUCC, c3)"
    "(case (if single then (case nv_index_read D c md itemId len s (MODULE_IDX_NUM md) of (NV_SUCC, Some k) \<Rightarrow> Some k | _ \<Rightarrow> None) else None) of
        Some k \<Rightarrow> flash_writeWithCheck D c3 (idx_addr md s k + 7) [ITEM_FIELD_INVALID] | None \<Rightarrow> (True, c3)) = (True, c4)"
    "writable c4" "nv_log (cells c4) md s (log_write single itemId buf es)"
    "\<And>j. j < 2 ^ 32 \<Longrightarrow> \<not> (idx_at md s 0 \<le> j \<and> j < sect_end md s) \<Longrightarrow> at (cells c4) j = at (cells c) j"
    using write_and_mark[OF assms(1) st(1) assms(2) st(5) assms(4-8)] by blast
  have "nv_flashWriteNewHandler D c bo False single md itemId len buf = (NV_SUCC, c4)"
    by (rule write_handler_live[OF size_check[OF assms(1) st(1) assms(4,5)] sector_read_live[OF st(1,3,4)] live_op(1)[OF st(3)]
          find_slot_fits[OF assms(1) st(1,5) assms(4,5)] _ w(1,2)]) (use st(2) in simp)
  moreover have "sect_live (cells c4) md s"
    using st(3) sect_live_frame(1)[of md s "cells c4" "cells c"] w(5) b by (simp add: idx_at_def)
  moreover have "sect_dead (cells c4) md (1 - s)"
  proof -
    have "at (cells c4) j = at (cells c) j" if "sect_start md (1 - s) \<le> j" "j < sect_start md (1 - s) + 4" for j
      by (rule w(5)) (use other_hdr[OF assms(1) st(1) that] b(4) in auto)
    then show ?thesis using st(4) sect_live_frame(2)[of md "1 - s"] by blast
  qed
  moreover have "log_write single itemId buf es \<noteq> []" by (simp add: log_write_def)
  moreover have "at (cells c4) j = at (cells c) j" if "j < 2 ^ 32" "\<not> (sect_start md s \<le> j \<and> j < sect_end md s)" for j
    by (rule w(5)) (use that b(4) in auto)
  ultimately show thesis using that w(3,4) st(1) by (simp add: nv_state_def)
qed

lemma erase_sectors_at:
  assumes "writable c" "a mod 4096 = 0" "a + n * 4096 \<le> 2 ^ 31"
  shows "writable (erase_sectors D (of_nat a) n c) \<and>
    (\<forall>j < 2 ^ 32. at (cells (erase_sectors D (of_nat a) n c)) j = (if a \<le> j \<and> j < a + n * 4096 then 0xff else at (cells c) j))"
  using erase_run_at[OF assms] by (simp add: erase_sectors_def erase_run_def)

lemma item_handler_new:
  assumes "md < DS_MAX_MODULS" "writable c" "sect_dead (cells c) md 0" "sect_dead (cells c) md 1" "nv_fits md 0 [] L" "unat len = L" "length buf = L"
    "buf \<noteq> []" "itemId \<noteq> ITEM_FIELD_IDLE"
  obtains c' where "nv_flashWriteNewHandler D c bo False single md itemId len buf = (NV_SUCC, c')" "writable c'"
    "nv_state (cells c') md 0 (log_write single itemId buf [])"
    "\<And>j. j < 2 ^ 32 \<Longrightarrow> \<not> (sect_start md 0 \<le> j \<and> j < sect_end md 0) \<Longrightarrow> at (cells c') j = at (cells c) j"
proof -
  have z: "(0 :: nat) < 2" by simp
  note b = nv_bounds[OF assms(1) z]
  let ?c1 = "erase_sectors D (MODULES_START_ADDR md) (NV_SECTOR_SIZE md div 4096) c"
  have ms: "sect_start md 0 mod 4096 = 0" "NV_SECTOR_SIZE md div 4096 * 4096 = NV_SECTOR_SIZE md"
    by (auto simp: sect_start_def mod_start_def NV_SECTOR_SIZE_def)
  have c1: "writable ?c1" "\<And>j. j < 2 ^ 32 \<Longrightarrow> at (cells ?c1) j = (if sect_start md 0 \<le> j \<and> j < sect_end md 0 then 0xff else at (cells c) j)"
    using erase_sectors_at[OF assms(2) ms(1), of "NV_SECTOR_SIZE md div 4096"] b(3)
    by (simp_all add: MODULES_START_ADDR_def sect_start_def sect_end_def ms(2))
  have l1: "nv_log (cells ?c1) md 0 []"
    using c1(2) b unfolding nv_log_def blank_def by (simp add: idx_at_def)
  obtain c3 c4 where w: "nv_write_item D ?c1 single md itemId 0 (length ([] :: nv_ent list)) len (FromRam buf) = (NV_SUCC, c3)"
    "(case (if single then (case nv_index_read D ?c1 md itemId len 0 (MODULE_IDX_NUM md) of (NV_SUCC, Some k) \<Rightarrow> Some k | _ \<Rightarrow> None) else None) of
        Some k \<Rightarrow> flash_writeWithCheck D c3 (idx_addr md 0 k + 7) [ITEM_FIELD_INVALID] | None \<Rightarrow> (True, c3)) = (True, c4)"
    "writable c4" "nv_log (cells c4) md 0 (log_write single itemId buf [])"
    "\<And>j. j < 2 ^ 32 \<Longrightarrow> \<not> (idx_at md 0 0 \<le> j \<and> j < sect_end md 0) \<Longrightarrow> at (cells c4) j = at (cells ?c1) j"
    using write_and_mark[OF assms(1) z c1(1) l1 assms(5-9)] by blast
  have i0: "idx_at md 0 0 \<le> idx_at md 0 (MODULE_IDX_NUM md)" by (simp add: idx_at_def)
  then have sm: "sect_start md 0 + length (sect_bytes (new_sect_info md 0)) \<le> 2 ^ 31" using b by simp
  have hb: "blank (cells c4) (sect_start md 0) (sect_start md 0 + length (sect_bytes (new_sect_info md 0)))"
    unfolding blank_def
  proof (intro allI impI)
    fix j assume j: "sect_start md 0 \<le> j \<and> j < sect_start md 0 + length (sect_bytes (new_sect_info md 0))"
    then have "j < idx_at md 0 0" using b(4) by simp
    moreover from this have "j < sect_end md 0" using i0 b(1,2) by linarith
    ultimately have "j < sect_end md 0" "j < idx_at md 0 0" by simp_all
    then show "at (cells c4) j = 0xff" using w(5)[of j] c1(2)[of j] j b by simp
  qed
  obtain c5 where c5: "flash_writeWithCheck D c4 (of_nat (sect_start md 0)) (sect_bytes (new_sect_info md 0)) = (True, c5)"
    "cells c5 = nor_write (cells c4) (of_nat (sect_start md 0)) (sect_bytes (new_sect_info md 0))" "writable c5"
    using checked_blank[OF w(3) hb] sm by auto
  have a5: "at (cells c5) j = (if sect_start md 0 \<le> j \<and> j < sect_start md 0 + 4 then sect_bytes (new_sect_info md 0) ! (j - sect_start md 0) else at (cells c4) j)"
    if "j < 2 ^ 32" for j using at_write_blank[OF hb sm that] by (simp add: c5(2))
  have fs: "find_slot D ?c1 False md len 0 = (False, 0)" using find_slot_fits[OF assms(1) z l1 assms(5,6)] unfolding list.size .
  have wi: "nv_write_item D ?c1 single md itemId 0 0 len (FromRam buf) = (NV_SUCC, c3)" using w(1) unfolding list.size .
  have hw: "flash_writeWithCheck D c4 (MODULE_SECT_START md 0) (sect_bytes (new_sect_info md 0)) = (True, c5)"
    unfolding nv_addr(1) by (rule c5(1))
  have "nv_flashWriteNewHandler D c bo False single md itemId len buf = (NV_SUCC, c5)"
    by (rule write_handler_new[OF size_check[OF assms(1) z assms(5,6)] sector_read_dead[OF assms(3,4)] refl fs wi w(2) hw])
  moreover have "sect_live (cells c5) md 0" unfolding sect_live_def
    using map_write_blank[OF hb sm] by (intro exI[of _ 0]) (simp add: c5(2))
  moreover have far: "at (cells c5) j = at (cells c) j" if "j < 2 ^ 32" "\<not> (sect_start md 0 \<le> j \<and> j < sect_end md 0)" for j
  proof -
    have "sect_start md 0 + 4 \<le> sect_end md 0" using b i0 by linarith
    then show ?thesis using a5[OF that(1)] w(5)[OF that(1)] c1(2)[OF that(1)] that(2) b(4) by auto
  qed
  moreover have "sect_dead (cells c5) md 1"
  proof -
    note o = other_hdr[OF assms(1) z, unfolded minus_nat.diff_0]
    have "at (cells c5) j = at (cells c) j" if "sect_start md 1 \<le> j" "j < sect_start md 1 + 4" for j
      by (rule far[OF o(2)[OF that] o(1)[OF that]])
    then have "sect_dead (cells c5) md 1 = sect_dead (cells c) md 1" by (rule sect_live_frame(2))
    then show ?thesis using assms(4) by simp
  qed
  moreover have "nv_log (cells c5) md 0 (log_write single itemId buf [])"
  proof (rule nv_log_frame[OF assms(1) z w(4)])
    fix j assume j: "idx_at md 0 0 \<le> j" "j < sect_end md 0"
    then have "j < 2 ^ 32" "\<not> j < sect_start md 0 + 4" using b(3,4) by simp_all
    then show "at (cells c5) j = at (cells c4) j" by (simp add: a5)
  qed
  moreover have "log_write single itemId buf [] \<noteq> []" by (simp add: log_write_def)
  ultimately show thesis using that c5(3) by (simp add: nv_state_def)
qed

end

section \<open>What a log holds\<close>

text \<open>The log after a list of writes (kept single or not, item, data).\<close>

definition log_of :: "(bool \<times> u8 \<times> u8 list) list \<Rightarrow> nv_ent list" where
  "log_of ws = fold (\<lambda>(single, i, b). log_write single i b) ws []"

lemma log_of_snoc: "log_of (ws @ [(single, i, b)]) = log_write single i b (log_of ws)"
  by (simp add: log_of_def)

lemma log_of_Nil [simp]: "log_of [] = []"
  by (simp add: log_of_def)

lemma log_write_maps:
  "map en_data (log_write single i b es) = map en_data es @ [b]" "map en_id (log_write single i b es) = map en_id es @ [i]"
proof -
  have "map en_data (es[k := (es ! k)\<lparr>en_flag := f\<rparr>]) = map en_data es" "map en_id (es[k := (es ! k)\<lparr>en_flag := f\<rparr>]) = map en_id es"
    if "k < length es" for k f
    using that by (simp_all add: map_update list_update_same_conv)
  then show "map en_data (log_write single i b es) = map en_data es @ [b]" "map en_id (log_write single i b es) = map en_id es @ [i]"
    by (auto simp: log_write_def split: option.splits dest: nv_lookup_less)
qed

lemma log_of_maps: "map en_data (log_of ws) = map (snd \<circ> snd) ws" "map en_id (log_of ws) = map (fst \<circ> snd) ws"
  by (induction ws rule: rev_induct) (auto simp: log_of_snoc log_write_maps split: prod.splits)

lemma log_of_length [simp]: "length (log_of ws) = length ws"
  using arg_cong[OF log_of_maps(1), of length] by simp

lemma log_of_nth:
  assumes "k < length ws"
  shows "en_data (log_of ws ! k) = snd (snd (ws ! k))" "en_id (log_of ws ! k) = fst (snd (ws ! k))"
  using arg_cong[OF log_of_maps(1)[of ws], of "\<lambda>l. l ! k"] arg_cong[OF log_of_maps(2)[of ws], of "\<lambda>l. l ! k"] assms by simp_all

text \<open>The last write of an item stays valid.\<close>

lemma log_of_last_valid:
  "k < length ws \<Longrightarrow> (\<And>j. k < j \<Longrightarrow> j < length ws \<Longrightarrow> fst (snd (ws ! j)) \<noteq> fst (snd (ws ! k))) \<Longrightarrow>
   ITEM_VALID_FLAG_CHECK (en_flag (log_of ws ! k))"
proof (induction ws rule: rev_induct)
  case (snoc w ws)
  obtain sg i b where w: "w = (sg, i, b)" by (metis prod_cases3)
  let ?es = "log_of ws"
  show ?case
  proof (cases "k = length ws")
    case True
    then show ?thesis
      by (auto simp: w log_of_snoc log_write_def nth_append ITEM_VALID_FLAG_CHECK_def split: option.splits)
  next
    case False
    then have k: "k < length ws" using snoc.prems(1) by simp
    have ne: "fst (snd (ws ! k)) \<noteq> i" using snoc.prems(2)[of "length ws"] k by (simp add: nth_append w)
    have "fst (snd (ws ! j)) \<noteq> fst (snd (ws ! k))" if "k < j" "j < length ws" for j
      using snoc.prems(2)[of j] that k by (simp add: nth_append)
    then have v: "ITEM_VALID_FLAG_CHECK (en_flag (?es ! k))" using snoc.IH k by simp
    have "q \<noteq> k" if "nv_lookup ?es i (length b) = Some q" for q
      using nv_lookup_less[OF that] log_of_nth(2)[OF k] ne by (auto simp: ent_hit_def)
    then show ?thesis using v k
      by (auto simp: w log_of_snoc log_write_def nth_append split: option.splits)
  qed
qed simp

lemma lookup_last:
  assumes "k < length ws" "fst (snd (ws ! k)) = i" "\<And>j. k < j \<Longrightarrow> j < length ws \<Longrightarrow> fst (snd (ws ! j)) \<noteq> i"
    "length (snd (snd (ws ! k))) mod n = 0"
  shows "nv_lookup (log_of ws) i n = Some k"
proof -
  have "\<not> ent_hit i n (log_of ws ! j)" if "k < j" "j < length ws" for j
    using assms(3)[OF that] log_of_nth(2)[OF that(2)] by (simp add: ent_hit_def)
  moreover have "ent_hit i n (log_of ws ! k)"
    using log_of_last_valid[of k ws] log_of_nth[OF assms(1)] assms by (simp add: ent_hit_def)
  ultimately show ?thesis using assms(1) by (simp add: nv_lookup_def last_hit_Some)
qed

lemma lookup_none: "i \<notin> set (map (fst \<circ> snd) ws) \<Longrightarrow> nv_lookup (log_of ws) i n = None"
  by (auto simp: nv_lookup_def last_hit_None ent_hit_def log_of_nth)

text \<open>The item map a list of writes describes.\<close>

lemma map_of_rev_last:
  assumes "map_of (rev ps) i = Some b"
  obtains k where "k < length ps" "ps ! k = (i, b)" "\<And>j. k < j \<Longrightarrow> j < length ps \<Longrightarrow> fst (ps ! j) \<noteq> i"
proof -
  have "\<exists>k < length ps. ps ! k = (i, b) \<and> (\<forall>j. k < j \<longrightarrow> j < length ps \<longrightarrow> fst (ps ! j) \<noteq> i)"
    using assms
  proof (induction ps rule: rev_induct)
    case (snoc p ps)
    show ?case
    proof (cases "fst p = i")
      case True
      then have "p = (i, b)" using snoc.prems by (cases p) (simp split: if_splits)
      then show ?thesis by (intro exI[of _ "length ps"]) simp
    next
      case False
      then have "map_of (rev ps) i = Some b" using snoc.prems by (cases p) (simp split: if_splits)
      then obtain k where "k < length ps" "ps ! k = (i, b)" "\<forall>j. k < j \<longrightarrow> j < length ps \<longrightarrow> fst (ps ! j) \<noteq> i"
        using snoc.IH by auto
      then show ?thesis using False by (intro exI[of _ k]) (auto simp: nth_append less_Suc_eq)
    qed
  qed simp
  then show thesis using that by blast
qed

section \<open>Room in a sector\<close>

definition nv_room :: "nat \<Rightarrow> u8 list list \<Rightarrow> bool" where
  "nv_room md bs \<longleftrightarrow> length bs \<le> MODULE_IDX_NUM md \<and>
     MODULE_INFO_SIZE md + (\<Sum>b\<leftarrow>bs. align4n (8 + length b)) \<le> NV_SECTOR_SIZE md"

lemma align4n_add: "a mod 4 = 0 \<Longrightarrow> align4n (a + n) = a + align4n n"
proof -
  assume "a mod 4 = 0"
  then obtain q where "a = 4 * q" by auto
  then show ?thesis by (simp add: align4n_def add.assoc)
qed

lemma align4n_mod [simp]: "align4n n mod 4 = 0"
  by (simp add: align4n_def)

lemma log_end_sum: "a mod 4 = 0 \<Longrightarrow> log_end a es = a + (\<Sum>e\<leftarrow>es. align4n (8 + length (en_data e)))"
proof (induction es arbitrary: a)
  case (Cons e es)
  have "align4n (a + 8 + length (en_data e)) = a + align4n (8 + length (en_data e))"
    using align4n_add[OF Cons.prems, of "8 + length (en_data e)"] by (simp add: add.assoc)
  moreover have "(a + align4n (8 + length (en_data e))) mod 4 = 0"
    using Cons.prems align4n_mod[of "8 + length (en_data e)"] by (simp add: mod_add_eq[symmetric, of a])
  ultimately show ?case using Cons.IH by (simp add: add.assoc)
qed simp

lemma content_mod4: "content_at md s mod 4 = 0"
  by (auto simp: content_at_def sect_start_def mod_start_def MODULE_INFO_SIZE_def NV_SECTOR_SIZE_def mod_add_eq[symmetric])

lemma room_fits:
  assumes "nv_room md (map en_data es @ [b])"
  shows "nv_fits md s es (length b)"
proof -
  have "log_end (content_at md s) es = content_at md s + (\<Sum>b\<leftarrow>map en_data es. align4n (8 + length b))"
    by (simp add: log_end_sum[OF content_mod4] comp_def)
  then show ?thesis
    using assms align4n_bounds(1)[of "8 + length b"] by (simp add: nv_room_def nv_fits_def content_at_def sect_end_def)
qed

lemma room_prefix: "nv_room md (bs @ cs) \<Longrightarrow> nv_room md bs"
  by (simp add: nv_room_def)

section \<open>The store\<close>

text \<open>Module \<open>md\<close> holds the log \<open>es\<close>, in its first sector.\<close>

definition nv_holds :: "mem \<Rightarrow> nat \<Rightarrow> nv_ent list \<Rightarrow> bool" where
  "nv_holds m md es \<longleftrightarrow> (if es = [] then sect_dead m md 0 \<and> sect_dead m md 1 else nv_state m md 0 es)"

lemma nv_holds_frame:
  assumes "md < DS_MAX_MODULS" "nv_holds m md es" "\<And>j. sect_start md 0 \<le> j \<Longrightarrow> j < sect_end md 1 \<Longrightarrow> at m' j = at m j"
  shows "nv_holds m' md es"
proof -
  have z: "(0 :: nat) < 2" by simp
  have se: "sect_start md s \<le> sect_end md 1 - 4" "sect_start md 0 \<le> sect_start md s" "sect_end md 0 \<le> sect_end md 1" "4 \<le> sect_end md 1" if "s < 2" for s
    using that by (auto simp: sect_start_def sect_end_def NV_SECTOR_SIZE_def less_2_cases_iff)
  have h: "sect_live m' md s = sect_live m md s" "sect_dead m' md s = sect_dead m md s" if "s < 2" for s
    by (rule sect_live_frame; rule assms(3); use se[OF that] in linarith)+
  have l: "nv_log m' md 0 es" if "nv_log m md 0 es"
    by (rule nv_log_frame[OF assms(1) z that], rule assms(3)) (use se[OF z] nv_bounds(4)[OF assms(1) z] in linarith)+
  show ?thesis using assms(2) h[of 0] h[of 1] l by (auto simp: nv_holds_def nv_state_def)
qed

lemma modules_disjoint:
  assumes "md < DS_MAX_MODULS" "md' < DS_MAX_MODULS" "md \<noteq> md'" "sect_start md' 0 \<le> j" "j < sect_end md' 1" "s < 2"
  shows "\<not> (sect_start md s \<le> j \<and> j < sect_end md s)" "j < 2 ^ 32"
proof -
  have "sect_start md s = mod_start md + s * NV_SECTOR_SIZE md" "sect_end md s = mod_start md + (s + 1) * NV_SECTOR_SIZE md"
    by (simp_all add: sect_start_def sect_end_def)
  moreover have "s = 0 \<or> s = 1" using assms(6) by auto
  moreover have "mod_start md' \<le> j" "j < mod_start md' + 2 * NV_SECTOR_SIZE md'"
    using assms(4,5) by (simp_all add: sect_start_def sect_end_def)
  ultimately show "\<not> (sect_start md s \<le> j \<and> j < sect_end md s)" "j < 2 ^ 32"
    using mod_regions_disjoint[OF assms(1-3)] mod_start_bounds[OF assms(2)] by auto
qed


text \<open>A write: module, kept single or not, item, data; and the writes to one module.\<close>

type_synonym nv_wr = "nat \<times> bool \<times> u8 \<times> u8 list"

definition mod_writes :: "nat \<Rightarrow> nv_wr list \<Rightarrow> (bool \<times> u8 \<times> u8 list) list" where
  "mod_writes md ws = map snd (filter (\<lambda>w. fst w = md) ws)"

definition nv_put :: "'c drv_flash \<Rightarrow> bool \<Rightarrow> nv_wr \<Rightarrow> 'c flash_st \<Rightarrow> 'c flash_st" where
  "nv_put d bo = (\<lambda>(md, single, i, b) s. snd (nv_flashWriteNew d s bo single md i (of_nat (length b)) b))"

definition wr_ok :: "nv_wr \<Rightarrow> bool" where
  "wr_ok = (\<lambda>(md, single, i, b). md < DS_MAX_MODULS \<and> md \<noteq> DS_NWK_FRAMECOUNT_MODULE \<and> i \<noteq> ITEM_FIELD_IDLE \<and> b \<noteq> [])"

definition nv_all :: "mem \<Rightarrow> nv_wr list \<Rightarrow> bool" where
  "nv_all m ws \<longleftrightarrow> (\<forall>md < DS_MAX_MODULS. md \<noteq> DS_NWK_FRAMECOUNT_MODULE \<longrightarrow> nv_holds m md (log_of (mod_writes md ws)))"

lemma mod_writes_snoc: "mod_writes md (ws @ [(md', w)]) = mod_writes md ws @ (if md' = md then [w] else [])"
  by (simp add: mod_writes_def)

lemma log_of_nonempty: "log_of ws = [] \<longleftrightarrow> ws = []"
  using log_of_length[of ws] by (metis length_0_conv)

context nor_flash begin

lemma handler_holds:
  assumes "md < DS_MAX_MODULS" "writable c" "nv_holds (cells c) md es" "nv_room md (map en_data es @ [buf])"
    "buf \<noteq> []" "itemId \<noteq> ITEM_FIELD_IDLE"
  obtains c' where "nv_flashWriteNewHandler D c bo False single md itemId (of_nat (length buf)) buf = (NV_SUCC, c')" "writable c'"
    "nv_holds (cells c') md (log_write single itemId buf es)"
    "\<And>j. j < 2 ^ 32 \<Longrightarrow> \<not> (sect_start md 0 \<le> j \<and> j < sect_end md 0) \<Longrightarrow> at (cells c') j = at (cells c) j"
proof -
  note f = room_fits[OF assms(4), of 0]
  have z: "(0 :: nat) < 2" by simp
  have len: "unat (of_nat (length buf) :: u16) = length buf"
  proof (rule unat_of_nat_small)
    have "length buf \<le> 15872"
      using f nv_bounds(2,5)[OF assms(1) z] log_end_ge[of "content_at md 0" es] unfolding nv_fits_def by linarith
    then show "length buf < 2 ^ LENGTH(16)" by simp
  qed
  have ne: "log_write single itemId buf es \<noteq> []" by (simp add: log_write_def)
  show thesis
  proof (cases "es = []")
    case True
    then have d: "sect_dead (cells c) md 0" "sect_dead (cells c) md 1" using assms(3) by (simp_all add: nv_holds_def)
    have f': "nv_fits md 0 [] (length buf)" using f True by simp
    obtain c' where "nv_flashWriteNewHandler D c bo False single md itemId (of_nat (length buf)) buf = (NV_SUCC, c')" "writable c'"
      "nv_state (cells c') md 0 (log_write single itemId buf [])"
      "\<And>j. j < 2 ^ 32 \<Longrightarrow> \<not> (sect_start md 0 \<le> j \<and> j < sect_end md 0) \<Longrightarrow> at (cells c') j = at (cells c) j"
      using item_handler_new[OF assms(1,2) d f' len refl assms(5,6), of bo single] by blast
    then show thesis using that True ne by (simp add: nv_holds_def)
  next
    case False
    then have st: "nv_state (cells c) md 0 es" using assms(3) by (simp add: nv_holds_def)
    obtain c' where "nv_flashWriteNewHandler D c bo False single md itemId (of_nat (length buf)) buf = (NV_SUCC, c')" "writable c'"
      "nv_state (cells c') md 0 (log_write single itemId buf es)"
      "\<And>j. j < 2 ^ 32 \<Longrightarrow> \<not> (sect_start md 0 \<le> j \<and> j < sect_end md 0) \<Longrightarrow> at (cells c') j = at (cells c) j"
      using item_handler_live[OF assms(1,2) st f len refl assms(5,6), of bo single] by blast
    then show thesis using that ne by (simp add: nv_holds_def)
  qed
qed

lemma write_new_holds:
  assumes "md < DS_MAX_MODULS" "md \<noteq> DS_NWK_FRAMECOUNT_MODULE" "flash_ok cells writable s" "nv_holds (cells (fl_chip s)) md es"
    "nv_room md (map en_data es @ [buf])" "buf \<noteq> []" "itemId \<noteq> ITEM_FIELD_IDLE"
  obtains s' where "nv_flashWriteNew D s bo single md itemId (of_nat (length buf)) buf = (NV_SUCC, s')" "flash_ok cells writable s'"
    "nv_holds (cells (fl_chip s')) md (log_write single itemId buf es)"
    "\<And>j. j < 2 ^ 32 \<Longrightarrow> \<not> (sect_start md 0 \<le> j \<and> j < sect_end md 0) \<Longrightarrow> at (cells (fl_chip s')) j = at (cells (fl_chip s)) j"
proof -
  note u = unlocked[OF assms(3)]
  have h: "nv_holds (cells (fl_chip (flash_unlock s))) md es" using assms(4) by (simp add: u(2))
  obtain c' where c': "nv_flashWriteNewHandler D (fl_chip (flash_unlock s)) bo False single md itemId (of_nat (length buf)) buf = (NV_SUCC, c')"
    "writable c'" "nv_holds (cells c') md (log_write single itemId buf es)"
    "\<And>j. j < 2 ^ 32 \<Longrightarrow> \<not> (sect_start md 0 \<le> j \<and> j < sect_end md 0) \<Longrightarrow> at (cells c') j = at (cells (fl_chip (flash_unlock s))) j"
    using handler_holds[OF assms(1) u(1) h assms(5-7), of bo single] by blast
  have "nv_flashWriteNew D s bo single md itemId (of_nat (length buf)) buf = (NV_SUCC, flash_lock ((flash_unlock s)\<lparr>fl_chip := c'\<rparr>))"
    unfolding nv_flashWriteNew_def on_chip_def if_not_P[OF assms(2)] c'(1) prod.case ..
  then show thesis
    by (rule that) (use u(3)[OF c'(2)] u(4)[OF c'(2)] c'(3,4) u(2) in simp_all)
qed

lemma put_all:
  assumes "nv_all (cells (fl_chip s)) []" "flash_ok cells writable s"
  shows "(\<forall>w \<in> set ws. wr_ok w) \<Longrightarrow> (\<forall>md. nv_room md (map (snd \<circ> snd) (mod_writes md ws))) \<Longrightarrow>
    flash_ok cells writable (fold (nv_put D bo) ws s) \<and> nv_all (cells (fl_chip (fold (nv_put D bo) ws s))) ws"
proof (induction ws rule: rev_induct)
  case (snoc w ws)
  obtain md sg i b where w: "w = (md, sg, i, b)" by (metis prod_cases4)
  let ?s = "fold (nv_put D bo) ws s"
  have ok: "md < DS_MAX_MODULS" "md \<noteq> DS_NWK_FRAMECOUNT_MODULE" "i \<noteq> ITEM_FIELD_IDLE" "b \<noteq> []"
    using snoc.prems(1) by (auto simp: w wr_ok_def)
  have "nv_room md' (map (snd \<circ> snd) (mod_writes md' ws))" for md'
  proof -
    have "nv_room md' (map (snd \<circ> snd) (mod_writes md' (ws @ [w])))" using snoc.prems(2) by blast
    then show ?thesis unfolding w mod_writes_snoc map_append by (rule room_prefix)
  qed
  then have ih: "flash_ok cells writable ?s" "nv_all (cells (fl_chip ?s)) ws"
    using snoc.IH[OF _ allI] snoc.prems(1) by (auto simp only: set_append Un_iff)
  have h: "nv_holds (cells (fl_chip ?s)) md (log_of (mod_writes md ws))" using ih(2) ok(1,2) by (simp add: nv_all_def)
  have r: "nv_room md (map en_data (log_of (mod_writes md ws)) @ [b])"
    using snoc.prems(2)[rule_format, of md] by (simp add: w mod_writes_snoc log_of_maps(1))
  obtain s' where s': "nv_flashWriteNew D ?s bo sg md i (of_nat (length b)) b = (NV_SUCC, s')" "flash_ok cells writable s'"
    "nv_holds (cells (fl_chip s')) md (log_write sg i b (log_of (mod_writes md ws)))"
    "\<And>j. j < 2 ^ 32 \<Longrightarrow> \<not> (sect_start md 0 \<le> j \<and> j < sect_end md 0) \<Longrightarrow> at (cells (fl_chip s')) j = at (cells (fl_chip ?s)) j"
    using write_new_holds[OF ok(1,2) ih(1) h r ok(4,3), of bo sg] by blast
  have "nv_put D bo w x = snd (nv_flashWriteNew D x bo sg md i (of_nat (length b)) b)" for x :: "'c flash_st"
    by (simp add: w nv_put_def)
  then have "nv_put D bo w ?s = s'" using s'(1) by simp
  then have f: "fold (nv_put D bo) (ws @ [w]) s = s'" by simp
  have "nv_holds (cells (fl_chip s')) md' (log_of (mod_writes md' (ws @ [w])))"
    if m: "md' < DS_MAX_MODULS" "md' \<noteq> DS_NWK_FRAMECOUNT_MODULE" for md'
  proof (cases "md' = md")
    case True
    then show ?thesis using s'(3) by (simp add: w mod_writes_snoc log_of_snoc)
  next
    case False
    have z: "(0 :: nat) < 2" by simp
    have "nv_holds (cells (fl_chip s')) md' (log_of (mod_writes md' ws))"
    proof (rule nv_holds_frame[OF m(1)])
      show "nv_holds (cells (fl_chip ?s)) md' (log_of (mod_writes md' ws))" using ih(2) m by (simp add: nv_all_def)
      fix j assume "sect_start md' 0 \<le> j" "j < sect_end md' 1"
      then show "at (cells (fl_chip s')) j = at (cells (fl_chip ?s)) j"
        using s'(4) modules_disjoint[OF ok(1) m(1) _ _ _ z, of j] False by blast
    qed
    then show ?thesis using False by (simp add: w mod_writes_snoc)
  qed
  then show ?case unfolding f using s'(2) by (simp add: nv_all_def)
qed (use assms in simp)

lemma read_new_holds:
  assumes "md < DS_MAX_MODULS" "md \<noteq> DS_NWK_FRAMECOUNT_MODULE" "flash_ok cells writable s" "nv_holds (cells (fl_chip s)) md es"
    "itemId \<noteq> ITEM_FIELD_IDLE"
  obtains s' where "nv_flashReadNew D s t md itemId len =
      (case nv_lookup es itemId (unat len) of Some k \<Rightarrow> (NV_SUCC, take (real_len t (es ! k)) (en_data (es ! k))) | None \<Rightarrow> (NV_ITEM_NOT_FOUND, []), s')"
    "flash_ok cells writable s'" "cells (fl_chip s') = cells (fl_chip s)"
proof -
  have u1: "flash_ok cells writable (flash_unlock s)" using flash_unlock_ok[OF assms(3)] by simp
  let ?s2 = "flash_unlock (flash_unlock s)"
  note u = unlocked[OF assms(3)] and u2 = unlocked[OF u1]
  have ce: "cells (fl_chip ?s2) = cells (fl_chip s)" unfolding u2(2) u(2) ..
  have ok2: "flash_ok cells writable ?s2" using flash_unlock_ok[OF u1] by simp
  have lk: "flash_ok cells writable (flash_lock (flash_lock ?s2))" "cells (fl_chip (flash_lock (flash_lock ?s2))) = cells (fl_chip s)"
    "flash_ok cells writable (flash_lock ?s2)" "cells (fl_chip (flash_lock ?s2)) = cells (fl_chip s)"
    using flash_lock_ok[OF ok2] flash_lock_ok[of cells writable "flash_lock ?s2"] ce by simp_all
  have z: "(0 :: nat) < 2" by simp
  show thesis
  proof (cases "es = []")
    case True
    then have d: "sect_dead (cells (fl_chip ?s2)) md 0" "sect_dead (cells (fl_chip ?s2)) md 1" using assms(4) by (simp_all add: nv_holds_def ce)
    have "nv_flashReadNew D s t md itemId len = ((NV_ITEM_NOT_FOUND, []), flash_lock ?s2)"
      unfolding nv_flashReadNew_def nv_flashReadNewHandler_def if_not_P[OF assms(2)] Let_def sector_read_dead[OF d] prod.case nv_sts.case option.case
      by simp
    then show thesis using that lk(3,4) True by (simp add: nv_lookup_def)
  next
    case False
    then have st: "sect_live (cells (fl_chip ?s2)) md 0" "sect_dead (cells (fl_chip ?s2)) md (1 - 0)" "nv_log (cells (fl_chip ?s2)) md 0 es"
      using assms(4) by (simp_all add: nv_holds_def nv_state_def ce)
    note rd = sector_read_live[OF z st(1,2)] and ir = index_read_item[OF assms(1) z st(3) assms(5), of len] and op = live_op(1)[OF st(1)]
    have same: "x\<lparr>fl_chip := fl_chip x\<rparr> = x" for x :: "'c flash_st" by simp
    show thesis
    proof (cases "nv_lookup es itemId (unat len)")
      case None
      then have ir: "nv_index_read D (fl_chip ?s2) md itemId len 0 (MODULE_IDX_NUM md) = (NV_ITEM_NOT_FOUND, None)" using ir by simp
      have "nv_flashReadNew D s t md itemId len = ((NV_ITEM_NOT_FOUND, []), flash_lock (flash_lock ?s2))"
        unfolding nv_flashReadNew_def nv_flashReadNewHandler_def if_not_P[OF assms(2)] Let_def rd prod.case nv_sts.case option.case op ir if_True same ..
      then show thesis using that lk(1,2) None by simp
    next
      case (Some k)
      then have ir: "nv_index_read D (fl_chip ?s2) md itemId len 0 (MODULE_IDX_NUM md) = (NV_SUCC, Some k)" using ir by simp
      have h: "nv_flashReadByIndex D (fl_chip ?s2) t md itemId 0 k len = (NV_SUCC, take (real_len t (es ! k)) (en_data (es ! k)))"
        by (rule read_by_index[OF assms(1) z st(3)]) (use nv_lookup_less[OF Some] in simp_all)
      have ne: "(NV_SUCC = NV_CHECK_SUM_ERROR) = False" by simp
      have "nv_flashReadNew D s t md itemId len = ((NV_SUCC, take (real_len t (es ! k)) (en_data (es ! k))), flash_lock (flash_lock ?s2))"
        unfolding nv_flashReadNew_def nv_flashReadNewHandler_def if_not_P[OF assms(2)] Let_def rd prod.case nv_sts.case option.case op ir if_True h ne if_False same ..
      then show thesis using that lk(1,2) Some by simp
    qed
  qed
qed

end

context nor_flash begin

lemma write_handler_err:
  assumes "of_nat (NV_SECTOR_SIZE md) \<ge> ITEM_TOTAL_LEN len + of_nat (MODULE_INFO_SIZE md)"
    "nv_sector_read d c True md MODULE_SECTOR_NUM = (NV_SUCC, Some h, c0)" "unat (si_opSect h AND 1) = s"
    "find_slot d c0 False md len s = (False, n)"
    "nv_write_item d c0 single md itemId s n len (FromRam buf) = (NV_ITEM_CHECK_ERROR, c3)"
  shows "nv_flashWriteNewHandler d c bo False single md itemId len buf = (NV_ITEM_CHECK_ERROR, c3)"
proof -
  have sz: "\<not> of_nat (NV_SECTOR_SIZE md) < ITEM_TOTAL_LEN len + of_nat (MODULE_INFO_SIZE md)" using assms(1) by simp
  show ?thesis
    unfolding nv_flashWriteNewHandler_def Let_def if_not_P[OF sz] assms(2) prod.case nv_sts.case option.case assms(3,4) if_False sum.case assms(5)
    by simp
qed

text \<open>The item would end behind the sector once its offset is aligned: nothing is written, and no sector change tried.\<close>

lemma write_gap:
  assumes "md < DS_MAX_MODULS" "nv_state (cells c) md s es" "length es = Suc n" "Suc n < MODULE_IDX_NUM md" "unat len = L"
    "log_end (content_at md s) (take n es) + 8 + length (en_data (es ! n)) + (L + 8) \<le> sect_end md s"
    "sect_end md s < log_end (content_at md s) es + 8 + L"
  shows "nv_flashWriteNewHandler D c bo False single md itemId len buf = (NV_ITEM_CHECK_ERROR, c)"
proof -
  have st: "s < 2" "sect_live (cells c) md s" "sect_dead (cells c) md (1 - s)" "nv_log (cells c) md s es"
    using assms(2) by (simp_all add: nv_state_def)
  note b = nv_bounds[OF assms(1) st(1)]
  have c0: "content_at md s \<le> log_end (content_at md s) (take n es)" by (rule log_end_ge)
  have sz: "of_nat (NV_SECTOR_SIZE md) \<ge> ITEM_TOTAL_LEN len + of_nat (MODULE_INFO_SIZE md)"
    by (rule size_check[OF assms(1) st(1) _ assms(5), of "[]"]) (use assms(4,6) c0 in \<open>simp add: nv_fits_def\<close>)
  have le: "log_end (content_at md s) es = align4n (log_end (content_at md s) (take n es) + 8 + length (en_data (es ! n)))"
    using log_end_take_Suc[of n es "content_at md s"] assms(3) by simp
  then have lt: "log_end (content_at md s) es < sect_end md s"
    using align4n_bounds(2)[of "log_end (content_at md s) (take n es) + 8 + length (en_data (es ! n))"] assms(6) by simp
  have "L + 8 \<le> 15872" using assms(6) c0 b(2,5) by linarith
  then have L: "L + 8 < 2 ^ 16" "L < 2 ^ 16" by simp_all
  have "\<not> ITEM_OFT_CHECK (of_nat (log_end (content_at md s) es)) (of_nat (L + 8)) md s"
  proof -
    have u: "unat (of_nat (sect_end md s) - of_nat (log_end (content_at md s) es) :: u32) = sect_end md s - log_end (content_at md s) es"
      using lt b(3) by (simp add: unat_sub word_le_nat_alt unat_of_nat_u32)
    have uL: "unat (of_nat (L + 8) :: u32) = L + 8" by (rule unat_of_nat_u32) (use L(1) in simp)
    show ?thesis unfolding ITEM_OFT_CHECK_def nv_addr ucast_of_nat16[OF L(1)] word_le_nat_alt u uL using assms(7) lt by linarith
  qed
  moreover have "len + of_nat HDR_SIZE = (of_nat (L + 8) :: u16)" using assms(5) by (metis of_nat_add of_nat_unat ucast_id)
  ultimately have w: "nv_write_item D c single md itemId s (length es) len (FromRam buf) = (NV_ITEM_CHECK_ERROR, c)"
    unfolding nv_write_item_def next_offset_log[OF assms(1) st(1,4)] by (simp add: Let_def)
  show ?thesis
    by (rule write_handler_err[OF sz sector_read_live[OF st(1-3)] live_op(1)[OF st(2)] find_slot_last[OF assms(1) st(1,4) assms(3-6)] w[unfolded assms(3)]])
qed

end

section \<open>Properties\<close>

text \<open>C2: The item store keeps the last write. On any NOR chip on which no module holds a valid sector, after
  any writes to any modules that fit in one sector each, reading an item with a length that divides the
  length of its last write returns those bytes (cut to the item's entry in the length table, when it has
  one), and an item never written is reported as not found; writes to other modules do not matter.\<close>

theorem nv_items_persist:
  assumes "nor_chip program read_cmd erase_cmd cells writable" "flash_ok cells writable s"
    "d = mk_drv (flash_write_page program) read_cmd erase_cmd"
    "\<forall>md < DS_MAX_MODULS. sect_dead (cells (fl_chip s)) md 0 \<and> sect_dead (cells (fl_chip s)) md 1"
    "\<forall>w \<in> set ws. wr_ok w" "\<forall>md. nv_room md (map (snd \<circ> snd) (mod_writes md ws))"
    "md < DS_MAX_MODULS" "md \<noteq> DS_NWK_FRAMECOUNT_MODULE" "i \<noteq> ITEM_FIELD_IDLE"
  shows "case map_of (rev (map snd (mod_writes md ws))) i of
      Some b \<Rightarrow> length b mod unat len = 0 \<longrightarrow>
        fst (nv_flashReadNew d (fold (nv_put d bo) ws s) t md i len) =
          (NV_SUCC, take (unat (nv_itemLengthValidCheck t i (of_nat (length b)))) b)
    | None \<Rightarrow> fst (nv_flashReadNew d (fold (nv_put d bo) ws s) t md i len) = (NV_ITEM_NOT_FOUND, [])"
proof -
  have N: "nor_flash (flash_write_page program) read_cmd erase_cmd cells writable"
    by (rule nor_chip.platform_nor[OF assms(1)])
  let ?s = "fold (nv_put d bo) ws s" and ?ws = "mod_writes md ws"
  have "nv_all (cells (fl_chip s)) []" using assms(4) by (simp add: nv_all_def nv_holds_def mod_writes_def)
  from nor_flash.put_all[OF N this assms(2,5,6), of bo]
  have st: "flash_ok cells writable ?s" "nv_holds (cells (fl_chip ?s)) md (log_of ?ws)"
    using assms(7,8) by (simp_all add: assms(3) nv_all_def)
  have rd: "fst (nv_flashReadNew d ?s t md i len) = (case nv_lookup (log_of ?ws) i (unat len) of
      Some k \<Rightarrow> (NV_SUCC, take (real_len t (log_of ?ws ! k)) (en_data (log_of ?ws ! k))) | None \<Rightarrow> (NV_ITEM_NOT_FOUND, []))"
    unfolding assms(3)
    by (rule nor_flash.read_new_holds[OF N assms(7,8) st[unfolded assms(3)] assms(9), of t len]) (simp only: fst_conv)
  show ?thesis
  proof (cases "map_of (rev (map snd ?ws)) i")
    case None
    then have "i \<notin> set (map (fst \<circ> snd) ?ws)" by (auto simp: map_of_eq_None_iff image_comp)
    then show ?thesis using rd lookup_none None by simp
  next
    case (Some b)
    then obtain k where k: "k < length ?ws" "snd (?ws ! k) = (i, b)"
      "\<And>j. k < j \<Longrightarrow> j < length ?ws \<Longrightarrow> fst (snd (?ws ! j)) \<noteq> i"
      using map_of_rev_last[OF Some] by (auto simp: nth_map)
    have "nv_lookup (log_of ?ws) i (unat len) = Some k" if "length b mod unat len = 0"
      by (rule lookup_last) (use k that in simp_all)
    then show ?thesis using rd Some log_of_nth[OF k(1)] k(2) by (simp add: real_len_def)
  qed
qed

text \<open>A new device, two versions of one item and an item of another module with the same number.\<close>

definition demo_writes :: "nv_wr list" where
  "demo_writes = [(1, True, 3, [1, 2, 3, 4]), (4, True, 3, [9]), (1, True, 3, [5, 6, 7, 8])]"

lemma dead_new_item: "sect_dead (\<lambda>_. 0xff) md s"
proof -
  have "sect_of [0xff, 0xff, 0xff, 0xff] = \<lparr>si_usedFlag = 0xffff, si_idName = 0xff, si_opSect = 0xff\<rparr>"
    by (simp add: sect_of_def get16_def)
  moreover have "map (at (\<lambda>_. 0xff)) [sect_start md s..<sect_start md s + 4] = [0xff, 0xff, 0xff, 0xff]"
    by (simp add: at_def upt_rec)
  ultimately show ?thesis
    by (simp add: sect_dead_def sect_hdr_def SECT_VALID_CHECK_def NV_SECTOR_VALID_READY_CHECKCRC_def NV_SECTOR_VALID_CHECKCRC_def NV_SECTOR_VALID_def)
qed

theorem nv_items_persist_witness:
  "fst (nv_flashReadNew myFlashDrv_ideal (fold (nv_put myFlashDrv_ideal True) demo_writes new_device)
     \<lparr>g_nvItemLengthCheckNum = 0, g_nvItemLenCheckTbl = []\<rparr> 1 3 4) = (NV_SUCC, [5, 6, 7, 8])"
proof -
  let ?t = "\<lparr>g_nvItemLengthCheckNum = 0, g_nvItemLenCheckTbl = []\<rparr>"
  have d: "\<forall>md < DS_MAX_MODULS. sect_dead (fl_chip new_device) md 0 \<and> sect_dead (fl_chip new_device) md 1"
    by (simp add: new_device_def dead_new_item)
  have o: "\<forall>w \<in> set demo_writes. wr_ok w" by (simp add: demo_writes_def wr_ok_def ITEM_FIELD_IDLE_def)
  have r: "\<forall>md. nv_room md (map (snd \<circ> snd) (mod_writes md demo_writes))"
    by (simp add: demo_writes_def mod_writes_def nv_room_def align4n_def MODULE_IDX_NUM_def MODULE_INFO_SIZE_def NV_SECTOR_SIZE_def)
  have i: "(3 :: u8) \<noteq> ITEM_FIELD_IDLE" by (simp add: ITEM_FIELD_IDLE_def)
  have m: "(1 :: nat) < DS_MAX_MODULS" "(1 :: nat) \<noteq> DS_NWK_FRAMECOUNT_MODULE" by simp_all
  from nv_items_persist[OF ideal.nor_chip_axioms new_device_ok refl _ o r m i, of True ?t 4]
  show ?thesis using d by (simp add: demo_writes_def mod_writes_def nv_itemLengthValidCheck_def)
qed

text \<open>C28: A gap of the write path. The free space is checked without the alignment of the new item's offset,
  the item is placed with it: when an item fits without and not with the alignment, the write fails
  with the check error, the flash is unchanged, and the other sector is not used, whatever the item
  would replace.\<close>

theorem nv_write_alignment_gap:
  assumes "nor_chip program read_cmd erase_cmd cells writable" "flash_ok cells writable s"
    "d = mk_drv (flash_write_page program) read_cmd erase_cmd"
    "\<forall>md < DS_MAX_MODULS. sect_dead (cells (fl_chip s)) md 0 \<and> sect_dead (cells (fl_chip s)) md 1"
    "\<forall>w \<in> set ws. wr_ok w" "\<forall>md. nv_room md (map (snd \<circ> snd) (mod_writes md ws))"
    "md < DS_MAX_MODULS" "md \<noteq> DS_NWK_FRAMECOUNT_MODULE"
    "map (snd \<circ> snd) (mod_writes md ws) = bs @ [b']" "length bs + 1 < MODULE_IDX_NUM md" "length b < 2 ^ 16"
    "u = MODULE_INFO_SIZE md + (\<Sum>b\<leftarrow>bs. align4n (8 + length b)) + 8 + length b'"
    "u + 8 + length b \<le> NV_SECTOR_SIZE md" "NV_SECTOR_SIZE md < align4n u + 8 + length b"
    "s' = fold (nv_put d bo) ws s"
  shows "fst (nv_flashWriteNew d s' bo' single md i (of_nat (length b)) b) = NV_ITEM_CHECK_ERROR \<and>
    cells (fl_chip (snd (nv_flashWriteNew d s' bo' single md i (of_nat (length b)) b))) = cells (fl_chip s')"
proof -
  have N: "nor_flash (flash_write_page program) read_cmd erase_cmd cells writable"
    by (rule nor_chip.platform_nor[OF assms(1)])
  let ?es = "log_of (mod_writes md ws)" and ?n = "length bs"
  have "nv_all (cells (fl_chip s)) []" using assms(4) by (simp add: nv_all_def nv_holds_def mod_writes_def)
  from nor_flash.put_all[OF N this assms(2,5,6), of bo]
  have st: "flash_ok cells writable s'" "nv_holds (cells (fl_chip s')) md ?es"
    using assms(7,8) by (simp_all add: assms(3,15) nv_all_def)
  have ds: "map en_data ?es = bs @ [b']" using assms(9) by (simp add: log_of_maps)
  have len: "length ?es = Suc ?n" using arg_cong[OF ds, of length] by simp
  have tk: "map en_data (take ?n ?es) = bs" "en_data (?es ! ?n) = b'"
    using arg_cong[OF ds, of "take ?n"] arg_cong[OF ds, of "\<lambda>l. l ! ?n"] len by (simp_all add: take_map)
  have le: "log_end (content_at md 0) (take ?n ?es) = content_at md 0 + (\<Sum>b\<leftarrow>bs. align4n (8 + length b))"
    using arg_cong[OF tk(1), of "map (\<lambda>b. align4n (8 + length b))"] by (simp add: log_end_sum[OF content_mod4] comp_def)
  have off: "log_end (content_at md 0) (take ?n ?es) + 8 + length b' = sect_start md 0 + u"
    unfolding le unfolding assms(12) content_at_def by simp
  have e: "log_end (content_at md 0) ?es = sect_start md 0 + align4n u"
  proof -
    have "sect_start md 0 mod 4 = 0" by (auto simp: sect_start_def mod_start_def)
    then show ?thesis using log_end_take_Suc[of ?n ?es "content_at md 0"] len off align4n_add[of "sect_start md 0" u] tk(2) by simp
  qed
  have ns: "nv_state (cells (fl_chip (flash_unlock s'))) md 0 ?es"
  proof -
    have "?es \<noteq> []" using arg_cong[OF ds, of length] by (intro notI) simp
    then show ?thesis using st(2) nor_flash.unlocked(2)[OF N st(1)] by (simp add: nv_holds_def)
  qed
  have ul: "unat (of_nat (length b) :: u16) = length b" using assms(11) by (intro unat_of_nat_small) simp
  have h: "nv_flashWriteNewHandler d (fl_chip (flash_unlock s')) bo' False single md i (of_nat (length b)) b = (NV_ITEM_CHECK_ERROR, fl_chip (flash_unlock s'))"
    unfolding assms(3)
    by (rule nor_flash.write_gap[OF N assms(7) ns len _ ul]) (use assms(10,13,14) off e tk(2) in \<open>simp_all add: sect_end_def\<close>)
  have "nv_flashWriteNew d s' bo' single md i (of_nat (length b)) b = (NV_ITEM_CHECK_ERROR, flash_lock ((flash_unlock s')\<lparr>fl_chip := fl_chip (flash_unlock s')\<rparr>))"
    unfolding nv_flashWriteNew_def on_chip_def if_not_P[OF assms(8)] h prod.case ..
  moreover have "cells (fl_chip (flash_lock ((flash_unlock s')\<lparr>fl_chip := fl_chip (flash_unlock s')\<rparr>))) = cells (fl_chip s')"
    using nor_flash.unlocked(4)[OF N st(1) nor_flash.unlocked(1)[OF N st(1)]] nor_flash.unlocked(2)[OF N st(1)] by (rule trans)
  ultimately show ?thesis by (simp only: fst_conv snd_conv)
qed

theorem nv_write_alignment_gap_witness:
  "fst (nv_flashWriteNew myFlashDrv_ideal (fold (nv_put myFlashDrv_ideal True) [(0, True, 2, [7])] new_device) True True 0 2 3822 (replicate 3822 0)) =
     NV_ITEM_CHECK_ERROR"
proof -
  have o: "\<forall>w \<in> set [(0, True, 2, [7])]. wr_ok w" by (simp add: wr_ok_def ITEM_FIELD_IDLE_def)
  have r: "\<forall>md. nv_room md (map (snd \<circ> snd) (mod_writes md [(0, True, 2, [7])]))"
    by (simp add: mod_writes_def nv_room_def align4n_def MODULE_IDX_NUM_def MODULE_INFO_SIZE_def NV_SECTOR_SIZE_def)
  have m: "(0 :: nat) < DS_MAX_MODULS" "(0 :: nat) \<noteq> DS_NWK_FRAMECOUNT_MODULE" by simp_all
  have w: "map (snd \<circ> snd) (mod_writes 0 [(0, True, 2, [7])]) = [] @ [[7]]" by (simp add: mod_writes_def)
  have d: "\<forall>md < DS_MAX_MODULS. sect_dead (fl_chip new_device) md 0 \<and> sect_dead (fl_chip new_device) md 1"
    by (simp add: new_device_def dead_new_item)
  show ?thesis
    using d nv_write_alignment_gap[OF ideal.nor_chip_axioms new_device_ok refl _ o r m w _ _ refl _ _ refl, of "replicate 3822 0" True True True 2]
    by (simp add: MODULE_IDX_NUM_def MODULE_INFO_SIZE_def NV_SECTOR_SIZE_def align4n_def)
qed

end
