(* ===== verification/Adpcm.thy ===== *)
theory Adpcm
  imports Prelude
begin

text \<open>
  The IMA ADPCM voice codec, \<open>proj/drivers/audio/audio_codec_adpcm.c\<close>. Samples and packet words are
  16-bit words (a sample is read with \<open>sint\<close>); the C \<open>int\<close>s of the coder stay small
  (\<open>enc_sample_bounds\<close>), so they are integers here. A buffer is the list of words written to it in
  order. The encoder and the decoder are shown to run in step, and the error of a sample is bounded.
\<close>

section \<open>Tables\<close>

definition idxtbl :: "int list" where
  "idxtbl = [-1, -1, -1, -1, 2, 4, 6, 8, -1, -1, -1, -1, 2, 4, 6, 8]"

definition steptbl :: "int list" where
  "steptbl =
    [7, 8, 9, 10, 11, 12, 13, 14, 16, 17,
     19, 21, 23, 25, 28, 31, 34, 37, 41, 45,
     50, 55, 60, 66, 73, 80, 88, 97, 107, 118,
     130, 143, 157, 173, 190, 209, 230, 253, 279, 307,
     337, 371, 408, 449, 494, 544, 598, 658, 724, 796,
     876, 963, 1060, 1166, 1282, 1411, 1552, 1707, 1878, 2066,
     2272, 2499, 2749, 3024, 3327, 3660, 4026, 4428, 4871, 5358,
     5894, 6484, 7132, 7845, 8630, 9493, 10442, 11487, 12635, 13899,
     15289, 16818, 18500, 20350, 22385, 24623, 27086, 29794, 32767]"

section \<open>One sample\<close>

text \<open>The loop over \<open>j = 4, 2, 1\<close>.\<close>

function quant_loop :: "nat \<Rightarrow> int \<Rightarrow> int \<Rightarrow> int \<Rightarrow> nat \<Rightarrow> int \<times> nat" where
  "quant_loop j step diff diffq code =
     (if j = 0 then (diffq, code)
      else if diff \<ge> step then quant_loop (j div 2) (step div 2) (diff - step) (diffq + step) (code + j)
      else quant_loop (j div 2) (step div 2) diff diffq code)"
  by auto

termination
  by (relation "measure (\<lambda>(j, step, diff, diffq, code). j)") auto

declare quant_loop.simps [simp del]

definition clamp_predict :: "int \<Rightarrow> int" where
  "clamp_predict p = (if p > 32767 then 32767 else if p < -32767 then -32767 else p)"

definition next_idx :: "int \<Rightarrow> nat \<Rightarrow> int" where
  "next_idx predict_idx code =
     (let k = predict_idx + idxtbl ! code in if k < 0 then 0 else if k > 88 then 88 else k)"

text \<open>The body of the three encoders' loops: the code of a sample and the coder state after it.\<close>

definition enc_sample :: "int \<Rightarrow> int \<Rightarrow> int \<Rightarrow> nat \<times> int \<times> int" where
  "enc_sample predict predict_idx di =
     (let step = steptbl ! nat predict_idx;
          diff = di - predict;
          (diffq, code) = (if diff \<ge> 0 then quant_loop 4 step diff (step div 8) 0
                           else quant_loop 4 step (- diff) (step div 8) 8)
      in (code, clamp_predict (if code \<ge> 8 then predict - diffq else predict + diffq), next_idx predict_idx code))"

section \<open>The encoders\<close>

fun enc_loop :: "nat \<Rightarrow> int \<Rightarrow> int \<Rightarrow> u16 \<Rightarrow> u16 list \<Rightarrow> u16 list \<times> int \<times> int" where
  "enc_loop i predict predict_idx code16 [] = ([], predict, predict_idx)"
| "enc_loop i predict predict_idx code16 (s # ss) =
     (let (code, predict', predict_idx') = enc_sample predict predict_idx (sint s);
          code16' = drop_bit 4 code16 OR push_bit 12 (of_nat code);
          (out, st) = enc_loop (i + 1) predict' predict_idx' code16' ss
      in (if i mod 4 = 3 then code16' # out else out, st))"

definition pcm_to_adpcm :: "u16 list \<Rightarrow> nat \<Rightarrow> u16 list" where
  "pcm_to_adpcm ps len =
     map ((!) ps) [0..<8] @ fst (enc_loop 1 (sint (ps ! 0)) 1 0 (map ((!) ps) [1..<len]))"

definition NUM_OF_ORIG_SAMPLE :: nat where "NUM_OF_ORIG_SAMPLE = 2"

definition mic_to_adpcm :: "u16 list \<Rightarrow> nat \<Rightarrow> u16 list" where
  "mic_to_adpcm ps len =
     map ((!) ps) [0..<NUM_OF_ORIG_SAMPLE] @ fst (enc_loop 1 (sint (ps ! 0)) 1 0 (map ((!) ps) [1..<len]))"

text \<open>The function-local statics of \<open>mic_to_adpcm_split\<close>; \<open>mic_pd\<close> is what has been written behind
  \<open>pds\<close> since the last call with \<open>start\<close>.\<close>

record mic_state =
  mic_predict_idx :: int
  mic_predict :: int
  mic_pd :: "u16 list"

definition packet_header :: "nat \<Rightarrow> int \<Rightarrow> int \<Rightarrow> u16 list" where
  "packet_header ADPCM_PACKET_LEN predict predict_idx =
     [word_of_int predict,
      ucast (word_of_int predict_idx :: u8) OR push_bit 8 (ucast (of_nat (ADPCM_PACKET_LEN - 4) :: u8))]"

definition mic_to_adpcm_split :: "nat \<Rightarrow> bool \<Rightarrow> u16 list \<Rightarrow> nat \<Rightarrow> bool \<Rightarrow> mic_state \<Rightarrow> mic_state" where
  "mic_to_adpcm_split ADPCM_PACKET_LEN TL_MIC_32K_FIR_16K ps len start st =
     (let pd = (if start then packet_header ADPCM_PACKET_LEN (mic_predict st) (mic_predict_idx st) else mic_pd st);
          (out, predict, predict_idx) =
            enc_loop 0 (mic_predict st) (mic_predict_idx st) 0
              (map (\<lambda>i. ps ! (if TL_MIC_32K_FIR_16K then i * 2 else i)) [0..<len])
      in \<lparr>mic_predict_idx = predict_idx, mic_predict = predict, mic_pd = pd @ out\<rparr>)"

section \<open>The decoder\<close>

definition dec_sample :: "int \<Rightarrow> int \<Rightarrow> u8 \<Rightarrow> int \<times> int" where
  "dec_sample predict predict_idx code =
     (let step = steptbl ! nat predict_idx;
          diffq = step div 8;
          diffq = (if code AND 4 \<noteq> 0 then diffq + step else diffq);
          step = step div 2;
          diffq = (if code AND 2 \<noteq> 0 then diffq + step else diffq);
          step = step div 2;
          diffq = (if code AND 1 \<noteq> 0 then diffq + step else diffq)
      in (clamp_predict (if code AND 8 \<noteq> 0 then predict - diffq else predict + diffq),
          next_idx predict_idx (unat (code AND 15))))"

text \<open>\<open>pcode\<close> is the position of the next byte of the packet \<open>bs\<close>; \<open>n\<close> samples are left.\<close>

fun dec_loop :: "u8 list \<Rightarrow> nat \<Rightarrow> nat \<Rightarrow> int \<Rightarrow> int \<Rightarrow> u8 \<Rightarrow> nat \<Rightarrow> u16 list" where
  "dec_loop bs i 0 predict predict_idx code pcode = []"
| "dec_loop bs i (Suc n) predict predict_idx code pcode =
     (let (predict', predict_idx') = dec_sample predict predict_idx code
      in word_of_int predict' #
         (if i mod 2 = 1 then dec_loop bs (i + 1) n predict' predict_idx' (bs ! pcode) (pcode + 1)
          else dec_loop bs (i + 1) n predict' predict_idx' (drop_bit 4 code) pcode))"

definition words_bytes :: "u16 list \<Rightarrow> u8 list" where
  "words_bytes ws = concat (map (\<lambda>w. [ucast w, ucast (drop_bit 8 w)]) ws)"

definition adpcm_to_pcm :: "u16 list \<Rightarrow> nat \<Rightarrow> u16 list" where
  "adpcm_to_pcm ps len =
     (let bs = words_bytes ps; pcode = 2 * NUM_OF_ORIG_SAMPLE
      in dec_loop bs 0 len (sint (ps ! 0)) (uint (ps ! 1 AND 0xff)) (bs ! pcode) (pcode + 1))"

section \<open>Encoder and decoder in step\<close>

text \<open>The range of the coder state.\<close>

definition s_ok :: "int \<Rightarrow> int \<Rightarrow> bool" where
  "s_ok predict predict_idx \<longleftrightarrow> -32768 \<le> predict \<and> predict \<le> 32767 \<and> 0 \<le> predict_idx \<and> predict_idx \<le> 88"

lemma quant_loop_4:
  "quant_loop 4 step d q code =
     (let b2 = (d \<ge> step); d1 = (if b2 then d - step else d);
          b1 = (d1 \<ge> step div 2); d2 = (if b1 then d1 - step div 2 else d1);
          b0 = (d2 \<ge> step div 2 div 2)
      in (q + of_bool b2 * step + of_bool b1 * (step div 2) + of_bool b0 * (step div 2 div 2),
          code + 4 * of_bool b2 + 2 * of_bool b1 + of_bool b0))"
proof -
  have z: "quant_loop 0 s e r c' = (r, c')" for s e r c' by (subst quant_loop.simps) simp
  have o1: "quant_loop 1 s e r c' = (if e \<ge> s then (r + s, c' + 1) else (r, c'))" for s e r c'
    by (subst quant_loop.simps) (simp add: z)
  have o2: "quant_loop 2 s e r c' = (if e \<ge> s then quant_loop 1 (s div 2) (e - s) (r + s) (c' + 2)
    else quant_loop 1 (s div 2) e r c')" for s e r c'
    by (subst quant_loop.simps) simp
  have o4: "quant_loop 4 s e r c' = (if e \<ge> s then quant_loop 2 (s div 2) (e - s) (r + s) (c' + 4)
    else quant_loop 2 (s div 2) e r c')" for s e r c'
    by (subst quant_loop.simps) simp
  define h where "h = step div 2"
  define f where "f = h div 2"
  show ?thesis
    unfolding h_def[symmetric] f_def[symmetric] o4 o2 o1 Let_def
    by (simp only: h_def[symmetric] f_def[symmetric] split: if_split) (simp add: of_bool_def)
qed

lemma length_steptbl: "length steptbl = 89" by (simp add: steptbl_def)

lemma steptbl_bounds: "0 \<le> k \<Longrightarrow> k \<le> 88 \<Longrightarrow> 7 \<le> steptbl ! nat k \<and> steptbl ! nat k \<le> 32767"
proof -
  assume "0 \<le> k" "k \<le> 88"
  then have "steptbl ! nat k \<in> set steptbl" by (simp add: length_steptbl)
  moreover have "\<forall>s \<in> set steptbl. 7 \<le> s \<and> s \<le> 32767" by (simp add: steptbl_def)
  ultimately show ?thesis by blast
qed

lemma next_idx_bounds: "0 \<le> next_idx k c \<and> next_idx k c \<le> 88"
  by (simp add: next_idx_def Let_def)

lemma clamp_bounds: "-32767 \<le> clamp_predict p \<and> clamp_predict p \<le> 32767"
  by (simp add: clamp_predict_def)

text \<open>What a sample does, by the bits of its code: \<open>q\<close> is the step the predictor makes.\<close>

definition code_of :: "bool \<Rightarrow> bool \<Rightarrow> bool \<Rightarrow> bool \<Rightarrow> nat" where
  "code_of b3 b2 b1 b0 = 8 * of_bool b3 + 4 * of_bool b2 + 2 * of_bool b1 + of_bool b0"

definition diff_of :: "int \<Rightarrow> bool \<Rightarrow> bool \<Rightarrow> bool \<Rightarrow> int" where
  "diff_of step b2 b1 b0 = step div 8 + of_bool b2 * step + of_bool b1 * (step div 2) + of_bool b0 * (step div 2 div 2)"

lemma code_of_less: "code_of b3 b2 b1 b0 < 16"
  by (simp add: code_of_def)

lemma code_of_ge_8: "8 \<le> code_of b3 b2 b1 b0 \<longleftrightarrow> b3"
  by (cases b3; cases b2; cases b1; cases b0) (simp_all add: code_of_def)

lemma quant_residue:
  assumes "0 \<le> d" "d < 2 * step" "7 \<le> step"
  shows "\<exists>b2 b1 b0. quant_loop 4 step d (step div 8) (8 * of_bool b3) = (diff_of step b2 b1 b0, code_of b3 b2 b1 b0) \<and>
    \<bar>d - diff_of step b2 b1 b0\<bar> \<le> step div 8 + 2"
proof -
  define b2 where "b2 = (d \<ge> step)"
  define d1 where "d1 = (if b2 then d - step else d)"
  define b1 where "b1 = (d1 \<ge> step div 2)"
  define d2 where "d2 = (if b1 then d1 - step div 2 else d1)"
  define b0 where "b0 = (d2 \<ge> step div 2 div 2)"
  have 1: "0 \<le> d1" "d1 < step" using assms by (auto simp: d1_def b2_def)
  have 2: "0 \<le> d2" "d2 \<le> step div 2" using 1 by (auto simp: d2_def b1_def)
  have 3: "0 \<le> d2 - of_bool b0 * (step div 2 div 2)" "d2 - of_bool b0 * (step div 2 div 2) \<le> step div 2 div 2 + 1"
    using 2 by (auto simp: b0_def)
  have "d - diff_of step b2 b1 b0 = d2 - of_bool b0 * (step div 2 div 2) - step div 8"
    by (auto simp: diff_of_def d2_def d1_def)
  moreover have "step div 2 div 2 \<le> 2 * (step div 8) + 1" by linarith
  ultimately have "\<bar>d - diff_of step b2 b1 b0\<bar> \<le> step div 8 + 2" using 3 by linarith
  moreover have "quant_loop 4 step d (step div 8) (8 * of_bool b3) = (diff_of step b2 b1 b0, code_of b3 b2 b1 b0)"
    unfolding quant_loop_4 Let_def diff_of_def code_of_def b2_def[symmetric]
    by (simp only: d1_def[symmetric] b1_def[symmetric] d2_def[symmetric] b0_def[symmetric])
  ultimately show ?thesis by blast
qed

lemma quant_bits:
  "\<exists>b2 b1 b0. quant_loop 4 step d (step div 8) (8 * of_bool b3) = (diff_of step b2 b1 b0, code_of b3 b2 b1 b0)"
  unfolding quant_loop_4 Let_def diff_of_def code_of_def by blast

lemma enc_sample_bits:
  "\<exists>b3 b2 b1 b0. enc_sample p k x =
     (code_of b3 b2 b1 b0,
      clamp_predict (if b3 then p - diff_of (steptbl ! nat k) b2 b1 b0 else p + diff_of (steptbl ! nat k) b2 b1 b0),
      next_idx k (code_of b3 b2 b1 b0))"
proof (cases "x - p \<ge> 0")
  case True
  obtain b2 b1 b0 where "quant_loop 4 (steptbl ! nat k) (x - p) (steptbl ! nat k div 8) (8 * of_bool False) =
      (diff_of (steptbl ! nat k) b2 b1 b0, code_of False b2 b1 b0)" using quant_bits by blast
  with True have "enc_sample p k x = (code_of False b2 b1 b0,
      clamp_predict (p + diff_of (steptbl ! nat k) b2 b1 b0), next_idx k (code_of False b2 b1 b0))"
    by (simp add: enc_sample_def Let_def code_of_ge_8)
  then show ?thesis by (intro exI[of _ False] exI) simp
next
  case False
  obtain b2 b1 b0 where "quant_loop 4 (steptbl ! nat k) (- (x - p)) (steptbl ! nat k div 8) (8 * of_bool True) =
      (diff_of (steptbl ! nat k) b2 b1 b0, code_of True b2 b1 b0)" using quant_bits by blast
  with False have "enc_sample p k x = (code_of True b2 b1 b0,
      clamp_predict (p - diff_of (steptbl ! nat k) b2 b1 b0), next_idx k (code_of True b2 b1 b0))"
    by (simp add: enc_sample_def Let_def code_of_ge_8)
  then show ?thesis by (intro exI[of _ True] exI) simp
qed

lemma enc_sample_ok: "s_ok (fst (snd (enc_sample p k x))) (snd (snd (enc_sample p k x)))"
proof -
  obtain c q where "enc_sample p k x = (c, clamp_predict q, next_idx k c)"
    using enc_sample_bits[of p k x] by blast
  then show ?thesis using clamp_bounds[of q] next_idx_bounds[of k c] by (simp add: s_ok_def)
qed

lemma bit_code_of:
  "bit (of_nat (code_of b3 b2 b1 b0) :: 'a::len word) n \<longleftrightarrow>
     n < LENGTH('a) \<and> (n = 3 \<and> b3 \<or> n = 2 \<and> b2 \<or> n = 1 \<and> b1 \<or> n = 0 \<and> b0)"
proof -
  have "bit (code_of b3 b2 b1 b0) n \<longleftrightarrow> (n = 3 \<and> b3 \<or> n = 2 \<and> b2 \<or> n = 1 \<and> b1 \<or> n = 0 \<and> b0)"
  proof (cases "n < 4")
    case True
    then have "n = 0 \<or> n = 1 \<or> n = 2 \<or> n = 3" by auto
    then show ?thesis
      by (cases b3; cases b2; cases b1; cases b0) (auto simp: code_of_def bit_iff_odd)
  next
    case False
    then have "(16 :: nat) \<le> 2 ^ n" using power_increasing[of 4 n "2 :: nat"] by simp
    then have "code_of b3 b2 b1 b0 < 2 ^ n" using code_of_less order_less_le_trans by blast
    with False show ?thesis by (auto simp: bit_iff_odd)
  qed
  then show ?thesis by (simp add: bit_of_nat_iff)
qed

lemma dec_enc_sample:
  assumes "\<forall>n < 4. bit b n \<longleftrightarrow> bit (of_nat (fst (enc_sample p k x)) :: u8) n"
  shows "dec_sample p k b = snd (enc_sample p k x)"
proof -
  obtain b3 b2 b1 b0 where e: "enc_sample p k x =
     (code_of b3 b2 b1 b0,
      clamp_predict (if b3 then p - diff_of (steptbl ! nat k) b2 b1 b0 else p + diff_of (steptbl ! nat k) b2 b1 b0),
      next_idx k (code_of b3 b2 b1 b0))" using enc_sample_bits[of p k x] by blast
  have n: "bit b 3 = b3" "bit b 2 = b2" "bit b 1 = b1" "bit b 0 = b0"
    using assms unfolding e by (simp_all add: bit_code_of)
  have a: "(b AND 4 \<noteq> 0) = b2" "(b AND 2 \<noteq> 0) = b1" "(b AND 1 \<noteq> 0) = b0" "(b AND 8 \<noteq> 0) = b3"
    using and_exp_eq_0_iff_not_bit[of b 2] and_exp_eq_0_iff_not_bit[of b 1] and_exp_eq_0_iff_not_bit[of b 3]
      and_exp_eq_0_iff_not_bit[of b 0] n by simp_all
  have "b AND 15 = of_nat (code_of b3 b2 b1 b0)"
  proof (rule bit_word_eqI)
    fix i assume i: "i < LENGTH(8)"
    have m: "(15 :: u8) = mask 4" by (simp add: mask_eq_exp_minus_1)
    have "bit (15 :: u8) i \<longleftrightarrow> i < 4" unfolding m bit_mask_iff using i by auto
    moreover have "bit b i \<longleftrightarrow> (i = 3 \<and> b3 \<or> i = 2 \<and> b2 \<or> i = 1 \<and> b1 \<or> i = 0 \<and> b0)" if "i < 4"
      using that n by (auto simp: less_Suc_eq numeral_eq_Suc)
    ultimately show "bit (b AND 15) i = bit (of_nat (code_of b3 b2 b1 b0) :: u8) i"
      using i by (auto simp: bit_and_iff bit_code_of)
  qed
  then have m: "unat (b AND 15) = code_of b3 b2 b1 b0"
    using code_of_less[of b3 b2 b1 b0] by (simp add: unat_of_nat_small)
  show ?thesis
    unfolding dec_sample_def Let_def m a e by (simp add: diff_of_def)
qed

text \<open>What the decoder is to produce: the predictor after each sample.\<close>

fun recon :: "int \<Rightarrow> int \<Rightarrow> u16 list \<Rightarrow> int list" where
  "recon p k [] = []"
| "recon p k (s # ss) = (case enc_sample p k (sint s) of (code, p', k') \<Rightarrow> p' # recon p' k' ss)"

fun enc_states :: "int \<Rightarrow> int \<Rightarrow> u16 list \<Rightarrow> int \<times> int" where
  "enc_states p k [] = (p, k)"
| "enc_states p k (s # ss) = (case enc_sample p k (sint s) of (code, p', k') \<Rightarrow> enc_states p' k' ss)"

lemma enc_loop_state: "snd (enc_loop i p k c ss) = enc_states p k ss"
  by (induction i p k c ss rule: enc_loop.induct) (auto simp: Let_def split: prod.splits)

lemma recon_append: "recon p k (xs @ ys) = recon p k xs @ recon (fst (enc_states p k xs)) (snd (enc_states p k xs)) ys"
  by (induction p k xs rule: recon.induct) (auto split: prod.splits)

lemma enc_states_append: "enc_states p k (xs @ ys) = enc_states (fst (enc_states p k xs)) (snd (enc_states p k xs)) ys"
  by (induction p k xs rule: enc_states.induct) (auto split: prod.splits)

lemma length_recon: "length (recon p k xs) = length xs"
  by (induction p k xs rule: recon.induct) (auto split: prod.splits)

text \<open>The word of four samples; what was in \<open>code16\<close> before is shifted out.\<close>

definition pack4 :: "nat \<Rightarrow> nat \<Rightarrow> nat \<Rightarrow> nat \<Rightarrow> u16" where
  "pack4 a b c d = of_nat a OR push_bit 4 (of_nat b) OR push_bit 8 (of_nat c) OR push_bit 12 (of_nat d)"

lemma bit_shift_in:
  "n < 16 \<Longrightarrow> bit (drop_bit 4 w OR push_bit 12 (of_nat a) :: u16) n \<longleftrightarrow>
     (if n < 12 then bit w (n + 4) else bit w (n + 4) \<or> bit (of_nat a :: u16) (n - 12))"
  by (auto simp: bit_or_iff bit_drop_bit_eq bit_push_bit_iff add.commute)

lemma bit_pack4:
  assumes "a < 16" "b < 16" "c < 16" "d < 16" "n < 16"
  shows "bit (pack4 a b c d) n \<longleftrightarrow>
     (if n < 4 then bit a n else if n < 8 then bit b (n - 4) else if n < 12 then bit c (n - 8) else bit d (n - 12))"
proof -
  have s: "bit x i \<Longrightarrow> i < 4" if "x < 16" for x i :: nat
  proof (rule ccontr)
    assume b: "bit x i" and "\<not> i < 4"
    then have "(16 :: nat) \<le> 2 ^ i" using power_increasing[of 4 i "2 :: nat"] by simp
    then have "x < 2 ^ i" using that by linarith
    with b show False by (simp add: bit_iff_odd)
  qed
  have "bit (pack4 a b c d) n \<longleftrightarrow> bit a n \<or> 4 \<le> n \<and> bit b (n - 4) \<or> 8 \<le> n \<and> bit c (n - 8) \<or> 12 \<le> n \<and> bit d (n - 12)"
    using assms(5) unfolding pack4_def by (auto simp: bit_or_iff bit_push_bit_iff bit_of_nat_iff)
  also have "\<dots> \<longleftrightarrow> (if n < 4 then bit a n else if n < 8 then bit b (n - 4) else if n < 12 then bit c (n - 8) else bit d (n - 12))"
    using s[OF assms(1), of n] s[OF assms(2), of "n - 4"] s[OF assms(3), of "n - 8"] by auto
  finally show ?thesis .
qed

lemma shift4:
  assumes "a < 16" "b < 16" "c < 16" "d < 16"
  shows "drop_bit 4 (drop_bit 4 (drop_bit 4 (drop_bit 4 w OR push_bit 12 (of_nat a)) OR push_bit 12 (of_nat b)) OR push_bit 12 (of_nat c))
     OR push_bit 12 (of_nat d) = pack4 a b c d"
proof (rule bit_word_eqI)
  fix n assume n: "n < LENGTH(16)"
  have hi: "\<not> bit (v :: u16) (m + 16)" for v m using bit_imp_le_length[of v "m + 16"] by auto
  let ?w1 = "drop_bit 4 w OR push_bit 12 (of_nat a) :: u16"
  let ?w2 = "drop_bit 4 ?w1 OR push_bit 12 (of_nat b)"
  let ?w3 = "drop_bit 4 ?w2 OR push_bit 12 (of_nat c)"
  let ?w4 = "drop_bit 4 ?w3 OR push_bit 12 (of_nat d)"
  have out: "m \<ge> 16 \<Longrightarrow> \<not> bit (v :: u16) m" for v m using bit_imp_le_length[of v m] by auto
  consider "n < 4" | "4 \<le> n \<and> n < 8" | "8 \<le> n \<and> n < 12" | "12 \<le> n" by linarith
  then show "bit ?w4 n = bit (pack4 a b c d) n"
  proof cases
    case 1
    then show ?thesis using n bit_pack4[OF assms, of n] bit_shift_in[of n ?w3 d] bit_shift_in[of "n + 4" ?w2 c]
      bit_shift_in[of "n + 8" ?w1 b] bit_shift_in[of "n + 12" w a] out[of "n + 16"]
      by (auto simp: bit_of_nat_iff add.assoc)
  next
    case 2
    then show ?thesis using n bit_pack4[OF assms, of n] bit_shift_in[of n ?w3 d] bit_shift_in[of "n + 4" ?w2 c]
      bit_shift_in[of "n + 8" ?w1 b] out[of "n + 12"]
      by (auto simp: bit_of_nat_iff add.assoc)
  next
    case 3
    then show ?thesis using n bit_pack4[OF assms, of n] bit_shift_in[of n ?w3 d] bit_shift_in[of "n + 4" ?w2 c]
       out[of "n + 8"]
      by (auto simp: bit_of_nat_iff add.assoc)
  next
    case 4
    then show ?thesis using n bit_pack4[OF assms, of n] bit_shift_in[of n ?w3 d] out[of "n + 4"]
      by (auto simp: bit_of_nat_iff)
  qed
qed


lemma word_bytes_pack4:
  assumes "a < 16" "b < 16" "c < 16" "d < 16" "n < 4"
  shows "bit (ucast (pack4 a b c d) :: u8) n = bit (of_nat a :: u8) n"
    and "bit (drop_bit 4 (ucast (pack4 a b c d) :: u8)) n = bit (of_nat b :: u8) n"
    and "bit (ucast (drop_bit 8 (pack4 a b c d)) :: u8) n = bit (of_nat c :: u8) n"
    and "bit (drop_bit 4 (ucast (drop_bit 8 (pack4 a b c d)) :: u8)) n = bit (of_nat d :: u8) n"
  using assms(5) bit_pack4[OF assms(1-4), of n] bit_pack4[OF assms(1-4), of "n + 4"]
    bit_pack4[OF assms(1-4), of "n + 8"] bit_pack4[OF assms(1-4), of "n + 12"]
  by (auto simp: bit_simps add.commute)

lemma enc_loop_step:
  "enc_sample p k (sint s) = (code, p', k') \<Longrightarrow>
   fst (enc_loop i p k w (s # ss)) =
     (if i mod 4 = 3 then [drop_bit 4 w OR push_bit 12 (of_nat code)] else []) @
     fst (enc_loop (i + 1) p' k' (drop_bit 4 w OR push_bit 12 (of_nat code)) ss)"
  by (simp add: Let_def split: prod.splits)

text \<open>Four samples in step.\<close>

lemma enc_loop_group:
  assumes "i mod 4 = 0"
  shows "\<exists>a b c d. a < 16 \<and> b < 16 \<and> c < 16 \<and> d < 16 \<and>
     fst (enc_loop i p k w (s0 # s1 # s2 # s3 # ss)) =
       pack4 a b c d # fst (enc_loop (i + 4) (fst (enc_states p k [s0, s1, s2, s3]))
                              (snd (enc_states p k [s0, s1, s2, s3])) (pack4 a b c d) ss) \<and>
     (\<forall>bs q n i'. i' mod 4 = 0 \<longrightarrow> bs ! q = ucast (pack4 a b c d) \<longrightarrow> bs ! (q + 1) = ucast (drop_bit 8 (pack4 a b c d)) \<longrightarrow>
        dec_loop bs i' (n + 4) p k (bs ! q) (q + 1) =
          map word_of_int (recon p k [s0, s1, s2, s3]) @
          dec_loop bs (i' + 4) n (fst (enc_states p k [s0, s1, s2, s3])) (snd (enc_states p k [s0, s1, s2, s3]))
            (bs ! (q + 2)) (q + 3))"
proof -
  obtain a p1 k1 where 0: "enc_sample p k (sint s0) = (a, p1, k1)" by (metis prod_cases3)
  obtain b p2 k2 where 1: "enc_sample p1 k1 (sint s1) = (b, p2, k2)" by (metis prod_cases3)
  obtain c p3 k3 where 2: "enc_sample p2 k2 (sint s2) = (c, p3, k3)" by (metis prod_cases3)
  obtain d p4 k4 where 3: "enc_sample p3 k3 (sint s3) = (d, p4, k4)" by (metis prod_cases3)
  have l: "a < 16" "b < 16" "c < 16" "d < 16"
    using enc_sample_bits[of p k "sint s0"] enc_sample_bits[of p1 k1 "sint s1"] enc_sample_bits[of p2 k2 "sint s2"]
      enc_sample_bits[of p3 k3 "sint s3"] 0 1 2 3 code_of_less by auto
  have m: "(i + 1) mod 4 = 1" "(i + 2) mod 4 = 2" "(i + 3) mod 4 = 3" using assms by presburger+
  have e: "fst (enc_loop i p k w (s0 # s1 # s2 # s3 # ss)) = pack4 a b c d # fst (enc_loop (i + 4) p4 k4 (pack4 a b c d) ss)"
  proof -
    have j: "i + 1 + 1 = i + 2" "i + 2 + 1 = i + 3" "i + 3 + 1 = i + 4" by simp_all
    show ?thesis
      unfolding enc_loop_step[OF 0] enc_loop_step[OF 1] enc_loop_step[OF 2] enc_loop_step[OF 3] j shift4[OF l] m assms
      by simp
  qed
  have n4: "n + 4 = Suc (Suc (Suc (Suc n)))" for n :: nat by simp
  have dd: "dec_loop bs i' (n + 4) p k (bs ! q) (q + 1) =
       map word_of_int [p1, p2, p3, p4] @ dec_loop bs (i' + 4) n p4 k4 (bs ! (q + 2)) (q + 3)"
    if q: "bs ! q = ucast (pack4 a b c d)" "bs ! (q + 1) = ucast (drop_bit 8 (pack4 a b c d))" and i': "i' mod 4 = 0" for bs q n i'
  proof -
    have m2: "i' mod 2 = 0" "(i' + 1) mod 2 = 1" "(i' + 2) mod 2 = 0" "(i' + 3) mod 2 = 1" using i' by presburger+
    note wb = word_bytes_pack4[OF l]
    have d0: "dec_sample p k (bs ! q) = (p1, k1)"
      using dec_enc_sample[of "bs ! q" p k "sint s0"] wb(1) by (simp add: 0 q)
    have d1: "dec_sample p1 k1 (drop_bit 4 (bs ! q)) = (p2, k2)"
      using dec_enc_sample[of "drop_bit 4 (bs ! q)" p1 k1 "sint s1"] wb(2) by (simp add: 1 q)
    have d2: "dec_sample p2 k2 (bs ! (q + 1)) = (p3, k3)"
      using dec_enc_sample[of "ucast (drop_bit 8 (pack4 a b c d))" p2 k2 "sint s2"] wb(3) unfolding q(2) by (simp add: 2)
    have d3: "dec_sample p3 k3 (drop_bit 4 (bs ! (q + 1))) = (p4, k4)"
      using dec_enc_sample[of "drop_bit 4 (ucast (drop_bit 8 (pack4 a b c d)))" p3 k3 "sint s3"] wb(4) unfolding q(2) by (simp add: 3)
    show ?thesis
      using m2 d0 d1 d2 d3 unfolding n4 by (simp add: Let_def numeral_3_eq_3)
  qed
  show ?thesis
    using l e dd by (intro exI[of _ a] exI[of _ b] exI[of _ c] exI[of _ d]) (simp add: 0 1 2 3)
qed


lemma words_bytes_nth:
  "j < length ws \<Longrightarrow> words_bytes ws ! (2 * j) = ucast (ws ! j)"
  "j < length ws \<Longrightarrow> words_bytes ws ! (2 * j + 1) = ucast (drop_bit 8 (ws ! j))"
proof -
  have "words_bytes ws ! (2 * j) = ucast (ws ! j) \<and> words_bytes ws ! (2 * j + 1) = ucast (drop_bit 8 (ws ! j))"
    if "j < length ws" for j
    using that
  proof (induction ws arbitrary: j)
    case (Cons w ws)
    then show ?case by (cases j) (auto simp: words_bytes_def)
  qed simp
  then show "j < length ws \<Longrightarrow> words_bytes ws ! (2 * j) = ucast (ws ! j)"
    "j < length ws \<Longrightarrow> words_bytes ws ! (2 * j + 1) = ucast (drop_bit 8 (ws ! j))" by blast+
qed

lemma length4E:
  assumes "length ss = 4 * Suc m"
  obtains s0 s1 s2 s3 ss' where "ss = s0 # s1 # s2 # s3 # ss'" "length ss' = 4 * m"
proof -
  from assms obtain s0 t0 where "ss = s0 # t0" "length t0 = 4 * m + 3" by (cases ss) auto
  moreover from this obtain s1 t1 where "t0 = s1 # t1" "length t1 = 4 * m + 2" by (cases t0) auto
  moreover from this obtain s2 t2 where "t1 = s2 # t2" "length t2 = 4 * m + 1" by (cases t1) auto
  moreover from this obtain s3 t3 where "t2 = s3 # t3" "length t3 = 4 * m" by (cases t2) auto
  ultimately show thesis using that by simp
qed

text \<open>A unit of encoder output, wherever it stands in the packet, decodes to its reconstruction; the
  decoder then stands behind it in the encoder's state. This is independent of the counter \<open>i\<close> and of
  the rest of \<open>code16\<close> the encoder starts with, so it covers units encoded by separate calls.\<close>

lemma decode_unit:
  assumes "length ss = 4 * m" "i mod 4 = 0" "i' mod 4 = 0"
    and "take m (drop j ws) = fst (enc_loop i p k w ss)" "j + m \<le> length ws"
  shows "dec_loop (words_bytes ws) i' (4 * m + n) p k (words_bytes ws ! (2 * j)) (2 * j + 1) =
     map word_of_int (recon p k ss) @
     dec_loop (words_bytes ws) (i' + 4 * m) n (fst (enc_states p k ss)) (snd (enc_states p k ss))
       (words_bytes ws ! (2 * (j + m))) (2 * (j + m) + 1)"
  using assms
proof (induction m arbitrary: ss i i' j p k w)
  case 0
  then show ?case by simp
next
  case (Suc m)
  obtain s0 s1 s2 s3 ss' where ss: "ss = s0 # s1 # s2 # s3 # ss'" "length ss' = 4 * m"
    using Suc.prems(1) by (rule length4E)
  let ?g = "[s0, s1, s2, s3]"
  let ?p = "fst (enc_states p k ?g)" and ?k = "snd (enc_states p k ?g)"
  obtain w' where e: "fst (enc_loop i p k w (s0 # s1 # s2 # s3 # ss')) = w' # fst (enc_loop (i + 4) ?p ?k w' ss')"
    and g: "\<And>bs q n i'. i' mod 4 = 0 \<Longrightarrow> bs ! q = ucast w' \<Longrightarrow> bs ! (q + 1) = ucast (drop_bit 8 w') \<Longrightarrow>
        dec_loop bs i' (n + 4) p k (bs ! q) (q + 1) =
          map word_of_int (recon p k ?g) @ dec_loop bs (i' + 4) n ?p ?k (bs ! (q + 2)) (q + 3)"
    using enc_loop_group[OF Suc.prems(2), of p k w s0 s1 s2 s3 ss'] by blast
  have wj: "ws ! j = w'" and ws': "take m (drop (j + 1) ws) = fst (enc_loop (i + 4) ?p ?k w' ss')"
    using Suc.prems(4,5) unfolding ss e by (auto simp: take_Suc drop_Suc tl_drop hd_drop_conv_nth)
  have b: "words_bytes ws ! (2 * j) = ucast w'" "words_bytes ws ! (2 * j + 1) = ucast (drop_bit 8 w')"
    using words_bytes_nth[of j ws] wj Suc.prems(5) by simp_all
  have jj: "2 * j + 2 = 2 * (j + 1)" "2 * j + 3 = 2 * (j + 1) + 1" by simp_all
  have ih: "dec_loop (words_bytes ws) (i' + 4) (4 * m + n) ?p ?k (words_bytes ws ! (2 * (j + 1))) (2 * (j + 1) + 1) =
     map word_of_int (recon ?p ?k ss') @
     dec_loop (words_bytes ws) (i' + 4 + 4 * m) n (fst (enc_states ?p ?k ss')) (snd (enc_states ?p ?k ss'))
       (words_bytes ws ! (2 * (j + 1 + m))) (2 * (j + 1 + m) + 1)"
  proof (rule Suc.IH[OF ss(2) _ _ ws'])
    show "(i + 4) mod 4 = 0" "(i' + 4) mod 4 = 0" "j + 1 + m \<le> length ws"
      using Suc.prems(2,3,5) by simp_all
  qed
  have st: "enc_states p k ss = enc_states ?p ?k ss'" "recon p k ss = recon p k ?g @ recon ?p ?k ss'"
    unfolding ss(1) using enc_states_append[of p k ?g ss'] recon_append[of p k ?g ss'] by simp_all
  have "dec_loop (words_bytes ws) i' (4 * Suc m + n) p k (words_bytes ws ! (2 * j)) (2 * j + 1) =
     dec_loop (words_bytes ws) i' (4 * m + n + 4) p k (words_bytes ws ! (2 * j)) (2 * j + 1)"
    by (simp add: add.commute add.left_commute)
  also have "\<dots> = map word_of_int (recon p k ?g) @
      dec_loop (words_bytes ws) (i' + 4) (4 * m + n) ?p ?k (words_bytes ws ! (2 * (j + 1))) (2 * (j + 1) + 1)"
    unfolding g[OF Suc.prems(3) b] jj by (rule refl)
  also have "\<dots> = map word_of_int (recon p k ss) @
     dec_loop (words_bytes ws) (i' + 4 + 4 * m) n (fst (enc_states p k ss)) (snd (enc_states p k ss))
       (words_bytes ws ! (2 * (j + 1 + m))) (2 * (j + 1 + m) + 1)"
    unfolding ih st by (simp del: recon.simps)
  also have "i' + 4 + 4 * m = i' + 4 * Suc m" by simp
  also have "j + 1 + m = j + Suc m" by simp
  finally show ?case .
qed


lemma enc_loop_length:
  "length ss = 4 * m \<Longrightarrow> i mod 4 = 0 \<Longrightarrow> length (fst (enc_loop i p k w ss)) = m"
proof (induction m arbitrary: ss i p k w)
  case (Suc m)
  obtain s0 s1 s2 s3 ss' where ss: "ss = s0 # s1 # s2 # s3 # ss'" "length ss' = 4 * m"
    using Suc.prems(1) by (rule length4E)
  then obtain w' p' k' where "fst (enc_loop i p k w (s0 # s1 # s2 # s3 # ss')) = w' # fst (enc_loop (i + 4) p' k' w' ss')"
    using enc_loop_group[OF Suc.prems(2), of p k w s0 s1 s2 s3 ss'] by blast
  with Suc.IH[OF ss(2), of "i + 4"] Suc.prems(2) ss(1) show ?case by simp
qed simp

text \<open>The packet: a start call, then further calls.\<close>

definition unit_samples :: "bool \<Rightarrow> u16 list \<Rightarrow> nat \<Rightarrow> u16 list" where
  "unit_samples fir ps len = map (\<lambda>i. ps ! (if fir then i * 2 else i)) [0..<len]"

fun split_calls :: "nat \<Rightarrow> bool \<Rightarrow> (u16 list \<times> nat) list \<Rightarrow> bool \<Rightarrow> mic_state \<Rightarrow> mic_state" where
  "split_calls L fir [] start st = st"
| "split_calls L fir ((ps, len) # us) start st = split_calls L fir us False (mic_to_adpcm_split L fir ps len start st)"

definition packet :: "nat \<Rightarrow> bool \<Rightarrow> (u16 list \<times> nat) list \<Rightarrow> mic_state \<Rightarrow> mic_state" where
  "packet L fir us st = split_calls L fir us True st"

lemma header_idx: "0 \<le> k \<Longrightarrow> k \<le> 88 \<Longrightarrow> uint (packet_header L p k ! 1 AND 0xff) = k"
proof -
  assume k: "0 \<le> k" "k \<le> 88"
  have m: "(0xff :: u16) = mask 8" by (simp add: mask_eq_exp_minus_1)
  have "packet_header L p k ! 1 AND 0xff = (ucast (word_of_int k :: u8) :: u16)"
    unfolding m by (rule bit_word_eqI)
      (auto simp: packet_header_def bit_simps dest: bit_imp_le_length)
  moreover have "uint (word_of_int k :: u8) = k" using k by (simp add: uint_word_of_int_eq take_bit_int_eq_self)
  ultimately show ?thesis by (simp add: uint_up_ucast is_up)
qed

lemma header_predict: "-32768 \<le> p \<Longrightarrow> p \<le> 32767 \<Longrightarrow> sint (packet_header L p k ! 0) = p"
  by (simp add: packet_header_def sint_sbintrunc' signed_take_bit_int_eq_self)


lemma split_call_False:
  "mic_to_adpcm_split L fir ps len False st =
     (case enc_states (mic_predict st) (mic_predict_idx st) (unit_samples fir ps len) of
        (p, k) \<Rightarrow> \<lparr>mic_predict_idx = k, mic_predict = p,
                    mic_pd = mic_pd st @ fst (enc_loop 0 (mic_predict st) (mic_predict_idx st) 0 (unit_samples fir ps len))\<rparr>)"
  using enc_loop_state[of 0 "mic_predict st" "mic_predict_idx st" 0 "unit_samples fir ps len"]
  by (auto simp: mic_to_adpcm_split_def unit_samples_def Let_def split: prod.splits)

lemma split_call_True:
  "mic_to_adpcm_split L fir ps len True st =
     mic_to_adpcm_split L fir ps len False (st\<lparr>mic_pd := packet_header L (mic_predict st) (mic_predict_idx st)\<rparr>)"
  by (simp add: mic_to_adpcm_split_def)

definition packet_samples :: "bool \<Rightarrow> (u16 list \<times> nat) list \<Rightarrow> u16 list" where
  "packet_samples fir us = concat (map (\<lambda>(ps, len). unit_samples fir ps len) us)"

definition packet_len :: "(u16 list \<times> nat) list \<Rightarrow> nat" where
  "packet_len us = sum_list (map snd us)"

lemma split_calls_decode:
  "\<forall>u \<in> set us. 4 dvd snd u \<Longrightarrow>
   \<exists>out. mic_pd (split_calls L fir us False st) = mic_pd st @ out \<and> 4 * length out = packet_len us \<and>
     (mic_predict (split_calls L fir us False st), mic_predict_idx (split_calls L fir us False st)) =
        enc_states (mic_predict st) (mic_predict_idx st) (packet_samples fir us) \<and>
     (\<forall>pre n i'. i' mod 4 = 0 \<longrightarrow>
        dec_loop (words_bytes (pre @ out)) i' (packet_len us) (mic_predict st) (mic_predict_idx st)
          (words_bytes (pre @ out) ! (2 * length pre)) (2 * length pre + 1) =
        map word_of_int (recon (mic_predict st) (mic_predict_idx st) (packet_samples fir us)))"
proof (induction us arbitrary: st)
  case Nil
  show ?case by (intro exI[of _ "[]"]) (simp add: packet_len_def packet_samples_def)
next
  case (Cons u us)
  obtain ps len where u: "u = (ps, len)" by fastforce
  let ?ss = "unit_samples fir ps len"
  obtain m where m: "len = 4 * m" using Cons.prems u by auto
  have lss: "length ?ss = 4 * m" by (simp add: unit_samples_def m)
  obtain p k where pk: "enc_states (mic_predict st) (mic_predict_idx st) ?ss = (p, k)" by fastforce
  let ?o = "fst (enc_loop 0 (mic_predict st) (mic_predict_idx st) 0 ?ss)"
  let ?st = "\<lparr>mic_predict_idx = k, mic_predict = p, mic_pd = mic_pd st @ ?o\<rparr>"
  have lo: "length ?o = m" by (rule enc_loop_length[OF lss]) simp
  have one: "mic_to_adpcm_split L fir ps len False st = ?st" by (simp add: split_call_False pk)
  obtain out where out: "mic_pd (split_calls L fir us False ?st) = mic_pd ?st @ out" "4 * length out = packet_len us"
    "(mic_predict (split_calls L fir us False ?st), mic_predict_idx (split_calls L fir us False ?st)) =
       enc_states p k (packet_samples fir us)"
    and dec: "\<And>pre i'. i' mod 4 = 0 \<Longrightarrow>
        dec_loop (words_bytes (pre @ out)) i' (packet_len us) p k
          (words_bytes (pre @ out) ! (2 * length pre)) (2 * length pre + 1) =
        map word_of_int (recon p k (packet_samples fir us))"
    using Cons.IH[of ?st] Cons.prems by auto
  have len: "packet_len (u # us) = 4 * m + packet_len us" by (simp add: packet_len_def u m)
  have smp: "packet_samples fir (u # us) = ?ss @ packet_samples fir us" by (simp add: packet_samples_def u)
  have d: "dec_loop (words_bytes (pre @ ?o @ out)) i' (packet_len (u # us)) (mic_predict st) (mic_predict_idx st)
          (words_bytes (pre @ ?o @ out) ! (2 * length pre)) (2 * length pre + 1) =
        map word_of_int (recon (mic_predict st) (mic_predict_idx st) (packet_samples fir (u # us)))"
    if i': "i' mod 4 = 0" for pre i'
  proof -
    have t: "take m (drop (length pre) (pre @ ?o @ out)) = ?o" "length pre + m \<le> length (pre @ ?o @ out)"
      using lo by simp_all
    have i4: "(i' + 4 * m) mod 4 = 0" using i' by presburger
    have pre: "length (pre @ ?o) = length pre + m" "(pre @ ?o) @ out = pre @ ?o @ out" using lo by simp_all
    have z: "(0 :: nat) mod 4 = 0" by simp
    show ?thesis
      unfolding len smp recon_append pk fst_conv snd_conv decode_unit[OF lss z i' t]
      using dec[OF i4, of "pre @ ?o", unfolded pre] by simp
  qed
  show ?case
    using out d lo by (intro exI[of _ "?o @ out"]) (simp add: u one len[unfolded u] smp[unfolded u] enc_states_append pk)
qed

text \<open>C14: A packet of the voice encoder, filled by any number of calls of \<open>mic_to_adpcm_split\<close> on units of
  a multiple of four samples, decodes to exactly the predictor values the encoder went through: the
  decoder starts from the header, stays in step, and ends where the encoder is.\<close>

theorem adpcm_packet_sync:
  assumes "us \<noteq> []" "\<forall>u \<in> set us. 4 dvd snd u" "s_ok (mic_predict st) (mic_predict_idx st)"
  shows "adpcm_to_pcm (mic_pd (packet L fir us st)) (packet_len us) =
      map word_of_int (recon (mic_predict st) (mic_predict_idx st) (packet_samples fir us)) \<and>
    length (mic_pd (packet L fir us st)) = 2 + packet_len us div 4 \<and>
    (mic_predict (packet L fir us st), mic_predict_idx (packet L fir us st)) =
      enc_states (mic_predict st) (mic_predict_idx st) (packet_samples fir us)"
proof -
  let ?h = "packet_header L (mic_predict st) (mic_predict_idx st)"
  let ?st = "st\<lparr>mic_pd := ?h\<rparr>"
  have pk: "packet L fir us st = split_calls L fir us False ?st"
    using assms(1) by (cases us) (auto simp: packet_def split_call_True)
  obtain out where o': "mic_pd (packet L fir us st) = ?h @ out" "4 * length out = packet_len us"
    "(mic_predict (packet L fir us st), mic_predict_idx (packet L fir us st)) =
       enc_states (mic_predict st) (mic_predict_idx st) (packet_samples fir us)"
    and dec: "\<And>pre i'. i' mod 4 = 0 \<Longrightarrow>
        dec_loop (words_bytes (pre @ out)) i' (packet_len us) (mic_predict st) (mic_predict_idx st)
          (words_bytes (pre @ out) ! (2 * length pre)) (2 * length pre + 1) =
        map word_of_int (recon (mic_predict st) (mic_predict_idx st) (packet_samples fir us))"
    using split_calls_decode[OF assms(2), of L fir ?st] unfolding pk by auto
  have h: "length ?h = 2" by (simp add: packet_header_def)
  have hd: "sint ((?h @ out) ! 0) = mic_predict st" "uint ((?h @ out) ! 1 AND 0xff) = mic_predict_idx st"
    using header_predict[of "mic_predict st" L "mic_predict_idx st"] header_idx[of "mic_predict_idx st" L "mic_predict st"]
      assms(3) h by (auto simp: nth_append s_ok_def)
  have "adpcm_to_pcm (?h @ out) (packet_len us) =
      map word_of_int (recon (mic_predict st) (mic_predict_idx st) (packet_samples fir us))"
    using dec[of 0 ?h] unfolding adpcm_to_pcm_def Let_def hd NUM_OF_ORIG_SAMPLE_def h by simp
  with o' h show ?thesis by simp
qed

theorem adpcm_packet_sync_witness:
  "let us = [([100, 900, 0xFF00, 7], 4), ([40, 50, 60, 0x8000], 4)];
       st = \<lparr>mic_predict_idx = 1, mic_predict = 0, mic_pd = []\<rparr>;
       r = packet 84 False us st
   in adpcm_to_pcm (mic_pd r) (packet_len us) = map word_of_int (recon 0 1 (packet_samples False us)) \<and>
      length (mic_pd r) = 2 + packet_len us div 4 \<and>
      (mic_predict r, mic_predict_idx r) = enc_states 0 1 (packet_samples False us)"
  using adpcm_packet_sync[of "[([100, 900, 0xFF00, 7], 4), ([40, 50, 60, 0x8000], 4)]"
      "\<lparr>mic_predict_idx = 1, mic_predict = 0, mic_pd = []\<rparr>" 84 False]
  unfolding Let_def by (simp add: s_ok_def)

lemma diff_of_overload: "7 \<le> step \<Longrightarrow> step \<le> diff_of step True True True \<and> diff_of step True True True < 2 * step"
  by (simp add: diff_of_def)

lemma quant_overload:
  "7 \<le> step \<Longrightarrow> 2 * step \<le> d \<Longrightarrow>
   quant_loop 4 step d (step div 8) (8 * of_bool b3) = (diff_of step True True True, code_of b3 True True True)"
proof -
  assume "7 \<le> step" "2 * step \<le> d"
  then have "step \<le> d" "step div 2 \<le> d - step" "step div 2 div 2 \<le> d - step - step div 2" by linarith+
  then show ?thesis by (simp add: quant_loop_4 Let_def diff_of_def code_of_def)
qed

lemma clamp_nearer: "-32768 \<le> x \<Longrightarrow> x \<le> 32767 \<Longrightarrow> \<bar>x - clamp_predict q\<bar> \<le> max \<bar>x - q\<bar> 1"
  by (auto simp: clamp_predict_def)

text \<open>C40: The error after a sample. When the sample is less than two steps from the predictor the new
  predictor is within an eighth of a step plus two of it; otherwise the distance shrinks by at least
  a whole step and the step index rises by 8 (to at most 88). The state stays in its tables' range.\<close>

theorem adpcm_tracks:
  assumes "s_ok p k" "-32768 \<le> x" "x \<le> 32767" "enc_sample p k x = (code, p', k')"
  shows "s_ok p' k' \<and> code < 16 \<and>
    (\<bar>x - p\<bar> < 2 * steptbl ! nat k \<longrightarrow> \<bar>x - p'\<bar> \<le> steptbl ! nat k div 8 + 2) \<and>
    (2 * steptbl ! nat k \<le> \<bar>x - p\<bar> \<longrightarrow> \<bar>x - p'\<bar> \<le> \<bar>x - p\<bar> - steptbl ! nat k \<and> k' = min 88 (k + 8))"
proof -
  define step where "step = steptbl ! nat k"
  have st: "7 \<le> step" using assms(1) steptbl_bounds by (simp add: s_ok_def step_def)
  obtain b3 b2 b1 b0 where "enc_sample p k x =
     (code_of b3 b2 b1 b0, clamp_predict (if b3 then p - diff_of step b2 b1 b0 else p + diff_of step b2 b1 b0),
      next_idx k (code_of b3 b2 b1 b0))" using enc_sample_bits[of p k x] unfolding step_def by blast
  then have c: "code < 16" using assms(4) code_of_less by auto
  have ok: "s_ok p' k'" using enc_sample_ok[of p k x] assms(4) by simp
  have sgn: "enc_sample p k x = (code_of b2 d1 e1 f1, clamp_predict (if b2 then p - q else p + q), next_idx k (code_of b2 d1 e1 f1))"
    if "b2 \<longleftrightarrow> x - p < 0" "quant_loop 4 step \<bar>x - p\<bar> (step div 8) (8 * of_bool b2) = (q, code_of b2 d1 e1 f1)" for b2 d1 e1 f1 q
    using that unfolding step_def by (auto simp: enc_sample_def Let_def code_of_ge_8)
  have near: "\<bar>x - p'\<bar> \<le> step div 8 + 2" if l: "\<bar>x - p\<bar> < 2 * step"
  proof -
    obtain d1 e1 f1 where q: "quant_loop 4 step \<bar>x - p\<bar> (step div 8) (8 * of_bool (x - p < 0)) = (diff_of step d1 e1 f1, code_of (x - p < 0) d1 e1 f1)"
      "\<bar>\<bar>x - p\<bar> - diff_of step d1 e1 f1\<bar> \<le> step div 8 + 2"
      using quant_residue[of "\<bar>x - p\<bar>" step "x - p < 0"] l st by auto
    have p': "p' = clamp_predict (if x - p < 0 then p - diff_of step d1 e1 f1 else p + diff_of step d1 e1 f1)"
      using sgn[OF refl q(1)] assms(4) by simp
    have "max \<bar>x - (if x - p < 0 then p - diff_of step d1 e1 f1 else p + diff_of step d1 e1 f1)\<bar> 1 \<le> step div 8 + 2"
      using q(2) st by (auto split: if_splits)
    then show ?thesis unfolding p' using clamp_nearer[OF assms(2,3)] order_trans by blast
  qed
  have far: "\<bar>x - p'\<bar> \<le> \<bar>x - p\<bar> - step \<and> k' = min 88 (k + 8)" if l: "2 * step \<le> \<bar>x - p\<bar>"
  proof -
    have e: "enc_sample p k x = (code_of (x - p < 0) True True True,
        clamp_predict (if x - p < 0 then p - diff_of step True True True else p + diff_of step True True True),
        next_idx k (code_of (x - p < 0) True True True))"
      by (rule sgn[OF refl]) (rule quant_overload[OF st l])
    have "k' = min 88 (k + 8)"
      using e assms(1,4) by (cases "x - p < 0") (auto simp: next_idx_def code_of_def idxtbl_def s_ok_def Let_def)
    moreover have "max \<bar>x - (if x - p < 0 then p - diff_of step True True True else p + diff_of step True True True)\<bar> 1 \<le> \<bar>x - p\<bar> - step"
      using diff_of_overload[OF st] l st by (auto split: if_splits)
    moreover have "p' = clamp_predict (if x - p < 0 then p - diff_of step True True True else p + diff_of step True True True)"
      using e assms(4) by simp
    ultimately show ?thesis using clamp_nearer[OF assms(2,3)] order_trans by blast
  qed
  show ?thesis using ok c near far unfolding step_def by blast
qed

theorem adpcm_tracks_witness:
  "\<exists>code p' k'. enc_sample 0 1 100 = (code, p', k') \<and> s_ok p' k' \<and> code < 16 \<and> \<bar>100 - p'\<bar> \<le> 92 \<and> k' = 9"
proof -
  obtain code p' k' where e: "enc_sample 0 1 100 = (code, p', k')" by (metis prod_cases3)
  show ?thesis using adpcm_tracks[OF _ _ _ e] by (simp add: s_ok_def e steptbl_def)
qed

end
