(* ===== verification/MacPib.thy ===== *)
theory MacPib
  imports NvOps
begin

text \<open>
  The MAC information base, \<open>net/rf4ce/mac/mac_pib.c\<close>. The variable \<open>macPib\<close> is the byte image of the
  packed struct \<open>mac_pib_t\<close> (all builds use \<open>-fpack-struct\<close>, little endian), attributes are written
  and read through the table \<open>macPibTbl\<close> of offsets, lengths and limits. A value pointer is the list
  of bytes it points to (at least eight of them), a message the list of its bytes. Calls of
  \<open>rf_set\<close> and \<open>mac_sendConfirm\<close> are recorded in order.
\<close>

section \<open>Layout\<close>

datatype pib_field =
  ackWaitDuration | associationPermit | autoRequest | battLifeExt | battLifeExtPeriods
| pBeaconPayload | beaconPayloadLength | beaconOrder | beaconTxTime | bsn
| coordExtendedAddress | coordShortAddress | dsn | gtsPermit | maxCsmaBackoffs
| minBe | panId | promiscuousMode | rxOnWhenIdle | shortAddress
| superframeOrder | transactionPersistenceTime | associatedPanCoord | maxBe | maxFrameTotalWaitTime
| maxFrameRetries | responseWaitTime | syncSymbolOffset | timeStampSupported | securityEnabled
| phyTransmitPower | logicalChannel | extendedAddress | altBe | deviceBeaconOrder

text \<open>\<open>mac_pib_t\<close>: the fields in order with their sizes (\<open>addr_t\<close> is eight bytes and a mode).\<close>

definition mac_pib_t :: "(pib_field \<times> nat) list" where
  "mac_pib_t =
    [(ackWaitDuration, 1), (associationPermit, 1), (autoRequest, 1), (battLifeExt, 1), (battLifeExtPeriods, 1),
     (pBeaconPayload, 4), (beaconPayloadLength, 1), (beaconOrder, 1), (beaconTxTime, 4), (bsn, 1),
     (coordExtendedAddress, 9), (coordShortAddress, 2), (dsn, 1), (gtsPermit, 1), (maxCsmaBackoffs, 1),
     (minBe, 1), (panId, 2), (promiscuousMode, 1), (rxOnWhenIdle, 1), (shortAddress, 2),
     (superframeOrder, 1), (transactionPersistenceTime, 2), (associatedPanCoord, 1), (maxBe, 1), (maxFrameTotalWaitTime, 2),
     (maxFrameRetries, 1), (responseWaitTime, 1), (syncSymbolOffset, 1), (timeStampSupported, 1), (securityEnabled, 1),
     (phyTransmitPower, 1), (logicalChannel, 1), (extendedAddress, 8), (altBe, 1), (deviceBeaconOrder, 1)]"

definition OFFSETOF :: "pib_field \<Rightarrow> nat" where
  "OFFSETOF fld = sum_list (map snd (takeWhile (\<lambda>e. fst e \<noteq> fld) mac_pib_t))"

definition sizeof_mac_pib :: nat where
  "sizeof_mac_pib = sum_list (map snd mac_pib_t)"

definition macPibDefaults :: "u8 list" where
  "macPibDefaults = concat
    [[54], [0], [0], [0], [6],
     u32_bytes 0, [0], [15], u32_bytes 0, [0],
     replicate 8 0 @ [3], u16_bytes 0xFFFF, [0], [0], [4],
     [5], u16_bytes 0xFFFF, [0], [1], u16_bytes 0xFFFF,
     [15], u16_bytes 0x01F4, [0], [8], u16_bytes 1220,
     [3], [32], [0], [1], [0],
     [0], [11], replicate 8 0xbb, [1], [15]]"

record mac_pibTbl_t =
  pt_offset :: nat
  pt_len :: nat
  pt_min :: u8
  pt_max :: u8

definition row :: "pib_field \<Rightarrow> nat \<Rightarrow> u8 \<Rightarrow> u8 \<Rightarrow> mac_pibTbl_t" where
  "row fld len mn mx = \<lparr>pt_offset = OFFSETOF fld, pt_len = len, pt_min = mn, pt_max = mx\<rparr>"

definition macPibTbl :: "mac_pibTbl_t list" where
  "macPibTbl =
    [row ackWaitDuration 1 54 54, row associationPermit 1 0 1, row autoRequest 1 0 1, row battLifeExt 1 0 1,
     row battLifeExtPeriods 1 6 6,
     row pBeaconPayload 4 0 0, row beaconPayloadLength 1 0 52, row beaconOrder 1 0 15, row beaconTxTime 4 1 1, row bsn 1 0 0xFF,
     row coordExtendedAddress 8 0 0, row coordShortAddress 2 0 0, row dsn 1 0 0xFF, row gtsPermit 1 0 1,
     row maxCsmaBackoffs 1 0 254,
     row minBe 1 0 8, row panId 2 0 0, row promiscuousMode 1 0 1, row rxOnWhenIdle 1 0 1, row shortAddress 2 0 0,
     row superframeOrder 1 0 15, row transactionPersistenceTime 2 0 0, row associatedPanCoord 1 0 1,
     row maxBe 1 0 8, row maxFrameTotalWaitTime 2 0 0xFF,
     row maxFrameRetries 1 0 7, row responseWaitTime 1 2 64, row syncSymbolOffset 1 0 0, row timeStampSupported 1 0 1,
     row securityEnabled 1 0 1,
     row phyTransmitPower 1 0 0xFF, row logicalChannel 1 11 28, row extendedAddress 8 0 0, row altBe 1 0 8,
     row deviceBeaconOrder 1 0 15, row phyTransmitPower 1 0 0]"

definition MAC_PIB_INVALID :: nat where
  "MAC_PIB_INVALID = length macPibTbl"

section \<open>Attributes\<close>

definition MAC_BEACON_PAYLOAD :: u8 where "MAC_BEACON_PAYLOAD = 0x45"
definition MAC_PAN_ID :: u8 where "MAC_PAN_ID = 0x50"
definition MAC_RX_ON_WHEN_IDLE :: u8 where "MAC_RX_ON_WHEN_IDLE = 0x52"
definition MAC_SHORT_ADDRESS :: u8 where "MAC_SHORT_ADDRESS = 0x53"
definition MAC_MAX_FRAME_TOTAL_WAIT_TIME :: u8 where "MAC_MAX_FRAME_TOTAL_WAIT_TIME = 0x58"
definition MAC_PHY_TRANSMIT_POWER :: u8 where "MAC_PHY_TRANSMIT_POWER = 0xE0"
definition MAC_LOGICAL_CHANNEL :: u8 where "MAC_LOGICAL_CHANNEL = 0xE1"
definition MAC_EXTENDED_ADDRESS :: u8 where "MAC_EXTENDED_ADDRESS = 0xE2"
definition MAC_PHY_TRANSMIT_POWER_SIGNED :: u8 where "MAC_PHY_TRANSMIT_POWER_SIGNED = 0xE5"

lemmas mac_attr_defs =
  MAC_BEACON_PAYLOAD_def MAC_PAN_ID_def MAC_RX_ON_WHEN_IDLE_def MAC_SHORT_ADDRESS_def MAC_MAX_FRAME_TOTAL_WAIT_TIME_def
  MAC_PHY_TRANSMIT_POWER_def MAC_LOGICAL_CHANNEL_def MAC_EXTENDED_ADDRESS_def MAC_PHY_TRANSMIT_POWER_SIGNED_def

definition mac_pibIndex :: "u8 \<Rightarrow> nat" where
  "mac_pibIndex a =
     (if 0x40 \<le> a \<and> a \<le> 0x5D then unat (a - 0x40 + 0)
      else if 0xE0 \<le> a \<and> a \<le> 0xE5 then unat (a - 0xE0 + (0x5D - 0x40 + 0 + 1))
      else MAC_PIB_INVALID)"

datatype mac_sts = MAC_SUCCESS | MAC_INVALID_PARAMETER | MAC_UNSUPPORTED_ATTRIBUTE

datatype rf_id =
  RF_ID_CHANNEL | RF_ID_TX_POWER | RF_ID_RX_ONOFF | RF_ID_MAC_SHORT_ADDR | RF_ID_MAC_EXT_ADDR | RF_ID_MAC_PANID

record mac_st =
  macPib :: "u8 list"
  mac_mem :: mem
  rf_calls :: "(rf_id \<times> u8 list) list"
  confirms :: "u8 list list"

definition pib_bytes :: "u8 list \<Rightarrow> nat \<Rightarrow> nat \<Rightarrow> u8 list" where
  "pib_bytes p off len = take len (drop off p)"

definition put_bytes :: "u8 list \<Rightarrow> nat \<Rightarrow> u8 list \<Rightarrow> u8 list" where
  "put_bytes p off bs = take off p @ bs @ drop (off + length bs) p"

definition rf_set :: "rf_id \<Rightarrow> pib_field \<Rightarrow> nat \<Rightarrow> mac_st \<Rightarrow> mac_st" where
  "rf_set k fld len s = s\<lparr>rf_calls := rf_calls s @ [(k, pib_bytes (macPib s) (OFFSETOF fld) len)]\<rparr>"

definition store_bytes :: "mem \<Rightarrow> ptr \<Rightarrow> u8 list \<Rightarrow> mem" where
  "store_bytes m p bs = (\<lambda>x. if within p (length bs) x then bs ! unat (x - p) else m x)"

definition beacon_ptr :: "mac_st \<Rightarrow> ptr" where
  "beacon_ptr s = get32 (macPib s) (OFFSETOF pBeaconPayload)"

definition beacon_len :: "mac_st \<Rightarrow> nat" where
  "beacon_len s = unat (macPib s ! OFFSETOF beaconPayloadLength)"

section \<open>Set and get\<close>

text \<open>The checks of \<open>mac_mlmeSetReq\<close> on the bytes \<open>v\<close> at \<open>pValue\<close>; the general check looks at the first
  byte only.\<close>

definition pib_value_ok :: "u8 \<Rightarrow> nat \<Rightarrow> u8 list \<Rightarrow> bool" where
  "pib_value_ok a i v =
     (let r = macPibTbl ! i in
      if pt_min r \<noteq> 0 \<or> pt_max r \<noteq> 0 then
        if a = MAC_MAX_FRAME_TOTAL_WAIT_TIME \<and> (get16 v 0 < 143 \<or> get16 v 0 > 25776) then False
        else \<not> (v ! 0 < pt_min r \<or> v ! 0 > pt_max r)
      else True)"

definition pib_after_set :: "u8 \<Rightarrow> mac_st \<Rightarrow> mac_st" where
  "pib_after_set a s =
     (if a = MAC_PAN_ID then rf_set RF_ID_MAC_PANID panId 2 s
      else if a = MAC_SHORT_ADDRESS then rf_set RF_ID_MAC_SHORT_ADDR shortAddress 2 s
      else if a = MAC_RX_ON_WHEN_IDLE then rf_set RF_ID_RX_ONOFF rxOnWhenIdle 1 s
      else if a = MAC_LOGICAL_CHANNEL then rf_set RF_ID_CHANNEL logicalChannel 1 s
      else if a = MAC_EXTENDED_ADDRESS then rf_set RF_ID_MAC_EXT_ADDR extendedAddress 8 s
      else if a = MAC_PHY_TRANSMIT_POWER then
        rf_set RF_ID_TX_POWER phyTransmitPower 1
          (s\<lparr>macPib := put_bytes (macPib s) (OFFSETOF phyTransmitPower) [- (macPib s ! OFFSETOF phyTransmitPower)]\<rparr>)
      else if a = MAC_PHY_TRANSMIT_POWER_SIGNED then rf_set RF_ID_TX_POWER phyTransmitPower 1 s
      else s)"

definition mac_mlmeSetReq :: "u8 \<Rightarrow> u8 list \<Rightarrow> mac_st \<Rightarrow> mac_sts \<times> mac_st" where
  "mac_mlmeSetReq a v s =
     (if a = MAC_BEACON_PAYLOAD then
        (MAC_SUCCESS, s\<lparr>mac_mem := store_bytes (mac_mem s) (beacon_ptr s) (take (beacon_len s) v)\<rparr>)
      else
        let i = mac_pibIndex a in
        if i = MAC_PIB_INVALID then (MAC_UNSUPPORTED_ATTRIBUTE, s)
        else if \<not> pib_value_ok a i v then (MAC_INVALID_PARAMETER, s)
        else
          let r = macPibTbl ! i;
              s1 = s\<lparr>macPib := put_bytes (macPib s) (pt_offset r) (take (pt_len r) v)\<rparr>
          in (MAC_SUCCESS, pib_after_set a s1))"

text \<open>The bytes written to \<open>pValue\<close>.\<close>

definition mac_mlmeGetReq :: "u8 \<Rightarrow> mac_st \<Rightarrow> mac_sts \<times> u8 list" where
  "mac_mlmeGetReq a s =
     (if a = MAC_BEACON_PAYLOAD then (MAC_SUCCESS, block (mac_mem s) (beacon_ptr s) (beacon_len s))
      else
        let i = mac_pibIndex a in
        if i = MAC_PIB_INVALID then (MAC_UNSUPPORTED_ATTRIBUTE, [])
        else (MAC_SUCCESS, pib_bytes (macPib s) (pt_offset (macPibTbl ! i)) (pt_len (macPibTbl ! i))))"

definition mac_getAttrLen :: "u8 \<Rightarrow> mac_st \<Rightarrow> nat" where
  "mac_getAttrLen a s =
     (if a = MAC_BEACON_PAYLOAD then beacon_len s
      else let i = mac_pibIndex a in if i = MAC_PIB_INVALID then 0 else pt_len (macPibTbl ! i))"

definition rf_getChannel :: "mac_st \<Rightarrow> u8" where
  "rf_getChannel s = macPib s ! OFFSETOF logicalChannel"

section \<open>Requests with a confirmation\<close>

text \<open>The request buffer \<open>m\<close> is turned into the confirmation in place: \<open>mac_setReq_t\<close> is primitive,
  attribute, value; the confirmations are primitive, status, attribute (and value).\<close>

definition MAC_MLME_SET_CNF :: u8 where "MAC_MLME_SET_CNF = 0x59"
definition MAC_MLME_GET_CNF :: u8 where "MAC_MLME_GET_CNF = 0x4e"

definition set_cnf :: "u8 list \<Rightarrow> u8 \<Rightarrow> u8 list" where
  "set_cnf m a = m[2 := a, 0 := MAC_MLME_SET_CNF, 1 := 0]"

definition mac_mlmeSetReqWithCnf :: "u8 list \<Rightarrow> mac_st \<Rightarrow> mac_sts \<times> mac_st" where
  "mac_mlmeSetReqWithCnf m s =
     (let a = m ! 1; v = drop 2 m in
      if a = MAC_BEACON_PAYLOAD then
        let s1 = s\<lparr>mac_mem := store_bytes (mac_mem s) (beacon_ptr s) (take (beacon_len s) v)\<rparr>
        in (MAC_SUCCESS, s1\<lparr>confirms := confirms s1 @ [set_cnf m a]\<rparr>)
      else
        let i = mac_pibIndex a in
        if i = MAC_PIB_INVALID then (MAC_UNSUPPORTED_ATTRIBUTE, s)
        else if \<not> pib_value_ok a i v then (MAC_INVALID_PARAMETER, s)
        else
          let r = macPibTbl ! i;
              s1 = pib_after_set a (s\<lparr>macPib := put_bytes (macPib s) (pt_offset r) (take (pt_len r) v)\<rparr>)
          in (MAC_SUCCESS, s1\<lparr>confirms := confirms s1 @ [set_cnf m a]\<rparr>))"

text \<open>One round of the loop at the end of \<open>mac_mlmeGetReqWithCnf\<close>: \<open>m[3..10]\<close> is the 64-bit
  \<open>pibAttributeValue\<close>, least byte first, and \<open>pValue\<close> points to the same bytes: the shift moves every
  byte up by one and clears the lowest, and then byte \<open>i\<close> is or-ed into it.\<close>

definition cnf_round :: "nat \<Rightarrow> u8 list \<Rightarrow> u8 list" where
  "cnf_round i m =
     (let m1 = take 3 m @ [0] @ take 7 (drop 3 m) @ drop 11 m
      in m1[3 := m1 ! 3 OR m1 ! (3 + i)])"

definition cnf_value :: "u8 list \<Rightarrow> u8 list" where
  "cnf_value m = fold cnf_round [0..<8] m"

definition mac_mlmeGetReqWithCnf :: "u8 list \<Rightarrow> mac_st \<Rightarrow> mac_sts \<times> mac_st" where
  "mac_mlmeGetReqWithCnf m s =
     (let a = m ! 1; m1 = m[2 := a, 0 := MAC_MLME_GET_CNF] in
      if a = MAC_BEACON_PAYLOAD then
        let m2 = (put_bytes m1 3 (block (mac_mem s) (beacon_ptr s) (beacon_len s)))[1 := 0]
        in (MAC_SUCCESS, s\<lparr>confirms := confirms s @ [cnf_value m2]\<rparr>)
      else
        let i = mac_pibIndex a in
        if i = MAC_PIB_INVALID then (MAC_UNSUPPORTED_ATTRIBUTE, s)
        else
          let m2 = (put_bytes m1 3 (pib_bytes (macPib s) (pt_offset (macPibTbl ! i)) (pt_len (macPibTbl ! i))))[1 := 0]
          in (MAC_SUCCESS, s\<lparr>confirms := confirms s @ [cnf_value m2]\<rparr>))"

section \<open>Reset, saving and loading\<close>

definition CFG_MAC_ADDRESS :: u32 where "CFG_MAC_ADDRESS = 0x76000"

definition startIEEEAddr :: "u8 list" where "startIEEEAddr = [0x38, 0xc1, 0xa4]"

text \<open>The vendor prefixes recognised in bytes 3 to 5 of a stored address.\<close>

definition mac_prefixes :: "u8 list list" where
  "mac_prefixes =
    [[0x38, 0xC1, 0xA4], [0xD1, 0x19, 0xC4], [0xCB, 0x0B, 0xD8], [0x77, 0x5F, 0xD8],
     [0xB4, 0xCF, 0x3C], [0xC7, 0xA3, 0xC0], [0x28, 0x22, 0x38]]"

text \<open>The part of \<open>mac_pibReset\<close> that finds the address, or makes one up from the five bytes \<open>rnd\<close> of
  \<open>drv_generateRandomData\<close> and stores it (the code of the cores other than TL321X).\<close>

definition mac_ieee_addr :: "'c drv_flash \<Rightarrow> u8 list \<Rightarrow> 'c flash_st \<Rightarrow> u8 list \<times> 'c flash_st" where
  "mac_ieee_addr d rnd s =
     (let extAddr = drv_read d (fl_chip s) CFG_MAC_ADDRESS 8;
          s1 = flash_unlock s;
          invalid = replicate 8 0xff;
          zero = replicate 8 0
      in if extAddr = invalid \<or> extAddr = zero then
           let c1 = (if extAddr = zero then flash_erase d (fl_chip s1) CFG_MAC_ADDRESS else fl_chip s1);
               new = rnd @ startIEEEAddr;
               c2 = flash_write d c1 CFG_MAC_ADDRESS (drop 2 new);
               c3 = flash_write d c2 (CFG_MAC_ADDRESS + 6) (take 2 new)
           in (new, flash_lock (s1\<lparr>fl_chip := c3\<rparr>))
         else if take 3 (drop 3 extAddr) \<in> set mac_prefixes then
           (flash_read d (fl_chip s1) (CFG_MAC_ADDRESS + 6) 2 @ flash_read d (fl_chip s1) CFG_MAC_ADDRESS 6, flash_lock s1)
         else (extAddr, flash_lock s1))"

text \<open>\<open>r1\<close> and \<open>r2\<close> are the two values of \<open>rand\<close>.\<close>

definition mac_pibReset ::
  "'c drv_flash \<Rightarrow> u8 \<Rightarrow> u8 \<Rightarrow> u8 list \<Rightarrow> 'c flash_st \<Rightarrow> mac_st \<Rightarrow> mac_st \<times> 'c flash_st" where
  "mac_pibReset d r1 r2 rnd fl s =
     (let p = put_bytes (put_bytes macPibDefaults (OFFSETOF dsn) [r1]) (OFFSETOF bsn) [r2];
          (extAddr, fl') = mac_ieee_addr d rnd fl
      in (snd (mac_mlmeSetReq MAC_EXTENDED_ADDRESS extAddr (s\<lparr>macPib := p\<rparr>)), fl'))"

definition MAC_PIB_NV_ID :: u8 where "MAC_PIB_NV_ID = 0"
definition DS_MAC_PHY_MODULE :: nat where "DS_MAC_PHY_MODULE = 0"

definition mac_savePibToFlash :: "'c drv_flash \<Rightarrow> bool \<Rightarrow> 'c flash_st \<Rightarrow> mac_st \<Rightarrow> nv_sts \<times> 'c flash_st" where
  "mac_savePibToFlash d buf_ok fl s =
     nv_flashWriteNew d fl buf_ok True DS_MAC_PHY_MODULE MAC_PIB_NV_ID (of_nat sizeof_mac_pib) (macPib s)"

text \<open>What is read goes over the image from its start.\<close>

definition mac_loadPibFromFlash :: "'c drv_flash \<Rightarrow> nv_len_tbl \<Rightarrow> 'c flash_st \<Rightarrow> mac_st \<Rightarrow> nv_sts \<times> mac_st \<times> 'c flash_st" where
  "mac_loadPibFromFlash d t fl s =
     (case nv_flashReadNew d fl t DS_MAC_PHY_MODULE MAC_PIB_NV_ID (of_nat sizeof_mac_pib) of
        ((ret, buf), fl') \<Rightarrow> (ret, s\<lparr>macPib := put_bytes (macPib s) 0 buf\<rparr>, fl'))"

section \<open>The layout, evaluated\<close>

lemmas layout_eval = OFFSETOF_def mac_pib_t_def

lemma offsets [simp]:
  "OFFSETOF ackWaitDuration = 0" "OFFSETOF associationPermit = 1" "OFFSETOF autoRequest = 2" "OFFSETOF battLifeExt = 3"
  "OFFSETOF battLifeExtPeriods = 4" "OFFSETOF pBeaconPayload = 5" "OFFSETOF beaconPayloadLength = 9"
  "OFFSETOF beaconOrder = 10" "OFFSETOF beaconTxTime = 11" "OFFSETOF bsn = 15" "OFFSETOF coordExtendedAddress = 16"
  "OFFSETOF coordShortAddress = 25" "OFFSETOF dsn = 27" "OFFSETOF gtsPermit = 28" "OFFSETOF maxCsmaBackoffs = 29"
  "OFFSETOF minBe = 30" "OFFSETOF panId = 31" "OFFSETOF promiscuousMode = 33" "OFFSETOF rxOnWhenIdle = 34"
  "OFFSETOF shortAddress = 35" "OFFSETOF superframeOrder = 37" "OFFSETOF transactionPersistenceTime = 38"
  "OFFSETOF associatedPanCoord = 40" "OFFSETOF maxBe = 41" "OFFSETOF maxFrameTotalWaitTime = 42"
  "OFFSETOF maxFrameRetries = 44" "OFFSETOF responseWaitTime = 45" "OFFSETOF syncSymbolOffset = 46"
  "OFFSETOF timeStampSupported = 47" "OFFSETOF securityEnabled = 48" "OFFSETOF phyTransmitPower = 49"
  "OFFSETOF logicalChannel = 50" "OFFSETOF extendedAddress = 51" "OFFSETOF altBe = 59" "OFFSETOF deviceBeaconOrder = 60"
  by (simp_all add: layout_eval)

lemma sizeof_mac_pib [simp]: "sizeof_mac_pib = 61"
  by (simp add: sizeof_mac_pib_def mac_pib_t_def)

lemma length_macPibTbl [simp]: "length macPibTbl = 36"
  by (simp add: macPibTbl_def)

lemma length_defaults: "length macPibDefaults = sizeof_mac_pib"
  by (simp add: macPibDefaults_def)

end
