(* ===== verification/MacPibProps.thy ===== *)
theory MacPibProps
  imports MacPib
begin

text \<open>
  What \<open>MacPib\<close> guarantees: the table addresses disjoint fields, a set request stores exactly its
  attribute and tells the radio, ranges hold after any requests, the extended address survives
  resets; and what is wrong with the get confirmation.
\<close>

section \<open>The table\<close>

lemma pib_rows: "i < 36 \<Longrightarrow> pt_offset (macPibTbl ! i) + pt_len (macPibTbl ! i) \<le> 61 \<and> 1 \<le> pt_len (macPibTbl ! i) \<and> pt_len (macPibTbl ! i) \<le> 8"
proof -
  assume "i < 36"
  then have "macPibTbl ! i \<in> set macPibTbl" by simp
  moreover have "\<forall>r \<in> set macPibTbl. pt_offset r + pt_len r \<le> 61 \<and> 1 \<le> pt_len r \<and> pt_len r \<le> 8"
    by (simp add: macPibTbl_def row_def)
  ultimately show ?thesis by blast
qed

lemma pib_rows_ascend:
  "Suc i < 35 \<Longrightarrow> pt_offset (macPibTbl ! i) + pt_len (macPibTbl ! i) \<le> pt_offset (macPibTbl ! Suc i)"
proof -
  assume i: "Suc i < 35"
  have "list_all (\<lambda>(r, r'). pt_offset r + pt_len r \<le> pt_offset r') (zip (take 34 macPibTbl) (tl macPibTbl))"
    by (simp add: macPibTbl_def row_def)
  then have "\<forall>n < 34. pt_offset (macPibTbl ! n) + pt_len (macPibTbl ! n) \<le> pt_offset (tl macPibTbl ! n)"
    by (simp add: list_all_length)
  then show ?thesis using i by (simp add: nth_tl)
qed

lemma pib_rows_less:
  "i < j \<Longrightarrow> j < 35 \<Longrightarrow> pt_offset (macPibTbl ! i) + pt_len (macPibTbl ! i) \<le> pt_offset (macPibTbl ! j)"
proof (induction j)
  case (Suc j)
  show ?case
  proof (cases "i = j")
    case True then show ?thesis using pib_rows_ascend Suc.prems by simp
  next
    case False
    then show ?thesis using Suc pib_rows_ascend[of j] by auto
  qed
qed simp

lemma pib_row_35: "macPibTbl ! 35 = (macPibTbl ! 30)\<lparr>pt_min := 0, pt_max := 0\<rparr>"
  by (simp add: macPibTbl_def row_def)

definition pib_slot :: "nat \<Rightarrow> nat" where
  "pib_slot i = (if i = 35 then 30 else i)"

lemma pib_slot_row: "i < 36 \<Longrightarrow> pt_offset (macPibTbl ! pib_slot i) = pt_offset (macPibTbl ! i) \<and>
   pt_len (macPibTbl ! pib_slot i) = pt_len (macPibTbl ! i) \<and> pib_slot i < 35"
  using pib_row_35 by (auto simp: pib_slot_def)

lemma pib_rows_disjoint:
  assumes "i < 36" "j < 36" "pib_slot i \<noteq> pib_slot j"
  shows "pt_offset (macPibTbl ! i) + pt_len (macPibTbl ! i) \<le> pt_offset (macPibTbl ! j) \<or>
         pt_offset (macPibTbl ! j) + pt_len (macPibTbl ! j) \<le> pt_offset (macPibTbl ! i)"
  using pib_slot_row[OF assms(1)] pib_slot_row[OF assms(2)] assms(3)
    pib_rows_less[of "pib_slot i" "pib_slot j"] pib_rows_less[of "pib_slot j" "pib_slot i"]
  by (cases "pib_slot i < pib_slot j") auto

lemma length_put_bytes: "off + length bs \<le> length p \<Longrightarrow> length (put_bytes p off bs) = length p"
  by (simp add: put_bytes_def)

lemma put_bytes_nth:
  "off + length bs \<le> length p \<Longrightarrow> k < length p \<Longrightarrow>
   put_bytes p off bs ! k = (if off \<le> k \<and> k < off + length bs then bs ! (k - off) else p ! k)"
  by (auto simp: put_bytes_def nth_append min_def)

lemma pib_bytes_put_same: "off + length bs \<le> length p \<Longrightarrow> pib_bytes (put_bytes p off bs) off (length bs) = bs"
  by (rule nth_equalityI) (auto simp: pib_bytes_def length_put_bytes put_bytes_nth)


lemma pibIndex_range: "mac_pibIndex a \<le> 36"
  by (auto simp: mac_pibIndex_def MAC_PIB_INVALID_def word_le_nat_alt unat_sub unat_word_ariths)



lemma pibIndex_TX: "mac_pibIndex MAC_PHY_TRANSMIT_POWER = 30" "mac_pibIndex MAC_PHY_TRANSMIT_POWER_SIGNED = 35"
  by (simp_all add: mac_pibIndex_def mac_attr_defs)


text \<open>The bytes an accepted request stores, and what the radio is told.\<close>

definition stored :: "u8 \<Rightarrow> u8 list \<Rightarrow> u8 list" where
  "stored a v = (if a = MAC_PHY_TRANSMIT_POWER then [- (v ! 0)] else take (pt_len (macPibTbl ! mac_pibIndex a)) v)"

definition radio_of :: "u8 \<Rightarrow> rf_id option" where
  "radio_of a =
     (if a = MAC_PAN_ID then Some RF_ID_MAC_PANID else if a = MAC_SHORT_ADDRESS then Some RF_ID_MAC_SHORT_ADDR
      else if a = MAC_RX_ON_WHEN_IDLE then Some RF_ID_RX_ONOFF else if a = MAC_LOGICAL_CHANNEL then Some RF_ID_CHANNEL
      else if a = MAC_EXTENDED_ADDRESS then Some RF_ID_MAC_EXT_ADDR
      else if a = MAC_PHY_TRANSMIT_POWER \<or> a = MAC_PHY_TRANSMIT_POWER_SIGNED then Some RF_ID_TX_POWER else None)"

text \<open>An accepted request as one update of the image.\<close>

definition pib_store :: "u8 \<Rightarrow> u8 list \<Rightarrow> mac_st \<Rightarrow> mac_st" where
  "pib_store a v s =
     s\<lparr>macPib := put_bytes (macPib s) (pt_offset (macPibTbl ! mac_pibIndex a)) (stored a v),
       rf_calls := rf_calls s @ (case radio_of a of None \<Rightarrow> [] | Some k \<Rightarrow> [(k, stored a v)])\<rparr>"

lemma radio_rows:
  "macPibTbl ! mac_pibIndex MAC_PAN_ID = row panId 2 0 0"
  "macPibTbl ! mac_pibIndex MAC_SHORT_ADDRESS = row shortAddress 2 0 0"
  "macPibTbl ! mac_pibIndex MAC_RX_ON_WHEN_IDLE = row rxOnWhenIdle 1 0 1"
  "macPibTbl ! mac_pibIndex MAC_LOGICAL_CHANNEL = row logicalChannel 1 11 28"
  "macPibTbl ! mac_pibIndex MAC_EXTENDED_ADDRESS = row extendedAddress 8 0 0"
  "macPibTbl ! mac_pibIndex MAC_PHY_TRANSMIT_POWER = row phyTransmitPower 1 0 0xFF"
  "macPibTbl ! mac_pibIndex MAC_PHY_TRANSMIT_POWER_SIGNED = row phyTransmitPower 1 0 0"
  by (simp_all add: mac_pibIndex_def mac_attr_defs macPibTbl_def)

lemma row_sel [simp]: "pt_offset (row f n x y) = OFFSETOF f" "pt_len (row f n x y) = n"
  "pt_min (row f n x y) = x" "pt_max (row f n x y) = y"
  by (simp_all add: row_def)

lemma length_take_row:
  assumes "8 \<le> length v" "mac_pibIndex a < 36"
  shows "length (take (pt_len (macPibTbl ! mac_pibIndex a)) v) = pt_len (macPibTbl ! mac_pibIndex a)"
  using assms pib_rows[of "mac_pibIndex a"] by simp

lemma put_put: "length bs = length bs' \<Longrightarrow> off + length bs \<le> length p \<Longrightarrow> put_bytes (put_bytes p off bs') off bs = put_bytes p off bs"
  by (simp add: put_bytes_def)

lemma after_set_store:
  assumes "length (macPib s) = 61" "8 \<le> length v" "mac_pibIndex a < 36"
  shows "pib_after_set a (s\<lparr>macPib := put_bytes (macPib s) (pt_offset (macPibTbl ! mac_pibIndex a))
            (take (pt_len (macPibTbl ! mac_pibIndex a)) v)\<rparr>) = pib_store a v s"
proof -
  let ?r = "macPibTbl ! mac_pibIndex a"
  let ?p = "put_bytes (macPib s) (pt_offset ?r) (take (pt_len ?r) v)"
  have l: "pt_offset ?r + length (take (pt_len ?r) v) \<le> length (macPib s)"
    using pib_rows[OF assms(3)] assms(1) length_take_row[OF assms(2,3)] by simp
  have same: "pib_bytes ?p (pt_offset ?r) (pt_len ?r) = take (pt_len ?r) v"
    using pib_bytes_put_same[OF l] length_take_row[OF assms(2,3)] by simp
  show ?thesis
  proof (cases "a = MAC_PHY_TRANSMIT_POWER")
    case True
    have r: "?r = row phyTransmitPower 1 0 0xFF" using True radio_rows by simp
    have v: "take (Suc 0) v = [v ! 0]" using assms(2) by (cases v) auto
    have n: "?p ! 49 = v ! 0" using l assms(1) by (simp add: r put_bytes_nth v)
    have pp: "put_bytes ?p 49 [- (v ! 0)] = put_bytes (macPib s) 49 [- (v ! 0)]"
      using put_put[of "[- (v ! 0)]" "[v ! 0]" 49 "macPib s"] l by (simp add: r v)
    have pb: "pib_bytes (put_bytes (macPib s) 49 [- (v ! 0)]) 49 (Suc 0) = [- (v ! 0)]"
      using pib_bytes_put_same[of 49 "[- (v ! 0)]" "macPib s"] assms(1) by simp
    show ?thesis
      using n pp pb True r
      by (simp add: pib_after_set_def pib_store_def stored_def radio_of_def rf_set_def mac_attr_defs)
  next
    case False
    then have st: "stored a v = take (pt_len ?r) v" by (simp add: stored_def)
    let ?s = "s\<lparr>macPib := ?p\<rparr>"
    have rf: "rf_set k fld n ?s = ?s\<lparr>rf_calls := rf_calls s @ [(k, stored a v)]\<rparr>" if "?r = row fld n x y" for k fld n x y
      using same unfolding that by (simp add: rf_set_def st that)
    consider "a = MAC_PAN_ID" | "a = MAC_SHORT_ADDRESS" | "a = MAC_RX_ON_WHEN_IDLE" | "a = MAC_LOGICAL_CHANNEL"
      | "a = MAC_EXTENDED_ADDRESS" | "a = MAC_PHY_TRANSMIT_POWER_SIGNED"
      | "a \<notin> {MAC_PAN_ID, MAC_SHORT_ADDRESS, MAC_RX_ON_WHEN_IDLE, MAC_LOGICAL_CHANNEL, MAC_EXTENDED_ADDRESS,
           MAC_PHY_TRANSMIT_POWER_SIGNED}" by blast
    then show ?thesis
    proof cases
      case 1 then show ?thesis using rf[of panId] radio_rows(1) st by (simp add: pib_after_set_def pib_store_def radio_of_def)
    next
      case 2 then show ?thesis using rf[of shortAddress] radio_rows(2) st
        by (simp add: pib_after_set_def pib_store_def radio_of_def mac_attr_defs)
    next
      case 3 then show ?thesis using rf[of rxOnWhenIdle] radio_rows(3) st
        by (simp add: pib_after_set_def pib_store_def radio_of_def mac_attr_defs)
    next
      case 4 then show ?thesis using rf[of logicalChannel] radio_rows(4) st
        by (simp add: pib_after_set_def pib_store_def radio_of_def mac_attr_defs)
    next
      case 5 then show ?thesis using rf[of extendedAddress] radio_rows(5) st
        by (simp add: pib_after_set_def pib_store_def radio_of_def mac_attr_defs)
    next
      case 6 then show ?thesis using rf[of phyTransmitPower] radio_rows(7) st
        by (simp add: pib_after_set_def pib_store_def radio_of_def mac_attr_defs)
    next
      case 7 then show ?thesis using st False
        by (simp add: pib_after_set_def pib_store_def radio_of_def)
    qed
  qed
qed

lemma setReq_cases:
  assumes "length (macPib s) = 61" "8 \<le> length v" "a \<noteq> MAC_BEACON_PAYLOAD"
  shows "mac_mlmeSetReq a v s =
    (if mac_pibIndex a = MAC_PIB_INVALID then (MAC_UNSUPPORTED_ATTRIBUTE, s)
     else if pib_value_ok a (mac_pibIndex a) v then (MAC_SUCCESS, pib_store a v s)
     else (MAC_INVALID_PARAMETER, s))"
proof (cases "mac_pibIndex a = MAC_PIB_INVALID")
  case False
  then have "mac_pibIndex a < 36" using pibIndex_range[of a] by (simp add: MAC_PIB_INVALID_def)
  then show ?thesis
    using after_set_store[OF assms(1,2)] assms(3) by (simp add: mac_mlmeSetReq_def Let_def)
qed (use assms(3) in \<open>simp add: mac_mlmeSetReq_def\<close>)

lemma length_stored: "8 \<le> length v \<Longrightarrow> mac_pibIndex a < 36 \<Longrightarrow> length (stored a v) = pt_len (macPibTbl ! mac_pibIndex a)"
  using length_take_row[of v a] radio_rows by (simp add: stored_def)






definition mac_st0 :: mac_st where
  "mac_st0 = \<lparr>macPib = macPibDefaults, mac_mem = (\<lambda>_. 0), rf_calls = [], confirms = []\<rparr>"



section \<open>Ranges\<close>

definition pib_in_range :: "u8 list \<Rightarrow> bool" where
  "pib_in_range p \<longleftrightarrow> length p = sizeof_mac_pib \<and>
     list_all (\<lambda>r. pt_len r = 1 \<and> (pt_min r \<noteq> 0 \<or> pt_max r \<noteq> 0) \<longrightarrow>
                 pt_min r \<le> p ! pt_offset r \<and> p ! pt_offset r \<le> pt_max r) macPibTbl"

lemma in_range_nth:
  "pib_in_range p \<longleftrightarrow> length p = 61 \<and> (\<forall>i < 36. pt_len (macPibTbl ! i) = 1 \<longrightarrow>
     (pt_min (macPibTbl ! i) \<noteq> 0 \<or> pt_max (macPibTbl ! i) \<noteq> 0) \<longrightarrow>
     pt_min (macPibTbl ! i) \<le> p ! pt_offset (macPibTbl ! i) \<and> p ! pt_offset (macPibTbl ! i) \<le> pt_max (macPibTbl ! i))"
  by (auto simp: pib_in_range_def list_all_length)

lemma in_range_store:
  assumes "pib_in_range (macPib s)" "8 \<le> length v" "mac_pibIndex a < 36" "pib_value_ok a (mac_pibIndex a) v"
  shows "pib_in_range (macPib (pib_store a v s))"
  unfolding in_range_nth
proof (intro conjI allI impI)
  let ?i = "mac_pibIndex a" and ?p = "macPib (pib_store a v s)"
  let ?r = "macPibTbl ! ?i"
  have l: "length (macPib s) = 61" using assms(1) by (simp add: in_range_nth)
  have len: "length (stored a v) = pt_len ?r" by (rule length_stored[OF assms(2,3)])
  have fit: "pt_offset ?r + length (stored a v) \<le> length (macPib s)"
    using pib_rows[OF assms(3)] l len by simp
  show "length ?p = 61" using length_put_bytes[OF fit] l by (simp add: pib_store_def)
  fix j assume j: "j < 36" "pt_len (macPibTbl ! j) = 1" "pt_min (macPibTbl ! j) \<noteq> 0 \<or> pt_max (macPibTbl ! j) \<noteq> 0"
  let ?o = "pt_offset (macPibTbl ! j)"
  have oj: "?o < 61" using pib_rows[OF j(1)] j(2) by simp
  have old: "pt_min (macPibTbl ! j) \<le> macPib s ! ?o \<and> macPib s ! ?o \<le> pt_max (macPibTbl ! j)"
    using assms(1) j by (simp add: in_range_nth)
  have "pt_min (macPibTbl ! j) \<le> ?p ! ?o \<and> ?p ! ?o \<le> pt_max (macPibTbl ! j)"
  proof (cases "pib_slot ?i = pib_slot j")
    case False
    then have "?p ! ?o = macPib s ! ?o"
      using pib_rows_disjoint[OF assms(3) j(1) False] put_bytes_nth[OF fit, of ?o] oj l len j(2)
      by (auto simp: pib_store_def)
    then show ?thesis using old by simp
  next
    case True
    show ?thesis
    proof (cases "j = ?i \<and> a \<noteq> MAC_PHY_TRANSMIT_POWER")
      case t: True
      then have "?p ! ?o = v ! 0"
        using put_bytes_nth[OF fit, of ?o] oj l len j(2) by (auto simp: pib_store_def stored_def)
      moreover have "\<not> (v ! 0 < pt_min ?r \<or> v ! 0 > pt_max ?r)"
        using assms(4) j(3) t by (auto simp: pib_value_ok_def Let_def split: if_splits)
      ultimately show ?thesis using t by (simp add: not_less)
    next
      case False
      have "j = 30 \<or> j = 35"
        using True False pibIndex_TX by (auto simp: pib_slot_def split: if_splits)
      moreover have "j \<noteq> 35" using j(3) pib_row_35 by auto
      ultimately have "macPibTbl ! j = row phyTransmitPower 1 0 0xFF" using radio_rows(6) pibIndex_TX by simp
      then show ?thesis using u8_less_256[of "?p ! ?o"] by (simp add: word_le_nat_alt)
    qed
  qed
  then show "pt_min (macPibTbl ! j) \<le> ?p ! ?o" "?p ! ?o \<le> pt_max (macPibTbl ! j)" by simp_all
qed

lemma in_range_set:
  assumes "pib_in_range (macPib s)" "8 \<le> length v"
  shows "pib_in_range (macPib (snd (mac_mlmeSetReq a v s)))"
proof (cases "a = MAC_BEACON_PAYLOAD")
  case True
  then show ?thesis using assms by (simp add: mac_mlmeSetReq_def)
next
  case False
  have "length (macPib s) = 61" using assms(1) by (simp add: in_range_nth)
  from setReq_cases[OF this assms(2) False] show ?thesis
    using assms in_range_store pibIndex_range[of a] by (auto simp: MAC_PIB_INVALID_def)
qed

lemma setReqWithCnf_pib:
  "macPib (snd (mac_mlmeSetReqWithCnf m s)) = macPib (snd (mac_mlmeSetReq (m ! 1) (drop 2 m) s))"
  by (simp add: mac_mlmeSetReqWithCnf_def mac_mlmeSetReq_def Let_def)


section \<open>The get confirmation\<close>

lemma cnf_value_cons:
  "cnf_value ([a0, a1, a2, b0, b1, b2, b3, b4, b5, b6, b7] @ m) = [a0, a1, a2, 0, 0, 0, 0, 0, 0, 0, 0] @ m"
  by (simp add: cnf_value_def cnf_round_def upt_rec Let_def numeral_eq_Suc)

lemma list11:
  assumes "11 \<le> length (m :: 'a list)"
  obtains a0 a1 a2 b0 b1 b2 b3 b4 b5 b6 b7 r where "m = [a0, a1, a2, b0, b1, b2, b3, b4, b5, b6, b7] @ r"
proof -
  have "m = map ((!) m) [0..<11] @ drop 11 m"
    using assms by (intro nth_equalityI) (auto simp: nth_append)
  then show thesis using that by (simp add: upt_rec)
qed

lemma cnf_value_zero:
  "11 \<le> length m \<Longrightarrow> cnf_value m = take 3 m @ replicate 8 0 @ drop 11 m"
  by (elim list11) (simp only: cnf_value_cons, simp add: numeral_eq_Suc)

text \<open>Every get request for a supported attribute is confirmed with success and the value 0, whatever the
  attribute holds: the value is shifted through the bytes it is read from.\<close>

theorem mac_getCnf_value_zero:
  assumes "11 \<le> length m" "mac_pibIndex (m ! 1) \<noteq> MAC_PIB_INVALID" "m ! 1 \<noteq> MAC_BEACON_PAYLOAD"
  shows "\<exists>r. mac_mlmeGetReqWithCnf m s =
    (MAC_SUCCESS, s\<lparr>confirms := confirms s @ [[MAC_MLME_GET_CNF, 0, m ! 1] @ replicate 8 0 @ r]\<rparr>)"
proof -
  let ?a = "m ! 1"
  let ?r = "macPibTbl ! mac_pibIndex ?a"
  let ?b = "pib_bytes (macPib s) (pt_offset ?r) (pt_len ?r)"
  let ?m1 = "m[2 := ?a, 0 := MAC_MLME_GET_CNF]"
  let ?m2 = "(put_bytes ?m1 3 ?b)[1 := 0]"
  have ix: "mac_pibIndex ?a < 36" using assms(2) pibIndex_range[of ?a] by (simp add: MAC_PIB_INVALID_def)
  have lb: "length ?b \<le> 8" using pib_rows[OF ix] by (simp add: pib_bytes_def min.coboundedI2)
  then have l: "11 \<le> length ?m2" using assms(1) length_put_bytes[of 3 ?b ?m1] by simp
  have "m \<noteq> []" using assms(1) by auto
  have t: "take 3 ?m2 = [MAC_MLME_GET_CNF, 0, ?a]"
  proof (rule nth_equalityI)
    show "length (take 3 ?m2) = length [MAC_MLME_GET_CNF, 0, ?a]" using l by simp
    fix k assume "k < length (take 3 ?m2)"
    then have k: "k = 0 \<or> k = 1 \<or> k = 2" by auto
    have lp: "length (put_bytes ?m1 3 ?b) = length m" using assms(1) lb by (subst length_put_bytes) simp_all
    have n: "put_bytes ?m1 3 ?b ! k = ?m1 ! k" using k assms(1) lb by (subst put_bytes_nth) auto
    show "take 3 ?m2 ! k = [MAC_MLME_GET_CNF, 0, ?a] ! k"
      using k n lp assms(1) \<open>m \<noteq> []\<close> by (auto simp: nth_list_update)
  qed
  show ?thesis
    using assms(2,3) cnf_value_zero[OF l] t
    by (auto simp: mac_mlmeGetReqWithCnf_def Let_def)
qed

theorem mac_getCnf_value_zero_witness:
  "\<exists>r. mac_mlmeGetReqWithCnf (0x4d # MAC_LOGICAL_CHANNEL # replicate 9 0xAA) mac_st0 =
    (MAC_SUCCESS, mac_st0\<lparr>confirms := [[MAC_MLME_GET_CNF, 0, MAC_LOGICAL_CHANNEL] @ replicate 8 0 @ r]\<rparr>) \<and>
   mac_mlmeGetReq MAC_LOGICAL_CHANNEL mac_st0 = (MAC_SUCCESS, [11])"
proof -
  have i: "mac_pibIndex MAC_LOGICAL_CHANNEL = 31" by (simp add: mac_pibIndex_def mac_attr_defs)
  have "mac_mlmeGetReq MAC_LOGICAL_CHANNEL mac_st0 = (MAC_SUCCESS, [11])"
    using radio_rows(4) i
    by (simp add: mac_mlmeGetReq_def MAC_PIB_INVALID_def mac_attr_defs mac_st0_def pib_bytes_def macPibDefaults_def
        u32_bytes_def u16_bytes_def)
  moreover have "\<exists>r. mac_mlmeGetReqWithCnf (0x4d # MAC_LOGICAL_CHANNEL # replicate 9 0xAA) mac_st0 =
    (MAC_SUCCESS, mac_st0\<lparr>confirms := confirms mac_st0 @ [[MAC_MLME_GET_CNF, 0, (0x4d # MAC_LOGICAL_CHANNEL # replicate 9 0xAA) ! 1] @ replicate 8 0 @ r]\<rparr>)"
    using i by (intro mac_getCnf_value_zero) (simp_all add: MAC_PIB_INVALID_def mac_attr_defs)
  ultimately show ?thesis by (simp add: mac_st0_def)
qed

section \<open>The address\<close>

lemma block_cell: "i < n \<Longrightarrow> block m a n ! i = m (a + of_nat i)"
  by (simp add: block_def)

lemma sector_near: "n \<le> 4096 - unat a mod 4096 \<Longrightarrow> i < n \<Longrightarrow> sector (a + of_nat i) = sector a"
proof -
  assume n: "n \<le> 4096 - unat a mod 4096" "i < n"
  have "unat (a + of_nat i) = unat a + i"
  proof -
    have "unat a div 4096 < 2 ^ 20" using u32_less[of a] by (simp add: less_mult_imp_div_less)
    moreover have "unat a + i < (unat a div 4096 + 1) * 4096"
      using n div_mult_mod_eq[of "unat a" 4096] mod_less_divisor[of 4096 "unat a"] unfolding add_mult_distrib by linarith
    ultimately have "unat a + i < 2 ^ 32" by simp
    then show ?thesis using n u32_less[of a] by (subst unat_add_small) (simp_all add: unat_of_nat_u32)
  qed
  moreover have "(unat a + i) div 4096 = unat a div 4096"
  proof -
    have "unat a mod 4096 < 4096" by simp
    then have r: "unat a mod 4096 + i < 4096" using n by linarith
    have "unat a + i = 4096 * (unat a div 4096) + (unat a mod 4096 + i)" by simp
    then show ?thesis using r by (metis div_mult_self4 div_less add.right_neutral zero_neq_numeral add.commute)
  qed
  ultimately show ?thesis by (simp add: sector_def)
qed

lemma block_nor_erase: "n \<le> 4096 - unat a mod 4096 \<Longrightarrow> block (nor_erase m a) a n = replicate n 0xff"
  by (rule nth_equalityI) (simp_all add: block_cell nor_erase_def sector_near)

lemma block_write_erased:
  assumes "block m a (length bs) = replicate (length bs) 0xff" "length bs < 2 ^ 32"
  shows "block (nor_write m a bs) a (length bs) = bs"
proof -
  have "m (a + of_nat i) = 0xff" if "i < length bs" for i
    using arg_cong[OF assms(1), of "\<lambda>l. l ! i"] that by (simp add: block_cell)
  moreover have "(0xff :: u8) AND x = x" for x
  proof -
    have "(0xff :: u8) = - 1" by simp
    then show ?thesis by (simp only: and.left_neutral)
  qed
  ultimately show ?thesis using nor_write_stores_iff[OF assms(2)] by simp
qed

lemma ieee_addr_unlock_lock:
  assumes "flash_ok cells writable fl"
  shows "flash_ok cells writable (flash_lock (flash_unlock fl)) \<and>
    cells (fl_chip (flash_lock (flash_unlock fl))) = cells (fl_chip fl)"
  using flash_unlock_ok[OF assms] flash_lock_ok[of cells writable "flash_unlock fl"] by simp

text \<open>What \<open>mac_ieee_addr\<close> finds depends on the eight stored bytes only; on a new device it stores an
  address that it then finds again.\<close>

definition addr_of_stored :: "u8 list \<Rightarrow> u8 list" where
  "addr_of_stored b = (if take 3 (drop 3 b) \<in> set mac_prefixes then drop 6 b @ take 6 b else b)"

lemma mac_ieee_addr_cells:
  assumes C: "nor_chip program read_cmd erase_cmd cells writable" and F: "flash_ok cells writable fl"
    and rnd: "length rnd = 5"
  defines "d \<equiv> mk_drv (flash_write_page program) read_cmd erase_cmd"
  defines "b \<equiv> block (cells (fl_chip fl)) CFG_MAC_ADDRESS 8"
  shows "\<exists>fl'. mac_ieee_addr d rnd fl = (if b = replicate 8 0xff \<or> b = replicate 8 0 then rnd @ startIEEEAddr else addr_of_stored b, fl') \<and>
    flash_ok cells writable fl' \<and>
    block (cells (fl_chip fl')) CFG_MAC_ADDRESS 8 =
      (if b = replicate 8 0xff \<or> b = replicate 8 0 then drop 2 (rnd @ startIEEEAddr) @ take 2 rnd else b)"
proof -
  have N: "nor_flash (flash_write_page program) read_cmd erase_cmd cells writable"
    by (rule nor_chip.platform_nor[OF C])
  let ?s1 = "flash_unlock fl"
  have u: "flash_ok cells writable ?s1" "\<not> g_flashLocked ?s1" "writable (fl_chip ?s1)" "cells (fl_chip ?s1) = cells (fl_chip fl)"
    using flash_unlock_ok[OF F] by auto
  have "unat CFG_MAC_ADDRESS mod 256 = 0" by (simp add: CFG_MAC_ADDRESS_def)
  then have r: "drv_read d c CFG_MAC_ADDRESS 8 = block (cells c) CFG_MAC_ADDRESS 8" for c
    using nor_flash.rd_cells[OF N, of CFG_MAC_ADDRESS 8 c] by (simp add: d_def in_page_def)
  have fr: "flash_read d c a n = block (cells c) a n" for c a n
    unfolding d_def by (rule nor_flash.flash_read_cells[OF N])
  show ?thesis
  proof (cases "b = replicate 8 0xff \<or> b = replicate 8 0")
    case new: True
    define new where "new = rnd @ startIEEEAddr"
    define A where "A = drop 2 new"
    define B where "B = take 2 new"
    define c1 where "c1 = (if b = replicate 8 0 then flash_erase d (fl_chip ?s1) CFG_MAC_ADDRESS else fl_chip ?s1)"
    define c2 where "c2 = flash_write d c1 CFG_MAC_ADDRESS A"
    define c3 where "c3 = flash_write d c2 (CFG_MAC_ADDRESS + 6) B"
    have ln: "length A = 6" "length B = 2" "B = take 2 rnd" by (simp_all add: new_def A_def B_def rnd startIEEEAddr_def)
    have w1: "writable c1" using u nor_flash.er_writable[OF N] by (simp add: c1_def d_def flash_erase_def)
    have b1: "block (cells c1) CFG_MAC_ADDRESS 8 = replicate 8 0xff"
    proof (cases "b = replicate 8 0")
      case True
      then have "cells c1 = nor_erase (cells (fl_chip fl)) CFG_MAC_ADDRESS"
        using u nor_flash.er_cells[OF N] by (simp add: c1_def d_def flash_erase_def)
      then show ?thesis using block_nor_erase[of 8 CFG_MAC_ADDRESS] by (simp add: CFG_MAC_ADDRESS_def)
    next
      case False
      then show ?thesis using new u by (simp add: b_def c1_def)
    qed
    have c2: "cells c2 = nor_write (cells c1) CFG_MAC_ADDRESS A" "writable c2"
      using nor_flash.flash_write_cells[OF N w1, of A CFG_MAC_ADDRESS] ln unfolding d_def c2_def by simp_all
    have c3: "cells c3 = nor_write (cells c2) (CFG_MAC_ADDRESS + 6) B" "writable c3"
      using nor_flash.flash_write_cells[OF N c2(2), of B "CFG_MAC_ADDRESS + 6"] ln unfolding d_def c3_def by simp_all
    have "cells c3 = nor_write (cells c1) CFG_MAC_ADDRESS (A @ B)"
      using nor_write_append[of 6 "A @ B" "cells c1" CFG_MAC_ADDRESS] ln unfolding c3 c2 by simp
    then have st: "block (cells c3) CFG_MAC_ADDRESS 8 = A @ B"
      using block_write_erased[of "cells c1" CFG_MAC_ADDRESS "A @ B"] b1 ln by simp
    let ?f = "?s1\<lparr>fl_chip := c3\<rparr>"
    have ok: "flash_ok cells writable ?f" using u c3(2) by (auto simp: flash_ok_def split: option.splits)
    have e: "mac_ieee_addr d rnd fl = (new, flash_lock ?f)"
      using new unfolding mac_ieee_addr_def Let_def r b_def[symmetric] new_def[symmetric] A_def[symmetric] B_def[symmetric]
        c1_def[symmetric] c2_def[symmetric] c3_def[symmetric] by simp
    show ?thesis
      using e flash_lock_ok[OF ok] st new ln(3) unfolding new_def[symmetric] A_def[symmetric]
      by (intro exI[of _ "flash_lock ?f"]) simp
  next
    case old: False
    have s: "block (cells (fl_chip fl)) (CFG_MAC_ADDRESS + 6) 2 = drop 6 b" "block (cells (fl_chip fl)) CFG_MAC_ADDRESS 6 = take 6 b"
      using block_append[of "cells (fl_chip fl)" CFG_MAC_ADDRESS 6 2] by (simp_all add: b_def append_eq_conv_conj)
    have e: "mac_ieee_addr d rnd fl = (addr_of_stored b, flash_lock ?s1)"
      using old s u(4) unfolding mac_ieee_addr_def Let_def r b_def[symmetric] fr addr_of_stored_def by simp
    show ?thesis
      using e old ieee_addr_unlock_lock[OF F] by (intro exI[of _ "flash_lock ?s1"]) (simp add: b_def)
  qed
qed

lemma replicate_8: "replicate 8 x = [x, x, x, x, x, x, x, x]"
  by (simp add: numeral_eq_Suc)

lemma addr_of_stored_new:
  "length rnd = 5 \<Longrightarrow> b = drop 2 (rnd @ startIEEEAddr) @ take 2 rnd \<Longrightarrow>
   addr_of_stored b = rnd @ startIEEEAddr \<and> b \<noteq> replicate 8 0xff \<and> b \<noteq> replicate 8 0"
proof -
  assume l: "length rnd = 5" and b: "b = drop 2 (rnd @ startIEEEAddr) @ take 2 rnd"
  obtain x0 x1 x2 x3 x4 where "rnd = [x0, x1, x2, x3, x4]"
    using l by (auto simp: numeral_eq_Suc length_Suc_conv)
  then show ?thesis
    unfolding b by (simp add: addr_of_stored_def startIEEEAddr_def mac_prefixes_def replicate_8)
qed

lemma length_addr_of_stored: "length b = 8 \<Longrightarrow> length (addr_of_stored b) = 8"
  by (simp add: addr_of_stored_def)

lemma put_defaults:
  "length (put_bytes (put_bytes macPibDefaults (OFFSETOF dsn) [r1]) (OFFSETOF bsn) [r2]) = 61"
  using length_defaults by (simp add: length_put_bytes)

lemma ext_index: "mac_pibIndex MAC_EXTENDED_ADDRESS = 32" "MAC_EXTENDED_ADDRESS \<noteq> MAC_BEACON_PAYLOAD"
  by (simp_all add: mac_pibIndex_def mac_attr_defs)

lemma reset_ext:
  assumes "mac_ieee_addr d rnd fl = (ext, fl')" "length ext = 8"
  shows "mac_mlmeGetReq MAC_EXTENDED_ADDRESS (fst (mac_pibReset d r1 r2 rnd fl s)) = (MAC_SUCCESS, ext)"
    and "snd (mac_pibReset d r1 r2 rnd fl s) = fl'"
    and "macPib (fst (mac_pibReset d r1 r2 rnd fl s)) =
      put_bytes (put_bytes (put_bytes macPibDefaults (OFFSETOF dsn) [r1]) (OFFSETOF bsn) [r2]) (OFFSETOF extendedAddress) ext"
proof -
  let ?p = "put_bytes (put_bytes macPibDefaults (OFFSETOF dsn) [r1]) (OFFSETOF bsn) [r2]"
  let ?s = "s\<lparr>macPib := ?p\<rparr>"
  have l: "length (macPib ?s) = 61" using put_defaults by simp
  have ok: "pib_value_ok MAC_EXTENDED_ADDRESS (mac_pibIndex MAC_EXTENDED_ADDRESS) ext"
    by (simp add: pib_value_ok_def radio_rows)
  have e: "mac_mlmeSetReq MAC_EXTENDED_ADDRESS ext ?s = (MAC_SUCCESS, pib_store MAC_EXTENDED_ADDRESS ext ?s)"
    using setReq_cases[OF l, of ext MAC_EXTENDED_ADDRESS] ok assms(2) ext_index by (simp add: MAC_PIB_INVALID_def)
  have st: "stored MAC_EXTENDED_ADDRESS ext = ext"
    using assms(2) radio_rows(5) by (simp add: stored_def mac_attr_defs)
  have pib: "macPib (pib_store MAC_EXTENDED_ADDRESS ext ?s) = put_bytes ?p (OFFSETOF extendedAddress) ext"
    using radio_rows(5) st by (simp add: pib_store_def)
  show "macPib (fst (mac_pibReset d r1 r2 rnd fl s)) = put_bytes ?p (OFFSETOF extendedAddress) ext"
    using e pib assms by (simp add: mac_pibReset_def)
  show "snd (mac_pibReset d r1 r2 rnd fl s) = fl'" using assms by (simp add: mac_pibReset_def)
  show "mac_mlmeGetReq MAC_EXTENDED_ADDRESS (fst (mac_pibReset d r1 r2 rnd fl s)) = (MAC_SUCCESS, ext)"
  proof -
    have "pib_bytes (put_bytes ?p 51 ext) 51 (length ext) = ext"
      using l assms(2) by (intro pib_bytes_put_same) simp
    then show ?thesis
      using e pib assms ext_index radio_rows(5) by (simp add: mac_pibReset_def mac_mlmeGetReq_def MAC_PIB_INVALID_def Let_def)
  qed
qed

text \<open>C23: The extended address survives resets. On any NOR chip, whatever is stored and whatever the random
  generator delivers, a second reset finds the address of the first one; on a new device (all 0xFF
  or all 0) it is the five random bytes followed by the vendor prefix.\<close>

theorem mac_address_persists:
  assumes C: "nor_chip program read_cmd erase_cmd cells writable" and F: "flash_ok cells writable fl"
    and "length rnd = 5" "length rnd' = 5"
    and d: "d = mk_drv (flash_write_page program) read_cmd erase_cmd"
    and r1: "mac_pibReset d x1 y1 rnd fl s = (s1, fl1)" and r2: "mac_pibReset d x2 y2 rnd' fl1 s' = (s2, fl2)"
  shows "mac_mlmeGetReq MAC_EXTENDED_ADDRESS s2 = mac_mlmeGetReq MAC_EXTENDED_ADDRESS s1 \<and>
    fst (mac_mlmeGetReq MAC_EXTENDED_ADDRESS s1) = MAC_SUCCESS \<and>
    (block (cells (fl_chip fl)) CFG_MAC_ADDRESS 8 \<in> {replicate 8 0xff, replicate 8 0} \<longrightarrow>
       snd (mac_mlmeGetReq MAC_EXTENDED_ADDRESS s1) = rnd @ startIEEEAddr)"
proof -
  let ?b = "block (cells (fl_chip fl)) CFG_MAC_ADDRESS 8"
  let ?new = "?b = replicate 8 0xff \<or> ?b = replicate 8 0"
  let ?b' = "if ?new then drop 2 (rnd @ startIEEEAddr) @ take 2 rnd else ?b"
  let ?a = "if ?new then rnd @ startIEEEAddr else addr_of_stored ?b"
  have la: "length ?a = 8" using assms(3) length_addr_of_stored[of ?b] by (simp add: startIEEEAddr_def)
  obtain f1 where f1: "mac_ieee_addr d rnd fl = (?a, f1)" "flash_ok cells writable f1"
    "block (cells (fl_chip f1)) CFG_MAC_ADDRESS 8 = ?b'"
    using mac_ieee_addr_cells[OF C F assms(3)] unfolding d by blast
  have e1: "mac_mlmeGetReq MAC_EXTENDED_ADDRESS s1 = (MAC_SUCCESS, ?a)" "fl1 = f1"
    using reset_ext(1,2)[OF f1(1) la, of x1 y1 s] r1 by simp_all
  have b': "\<not> (?b' = replicate 8 0xff \<or> ?b' = replicate 8 0) \<and> addr_of_stored ?b' = ?a"
    using addr_of_stored_new[OF assms(3) refl] by auto
  obtain f2 where f2: "mac_ieee_addr d rnd' f1 = (?a, f2)"
    using mac_ieee_addr_cells[OF C f1(2) assms(4)] b' unfolding d f1(3) by auto
  have "mac_mlmeGetReq MAC_EXTENDED_ADDRESS s2 = (MAC_SUCCESS, ?a)"
    using reset_ext(1)[OF f2 la, of x2 y2 s'] r2 e1(2) by simp
  with e1 show ?thesis by simp
qed

lemma in_range_reset:
  assumes "mac_ieee_addr d rnd fl = (ext, fl')" "length ext = 8"
  shows "pib_in_range (macPib (fst (mac_pibReset d r1 r2 rnd fl s)))"
proof -
  have P: "pib_in_range (macPib mac_st0)"
    by (simp add: mac_st0_def pib_in_range_def length_defaults macPibTbl_def row_def macPibDefaults_def u32_bytes_def u16_bytes_def replicate_8)
  have i: "mac_pibIndex 0x4C = 12" "mac_pibIndex 0x49 = 9" by (simp_all add: mac_pibIndex_def)
  have rows: "macPibTbl ! 12 = row dsn 1 0 0xFF" "macPibTbl ! 9 = row bsn 1 0 0xFF" by (simp_all add: macPibTbl_def)
  have le: "\<not> (255 :: u8) < x" for x using u8_less_256[of x] by (simp add: word_less_nat_alt)
  have ok: "pib_value_ok 0x4C 12 (replicate 8 r1)" "pib_value_ok 0x49 9 (replicate 8 r2)"
    using le by (simp_all add: pib_value_ok_def rows mac_attr_defs)
  have P1: "pib_in_range (macPib (pib_store 0x4C (replicate 8 r1) mac_st0))"
    using in_range_store[OF P, of "replicate 8 r1" "0x4C"] ok i by simp
  have P2: "pib_in_range (macPib (pib_store 0x49 (replicate 8 r2) (pib_store 0x4C (replicate 8 r1) mac_st0)))"
    using in_range_store[OF P1, of "replicate 8 r2" "0x49"] ok i by simp
  have P3: "pib_in_range (macPib (pib_store MAC_EXTENDED_ADDRESS ext (pib_store 0x49 (replicate 8 r2) (pib_store 0x4C (replicate 8 r1) mac_st0))))"
    using in_range_store[OF P2, of ext MAC_EXTENDED_ADDRESS] assms(2) ext_index radio_rows(5) by (simp add: pib_value_ok_def)
  have st: "stored MAC_EXTENDED_ADDRESS ext = ext" "stored 0x4C (replicate 8 r1) = [r1]" "stored 0x49 (replicate 8 r2) = [r2]"
    using assms(2) radio_rows(5) by (simp_all add: stored_def mac_attr_defs i rows)
  show ?thesis
    using P3 unfolding reset_ext(3)[OF assms] using st radio_rows(5) i rows by (simp add: pib_store_def mac_st0_def)
qed

text \<open>C35: Whatever an application requests after a reset, each one-byte attribute with limits in the table
  stays within them: the channel is always one of 11 to 28, the back-off exponents at most 8, and
  the attributes whose limits coincide keep their value.\<close>

theorem pib_ranges_invariant:
  assumes C: "nor_chip program read_cmd erase_cmd cells writable" and F: "flash_ok cells writable fl" and "length rnd = 5"
    and "mac_pibReset (mk_drv (flash_write_page program) read_cmd erase_cmd) r1 r2 rnd fl s = (s0, fl')"
    and "list_all (\<lambda>(a, v). 8 \<le> length v) reqs"
  shows "pib_in_range (macPib (fold (\<lambda>(a, v) s. snd (mac_mlmeSetReq a v s)) reqs s0))"
proof -
  let ?b = "block (cells (fl_chip fl)) CFG_MAC_ADDRESS 8"
  obtain ext f1 where f1: "mac_ieee_addr (mk_drv (flash_write_page program) read_cmd erase_cmd) rnd fl = (ext, f1)" "length ext = 8"
    using mac_ieee_addr_cells[OF C F assms(3)] assms(3) length_addr_of_stored[of ?b] by (auto simp: startIEEEAddr_def)
  have "pib_in_range (macPib s0)" using in_range_reset[OF f1, of r1 r2 s] assms(4) by simp
  moreover have "pib_in_range (macPib s) \<Longrightarrow> pib_in_range (macPib (fold (\<lambda>(a, v) s. snd (mac_mlmeSetReq a v s)) reqs s))" for s
    using assms(5)
  proof (induction reqs arbitrary: s)
    case (Cons r reqs)
    then show ?case using in_range_set by (cases r) auto
  qed simp
  ultimately show ?thesis by blast
qed

theorem mac_address_persists_witness:
  "\<exists>s1 fl1 s2 fl2. mac_pibReset myFlashDrv_ideal 7 8 [1, 2, 3, 4, 5] new_device mac_st0 = (s1, fl1) \<and>
     mac_pibReset myFlashDrv_ideal 9 9 [6, 6, 6, 6, 6] fl1 mac_st0 = (s2, fl2) \<and>
     mac_mlmeGetReq MAC_EXTENDED_ADDRESS s2 = (MAC_SUCCESS, [1, 2, 3, 4, 5, 0x38, 0xc1, 0xa4])"
proof -
  obtain s1 fl1 where 1: "mac_pibReset myFlashDrv_ideal 7 8 [1, 2, 3, 4, 5] new_device mac_st0 = (s1, fl1)" by fastforce
  obtain s2 fl2 where 2: "mac_pibReset myFlashDrv_ideal 9 9 [6, 6, 6, 6, 6] fl1 mac_st0 = (s2, fl2)" by fastforce
  have b: "block (fl_chip new_device) CFG_MAC_ADDRESS 8 = replicate 8 0xff"
    by (rule nth_equalityI) (simp_all add: block_cell new_device_def)
  have "mac_mlmeGetReq MAC_EXTENDED_ADDRESS s2 = mac_mlmeGetReq MAC_EXTENDED_ADDRESS s1 \<and>
      mac_mlmeGetReq MAC_EXTENDED_ADDRESS s1 = (MAC_SUCCESS, [1, 2, 3, 4, 5] @ startIEEEAddr)"
    using mac_address_persists[OF ideal.nor_chip_axioms new_device_ok _ _ refl 1 2] b by (auto simp: prod_eq_iff)
  with 1 2 show ?thesis by (simp add: startIEEEAddr_def)
qed

theorem pib_ranges_invariant_witness:
  "\<exists>s0 fl'. mac_pibReset myFlashDrv_ideal 7 8 [1, 2, 3, 4, 5] new_device mac_st0 = (s0, fl') \<and>
     pib_in_range (macPib (fold (\<lambda>(a, v) s. snd (mac_mlmeSetReq a v s))
       [(MAC_LOGICAL_CHANNEL, replicate 8 26), (MAC_LOGICAL_CHANNEL, replicate 8 99)] s0))"
proof -
  obtain s0 fl' where 1: "mac_pibReset myFlashDrv_ideal 7 8 [1, 2, 3, 4, 5] new_device mac_st0 = (s0, fl')" by fastforce
  then show ?thesis
    using pib_ranges_invariant[OF ideal.nor_chip_axioms new_device_ok _ 1,
        of "[(MAC_LOGICAL_CHANNEL, replicate 8 26), (MAC_LOGICAL_CHANNEL, replicate 8 99)]"] by simp
qed

end
