(* ===== verification/Keyboard.thy ===== *)
theory Keyboard
  imports Prelude
begin

text \<open>
  The matrix keyboard, \<open>proj/drivers/keyboard.c\<close>, as every board configures it (lines active low, one
  drive line at a time, no control keys). The pins are hardware: \<open>sense driven j\<close> says that scan line
  \<open>j\<close> reads low while the drive lines \<open>driven\<close> are driven; it is constant during a scan. Matrices are
  one \<open>u32\<close> per drive line, as in the code; arrays are lists, the static variables are fields of the
  state.
\<close>

section \<open>State\<close>

abbreviation KB_RETURN_KEY_MAX :: nat where "KB_RETURN_KEY_MAX \<equiv> 6"

record kb_data_t =
  kb_cnt :: nat
  kb_ctrl_key :: u8
  kb_keycode :: "u8 list"

text \<open>The board: the keys of the map by scan line and drive line, and whether ghost keys are removed.\<close>

record kb_board =
  KB_MAP_NORMAL :: "u8 list list"
  n_scan :: nat
  n_drive :: nat
  KB_RM_GHOST_KEY_EN :: bool

record kb_state =
  kb_event :: kb_data_t
  scan_pin_need :: u32
  driven :: "bool list"
  gpio_low :: "bool list"
  release_cnt :: nat
  ret_last :: u32
  mtrx_pre :: "u32 list"
  mtrx_last :: "u32 list"
  matrix_buff :: "u32 list list"
  matrix_wptr :: nat
  matrix_rptr :: nat

section \<open>Reading the lines\<close>

definition set_drive :: "nat \<Rightarrow> bool \<Rightarrow> kb_state \<Rightarrow> kb_state" where
  "set_drive i b s = s\<lparr>driven := (driven s)[i := b]\<rparr>"

definition gpio_read_all :: "kb_board \<Rightarrow> (bool list \<Rightarrow> nat \<Rightarrow> bool) \<Rightarrow> kb_state \<Rightarrow> kb_state" where
  "gpio_read_all bd sense s = s\<lparr>gpio_low := map (sense (driven s)) [0..<n_scan bd]\<rparr>"

text \<open>The loops over the scan lines: the bits of the lines that are low and wanted.\<close>

definition low_bits :: "nat \<Rightarrow> (nat \<Rightarrow> bool) \<Rightarrow> u32" where
  "low_bits n P = foldl (\<lambda>m j. if P j then m OR push_bit j 1 else m) 0 [0..<n]"

definition kb_key_pressed :: "kb_board \<Rightarrow> (bool list \<Rightarrow> nat \<Rightarrow> bool) \<Rightarrow> kb_state \<Rightarrow> u32 \<times> kb_state" where
  "kb_key_pressed bd sense s =
     (let s1 = fold (\<lambda>i. set_drive i True) [0..<n_drive bd] s;
          s2 = gpio_read_all bd sense s1;
          ret = low_bits (n_scan bd) (\<lambda>i. gpio_low s2 ! i);
          s3 = (if \<exists>i \<in> set [0..<n_scan bd]. gpio_low s2 ! i then s2\<lparr>release_cnt := 6, ret_last := ret\<rparr> else s2);
          (ret', s4) = (if release_cnt s3 \<noteq> 0 then (ret_last s3, s3\<lparr>release_cnt := release_cnt s3 - 1\<rparr>) else (ret, s3))
      in (ret', fold (\<lambda>i. set_drive i False) [0..<n_drive bd] s4))"

text \<open>One row: drive the line, evaluate what the \<^emph>\<open>previous\<close> call has read, read, release the line.\<close>

definition kb_scan_row :: "kb_board \<Rightarrow> (bool list \<Rightarrow> nat \<Rightarrow> bool) \<Rightarrow> nat \<Rightarrow> kb_state \<Rightarrow> u32 \<times> kb_state" where
  "kb_scan_row bd sense drv_ind s =
     (let s1 = set_drive drv_ind True s;
          matrix = low_bits (n_scan bd) (\<lambda>j. bit (scan_pin_need s1) j \<and> gpio_low s1 ! j);
          s2 = gpio_read_all bd sense s1
      in (matrix, set_drive drv_ind False s2))"

text \<open>The scan loop, rounds \<open>i, i + 1, ...\<close> of \<open>n\<close> more: the results after round 0.\<close>

fun scan_rows :: "kb_board \<Rightarrow> (bool list \<Rightarrow> nat \<Rightarrow> bool) \<Rightarrow> nat \<Rightarrow> nat \<Rightarrow> kb_state \<Rightarrow> u32 list \<times> kb_state" where
  "scan_rows bd sense i 0 s = ([], s)"
| "scan_rows bd sense i (Suc n) s =
     (let (r, s1) = kb_scan_row bd sense (if i < n_drive bd then i else 0) s;
          (rs, s2) = scan_rows bd sense (i + 1) n s1
      in (if i \<noteq> 0 then r # rs else rs, s2))"

section \<open>Filters\<close>

definition BIT_IS_POW2 :: "u32 \<Rightarrow> bool" where
  "BIT_IS_POW2 x \<longleftrightarrow> x AND (x - 1) = 0"

definition ghost_mix :: "u32 \<Rightarrow> u32 \<Rightarrow> u32" where
  "ghost_mix a b = (let mix = a AND b in if mix \<noteq> 0 \<and> (\<not> BIT_IS_POW2 mix \<or> a XOR b \<noteq> 0) then mix else 0)"

text \<open>Row by row; \<open>mix_final\<close> is carried on.\<close>

fun rmv_ghost_rows :: "u32 \<Rightarrow> u32 list \<Rightarrow> u32 list" where
  "rmv_ghost_rows mix_final [] = []"
| "rmv_ghost_rows mix_final (m # ms) =
     (let mix_final' = foldl (\<lambda>x m'. x OR ghost_mix m m') mix_final ms
      in (m AND NOT mix_final') # rmv_ghost_rows mix_final' ms)"

definition kb_rmv_ghost_key :: "u32 list \<Rightarrow> u32 list" where
  "kb_rmv_ghost_key pressed_matrix = rmv_ghost_rows 0 pressed_matrix"

definition debounce_row :: "u32 \<Rightarrow> u32 \<Rightarrow> u32 \<Rightarrow> u32" where
  "debounce_row lst pre tmp = (NOT lst AND (pre AND tmp)) OR (lst AND (pre OR tmp))"

definition key_debounce_filter :: "u32 list \<Rightarrow> bool \<Rightarrow> kb_state \<Rightarrow> bool \<times> u32 list \<times> kb_state" where
  "key_debounce_filter cur filt_en s =
     (let cur' = (if filt_en then map2 (\<lambda>(lst, pre) tmp. debounce_row lst pre tmp) (zip (mtrx_last s) (mtrx_pre s)) cur else cur)
      in (cur' \<noteq> mtrx_last s, cur', s\<lparr>mtrx_pre := cur, mtrx_last := cur'\<rparr>))"

section \<open>Key codes\<close>

fun kb_remap_key_row :: "u8 list list \<Rightarrow> nat \<Rightarrow> nat \<Rightarrow> nat list \<Rightarrow> u32 \<Rightarrow> kb_data_t \<Rightarrow> kb_data_t" where
  "kb_remap_key_row mp drv_ind key_max [] m kb = kb"
| "kb_remap_key_row mp drv_ind key_max (i # rest) m kb =
     (let kb' = (if bit m 0
                 then kb\<lparr>kb_keycode := (kb_keycode kb)[kb_cnt kb := mp ! i ! drv_ind], kb_cnt := kb_cnt kb + 1\<rparr>
                 else kb)
      in if bit m 0 \<and> kb_cnt kb' \<ge> key_max then kb'
         else if drop_bit 1 m = 0 then kb'
         else kb_remap_key_row mp drv_ind key_max rest (drop_bit 1 m) kb')"

text \<open>The loop over the drive lines \<open>i, i + 1, ...\<close> with their rows.\<close>

fun remap_rows :: "kb_board \<Rightarrow> nat \<Rightarrow> nat \<Rightarrow> u32 list \<Rightarrow> kb_data_t \<Rightarrow> kb_data_t" where
  "remap_rows bd key_max i [] kb = kb"
| "remap_rows bd key_max i (m # ms) kb =
     (if m = 0 then remap_rows bd key_max (i + 1) ms kb
      else let kb' = kb_remap_key_row (KB_MAP_NORMAL bd) i key_max [0..<n_scan bd] m kb
           in if kb_cnt kb' \<ge> key_max then kb' else remap_rows bd key_max (i + 1) ms kb')"

definition kb_remap_key_code :: "kb_board \<Rightarrow> u32 list \<Rightarrow> nat \<Rightarrow> kb_data_t \<Rightarrow> kb_data_t" where
  "kb_remap_key_code bd pressed_matrix key_max kb = remap_rows bd key_max 0 pressed_matrix kb"

section \<open>The scan\<close>

text \<open>The ring of four matrices with pointers modulo eight; a fifth matrix drops the oldest.\<close>

definition ring_push :: "u32 list \<Rightarrow> kb_state \<Rightarrow> kb_state" where
  "ring_push m s =
     (let w = (matrix_wptr s + 1) mod 8;
          s1 = s\<lparr>matrix_buff := (matrix_buff s)[matrix_wptr s mod 4 := m], matrix_wptr := w\<rparr>
      in if (w + 8 - matrix_rptr s) mod 8 > 4 then s1\<lparr>matrix_rptr := (w + 8 - 4) mod 8\<rparr> else s1)"

definition kb_scan_key :: "kb_board \<Rightarrow> (bool list \<Rightarrow> nat \<Rightarrow> bool) \<Rightarrow> u8 \<Rightarrow> bool \<Rightarrow> kb_state \<Rightarrow> bool \<times> kb_state" where
  "kb_scan_key bd sense numlock_status read_key s =
     (let (need, s1) = kb_key_pressed bd sense s;
          s1 = s1\<lparr>scan_pin_need := need\<rparr>
      in if need = 0 then (False, s1)
         else
           let s2 = s1\<lparr>kb_event := (kb_event s1)\<lparr>kb_cnt := 0, kb_ctrl_key := 0\<rparr>\<rparr>;
               (_, s3) = kb_scan_row bd sense 0 s2;
               (pressed_matrix, s4) = scan_rows bd sense 0 (n_drive bd + 1) s3;
               pressed_matrix = (if KB_RM_GHOST_KEY_EN bd then kb_rmv_ghost_key pressed_matrix else pressed_matrix);
               (key_changed, pressed_matrix, s5) = key_debounce_filter pressed_matrix True s4;
               s6 = (if key_changed then ring_push pressed_matrix s5 else s5)
           in if bit numlock_status 7 then (True, s6)
              else if matrix_wptr s6 = matrix_rptr s6 \<or> \<not> read_key then (False, s6)
              else
                let pd = matrix_buff s6 ! (matrix_rptr s6 mod 4)
                in (True, s6\<lparr>matrix_rptr := (matrix_rptr s6 + 1) mod 8,
                             kb_event := kb_remap_key_code bd pd KB_RETURN_KEY_MAX (kb_event s6)\<rparr>))"

text \<open>\<open>None\<close> is a null pointer.\<close>

definition kb_is_data_same :: "kb_data_t option \<Rightarrow> kb_data_t option \<Rightarrow> bool" where
  "kb_is_data_same a b =
     (case (a, b) of
        (Some x, Some y) \<Rightarrow>
          if kb_cnt x \<noteq> kb_cnt y \<or> kb_ctrl_key x \<noteq> kb_ctrl_key y then False
          else list_all (\<lambda>i. kb_keycode x ! i = kb_keycode y ! i) [0..<kb_cnt x]
      | _ \<Rightarrow> False)"

end
