(* ===== verification/KeyboardProps.thy ===== *)
theory KeyboardProps
  imports Keyboard
begin

text \<open>
  Proofs about the matrix keyboard: what the filters do to a matrix, bit by bit, and the refinement of one
  call of \<open>kb_scan_key\<close> to \<open>which keys are down\<close>, a queue of debounced matrices and the key codes of the
  oldest of them. The electrical law of the matrix is \<open>contact\<close>.
\<close>

lemma bit_low_bits: "n \<le> 32 \<Longrightarrow> bit (low_bits n P) j \<longleftrightarrow> j < n \<and> P j"
proof -
  assume "n \<le> 32"
  then have "bit (foldl (\<lambda>m j. if P j then m OR push_bit j 1 else m) 0 [0..<n] :: u32) j \<longleftrightarrow> j < n \<and> P j"
  proof (induction n)
    case (Suc n)
    then have e: "bit (push_bit n 1 :: u32) j \<longleftrightarrow> j = n"
      by (auto simp: bit_simps)
    with Suc show ?case by (auto simp: bit_or_iff less_Suc_eq)
  qed simp
  then show ?thesis by (simp add: low_bits_def)
qed

lemma low_bits_cong: "(\<And>j. j < n \<Longrightarrow> P j = Q j) \<Longrightarrow> low_bits n P = low_bits n Q"
  unfolding low_bits_def by (rule foldl_cong) auto

lemma low_bits_zero: "n \<le> 32 \<Longrightarrow> low_bits n P = 0 \<longleftrightarrow> (\<forall>j < n. \<not> P j)"
proof -
  assume n: "n \<le> 32"
  have "low_bits n P = 0 \<longleftrightarrow> (\<forall>j. \<not> bit (low_bits n P) j)"
    by (auto intro: bit_word_eqI)
  then show ?thesis using bit_low_bits[OF n] by auto
qed

text \<open>The law of a matrix without ghost keys: a scan line is low when a driven line has a key down on it.\<close>

definition contact :: "(nat \<Rightarrow> nat \<Rightarrow> bool) \<Rightarrow> bool list \<Rightarrow> nat \<Rightarrow> bool" where
  "contact key dr j \<longleftrightarrow> (\<exists>i < length dr. dr ! i \<and> key i j)"

definition key_row :: "kb_board \<Rightarrow> (nat \<Rightarrow> nat \<Rightarrow> bool) \<Rightarrow> nat \<Rightarrow> u32" where
  "key_row bd key i = low_bits (n_scan bd) (key i)"

definition key_matrix :: "kb_board \<Rightarrow> (nat \<Rightarrow> nat \<Rightarrow> bool) \<Rightarrow> u32 list" where
  "key_matrix bd key = map (key_row bd key) [0..<n_drive bd]"

definition board_ok :: "kb_board \<Rightarrow> bool" where
  "board_ok bd \<longleftrightarrow> 0 < n_drive bd \<and> n_scan bd \<le> 32"

definition lines_idle :: "kb_board \<Rightarrow> kb_state \<Rightarrow> bool" where
  "lines_idle bd s \<longleftrightarrow> driven s = replicate (n_drive bd) False"

lemma fold_set_drive:
  "driven s = xs \<Longrightarrow> n \<le> length xs \<Longrightarrow>
   fold (\<lambda>i. set_drive i b) [0..<n] s = s\<lparr>driven := replicate n b @ drop n xs\<rparr>"
proof (induction n)
  case (Suc n)
  then have "(replicate n b @ drop n xs)[n := b] = replicate (Suc n) b @ drop (Suc n) xs"
    by (simp add: list_update_append replicate_append_same Cons_nth_drop_Suc[symmetric])
  with Suc show ?case by (simp add: set_drive_def)
qed simp

lemma scan_row_spec:
  assumes "lines_idle bd s" "i < n_drive bd"
  shows "kb_scan_row bd (contact key) i s =
    (low_bits (n_scan bd) (\<lambda>j. bit (scan_pin_need s) j \<and> gpio_low s ! j), s\<lparr>gpio_low := map (key i) [0..<n_scan bd]\<rparr>)"
proof -
  have "contact key ((driven s)[i := True]) = key i"
    using assms by (auto simp: contact_def lines_idle_def nth_list_update fun_eq_iff)
  moreover have "(driven s)[i := False] = driven s"
    using assms list_update_id[of "driven s" i] by (simp add: lines_idle_def)
  ultimately show ?thesis by (simp add: kb_scan_row_def set_drive_def gpio_read_all_def Let_def)
qed

lemma scan_rows_from:
  assumes "lines_idle bd s" "board_ok bd" "0 < i" "i + n = n_drive bd + 1" "gpio_low s = map (key (i - 1)) [0..<n_scan bd]"
  shows "\<exists>g. scan_rows bd (contact key) i n s =
     (map (\<lambda>i. low_bits (n_scan bd) (\<lambda>j. bit (scan_pin_need s) j \<and> key i j)) [i - 1..<n_drive bd], s\<lparr>gpio_low := g\<rparr>)"
  using assms
proof (induction n arbitrary: i s)
  case 0
  then have "i - 1 = n_drive bd" by simp
  then show ?case by (intro exI[of _ "gpio_low s"]) simp
next
  case (Suc n)
  let ?i = "if i < n_drive bd then i else 0"
  have lt: "?i < n_drive bd" using Suc.prems(2) by (simp add: board_ok_def)
  let ?s = "s\<lparr>gpio_low := map (key ?i) [0..<n_scan bd]\<rparr>"
  have r: "kb_scan_row bd (contact key) ?i s =
      (low_bits (n_scan bd) (\<lambda>j. bit (scan_pin_need s) j \<and> key (i - 1) j), ?s)"
    using scan_row_spec[OF Suc.prems(1) lt, of key] Suc.prems(5) by (auto intro: low_bits_cong)
  have up: "[i - 1..<n_drive bd] = (i - 1) # [i..<n_drive bd]"
    using Suc.prems(3,4) upt_conv_Cons[of "i - 1" "n_drive bd"] by simp
  show ?case
  proof (cases "n = 0")
    case True
    then have "[i..<n_drive bd] = []" using Suc.prems(4) by simp
    with r up True show ?thesis
      using Suc.prems(3) by (auto simp: Let_def)
  next
    case False
    then have "?i = i" using Suc.prems(4) by simp
    then obtain g where "scan_rows bd (contact key) (i + 1) n ?s =
       (map (\<lambda>i. low_bits (n_scan bd) (\<lambda>j. bit (scan_pin_need s) j \<and> key i j)) [i..<n_drive bd], s\<lparr>gpio_low := g\<rparr>)"
      using Suc.IH[of ?s "i + 1"] Suc.prems by (auto simp: lines_idle_def)
    with r up show ?thesis using Suc.prems(3) by (auto simp: Let_def)
  qed
qed


lemma scan_matrix:
  assumes "lines_idle bd s" "board_ok bd"
  shows "\<exists>g. scan_rows bd (contact key) 0 (n_drive bd + 1) (snd (kb_scan_row bd (contact key) 0 s)) =
     (map (\<lambda>i. low_bits (n_scan bd) (\<lambda>j. bit (scan_pin_need s) j \<and> key i j)) [0..<n_drive bd], s\<lparr>gpio_low := g\<rparr>)"
proof -
  have 0: "0 < n_drive bd" using assms(2) by (simp add: board_ok_def)
  let ?s = "s\<lparr>gpio_low := map (key 0) [0..<n_scan bd]\<rparr>"
  have 1: "snd (kb_scan_row bd (contact key) 0 s) = ?s" using scan_row_spec[OF assms(1) 0] by simp
  have i: "lines_idle bd ?s" using assms(1) by (simp add: lines_idle_def)
  have 2: "snd (kb_scan_row bd (contact key) 0 ?s) = ?s" using scan_row_spec[OF i 0] by simp
  have "\<exists>g. scan_rows bd (contact key) 1 (n_drive bd) ?s =
     (map (\<lambda>i. low_bits (n_scan bd) (\<lambda>j. bit (scan_pin_need s) j \<and> key i j)) [0..<n_drive bd], s\<lparr>gpio_low := g\<rparr>)"
    using scan_rows_from[OF i assms(2), of 1 "n_drive bd" key] by auto
  then show ?thesis using 2 0 unfolding 1 by (auto simp: Let_def split: prod.splits)
qed

text \<open>\<open>kb_key_pressed\<close>: the lines of the pressed keys, or for five more calls after a release the last ones.\<close>

lemma key_pressed_spec:
  fixes key :: "nat \<Rightarrow> nat \<Rightarrow> bool"
  assumes "lines_idle bd s" "board_ok bd"
  defines "now \<equiv> low_bits (n_scan bd) (\<lambda>j. \<exists>i < n_drive bd. key i j)"
  shows "\<exists>g. kb_key_pressed bd (contact key) s =
    (if now \<noteq> 0 then (now, s\<lparr>gpio_low := g, release_cnt := 5, ret_last := now\<rparr>)
     else if release_cnt s \<noteq> 0 then (ret_last s, s\<lparr>gpio_low := g, release_cnt := release_cnt s - 1\<rparr>)
     else (0, s\<lparr>gpio_low := g\<rparr>))"
proof -
  let ?s1 = "s\<lparr>driven := replicate (n_drive bd) True\<rparr>"
  have 1: "fold (\<lambda>i. set_drive i True) [0..<n_drive bd] s = ?s1"
    using fold_set_drive[of s "replicate (n_drive bd) False" "n_drive bd" True] assms(1) by (simp add: lines_idle_def)
  have c: "contact key (replicate (n_drive bd) True) = (\<lambda>j. \<exists>i < n_drive bd. key i j)"
    by (auto simp: contact_def fun_eq_iff)
  let ?g = "map (\<lambda>j. \<exists>i < n_drive bd. key i j) [0..<n_scan bd]"
  have 2: "gpio_read_all bd (contact key) ?s1 = ?s1\<lparr>gpio_low := ?g\<rparr>" by (simp add: gpio_read_all_def c)
  have lo: "low_bits (n_scan bd) (\<lambda>i. ?g ! i) = now" unfolding now_def by (rule low_bits_cong) simp
  have ex: "(\<exists>i \<in> set [0..<n_scan bd]. ?g ! i) \<longleftrightarrow> now \<noteq> 0"
    using low_bits_zero[of "n_scan bd" "\<lambda>j. \<exists>i < n_drive bd. key i j"] assms(2) by (auto simp: now_def board_ok_def)
  have off: "fold (\<lambda>i. set_drive i False) [0..<n_drive bd] t = t\<lparr>driven := driven s\<rparr>"
    if "driven t = replicate (n_drive bd) True" for t
    using fold_set_drive[of t "replicate (n_drive bd) True" "n_drive bd" False] that assms(1) by (simp add: lines_idle_def)
  show ?thesis
    unfolding kb_key_pressed_def Let_def 1 2
    using off lo ex by (intro exI[of _ ?g]) (auto split: prod.splits)
qed

section \<open>The ring of matrices\<close>

definition kb_queue :: "kb_state \<Rightarrow> u32 list list" where
  "kb_queue s = map (\<lambda>k. matrix_buff s ! ((matrix_rptr s + k) mod 4)) [0..<(matrix_wptr s + 8 - matrix_rptr s) mod 8]"

definition ring_ok :: "kb_state \<Rightarrow> bool" where
  "ring_ok s \<longleftrightarrow> length (matrix_buff s) = 4 \<and> matrix_wptr s < 8 \<and> matrix_rptr s < 8 \<and>
     (matrix_wptr s + 8 - matrix_rptr s) mod 8 \<le> 4"

lemma ring_count: "r < 8 \<Longrightarrow> n < 8 \<Longrightarrow> ((r + n) mod 8 + 8 - r) mod 8 = (n :: nat)"
proof -
  assume "r < 8" "n < 8"
  then show ?thesis by (cases "r + n < 8") (simp_all add: le_mod_geq)
qed

lemma ring_slot: "((r + n) mod 8) mod 4 = (r + n) mod (4 :: nat)"
  by (simp add: mod_mod_cancel)

lemma ring_next: "((r + 1) mod 8 + k) mod 4 = (r + Suc k) mod (4 :: nat)"
proof -
  have "((r + 1) mod 8 + k) mod 4 = ((r + 1) mod 8 mod 4 + k) mod 4" by (simp only: mod_add_left_eq)
  also have "(r + 1) mod 8 mod 4 = (r + 1) mod 4" by (simp add: mod_mod_cancel)
  finally show ?thesis by (simp add: mod_add_left_eq)
qed

lemma ringE:
  assumes "ring_ok s"
  obtains n where "n \<le> 4" "matrix_wptr s = (matrix_rptr s + n) mod 8" "matrix_rptr s < 8" "length (matrix_buff s) = 4"
    "kb_queue s = map (\<lambda>k. matrix_buff s ! ((matrix_rptr s + k) mod 4)) [0..<n]"
proof
  let ?n = "(matrix_wptr s + 8 - matrix_rptr s) mod 8"
  show "?n \<le> 4" "matrix_rptr s < 8" "length (matrix_buff s) = 4" using assms by (simp_all add: ring_ok_def)
  have "matrix_wptr s < 8" "matrix_rptr s < 8" using assms by (simp_all add: ring_ok_def)
  then show "matrix_wptr s = (matrix_rptr s + ?n) mod 8"
    by (cases "matrix_rptr s \<le> matrix_wptr s") (simp_all add: mod_add_right_eq le_mod_geq)
  show "kb_queue s = map (\<lambda>k. matrix_buff s ! ((matrix_rptr s + k) mod 4)) [0..<?n]" by (simp add: kb_queue_def)
qed

lemma ringI:
  assumes "n \<le> 4" "matrix_wptr s = (matrix_rptr s + n) mod 8" "matrix_rptr s < 8" "length (matrix_buff s) = 4"
  shows "ring_ok s" "kb_queue s = map (\<lambda>k. matrix_buff s ! ((matrix_rptr s + k) mod 4)) [0..<n]"
  using assms ring_count[of "matrix_rptr s" n] by (simp_all add: ring_ok_def kb_queue_def)

lemma slot_neq: "k < n \<Longrightarrow> n < 4 \<Longrightarrow> (r + k) mod 4 \<noteq> (r + n) mod (4 :: nat)"
proof
  assume k: "k < n" "n < 4" and e: "(r + k) mod 4 = (r + n) mod 4"
  have "4 dvd n - k" using k e mod_eq_dvd_iff_nat[of "r + k" "r + n" 4] by simp
  then show False using k by (auto dest: dvd_imp_le)
qed

lemma ring_push_queue:
  assumes "ring_ok s"
  shows "ring_ok (ring_push m s) \<and>
    kb_queue (ring_push m s) = (let q = kb_queue s @ [m] in if length q > 4 then tl q else q)"
proof -
  obtain n where n: "n \<le> 4" and w: "matrix_wptr s = (matrix_rptr s + n) mod 8" and r: "matrix_rptr s < 8"
    and l: "length (matrix_buff s) = 4"
    and q: "kb_queue s = map (\<lambda>k. matrix_buff s ! ((matrix_rptr s + k) mod 4)) [0..<n]"
    using ringE[OF assms] .
  let ?r = "matrix_rptr s"
  let ?b = "(matrix_buff s)[(?r + n) mod 4 := m]"
  have w1: "(matrix_wptr s + 1) mod 8 = (?r + (n + 1)) mod 8" unfolding w by (simp add: mod_Suc_eq)
  have cnt: "((?r + (n + 1)) mod 8 + 8 - ?r) mod 8 = n + 1" using ring_count[of ?r "n + 1"] r n by simp
  show ?thesis
  proof (cases "n = 4")
    case False
    then have n4: "n < 4" using n by simp
    have p: "ring_push m s = s\<lparr>matrix_buff := ?b, matrix_wptr := (?r + (n + 1)) mod 8\<rparr>"
      using n4 unfolding ring_push_def Let_def w1 cnt by (simp add: w ring_slot)
    have "kb_queue (ring_push m s) = map (\<lambda>k. ?b ! ((?r + k) mod 4)) [0..<n + 1]" "ring_ok (ring_push m s)"
      using ringI[of "n + 1" "ring_push m s"] n4 r l by (simp_all add: p)
    moreover have "map (\<lambda>k. ?b ! ((?r + k) mod 4)) [0..<n + 1] = kb_queue s @ [m]"
    proof -
      have "(?r + n) mod 4 \<noteq> (?r + k) mod 4" if "k < n" for k using slot_neq[OF that n4, of ?r] by simp
      then show ?thesis using l by (simp add: q)
    qed
    ultimately show ?thesis using n4 by (simp add: q)
  next
    case True
    have r': "((?r + (4 + 1)) mod 8 + 8 - 4) mod 8 = (?r + 1) mod 8"
      using r by (cases "?r < 3") (auto simp: le_mod_geq)
    have p: "ring_push m s = s\<lparr>matrix_buff := ?b, matrix_wptr := (?r + 5) mod 8, matrix_rptr := (?r + 1) mod 8\<rparr>"
      using True cnt r' unfolding ring_push_def Let_def w1 by (simp add: w ring_slot)
    have w': "(?r + 5) mod 8 = ((?r + 1) mod 8 + 4) mod 8"
    proof -
      have "?r + 5 = ?r + 1 + 4" by simp
      then show ?thesis by (simp only: mod_add_left_eq)
    qed
    have "kb_queue (ring_push m s) = map (\<lambda>k. ?b ! (((?r + 1) mod 8 + k) mod 4)) [0..<4]" "ring_ok (ring_push m s)"
      using ringI[of 4 "ring_push m s"] l w' by (simp_all add: p)
    moreover have "map (\<lambda>k. ?b ! (((?r + 1) mod 8 + k) mod 4)) [0..<4] = tl (kb_queue s @ [m])"
    proof -
      have k: "((?r + 1) mod 8 + k) mod 4 = (?r + Suc k) mod 4" for k by (rule ring_next)
      have e: "(?r + 4) mod 4 = ?r mod 4" by simp
      have n3: "(?r + 1) mod 4 \<noteq> ?r mod 4" "(?r + 2) mod 4 \<noteq> ?r mod 4" "(?r + 3) mod 4 \<noteq> ?r mod 4"
        using slot_neq[of 0 1 ?r] slot_neq[of 0 2 ?r] slot_neq[of 0 3 ?r] by simp_all
      have "(3 + ?r) mod 4 \<noteq> ?r mod 4" using n3(3) by (simp add: add.commute)
      then show ?thesis unfolding q True k e using n3 l by (simp add: upt_rec)
    qed
    ultimately show ?thesis by (simp add: q True)
  qed
qed

lemma ring_pop_queue:
  assumes "ring_ok s" "matrix_wptr s \<noteq> matrix_rptr s"
  shows "ring_ok (s\<lparr>matrix_rptr := (matrix_rptr s + 1) mod 8\<rparr>) \<and>
    kb_queue s = matrix_buff s ! (matrix_rptr s mod 4) # kb_queue (s\<lparr>matrix_rptr := (matrix_rptr s + 1) mod 8\<rparr>)"
proof -
  obtain n where n: "n \<le> 4" and w: "matrix_wptr s = (matrix_rptr s + n) mod 8" and r: "matrix_rptr s < 8"
    and l: "length (matrix_buff s) = 4"
    and q: "kb_queue s = map (\<lambda>k. matrix_buff s ! ((matrix_rptr s + k) mod 4)) [0..<n]"
    using ringE[OF assms(1)] .
  let ?s = "s\<lparr>matrix_rptr := (matrix_rptr s + 1) mod 8\<rparr>"
  have "n \<noteq> 0" using assms(2) w r by (intro notI) simp
  then obtain m where m: "n = Suc m" by (cases n) auto
  have w': "(matrix_rptr s + n) mod 8 = ((matrix_rptr s + 1) mod 8 + m) mod 8" unfolding m by (simp add: mod_add_left_eq)
  have k: "((matrix_rptr s + 1) mod 8 + k) mod 4 = (matrix_rptr s + Suc k) mod 4" for k by (rule ring_next)
  have I: "ring_ok ?s" "kb_queue ?s = map (\<lambda>k. matrix_buff s ! (((matrix_rptr s + 1) mod 8 + k) mod 4)) [0..<m]"
    using ringI[of m ?s] n m w w' l by simp_all
  have "[0..<n] = 0 # map Suc [0..<m]" by (simp add: m map_Suc_upt upt_conv_Cons del: upt_Suc)
  then show ?thesis using I unfolding q k by (simp add: comp_def)
qed

lemma ring_empty: "ring_ok s \<Longrightarrow> kb_queue s = [] \<longleftrightarrow> matrix_wptr s = matrix_rptr s"
proof -
  assume s: "ring_ok s"
  obtain n where n: "n \<le> 4" "matrix_wptr s = (matrix_rptr s + n) mod 8" "matrix_rptr s < 8"
    "kb_queue s = map (\<lambda>k. matrix_buff s ! ((matrix_rptr s + k) mod 4)) [0..<n]"
    using ringE[OF s] by metis
  have "(matrix_rptr s + n) mod 8 = matrix_rptr s \<longleftrightarrow> n = 0"
    using n(1,3) by (cases "matrix_rptr s + n < 8") (auto simp: le_mod_geq)
  then show ?thesis using n by auto
qed

section \<open>Key codes\<close>

text \<open>The codes of a matrix, drive line by drive line.\<close>

definition row_codes :: "kb_board \<Rightarrow> nat \<Rightarrow> u32 \<Rightarrow> u8 list" where
  "row_codes bd i m = map (\<lambda>j. KB_MAP_NORMAL bd ! j ! i) (filter (bit m) [0..<n_scan bd])"

fun codes_from :: "kb_board \<Rightarrow> nat \<Rightarrow> u32 list \<Rightarrow> u8 list" where
  "codes_from bd i [] = []"
| "codes_from bd i (m # ms) = row_codes bd i m @ codes_from bd (i + 1) ms"

text \<open>The event holds the first \<open>key_max\<close> of the codes \<open>cs\<close>.\<close>

definition event_codes :: "nat \<Rightarrow> kb_data_t \<Rightarrow> u8 list \<Rightarrow> bool" where
  "event_codes key_max kb cs \<longleftrightarrow> kb_cnt kb = min key_max (length cs) \<and> length (kb_keycode kb) = KB_RETURN_KEY_MAX \<and>
     take (kb_cnt kb) (kb_keycode kb) = take key_max cs"

lemma event_codes_add:
  assumes "event_codes key_max kb cs" "kb_cnt kb < key_max" "key_max \<le> KB_RETURN_KEY_MAX"
  shows "event_codes key_max (kb\<lparr>kb_keycode := (kb_keycode kb)[kb_cnt kb := c], kb_cnt := kb_cnt kb + 1\<rparr>) (cs @ [c])"
proof -
  have l: "length cs < key_max" and n: "kb_cnt kb = length cs" using assms by (auto simp: event_codes_def)
  have "take (Suc (kb_cnt kb)) ((kb_keycode kb)[kb_cnt kb := c]) = take (kb_cnt kb) (kb_keycode kb) @ [c]"
    using assms by (subst take_Suc_conv_app_nth) (auto simp: event_codes_def)
  then show ?thesis using assms l n by (auto simp: event_codes_def)
qed

lemma event_codes_full: "event_codes key_max kb cs \<Longrightarrow> kb_cnt kb \<ge> key_max \<Longrightarrow> event_codes key_max kb (cs @ ds)"
  by (auto simp: event_codes_def)

lemma bit_drop_0: "bit (drop_bit i m :: u32) 0 = bit m i"
  by (simp add: bit_simps)

lemma remap_row_codes:
  assumes "key_max \<le> KB_RETURN_KEY_MAX" "event_codes key_max kb cs" "kb_cnt kb < key_max"
  shows "event_codes key_max (kb_remap_key_row mp drv key_max [i..<i + n] (drop_bit i m) kb)
    (cs @ map (\<lambda>j. mp ! j ! drv) (filter (bit m) [i..<i + n]))"
  using assms
proof (induction n arbitrary: i kb cs)
  case (Suc n)
  have up: "[i..<i + Suc n] = i # [Suc i..<Suc i + n]" by (simp add: upt_conv_Cons del: upt_Suc)
  let ?kb = "if bit m i then kb\<lparr>kb_keycode := (kb_keycode kb)[kb_cnt kb := mp ! i ! drv], kb_cnt := kb_cnt kb + 1\<rparr> else kb"
  let ?cs = "if bit m i then cs @ [mp ! i ! drv] else cs"
  have e: "event_codes key_max ?kb ?cs" using event_codes_add[OF Suc.prems(2,3,1)] Suc.prems(2) by simp
  have d: "drop_bit 1 (drop_bit i m) = drop_bit (Suc i) m" by (simp add: drop_bit_drop_bit)
  have all: "cs @ map (\<lambda>j. mp ! j ! drv) (filter (bit m) (i # [Suc i..<Suc i + n])) =
      ?cs @ map (\<lambda>j. mp ! j ! drv) (filter (bit m) [Suc i..<Suc i + n])" by simp
  consider "bit m i \<and> kb_cnt ?kb \<ge> key_max" | "\<not> (bit m i \<and> kb_cnt ?kb \<ge> key_max)" "drop_bit (Suc i) m = 0"
    | "\<not> (bit m i \<and> kb_cnt ?kb \<ge> key_max)" "drop_bit (Suc i) m \<noteq> 0" by blast
  then show ?case
  proof cases
    case 1
    then have "kb_remap_key_row mp drv key_max [i..<i + Suc n] (drop_bit i m) kb = ?kb"
      unfolding up kb_remap_key_row.simps bit_drop_0 Let_def by (simp split: if_splits)
    moreover have "event_codes key_max ?kb (?cs @ map (\<lambda>j. mp ! j ! drv) (filter (bit m) [Suc i..<Suc i + n]))"
      using 1 by (intro event_codes_full[OF e]) blast
    ultimately show ?thesis unfolding up all by (simp only:)
  next
    case 2
    have "\<not> bit m j" if "Suc i \<le> j" for j
    proof -
      have "bit (drop_bit (Suc i) m) (j - Suc i) = bit m j" using that by (simp add: bit_simps)
      then show ?thesis using 2 by simp
    qed
    then have "filter (bit m) [Suc i..<Suc i + n] = []" by (auto simp: filter_empty_conv)
    moreover have "kb_remap_key_row mp drv key_max [i..<i + Suc n] (drop_bit i m) kb = ?kb"
      using 2 unfolding up kb_remap_key_row.simps bit_drop_0 Let_def d by simp
    ultimately show ?thesis using e unfolding up all by (simp only: list.map append_Nil2)
  next
    case 3
    have "kb_cnt ?kb < key_max" using 3 Suc.prems(3) by (cases "bit m i") auto
    then have "event_codes key_max (kb_remap_key_row mp drv key_max [Suc i..<Suc i + n] (drop_bit (Suc i) m) ?kb)
        (?cs @ map (\<lambda>j. mp ! j ! drv) (filter (bit m) [Suc i..<Suc i + n]))"
      by (rule Suc.IH[OF Suc.prems(1) e])
    moreover have "kb_remap_key_row mp drv key_max [i..<i + Suc n] (drop_bit i m) kb =
        kb_remap_key_row mp drv key_max [Suc i..<Suc i + n] (drop_bit (Suc i) m) ?kb"
      using 3 unfolding up kb_remap_key_row.simps bit_drop_0 Let_def d by simp
    ultimately show ?thesis unfolding up all by (simp only:)
  qed
qed simp

lemma remap_rows_codes:
  assumes "key_max \<le> KB_RETURN_KEY_MAX" "event_codes key_max kb cs" "kb_cnt kb < key_max"
  shows "event_codes key_max (remap_rows bd key_max i ms kb) (cs @ codes_from bd i ms)"
  using assms
proof (induction ms arbitrary: i kb cs)
  case (Cons m ms)
  show ?case
  proof (cases "m = 0")
    case True
    then show ?thesis using Cons by (simp add: row_codes_def)
  next
    case False
    let ?kb = "kb_remap_key_row (KB_MAP_NORMAL bd) i key_max [0..<n_scan bd] m kb"
    have r: "event_codes key_max ?kb (cs @ row_codes bd i m)"
      using remap_row_codes[OF Cons.prems, of "KB_MAP_NORMAL bd" i 0 "n_scan bd" m] by (simp add: row_codes_def)
    show ?thesis
    proof (cases "kb_cnt ?kb \<ge> key_max")
      case True
      then show ?thesis using False event_codes_full[OF r True, of "codes_from bd (i + 1) ms"] by simp
    next
      case f: False
      then show ?thesis using False Cons.IH[OF Cons.prems(1) r, of "i + 1"] by simp
    qed
  qed
qed simp

section \<open>The scan as a whole\<close>

definition kb_ok :: "kb_board \<Rightarrow> kb_state \<Rightarrow> bool" where
  "kb_ok bd s \<longleftrightarrow> board_ok bd \<and> lines_idle bd s \<and> ring_ok s \<and> length (mtrx_pre s) = n_drive bd \<and>
     length (mtrx_last s) = n_drive bd \<and> length (kb_keycode (kb_event s)) = KB_RETURN_KEY_MAX \<and>
     (release_cnt s \<noteq> 0 \<longrightarrow> ret_last s \<noteq> 0)"

definition scanned :: "kb_board \<Rightarrow> (nat \<Rightarrow> nat \<Rightarrow> bool) \<Rightarrow> u32 list" where
  "scanned bd key = (if KB_RM_GHOST_KEY_EN bd then kb_rmv_ghost_key (key_matrix bd key) else key_matrix bd key)"

definition debounced :: "kb_state \<Rightarrow> u32 list \<Rightarrow> u32 list" where
  "debounced s m = fst (snd (key_debounce_filter m True s))"

definition any_key :: "kb_board \<Rightarrow> (nat \<Rightarrow> nat \<Rightarrow> bool) \<Rightarrow> bool" where
  "any_key bd key \<longleftrightarrow> (\<exists>i < n_drive bd. \<exists>j < n_scan bd. key i j)"

lemma length_rmv_ghost_rows: "length (rmv_ghost_rows x ms) = length ms"
  by (induction ms arbitrary: x) (simp_all add: Let_def)

lemma length_scanned: "length (scanned bd key) = n_drive bd"
  by (simp add: scanned_def key_matrix_def kb_rmv_ghost_key_def length_rmv_ghost_rows)

lemma masked_rows:
  assumes "n_scan bd \<le> 32" "any_key bd key \<longrightarrow> need = low_bits (n_scan bd) (\<lambda>j. \<exists>i < n_drive bd. key i j)"
  shows "map (\<lambda>i. low_bits (n_scan bd) (\<lambda>j. bit need j \<and> key i j)) [0..<n_drive bd] = key_matrix bd key"
proof -
  have "low_bits (n_scan bd) (\<lambda>j. bit need j \<and> key i j) = key_row bd key i" if i: "i < n_drive bd" for i
    unfolding key_row_def
  proof (rule low_bits_cong)
    fix j assume j: "j < n_scan bd"
    show "(bit need j \<and> key i j) = key i j"
    proof (cases "key i j")
      case True
      then have "any_key bd key" using i j by (auto simp: any_key_def)
      then show ?thesis using assms True i j bit_low_bits[OF assms(1)] by auto
    qed simp
  qed
  then show ?thesis by (simp add: key_matrix_def)
qed

lemma key_pressed_need:
  assumes "kb_ok bd s"
  shows "\<exists>need g c l. kb_key_pressed bd (contact key) s = (need, s\<lparr>gpio_low := g, release_cnt := c, ret_last := l\<rparr>) \<and>
    (need = 0 \<longleftrightarrow> \<not> any_key bd key \<and> release_cnt s = 0) \<and> (c \<noteq> 0 \<longrightarrow> l \<noteq> 0) \<and>
    (any_key bd key \<longrightarrow> need = low_bits (n_scan bd) (\<lambda>j. \<exists>i < n_drive bd. key i j))"
proof -
  let ?now = "low_bits (n_scan bd) (\<lambda>j. \<exists>i < n_drive bd. key i j)"
  have ok: "lines_idle bd s" "board_ok bd" "release_cnt s \<noteq> 0 \<longrightarrow> ret_last s \<noteq> 0" using assms by (simp_all add: kb_ok_def)
  have z: "?now = 0 \<longleftrightarrow> \<not> any_key bd key"
    using low_bits_zero[of "n_scan bd" "\<lambda>j. \<exists>i < n_drive bd. key i j"] ok(2) by (auto simp: any_key_def board_ok_def)
  obtain g where g: "kb_key_pressed bd (contact key) s =
    (if ?now \<noteq> 0 then (?now, s\<lparr>gpio_low := g, release_cnt := 5, ret_last := ?now\<rparr>)
     else if release_cnt s \<noteq> 0 then (ret_last s, s\<lparr>gpio_low := g, release_cnt := release_cnt s - 1\<rparr>)
     else (0, s\<lparr>gpio_low := g\<rparr>))" using key_pressed_spec[OF ok(1,2)] by blast
  show ?thesis
  proof (cases "any_key bd key")
    case True
    then show ?thesis using g z
      by (intro exI[of _ ?now] exI[of _ g] exI[of _ 5] exI[of _ ?now]) simp
  next
    case a: False
    show ?thesis
    proof (cases "release_cnt s = 0")
      case True
      then show ?thesis using g z a
        by (intro exI[of _ 0] exI[of _ g] exI[of _ "release_cnt s"] exI[of _ "ret_last s"]) simp
    next
      case False
      then show ?thesis using g z a ok(3)
        by (intro exI[of _ "ret_last s"] exI[of _ g] exI[of _ "release_cnt s - 1"] exI[of _ "ret_last s"]) simp
    qed
  qed
qed

lemma debounce_spec:
  "key_debounce_filter m True s = (debounced s m \<noteq> mtrx_last s, debounced s m, s\<lparr>mtrx_pre := m, mtrx_last := debounced s m\<rparr>)"
  by (simp add: debounced_def key_debounce_filter_def Let_def)

lemma debounced_cong: "mtrx_pre s = mtrx_pre t \<Longrightarrow> mtrx_last s = mtrx_last t \<Longrightarrow> debounced s m = debounced t m"
  by (simp add: debounced_def key_debounce_filter_def Let_def)

lemma ring_push_fields:
  "mtrx_pre (ring_push m s) = mtrx_pre s" "mtrx_last (ring_push m s) = mtrx_last s" "driven (ring_push m s) = driven s"
  "release_cnt (ring_push m s) = release_cnt s" "ret_last (ring_push m s) = ret_last s" "kb_event (ring_push m s) = kb_event s"
  by (simp_all add: ring_push_def Let_def)

lemma kb_scan_key_steps:
  assumes "kb_key_pressed bd sense s = (need, s1)" "need \<noteq> 0" "\<not> bit numlock_status 7"
    "kb_scan_row bd sense 0 (s1\<lparr>scan_pin_need := need, kb_event := (kb_event s1)\<lparr>kb_cnt := 0, kb_ctrl_key := 0\<rparr>\<rparr>) = (x, s3)"
    "scan_rows bd sense 0 (n_drive bd + 1) s3 = (pm, s4)"
    "key_debounce_filter (if KB_RM_GHOST_KEY_EN bd then kb_rmv_ghost_key pm else pm) True s4 = (chg, m, s5)"
    "s6 = (if chg then ring_push m s5 else s5)"
  shows "kb_scan_key bd sense numlock_status True s =
     (if matrix_wptr s6 = matrix_rptr s6 then (False, s6)
      else (True, s6\<lparr>matrix_rptr := (matrix_rptr s6 + 1) mod 8,
              kb_event := kb_remap_key_code bd (matrix_buff s6 ! (matrix_rptr s6 mod 4)) KB_RETURN_KEY_MAX (kb_event s6)\<rparr>))"
proof -
  have u: "(s1\<lparr>scan_pin_need := need\<rparr>)\<lparr>kb_event := (kb_event (s1\<lparr>scan_pin_need := need\<rparr>))\<lparr>kb_cnt := 0, kb_ctrl_key := 0\<rparr>\<rparr> =
     s1\<lparr>scan_pin_need := need, kb_event := (kb_event s1)\<lparr>kb_cnt := 0, kb_ctrl_key := 0\<rparr>\<rparr>" by simp
  show ?thesis
    unfolding kb_scan_key_def assms(1) Let_def prod.case u assms(4,5,6) assms(7)[symmetric]
    using assms(2,3) by simp
qed

text \<open>C12: One scan, in terms of what is pressed and of the queue of matrices. Without ghosting contacts the
  pipelined row scan reads exactly the pressed keys; the debounced matrix is queued when it differs
  from the last one (the oldest of four makes room), and the event is the first six key codes of the
  oldest queued matrix. Nothing happens when no key is down and the release count has run out.\<close>

theorem kb_scan_key_refines:
  assumes "kb_ok bd s" "\<not> bit numlock_status 7" "kb_scan_key bd (contact key) numlock_status True s = (r, s')"
  shows "kb_ok bd s' \<and>
    (if \<not> any_key bd key \<and> release_cnt s = 0
     then \<not> r \<and> kb_queue s' = kb_queue s \<and> mtrx_pre s' = mtrx_pre s \<and> mtrx_last s' = mtrx_last s
     else let m = scanned bd key; db = debounced s m; q = (if db \<noteq> mtrx_last s then kb_queue s @ [db] else kb_queue s);
              q4 = (if length q > 4 then tl q else q)
          in mtrx_pre s' = m \<and> mtrx_last s' = db \<and>
             (case q4 of [] \<Rightarrow> \<not> r \<and> kb_queue s' = []
              | m' # q' \<Rightarrow> r \<and> kb_queue s' = q' \<and> event_codes KB_RETURN_KEY_MAX (kb_event s') (codes_from bd 0 m')))"
proof -
  obtain need g c l where kp: "kb_key_pressed bd (contact key) s = (need, s\<lparr>gpio_low := g, release_cnt := c, ret_last := l\<rparr>)"
    and nz: "need = 0 \<longleftrightarrow> \<not> any_key bd key \<and> release_cnt s = 0" and cl: "c \<noteq> 0 \<longrightarrow> l \<noteq> 0"
    and nk: "any_key bd key \<longrightarrow> need = low_bits (n_scan bd) (\<lambda>j. \<exists>i < n_drive bd. key i j)"
    using key_pressed_need[OF assms(1), of key] by (elim exE conjE) (rule that)
  have ok: "board_ok bd" "lines_idle bd s" "ring_ok s" "length (mtrx_pre s) = n_drive bd" "length (mtrx_last s) = n_drive bd"
    "length (kb_keycode (kb_event s)) = KB_RETURN_KEY_MAX" using assms(1) by (simp_all add: kb_ok_def)
  let ?s1 = "s\<lparr>gpio_low := g, release_cnt := c, ret_last := l, scan_pin_need := need\<rparr>"
  show ?thesis
  proof (cases "need = 0")
    case True
    then have e: "r = False" "s' = ?s1" using assms(3) by (simp_all add: kb_scan_key_def kp)
    have "kb_queue s' = kb_queue s" "ring_ok s' = ring_ok s" unfolding e by (simp_all add: kb_queue_def ring_ok_def)
    then show ?thesis using True nz e ok cl by (simp add: kb_ok_def lines_idle_def)
  next
    case False
    let ?s2 = "?s1\<lparr>kb_event := (kb_event s)\<lparr>kb_cnt := 0, kb_ctrl_key := 0\<rparr>\<rparr>"
    have i2: "lines_idle bd ?s2" using ok by (simp add: lines_idle_def)
    obtain g' where sm: "scan_rows bd (contact key) 0 (n_drive bd + 1) (snd (kb_scan_row bd (contact key) 0 ?s2)) =
        (key_matrix bd key, ?s2\<lparr>gpio_low := g'\<rparr>)"
      using scan_matrix[OF i2 ok(1), of key] masked_rows[of bd key need] nk ok(1) by (auto simp: board_ok_def)
    let ?s4 = "?s2\<lparr>gpio_low := g'\<rparr>" and ?m = "scanned bd key"
    define db where "db = debounced s ?m"
    have db4: "debounced ?s4 ?m = db" unfolding db_def by (rule debounced_cong) simp_all
    have ldb: "length db = n_drive bd"
      using ok length_scanned[of bd key] by (simp add: db_def debounced_def key_debounce_filter_def Let_def)
    let ?s5 = "?s4\<lparr>mtrx_pre := ?m, mtrx_last := db\<rparr>"
    define s6 where "s6 = (if db \<noteq> mtrx_last s then ring_push db ?s5 else ?s5)"
    define q where "q = (if db \<noteq> mtrx_last s then kb_queue s @ [db] else kb_queue s)"
    define q4 where "q4 = (if length q > 4 then tl q else q)"
    have kq: "kb_queue ?s5 = kb_queue s" "ring_ok ?s5" using ok(3) by (simp_all add: kb_queue_def ring_ok_def)
    have lq: "length (kb_queue s) \<le> 4" using ok(3) by (simp add: kb_queue_def ring_ok_def)
    have q6: "ring_ok s6 \<and> kb_queue s6 = q4"
    proof (cases "db = mtrx_last s")
      case True
      then have "s6 = ?s5" "q4 = kb_queue s" using lq by (simp_all add: s6_def q_def q4_def)
      then show ?thesis using kq by simp
    next
      case False
      then have s6: "s6 = ring_push db ?s5" and q: "q = kb_queue s @ [db]" by (simp_all add: s6_def q_def)
      show ?thesis using ring_push_queue[OF kq(2), of db] lq unfolding s6 q4_def q kq(1) Let_def by simp
    qed
    have f6: "mtrx_pre s6 = ?m" "mtrx_last s6 = db" "driven s6 = driven s" "release_cnt s6 = c" "ret_last s6 = l"
      "kb_event s6 = (kb_event s)\<lparr>kb_cnt := 0, kb_ctrl_key := 0\<rparr>"
      by (simp_all add: s6_def ring_push_fields)
    have res: "kb_scan_key bd (contact key) numlock_status True s =
        (if matrix_wptr s6 = matrix_rptr s6 then (False, s6)
         else (True, s6\<lparr>matrix_rptr := (matrix_rptr s6 + 1) mod 8,
                 kb_event := kb_remap_key_code bd (matrix_buff s6 ! (matrix_rptr s6 mod 4)) KB_RETURN_KEY_MAX (kb_event s6)\<rparr>))"
    proof -
      obtain x t where xt: "kb_scan_row bd (contact key) 0 ?s2 = (x, t)" by fastforce
      have sm': "scan_rows bd (contact key) 0 (n_drive bd + 1) t = (key_matrix bd key, ?s4)" using sm xt by simp
      have sc: "(if KB_RM_GHOST_KEY_EN bd then kb_rmv_ghost_key (key_matrix bd key) else key_matrix bd key) = ?m"
        by (simp add: scanned_def)
      have x2: "(s\<lparr>gpio_low := g, release_cnt := c, ret_last := l\<rparr>)\<lparr>scan_pin_need := need,
         kb_event := (kb_event (s\<lparr>gpio_low := g, release_cnt := c, ret_last := l\<rparr>))\<lparr>kb_cnt := 0, kb_ctrl_key := 0\<rparr>\<rparr> = ?s2" by simp
      have df: "key_debounce_filter (if KB_RM_GHOST_KEY_EN bd then kb_rmv_ghost_key (key_matrix bd key) else key_matrix bd key)
          True ?s4 = (db \<noteq> mtrx_last s, db, ?s5)"
        using debounce_spec[of ?m ?s4] unfolding db4 sc by simp
      show ?thesis
        by (rule kb_scan_key_steps[OF kp False assms(2) xt[folded x2] sm' df s6_def])
    qed
    have n0: "\<not> (\<not> any_key bd key \<and> release_cnt s = 0)" using nz False by simp
    show ?thesis
    proof (cases "matrix_wptr s6 = matrix_rptr s6")
      case True
      then have e: "r = False" "s' = s6" using res assms(3) by simp_all
      have "q4 = []" using ring_empty[of s6] q6 True by simp
      then show ?thesis
        using q6 f6 ok cl ldb length_scanned[of bd key] unfolding if_not_P[OF n0] e db_def[symmetric] q_def[symmetric] q4_def[symmetric] Let_def
        by (simp add: kb_ok_def lines_idle_def)
    next
      case ne: False
      let ?ev = "kb_remap_key_code bd (matrix_buff s6 ! (matrix_rptr s6 mod 4)) KB_RETURN_KEY_MAX (kb_event s6)"
      let ?t = "s6\<lparr>matrix_rptr := (matrix_rptr s6 + 1) mod 8\<rparr>"
      have e: "r = True" "s' = ?t\<lparr>kb_event := ?ev\<rparr>" using res ne assms(3) by simp_all
      have pop: "ring_ok ?t" "q4 = matrix_buff s6 ! (matrix_rptr s6 mod 4) # kb_queue ?t"
        using ring_pop_queue[OF _ ne] q6 by auto
      have z: "event_codes KB_RETURN_KEY_MAX (kb_event s6) []" using ok(6) f6(6) by (simp add: event_codes_def)
      have ev: "event_codes KB_RETURN_KEY_MAX ?ev (codes_from bd 0 (matrix_buff s6 ! (matrix_rptr s6 mod 4)))"
        using remap_rows_codes[OF order_refl z, of bd 0] f6(6) by (simp add: kb_remap_key_code_def)
      have qt: "kb_queue s' = kb_queue ?t" "ring_ok s'" unfolding e using pop(1) by (simp_all add: kb_queue_def ring_ok_def)
      have k6: "length (kb_keycode ?ev) = KB_RETURN_KEY_MAX" using ev by (simp add: event_codes_def)
      have "kb_ok bd s'" using qt f6 ok cl ldb length_scanned[of bd key] k6 unfolding e by (simp add: kb_ok_def lines_idle_def)
      then show ?thesis
        using qt(1) f6 ev pop(2) e unfolding if_not_P[OF n0] db_def[symmetric] q_def[symmetric] q4_def[symmetric] Let_def by simp
    qed
  qed
qed

text \<open>A board with two rows and two columns, and a state that has seen one scan of a held key.\<close>

definition board_2x2 :: kb_board where
  "board_2x2 = \<lparr>KB_MAP_NORMAL = [[4, 5], [6, 7]], n_scan = 2, n_drive = 2, KB_RM_GHOST_KEY_EN = True\<rparr>"

definition held_once :: kb_state where
  "held_once = \<lparr>kb_event = \<lparr>kb_cnt = 0, kb_ctrl_key = 0, kb_keycode = [0, 0, 0, 0, 0, 0]\<rparr>, scan_pin_need = 0,
     driven = [False, False], gpio_low = [False, False], release_cnt = 0, ret_last = 0, mtrx_pre = [2, 0], mtrx_last = [0, 0],
     matrix_buff = [[], [], [], []], matrix_wptr = 0, matrix_rptr = 0\<rparr>"

theorem kb_scan_key_refines_witness:
  "let r = kb_scan_key board_2x2 (contact (\<lambda>i j. i = 0 \<and> 0 < j)) 0 True held_once
   in fst r \<and> kb_queue (snd r) = [] \<and> mtrx_last (snd r) = [2, 0] \<and> take 1 (kb_keycode (kb_event (snd r))) = [6]"
proof -
  let ?key = "\<lambda>i j. i = (0::nat) \<and> 0 < (j::nat)"
  have ok: "kb_ok board_2x2 held_once"
    by (simp add: kb_ok_def board_ok_def lines_idle_def ring_ok_def board_2x2_def held_once_def numeral_2_eq_2)
  have up: "\<not> bit (0 :: u8) 7" by simp
  have any: "any_key board_2x2 ?key" unfolding any_key_def by (rule exI[of _ 0], simp add: board_2x2_def, rule exI[of _ 1], simp)
  have m: "scanned board_2x2 ?key = [2, 0]"
    by (simp add: scanned_def key_matrix_def key_row_def low_bits_def kb_rmv_ghost_key_def ghost_mix_def upt_rec Let_def board_2x2_def)
  have db: "debounced held_once [2, 0] = [2, 0]"
    by (simp add: debounced_def key_debounce_filter_def debounce_row_def Let_def held_once_def)
  have q: "kb_queue held_once = []" "mtrx_last held_once = [0, 0]" by (simp_all add: kb_queue_def held_once_def)
  have cs: "codes_from board_2x2 0 [2, 0] = [6]"
    by (simp add: row_codes_def board_2x2_def upt_rec)
  obtain r s' where sc: "kb_scan_key board_2x2 (contact ?key) 0 True held_once = (r, s')" by fastforce
  have "r \<and> kb_queue s' = [] \<and> mtrx_last s' = [2, 0] \<and> event_codes KB_RETURN_KEY_MAX (kb_event s') [6]"
    using kb_scan_key_refines[OF ok up sc] any by (simp add: m db q cs Let_def del: codes_from.simps)
  then show ?thesis by (auto simp: sc event_codes_def)
qed

section \<open>The filters bit by bit\<close>

lemma bit_debounce_row:
  "bit (debounce_row lst pre tmp) n = (if bit pre n = bit tmp n then bit tmp n else bit lst n)"
proof (cases "n < 32")
  case True
  then show ?thesis by (auto simp: debounce_row_def bit_simps)
next
  case False
  then have "\<not> bit w n" for w :: u32 using bit_imp_le_length[of w n] by auto
  then show ?thesis by simp
qed

text \<open>A key changes its debounced state only when two scans in a row agree on the new one: a
  reading that differs for a single scan, pressed or released, does not come through.\<close>

theorem debounce_two_scans:
  assumes "key_debounce_filter cur True s = (chg, cur', s')" "length (mtrx_pre s) = length cur" "length (mtrx_last s) = length cur"
  shows "(chg \<longleftrightarrow> cur' \<noteq> mtrx_last s) \<and> mtrx_last s' = cur' \<and> mtrx_pre s' = cur \<and> length cur' = length cur \<and>
    (\<forall>i < length cur. \<forall>n. bit (cur' ! i) n =
       (if bit (mtrx_pre s ! i) n = bit (cur ! i) n then bit (cur ! i) n else bit (mtrx_last s ! i) n))"
proof -
  have c: "cur' = map2 (\<lambda>(lst, pre) tmp. debounce_row lst pre tmp) (zip (mtrx_last s) (mtrx_pre s)) cur"
    and r: "chg \<longleftrightarrow> cur' \<noteq> mtrx_last s" "s' = s\<lparr>mtrx_pre := cur, mtrx_last := cur'\<rparr>"
    using assms(1) by (auto simp: key_debounce_filter_def Let_def)
  have "cur' ! i = debounce_row (mtrx_last s ! i) (mtrx_pre s ! i) (cur ! i)" if "i < length cur" for i
    using that assms(2,3) by (simp add: c)
  then show ?thesis using r assms(2,3) by (simp add: bit_debounce_row) (simp add: c)
qed

lemma held_lengths: "length (mtrx_pre held_once) = 2" "length (mtrx_last held_once) = 2"
  by (simp_all add: held_once_def)

theorem debounce_two_scans_witness:
  "let r = key_debounce_filter [6, 0] True held_once
   in mtrx_last (snd (snd r)) = fst (snd r) \<and> length (fst (snd r)) = 2 \<and> fst (snd r) = [2, 0]"
proof -
  obtain c m t where r: "key_debounce_filter [6, 0] True held_once = (c, m, t)" by (metis prod_cases3)
  have "m = [2, 0]" using r by (auto simp: key_debounce_filter_def debounce_row_def held_once_def Let_def)
  then show ?thesis
    using debounce_two_scans[OF r] held_lengths by (simp add: r)
qed

lemma xor_zero_eq: "a XOR b = 0 \<Longrightarrow> a = (b :: u32)"
proof -
  assume "a XOR b = 0"
  then have "(a XOR b) XOR b = b" by simp
  then show "a = b" by (simp only: xor.assoc xor_self_eq xor.right_neutral)
qed

lemma ghost_mix_sub: "bit (foldl (\<lambda>x m'. x OR ghost_mix m m') x ms) n \<longleftrightarrow> bit x n \<or> (\<exists>m' \<in> set ms. bit (ghost_mix m m') n)"
  by (induction ms arbitrary: x) (auto simp: bit_or_iff)

lemma rmv_ghost_rows_clears:
  "j < length ms \<Longrightarrow> bit (rmv_ghost_rows x ms ! j) n \<Longrightarrow> bit (ms ! j) n \<and> \<not> bit x n"
proof (induction ms arbitrary: x j)
  case (Cons m ms)
  show ?case
  proof (cases j)
    case 0
    then show ?thesis using Cons.prems by (auto simp: Let_def bit_simps ghost_mix_sub)
  next
    case (Suc k)
    then show ?thesis using Cons.IH[of k "foldl (\<lambda>x m'. x OR ghost_mix m m') x ms"] Cons.prems by (auto simp: Let_def ghost_mix_sub)
  qed
qed simp

text \<open>After ghost removal no two rows share a column, except two rows that each hold that one
  key alone: so no three pressed keys are left that would close a rectangle with a fourth.\<close>

theorem ghost_removal_no_rectangle:
  assumes "i < j" "j < length ms" "bit (kb_rmv_ghost_key ms ! i) n" "bit (kb_rmv_ghost_key ms ! j) n"
  shows "ms ! i = ms ! j \<and> BIT_IS_POW2 (ms ! i)"
proof -
  have "bit (rmv_ghost_rows x ms ! i) n \<Longrightarrow> bit (rmv_ghost_rows x ms ! j) n \<Longrightarrow> ?thesis" for x
    using assms(1,2)
  proof (induction ms arbitrary: x i j)
    case (Cons m ms)
    obtain k where j: "j = Suc k" "k < length ms" using Cons.prems(3,4) by (cases j) auto
    let ?x = "foldl (\<lambda>x m'. x OR ghost_mix m m') x ms"
    have bj: "bit (ms ! k) n" "\<not> bit ?x n"
      using rmv_ghost_rows_clears[OF j(2), of ?x n] Cons.prems(2) j(1) by (simp_all add: Let_def)
    show ?case
    proof (cases i)
      case 0
      then have "bit m n" using Cons.prems(1) by (simp add: Let_def bit_simps)
      moreover have "\<not> bit (ghost_mix m (ms ! k)) n" using bj(2) j(2) by (auto simp: ghost_mix_sub)
      moreover have b: "bit (m AND ms ! k) n" using calculation(1) bj(1) by (simp add: bit_and_iff)
      moreover from b have z: "m AND ms ! k \<noteq> 0" by (intro notI) simp
      ultimately have "ghost_mix m (ms ! k) \<noteq> m AND ms ! k" by metis
      then have "BIT_IS_POW2 (m AND ms ! k)" "m XOR ms ! k = 0" using z by (auto simp: ghost_mix_def Let_def split: if_splits)
      moreover from this(2) have "m = ms ! k" by (simp add: xor_zero_eq)
      ultimately show ?thesis using 0 j(1) by simp
    next
      case (Suc i')
      then show ?thesis using Cons.IH[of ?x i' k] Cons.prems j by (auto simp: Let_def)
    qed
  qed simp
  then show ?thesis using assms(3,4) unfolding kb_rmv_ghost_key_def by blast
qed

theorem ghost_removal_no_rectangle_witness:
  "bit (kb_rmv_ghost_key [1, 1, 4] ! 0) 0 \<and> bit (kb_rmv_ghost_key [1, 1, 4] ! 1) 0 \<and> [1, 1, 4 :: u32] ! 0 = [1, 1, 4] ! 1 \<and>
   kb_rmv_ghost_key [3, 1, 4] = [2, 0, 4]"
proof -
  have b: "kb_rmv_ghost_key [1, 1, 4] = [1, 1, 4]" "kb_rmv_ghost_key [3, 1, 4] = [2, 0, 4]"
    by (simp_all add: kb_rmv_ghost_key_def ghost_mix_def BIT_IS_POW2_def Let_def)
  have h: "bit (kb_rmv_ghost_key [1, 1, 4] ! 0) 0" "bit (kb_rmv_ghost_key [1, 1, 4] ! 1) 0" by (simp_all add: b)
  show ?thesis using ghost_removal_no_rectangle[of 0 1 "[1, 1, 4]", OF _ _ h] h b by simp
qed


end
