(* ===== verification/Ota.thy ===== *)
theory Ota
  imports Crc NvLayout
begin

text \<open>
  Over-the-air update: \<open>vendor/common/TL_specificData/tl_specific_data_ota.c\<close> and the dispatch of
  \<open>tl_specific_data.c\<close>, for the 8258. One state type serves both ends: the remote control (the
  controller, which pulls an image block by block and writes it to flash) and the dongle (the target,
  which serves it). Message buffers are memory: a handler gets the bytes from its argument on, so reads
  behind a frame are modelled too. What the handlers cause outside (frames given to the profile, timers,
  the user's callback, the reset) is the list \<open>ota_out\<close>, in order; the profile library that sends the
  frames is not part of the repository. A handler that finds no free buffer hangs: \<open>None\<close>.
\<close>

section \<open>Constants and messages\<close>

abbreviation TELINK_MANUFACTURER_CODE :: u16 where "TELINK_MANUFACTURER_CODE \<equiv> 0x1141"
abbreviation CHIP_ID :: u16 where "CHIP_ID \<equiv> 0x8258"
abbreviation firmwareVersion :: u32 where "firmwareVersion \<equiv> 0x01000106"
abbreviation STARTREQ_RETRYCNT :: u8 where "STARTREQ_RETRYCNT \<equiv> 5"
abbreviation DATAREQ_RETRYCNT :: u8 where "DATAREQ_RETRYCNT \<equiv> 5"
abbreviation OTA_FRAMESIZE :: nat where "OTA_FRAMESIZE \<equiv> 0x30"
abbreviation OTA_UPGRADE_FILE_ID :: u32 where "OTA_UPGRADE_FILE_ID \<equiv> 0x0BEEF11E"
abbreviation FIRMWARE_LENGTH_ADDR :: u32 where "FIRMWARE_LENGTH_ADDR \<equiv> 0x18"
abbreviation TL_START_UP_FLAG_WHOLE :: u32 where "TL_START_UP_FLAG_WHOLE \<equiv> 0x544c4e4b"
abbreviation TL_IMAGE_START_FLAG :: u8 where "TL_IMAGE_START_FLAG \<equiv> 0x4b"
abbreviation FLASH_OTA_NEWIMAGE_ADDR :: u32 where "FLASH_OTA_NEWIMAGE_ADDR \<equiv> 0x40000"
abbreviation OTA_TLNK_KEYWORD_ADDROFFSET :: nat where "OTA_TLNK_KEYWORD_ADDROFFSET \<equiv> 8"
abbreviation OTA_MAX_IMAGE_SIZE :: u32 where "OTA_MAX_IMAGE_SIZE \<equiv> 0x30000"

abbreviation TL_CMD_OTA_START_REQ :: u8 where "TL_CMD_OTA_START_REQ \<equiv> 1"
abbreviation TL_CMD_OTA_START_RSP :: u8 where "TL_CMD_OTA_START_RSP \<equiv> 2"
abbreviation TL_CMD_OTA_STOP_REQ :: u8 where "TL_CMD_OTA_STOP_REQ \<equiv> 3"
abbreviation TL_CMD_OTA_STOP_RSP :: u8 where "TL_CMD_OTA_STOP_RSP \<equiv> 4"
abbreviation TL_CMD_OTA_DATA_REQ :: u8 where "TL_CMD_OTA_DATA_REQ \<equiv> 5"
abbreviation TL_CMD_OTA_DATA_RSP :: u8 where "TL_CMD_OTA_DATA_RSP \<equiv> 6"

text \<open>The states, two enumerations kept in one byte.\<close>

abbreviation OTA_STA_SUCCESS :: u8 where "OTA_STA_SUCCESS \<equiv> 0"
abbreviation OTA_STA_FAILED :: u8 where "OTA_STA_FAILED \<equiv> 1"
abbreviation OTA_STA_STARTING :: u8 where "OTA_STA_STARTING \<equiv> 2"
abbreviation OTA_STA_DATAING :: u8 where "OTA_STA_DATAING \<equiv> 3"
abbreviation OTA_BIN_VALID :: u8 where "OTA_BIN_VALID \<equiv> 0"
abbreviation OTA_BIN_INVALID :: u8 where "OTA_BIN_INVALID \<equiv> 1"

abbreviation OTA_HEAD_LENGTH :: u32 where "OTA_HEAD_LENGTH \<equiv> 0x06"
abbreviation OTA_HEAD_MAUNCODE :: u32 where "OTA_HEAD_MAUNCODE \<equiv> 0x0a"
abbreviation OTA_HEAD_IMAGETYPE :: u32 where "OTA_HEAD_IMAGETYPE \<equiv> 0x0c"
abbreviation OTA_HEAD_FILEVER :: u32 where "OTA_HEAD_FILEVER \<equiv> 0x0e"

text \<open>Bytes in a buffer, from the pointer on. The structures are packed (\<open>-fpack-struct\<close>).\<close>

type_synonym buf = "nat \<Rightarrow> u8"

definition g16 :: "buf \<Rightarrow> nat \<Rightarrow> u16" where
  "g16 p i = get16 (map p [i..<i + 2]) 0"

definition g32 :: "buf \<Rightarrow> nat \<Rightarrow> u32" where
  "g32 p i = get32 (map p [i..<i + 4]) 0"

record ota_preamble_t =
  fileVer :: u32
  chipType :: u16
  manufaurerCode :: u16
  imageSize :: u32

definition pre_of :: "buf \<Rightarrow> ota_preamble_t" where
  "pre_of p = \<lparr>fileVer = g32 p 0, chipType = g16 p 4, manufaurerCode = g16 p 6, imageSize = g32 p 8\<rparr>"

definition pre_head :: "ota_preamble_t \<Rightarrow> u8 list" where
  "pre_head r = u32_bytes (fileVer r) @ u16_bytes (chipType r) @ u16_bytes (manufaurerCode r)"

definition pre_bytes :: "ota_preamble_t \<Rightarrow> u8 list" where
  "pre_bytes r = pre_head r @ u32_bytes (imageSize r)"

text \<open>\<open>payloadSize\<close> and \<open>payload\<close> of \<open>ota_dataFrame_t\<close>.\<close>

definition payloadSize :: "buf \<Rightarrow> u8" where
  "payloadSize p = p 12"

definition payload_at :: "buf \<Rightarrow> buf" where
  "payload_at p = (\<lambda>i. p (13 + i))"

text \<open>The fields of the file header (\<open>ota_hdrFields_t\<close>, 56 bytes) and of \<open>ota_signInfo_t\<close> (6 bytes).\<close>

record ota_hdrFields_t =
  otaHdrLen :: u16
  h_manufaurerCode :: u16
  h_chipType :: u16
  h_fileVer :: u32
  totalImageSize :: u32

definition hdrFields_of :: "u8 list \<Rightarrow> ota_hdrFields_t" where
  "hdrFields_of bs = \<lparr>otaHdrLen = get16 bs 6, h_manufaurerCode = get16 bs 10, h_chipType = get16 bs 12,
     h_fileVer = get32 bs 14, totalImageSize = get32 bs 52\<rparr>"

section \<open>State\<close>

datatype ota_cb = ota_startReqCb | ota_dataTryReqCb | ota_stopRspCb | ota_callBackRestore

datatype ota_event =
    Send u8 "u8 list"
  | OnTimer ota_cb u32
  | UnonTimer ota_cb
  | UserCb u8
  | SaveInfoPm
  | SystemReset

record 'c ota =
  rc_otaInfo :: ota_preamble_t
  ota_RetryCnt :: u8
  ota_pairingRef :: u8
  ota_state :: u8
  ota_headercnt :: u32
  ota_headersize :: u32
  mcuBootAddr :: u8
  crcValue :: u32
  flashOffsetAddr :: u32
  rcDataCount :: u32
  targetDataCount :: u32
  autoPollingCb :: "ota_cb option"
  tryPollingCb :: "ota_cb option"
  seq_number :: u16
  g_tlAppDataSeqNo :: u8
  ota_flash :: "'c flash_st"
  ota_out :: "ota_event list"

definition emit :: "ota_event \<Rightarrow> 'c ota \<Rightarrow> 'c ota" where
  "emit e s = s\<lparr>ota_out := ota_out s @ [e]\<rparr>"

abbreviation chip :: "'c ota \<Rightarrow> 'c" where
  "chip s \<equiv> fl_chip (ota_flash s)"

definition set_chip :: "'c \<Rightarrow> 'c ota \<Rightarrow> 'c ota" where
  "set_chip c s = s\<lparr>ota_flash := (ota_flash s)\<lparr>fl_chip := c\<rparr>\<rparr>"

abbreviation unlock :: "'c ota \<Rightarrow> 'c ota" where
  "unlock s \<equiv> s\<lparr>ota_flash := flash_unlock (ota_flash s)\<rparr>"

abbreviation lock :: "'c ota \<Rightarrow> 'c ota" where
  "lock s \<equiv> s\<lparr>ota_flash := flash_lock (ota_flash s)\<rparr>"

text \<open>A frame with \<open>TL_SPECIFIC_ID_OTA\<close>, the next sequence number, a command and its length byte.\<close>

definition send_frame :: "u8 \<Rightarrow> u8 \<Rightarrow> u8 list \<Rightarrow> 'c ota \<Rightarrow> 'c ota" where
  "send_frame cmd len body s =
     emit (Send (ota_pairingRef s) ([0x31, g_tlAppDataSeqNo s, cmd, len] @ body))
       (s\<lparr>g_tlAppDataSeqNo := g_tlAppDataSeqNo s + 1\<rparr>)"

text \<open>\<open>ev_on_timer\<close> and \<open>ev_unon_timer\<close> of the two kept timers. The timer table is taken to have a free entry.\<close>

definition on_auto :: "ota_cb \<Rightarrow> u32 \<Rightarrow> 'c ota \<Rightarrow> 'c ota" where
  "on_auto cb us s = (emit (OnTimer cb us) s)\<lparr>autoPollingCb := Some cb\<rparr>"

definition on_try :: "ota_cb \<Rightarrow> u32 \<Rightarrow> 'c ota \<Rightarrow> 'c ota" where
  "on_try cb us s = (emit (OnTimer cb us) s)\<lparr>tryPollingCb := Some cb\<rparr>"

definition unon_auto :: "'c ota \<Rightarrow> 'c ota" where
  "unon_auto s = (case autoPollingCb s of Some cb \<Rightarrow> (emit (UnonTimer cb) s)\<lparr>autoPollingCb := None\<rparr> | None \<Rightarrow> s)"

definition unon_try :: "'c ota \<Rightarrow> 'c ota" where
  "unon_try s = (case tryPollingCb s of Some cb \<Rightarrow> (emit (UnonTimer cb) s)\<lparr>tryPollingCb := None\<rparr> | None \<Rightarrow> s)"

abbreviation fail_later :: "'c ota \<Rightarrow> 'c ota" where
  "fail_later s \<equiv> emit (OnTimer ota_callBackRestore 500000) (s\<lparr>ota_state := OTA_STA_FAILED\<rparr>)"

section \<open>Booting\<close>

definition mcuBootAddrGet :: "'c drv_flash \<Rightarrow> 'c \<Rightarrow> u32" where
  "mcuBootAddrGet d c =
     (if get32 (flash_read d c (0 + 8) 4) 0 = TL_START_UP_FLAG_WHOLE then 0
      else if get32 (flash_read d c (0x40000 + 8) 4) 0 = TL_START_UP_FLAG_WHOLE then 0x40000
      else 0xFFFFFFFF)"

text \<open>Where the new image goes.\<close>

definition new_base :: "'c ota \<Rightarrow> u32" where
  "new_base s = (if mcuBootAddr s \<noteq> 0 then 0 else FLASH_OTA_NEWIMAGE_ADDR)"

text \<open>The loop of \<open>verifyFirmwareCrc\<close>; with a length near \<open>2 ^ 32\<close> its index wraps around and it does not end.\<close>

partial_function (option) verify_loop :: "'c drv_flash \<Rightarrow> 'c \<Rightarrow> u32 \<Rightarrow> u32 \<Rightarrow> u8 list \<Rightarrow> nat \<Rightarrow> u32 \<Rightarrow> u32 \<Rightarrow> u32 option" where
  "verify_loop d c otaAddr binLen binBuf frameLen i calcCrc =
     (if \<not> i < binLen then Some calcCrc
      else
        let rd = flash_read d c (otaAddr + i) frameLen;
            buf1 = rd @ drop frameLen binBuf;
            buf2 = (if i = 0 then buf1[OTA_TLNK_KEYWORD_ADDROFFSET := TL_IMAGE_START_FLAG] else buf1);
            frameLen' = (if binLen > i + 48 then OTA_FRAMESIZE else unat (binLen - i))
        in verify_loop d c otaAddr binLen buf2 frameLen' (i + of_nat frameLen') (xcrc32 (take frameLen' buf2) calcCrc))"

definition verifyFirmwareCrc :: "'c drv_flash \<Rightarrow> 'c ota \<Rightarrow> bool option" where
  "verifyFirmwareCrc d s =
     (let otaAddr = (if mcuBootAddr s \<noteq> 0 then 0 else FLASH_OTA_NEWIMAGE_ADDR);
          binLen = get32 (flash_read d (chip s) (otaAddr + FIRMWARE_LENGTH_ADDR) 4) 0;
          binCrc = get32 (flash_read d (chip s) (otaAddr + binLen - 4) 4) 0;
          binLen' = binLen - 4;
          frameLen = (if binLen' > 48 then OTA_FRAMESIZE else 0)
      in map_option (\<lambda>calcCrc. calcCrc = binCrc)
           (verify_loop d (chip s) otaAddr binLen' (replicate OTA_FRAMESIZE 0) frameLen 0 0xffffffff))"

definition ota_mcuReboot :: "'c drv_flash \<Rightarrow> 'c ota \<Rightarrow> 'c ota" where
  "ota_mcuReboot d s =
     (let s1 = unlock s;
          (baseAddr, newAddr) = (if mcuBootAddr s1 \<noteq> 0 then (FLASH_OTA_NEWIMAGE_ADDR, 0) else (0, FLASH_OTA_NEWIMAGE_ADDR));
          c1 = flash_write d (chip s1) (newAddr + of_nat OTA_TLNK_KEYWORD_ADDROFFSET) [TL_IMAGE_START_FLAG];
          c2 = flash_write d c1 (baseAddr + of_nat OTA_TLNK_KEYWORD_ADDROFFSET) [0];
          s2 = lock (emit SaveInfoPm (set_chip c2 s1))
      in emit SystemReset s2)"

text \<open>The boot address is kept in one byte.\<close>

definition ota_initInfo :: "'c drv_flash \<Rightarrow> 'c ota \<Rightarrow> 'c ota" where
  "ota_initInfo d s =
     s\<lparr>rc_otaInfo := \<lparr>fileVer = 0, chipType = 0, manufaurerCode = 0, imageSize = 0\<rparr>,
       crcValue := 0xffffffff, flashOffsetAddr := 0, rcDataCount := 0, targetDataCount := 0,
       mcuBootAddr := ucast (mcuBootAddrGet d (chip s))\<rparr>"

section \<open>The controller\<close>

definition ota_startReq :: "'c drv_flash \<Rightarrow> u8 \<Rightarrow> 'c ota \<Rightarrow> 'c ota" where
  "ota_startReq d pairingRef s =
     (let s1 = (ota_initInfo d (s\<lparr>ota_pairingRef := pairingRef\<rparr>))\<lparr>ota_RetryCnt := STARTREQ_RETRYCNT, ota_headersize := 0, ota_headercnt := 0\<rparr>
      in on_auto ota_startReqCb 1000000 (unon_try (unon_auto s1)))"

text \<open>The callbacks return whether the timer stays on; \<open>buf\<close> says that \<open>ev_buf_allocate\<close> has a buffer.\<close>

definition ota_startReqCb_fn :: "bool \<Rightarrow> 'c ota \<Rightarrow> (int \<times> 'c ota) option" where
  "ota_startReqCb_fn buf s =
     (let s1 = s\<lparr>ota_RetryCnt := ota_RetryCnt s - 1\<rparr> in
      if ota_RetryCnt s \<noteq> 0 then
        (if buf then Some (0, send_frame TL_CMD_OTA_START_REQ 8
             (pre_head \<lparr>fileVer = firmwareVersion, chipType = CHIP_ID, manufaurerCode = TELINK_MANUFACTURER_CODE, imageSize = 0\<rparr>) s1)
         else None)
      else Some (- 1, fail_later s1))"

definition ota_callBackRestore_fn :: "'c ota \<Rightarrow> int \<times> 'c ota" where
  "ota_callBackRestore_fn s = (let s1 = lock s in (- 1, emit (UserCb (ota_state s1)) s1))"

definition data_req :: "'c ota \<Rightarrow> 'c ota" where
  "data_req s = send_frame TL_CMD_OTA_DATA_REQ 12 (pre_bytes ((rc_otaInfo s)\<lparr>imageSize := rcDataCount s\<rparr>)) s"

definition ota_dataReqCb :: "bool \<Rightarrow> 'c ota \<Rightarrow> 'c ota option" where
  "ota_dataReqCb buf s =
     (let s1 = unon_try s in
      if buf then Some (on_try ota_dataTryReqCb 1000000 ((data_req s1)\<lparr>ota_RetryCnt := DATAREQ_RETRYCNT\<rparr>))
      else None)"

definition ota_dataTryReqCb_fn :: "bool \<Rightarrow> 'c ota \<Rightarrow> (int \<times> 'c ota) option" where
  "ota_dataTryReqCb_fn buf s =
     (let s1 = s\<lparr>ota_RetryCnt := ota_RetryCnt s - 1\<rparr> in
      if ota_RetryCnt s \<noteq> 0 then (if buf then Some (0, data_req s1) else None)
      else Some (- 1, fail_later (s1\<lparr>ota_RetryCnt := 0\<rparr>)))"

definition ota_startRspHandler :: "'c drv_flash \<Rightarrow> bool \<Rightarrow> buf \<Rightarrow> 'c ota \<Rightarrow> 'c ota option" where
  "ota_startRspHandler d buf pd s =
     (let h = pre_of pd in
      if manufaurerCode h = TELINK_MANUFACTURER_CODE \<and> chipType h = CHIP_ID \<and> fileVer h > firmwareVersion then
        let s1 = (unon_auto s)\<lparr>rc_otaInfo := h\<rparr> in
        if imageSize h < OTA_MAX_IMAGE_SIZE then
          let baseAddr = new_base s1;
              sectorNumUsed = unat (imageSize h) div 4096 + 1;
              s2 = unlock s1;
              c = fold (\<lambda>i c. flash_erase d c (baseAddr + of_nat (i * 4096))) [0..<sectorNumUsed] (chip s2)
          in ota_dataReqCb buf ((set_chip c s2)\<lparr>ota_state := OTA_STA_STARTING\<rparr>)
        else Some (emit (OnTimer ota_callBackRestore 500000) (unon_auto (s1\<lparr>ota_state := OTA_STA_FAILED, ota_RetryCnt := 0\<rparr>)))
      else Some (emit (OnTimer ota_callBackRestore 500000) (unon_auto (s\<lparr>ota_state := OTA_STA_FAILED, ota_RetryCnt := 0\<rparr>))))"

text \<open>The scan of the file header, byte by byte; it returns the index of the first image byte in the block.\<close>

function hdr_scan :: "nat \<Rightarrow> buf \<Rightarrow> nat \<Rightarrow> 'c ota \<Rightarrow> nat \<times> 'c ota" where
  "hdr_scan len p i s =
     (if i \<ge> len then (i, s)
      else if ota_headercnt s = OTA_HEAD_LENGTH then
        hdr_scan len p (i + 1) (s\<lparr>ota_headersize := ucast (g16 p i), ota_headercnt := ota_headercnt s + 1\<rparr>)
      else if ota_headercnt s = OTA_HEAD_MAUNCODE then
        hdr_scan len p (i + 1) (s\<lparr>rc_otaInfo := (rc_otaInfo s)\<lparr>manufaurerCode := g16 p i\<rparr>, ota_headercnt := ota_headercnt s + 1\<rparr>)
      else if ota_headercnt s = OTA_HEAD_IMAGETYPE then
        hdr_scan len p (i + 1) (s\<lparr>rc_otaInfo := (rc_otaInfo s)\<lparr>chipType := g16 p i\<rparr>, ota_headercnt := ota_headercnt s + 1\<rparr>)
      else if ota_headercnt s = OTA_HEAD_FILEVER then
        hdr_scan len p (i + 1) (s\<lparr>rc_otaInfo := (rc_otaInfo s)\<lparr>fileVer := g32 p i\<rparr>, ota_headercnt := ota_headercnt s + 1\<rparr>)
      else if ota_headercnt s = ota_headersize s \<and> ota_headersize s \<noteq> 0 then
        (i + 6, s\<lparr>ota_state := OTA_STA_DATAING, ota_headercnt := ota_headercnt s + 6\<rparr>)
      else hdr_scan len p (i + 1) (s\<lparr>ota_headercnt := ota_headercnt s + 1\<rparr>))"
  by auto

termination
  by (relation "measure (\<lambda>(len, p, i, s). len - i)") auto

declare hdr_scan.simps [simp del]

text \<open>How many of the bytes go into the running CRC: all but the last four of the image.\<close>

definition crc_len :: "u32 \<Rightarrow> u32 \<Rightarrow> u32 \<Rightarrow> u8 \<Rightarrow> u8" where
  "crc_len headercnt headerbuf sz datalen =
     (if headercnt > sz - 4 then
        (if headerbuf > sz - 4 then 0
         else let offset = ucast (headercnt - (sz - 4)) :: u16 in
              if ucast datalen > offset then datalen - ucast offset else 0)
      else datalen)"

text \<open>The second half of \<open>ota_DataProcess\<close>: \<open>datalen\<close> bytes from index \<open>i\<close> on. The byte of the start flag is
  blanked while the block is written.\<close>

definition keyword_in :: "u32 \<Rightarrow> u8 \<Rightarrow> bool" where
  "keyword_in off datalen \<longleftrightarrow> off \<le> 8 \<and> ucast datalen + off > 8 \<and> datalen > 0"

definition write_block :: "'c drv_flash \<Rightarrow> nat \<Rightarrow> u8 \<Rightarrow> buf \<Rightarrow> 'c ota \<Rightarrow> bool \<times> 'c ota" where
  "write_block d i datalen p s1 =
     (let headerbuf = ota_headercnt s1;
          s2 = s1\<lparr>ota_headercnt := headerbuf + ucast datalen\<rparr>;
          off = flashOffsetAddr s2;
          flag = keyword_in off datalen;
          k = i + OTA_TLNK_KEYWORD_ADDROFFSET - unat off;
          p1 = (if flag then p(k := 0xff) else p);
          s3 = unlock s2
      in case flash_writeWithCheck d (chip s3) (new_base s2 + off) (map p1 [i..<i + unat datalen]) of
           (ok, c) \<Rightarrow>
             let p2 = (if flag then p1(k := TL_IMAGE_START_FLAG) else p1);
                 s4 = (set_chip c s3)\<lparr>flashOffsetAddr := off + ucast datalen\<rparr>;
                 n = crc_len (ota_headercnt s4) headerbuf (imageSize (rc_otaInfo s4)) datalen
             in (ok, if n \<noteq> 0 then s4\<lparr>crcValue := xcrc32 (map p2 [i..<i + unat n]) (crcValue s4)\<rparr> else s4))"

definition ota_DataProcess :: "'c drv_flash \<Rightarrow> u8 \<Rightarrow> buf \<Rightarrow> 'c ota \<Rightarrow> bool \<times> 'c ota" where
  "ota_DataProcess d len p s =
     (case (if ota_state s = OTA_STA_STARTING then hdr_scan (unat len) p 0 s else (0, s)) of
        (i, s1) \<Rightarrow>
          if ota_state s1 = OTA_STA_DATAING \<and> len > 0 then write_block d (unat (of_nat i :: u8)) (len - of_nat i) p s1
          else (True, s1))"

definition ota_dataRspHandler :: "'c drv_flash \<Rightarrow> bool \<Rightarrow> buf \<Rightarrow> 'c ota \<Rightarrow> 'c ota option" where
  "ota_dataRspHandler d buf pd s =
     (let h = pre_of pd in
      if manufaurerCode h = manufaurerCode (rc_otaInfo s) \<and> chipType h = chipType (rc_otaInfo s) \<and>
         fileVer h = fileVer (rc_otaInfo s) \<and> imageSize h = rcDataCount s then
        let s1 = unon_try (unon_auto s) in
        if payloadSize pd = 0 then Some (fail_later s1)
        else
          case ota_DataProcess d (payloadSize pd) (payload_at pd) s1 of
            (sta, s2) \<Rightarrow>
              let s3 = (if \<not> sta then fail_later s2 else s2);
                  s4 = s3\<lparr>rcDataCount := rcDataCount s3 + 1\<rparr>
              in if ota_headercnt s4 \<ge> imageSize (rc_otaInfo s4) then
                   let crcBin = get32 (flash_read d (chip s4) (new_base s4 + imageSize (rc_otaInfo s4) - ota_headersize s4 - 4 - 6) 4) 0
                   in if crcBin = crcValue s4 then
                        (case verifyFirmwareCrc d s4 of
                           None \<Rightarrow> None
                         | Some v \<Rightarrow>
                             Some (if v then on_auto ota_stopRspCb 100000 (s4\<lparr>ota_state := OTA_STA_SUCCESS, ota_RetryCnt := DATAREQ_RETRYCNT\<rparr>)
                                   else fail_later s4))
                      else Some (fail_later s4)
                 else ota_dataReqCb buf s4
      else Some s)"

definition ota_stopRspCb_fn :: "bool \<Rightarrow> 'c ota \<Rightarrow> (int \<times> 'c ota) option" where
  "ota_stopRspCb_fn buf s =
     (let s1 = s\<lparr>ota_RetryCnt := ota_RetryCnt s - 1\<rparr> in
      if ota_RetryCnt s \<noteq> 0 then
        (if buf then Some (0, send_frame TL_CMD_OTA_STOP_REQ 8 (pre_head (rc_otaInfo s)) s1) else None)
      else Some (- 1, fail_later s1))"

definition ota_stopRspHandler :: "buf \<Rightarrow> 'c ota \<Rightarrow> 'c ota" where
  "ota_stopRspHandler pd s =
     (let h = pre_of pd in
      if manufaurerCode h = manufaurerCode (rc_otaInfo s) \<and> chipType h = chipType (rc_otaInfo s) \<and> fileVer h = fileVer (rc_otaInfo s)
      then emit (OnTimer ota_callBackRestore 500000) (unon_auto s)
      else fail_later s)"

section \<open>The target\<close>

text \<open>\<open>stack\<close> stands for the bytes of the uninitialised \<open>imageinfo\<close>.\<close>

definition ota_startReqHandler :: "'c drv_flash \<Rightarrow> bool \<Rightarrow> u8 list \<Rightarrow> buf \<Rightarrow> 'c ota \<Rightarrow> 'c ota option" where
  "ota_startReqHandler d buf stack pd s0 =
     (let h = pre_of pd;
          s = ota_initInfo d s0;
          flashAddr = new_base s;
          s' =
            (if get32 (flash_read d (chip s) flashAddr 4) 0 = OTA_UPGRADE_FILE_ID then
               let headinfo = hdrFields_of (flash_read d (chip s) flashAddr 56);
                   info = \<lparr>fileVer = h_fileVer headinfo, chipType = h_chipType headinfo,
                           manufaurerCode = h_manufaurerCode headinfo, imageSize = totalImageSize headinfo\<rparr>;
                   st1 = (if fileVer h < fileVer info \<and> chipType h = chipType info \<and> manufaurerCode h = manufaurerCode info
                          then OTA_BIN_VALID else OTA_BIN_INVALID);
                   st2 =
                     (if st1 = OTA_BIN_VALID then
                        let inside = ucast (otaHdrLen headinfo) < totalImageSize headinfo;
                            imageinfo = (if inside then flash_read d (chip s) (flashAddr + ucast (otaHdrLen headinfo)) 6 else stack)
                        in if get16 imageinfo 0 \<noteq> 0 \<or>
                              totalImageSize headinfo \<noteq> ucast (otaHdrLen headinfo) + get32 imageinfo 2 + 6
                           then OTA_BIN_INVALID
                           else if inside then st1 else OTA_BIN_INVALID
                      else st1);
                   st3 = (if totalImageSize headinfo \<ge> OTA_MAX_IMAGE_SIZE then OTA_BIN_INVALID else st2)
               in s\<lparr>rc_otaInfo := info, ota_headersize := imageSize info, ota_headercnt := 0, ota_state := st3\<rparr>
             else s)
      in if buf then Some (send_frame TL_CMD_OTA_START_RSP 12 (pre_bytes (rc_otaInfo s')) s') else None)"

definition ota_dataReqHandler :: "'c drv_flash \<Rightarrow> bool \<Rightarrow> buf \<Rightarrow> 'c ota \<Rightarrow> 'c ota option" where
  "ota_dataReqHandler d buf pd s =
     (let h = pre_of pd in
      if fileVer h = fileVer (rc_otaInfo s) \<and> chipType h = chipType (rc_otaInfo s) \<and>
         manufaurerCode h = manufaurerCode (rc_otaInfo s) \<and> ota_state s = OTA_BIN_VALID then
        (if buf then
           let s1 = s\<lparr>ota_headercnt := imageSize h * of_nat OTA_FRAMESIZE\<rparr>;
               read_len = (if ota_headercnt s1 + of_nat OTA_FRAMESIZE < ota_headersize s1 then OTA_FRAMESIZE
                           else unat (ota_headersize s1) mod OTA_FRAMESIZE);
               ota_data = flash_read d (chip s1) (new_base s1 + ota_headercnt s1) read_len
           in Some (send_frame TL_CMD_OTA_DATA_RSP (of_nat (4 + 13 + read_len))
                (pre_bytes ((rc_otaInfo s1)\<lparr>imageSize := imageSize h\<rparr>) @ [of_nat read_len] @ ota_data) s1)
         else None)
      else if buf then Some (send_frame TL_CMD_OTA_DATA_RSP 0 [] s) else None)"

definition ota_stopReqHandler :: "bool \<Rightarrow> buf \<Rightarrow> 'c ota \<Rightarrow> 'c ota option" where
  "ota_stopReqHandler buf pd s =
     (let h = pre_of pd in
      if fileVer h = fileVer (rc_otaInfo s) \<and> chipType h = chipType (rc_otaInfo s) \<and> manufaurerCode h = manufaurerCode (rc_otaInfo s)
      then (if buf then Some (send_frame TL_CMD_OTA_STOP_RSP 8 (pre_head (rc_otaInfo s)) s) else None)
      else Some s)"

section \<open>Dispatch\<close>

text \<open>\<open>tl_appOtaCmdHandler\<close>, as compiled for either end; \<open>pd\<close> points at the frame header.\<close>

definition tl_appOtaCmdHandler_target :: "'c drv_flash \<Rightarrow> bool \<Rightarrow> u8 list \<Rightarrow> buf \<Rightarrow> 'c ota \<Rightarrow> 'c ota option" where
  "tl_appOtaCmdHandler_target d buf stack pd s =
     (let pld = (\<lambda>i. pd (4 + i)) in
      if pd 2 = TL_CMD_OTA_START_REQ then
        map_option (\<lambda>s. s\<lparr>seq_number := 0x100\<rparr>) (ota_startReqHandler d buf stack pld s)
      else if pd 2 = TL_CMD_OTA_STOP_REQ then ota_stopReqHandler buf pld s
      else if pd 2 = TL_CMD_OTA_DATA_REQ then
        (if seq_number s \<noteq> ucast (pd 1) then ota_dataReqHandler d buf pld (s\<lparr>seq_number := ucast (pd 1)\<rparr>) else Some s)
      else Some s)"

definition tl_appOtaCmdHandler_controller :: "'c drv_flash \<Rightarrow> bool \<Rightarrow> buf \<Rightarrow> 'c ota \<Rightarrow> 'c ota option" where
  "tl_appOtaCmdHandler_controller d buf pd s =
     (let pld = (\<lambda>i. pd (4 + i)) in
      if pd 2 = TL_CMD_OTA_START_RSP then ota_startRspHandler d buf pld s
      else if pd 2 = TL_CMD_OTA_STOP_RSP then Some (ota_stopRspHandler pld s)
      else if pd 2 = TL_CMD_OTA_DATA_RSP then ota_dataRspHandler d buf pld s
      else Some s)"

text \<open>\<open>tl_appDataIndicate\<close> for frames of the update protocol; \<open>handler\<close> is the end's command handler,
  audio frames are left to \<open>tl_appAudioCmdHandler\<close>.\<close>

definition tl_appDataIndicate :: "(buf \<Rightarrow> 'c ota \<Rightarrow> 'c ota option) \<Rightarrow> (buf \<Rightarrow> 'c ota \<Rightarrow> 'c ota option) \<Rightarrow> buf \<Rightarrow> 'c ota \<Rightarrow> 'c ota option" where
  "tl_appDataIndicate handler audio pd s =
     (if pd 0 = 0x31 then handler pd s else if pd 0 = 0x32 then audio pd s else Some s)"

end
