(* ===== verification/OtaProps.thy ===== *)
theory OtaProps
  imports Ota FlashMap
begin

text \<open>
  Properties of the update protocol: the two ends, coupled by a channel that delivers every frame,
  transfer an image block by block into the erased flash of the controller, which then boots it.
\<close>

section \<open>Frames\<close>

text \<open>A delivered frame in its buffer; what is behind it is left over from earlier use.\<close>

definition deliver :: "buf \<Rightarrow> u8 list \<Rightarrow> buf" where
  "deliver junk f = (\<lambda>i. if i < length f then f ! i else junk i)"

lemma map_deliver: "i + n \<le> length f \<Longrightarrow> map (deliver junk f) [i..<i + n] = take n (drop i f)"
  by (rule nth_equalityI) (simp_all add: deliver_def)

lemma map_shift: "map (\<lambda>i. p (m + i)) [i..<i + n] = map p [m + i..<m + i + n]"
  by (rule nth_equalityI) (simp_all add: add.assoc)

lemma g16_eq: "g16 p i = ucast (p i) OR push_bit 8 (ucast (p (i + 1)))"
  by (simp add: g16_def get16_def)

lemma g32_eq: "g32 p i = ucast (p i) OR push_bit 8 (ucast (p (i + 1))) OR push_bit 16 (ucast (p (i + 2))) OR push_bit 24 (ucast (p (i + 3)))"
  by (simp add: g32_def get32_def upt4)

lemma unat_u16_u32: "unat (ucast (x :: u16) :: u32) = unat x"
  using u16_less_65536[of x] by (simp add: unsigned_ucast_eq take_bit_nat_eq_self)

lemma get32_cong: "length bs = 4 \<Longrightarrow> get32 bs 0 = get32 (bs @ rest) 0"
  by (simp add: get32_def nth_append)

lemma g32_deliver: "i + 4 \<le> length f \<Longrightarrow> g32 (deliver junk f) i = get32 f i"
  by (simp add: g32_eq deliver_def get32_def)

lemma g16_deliver: "i + 2 \<le> length f \<Longrightarrow> g16 (deliver junk f) i = get16 f i"
  by (simp add: g16_eq deliver_def get16_def)

lemma g_shift: "g16 (\<lambda>i. p (m + i)) j = g16 p (m + j)" "g32 (\<lambda>i. p (m + i)) j = g32 p (m + j)"
  by (simp_all add: g16_def g32_def map_shift)

lemma pre_bytes_length [simp]: "length (pre_bytes r) = 12" "length (pre_head r) = 8"
  by (simp_all add: pre_bytes_def pre_head_def u32_bytes_def u16_bytes_def)

lemma get_pre_bytes:
  "length h = 4 \<Longrightarrow> get32 (h @ pre_bytes r @ rest) 4 = fileVer r" "length h = 4 \<Longrightarrow> get16 (h @ pre_bytes r @ rest) 8 = chipType r"
  "length h = 4 \<Longrightarrow> get16 (h @ pre_bytes r @ rest) 10 = manufaurerCode r" "length h = 4 \<Longrightarrow> get32 (h @ pre_bytes r @ rest) 12 = imageSize r"
proof -
  have b4: "length (u32_bytes v) = 4" "length (u16_bytes w) = 2" for v w by (simp_all add: u32_bytes_def u16_bytes_def)
  have g: "get32 (xs @ ys) (length xs) = get32 ys 0" "get16 (xs @ ys) (length xs) = get16 ys 0" for xs ys :: "u8 list"
    by (simp_all add: get32_def get16_def nth_append numeral_2_eq_2)
  have f: "get32 (u32_bytes v @ ys) 0 = v" "get16 (u16_bytes w @ ys) 0 = w" for v w ys
    using get32_bytes[of v ys] get16_bytes[of w ys] by simp_all
  assume h: "length h = 4"
  show "get32 (h @ pre_bytes r @ rest) 4 = fileVer r"
    using g(1)[of h "pre_bytes r @ rest"] h by (simp add: pre_bytes_def pre_head_def f)
  show "get16 (h @ pre_bytes r @ rest) 8 = chipType r"
    using g(2)[of "h @ u32_bytes (fileVer r)"] h by (simp add: pre_bytes_def pre_head_def f b4)
  show "get16 (h @ pre_bytes r @ rest) 10 = manufaurerCode r"
    using g(2)[of "h @ u32_bytes (fileVer r) @ u16_bytes (chipType r)"] h by (simp add: pre_bytes_def pre_head_def f b4)
  show "get32 (h @ pre_bytes r @ rest) 12 = imageSize r"
    using g(1)[of "h @ pre_head r"] h by (simp add: pre_bytes_def f)
qed

text \<open>The payload of a delivered frame, as the command handlers see it.\<close>

definition pld :: "buf \<Rightarrow> u8 list \<Rightarrow> buf" where
  "pld junk f = (\<lambda>i. deliver junk f (4 + i))"

lemma pre_of_pld: "length h = 4 \<Longrightarrow> pre_of (pld junk (h @ pre_bytes r @ rest)) = r"
  unfolding pre_of_def pld_def g_shift
  by (subst g32_deliver g16_deliver, simp)+ (simp add: get_pre_bytes)

lemma pld_data:
  fixes r :: ota_preamble_t and junk :: buf
  assumes "length h = 4" "length bs < 256"
  defines "p \<equiv> pld junk (h @ pre_bytes r @ of_nat (length bs) # bs)"
  shows "payloadSize p = of_nat (length bs)" "payload_at p = (\<lambda>i. if i < length bs then bs ! i else junk (17 + i))"
  using assms(1) by (auto simp: p_def payloadSize_def payload_at_def pld_def deliver_def nth_append numeral_eq_Suc)

section \<open>The image file\<close>

text \<open>A file of a header of \<open>H\<close> bytes, the six bytes of the sign information and a binary of \<open>B\<close>
  bytes, as the image tools make it: all sizes right, the start flag set, the last four bytes the CRC of
  the rest, for this chip and newer than the running firmware. The scan of the header needs its end not
  to be split from the sign information by a block boundary (the real header has 56 bytes).\<close>

definition ota_bin :: "u8 list \<Rightarrow> nat \<Rightarrow> u8 list" where
  "ota_bin F H = drop (H + 6) F"

definition ota_file :: "u8 list \<Rightarrow> nat \<Rightarrow> nat \<Rightarrow> bool" where
  "ota_file F H B \<longleftrightarrow> length F = H + 6 + B \<and> 56 \<le> H \<and> H mod 48 \<le> 42 \<and> 52 < B \<and> length F < 0x30000 \<and>
     get32 F 0 = OTA_UPGRADE_FILE_ID \<and> unat (get16 F 6) = H \<and> get16 F 10 = TELINK_MANUFACTURER_CODE \<and> get16 F 12 = CHIP_ID \<and>
     get32 F 14 > firmwareVersion \<and> unat (get32 F 52) = length F \<and> get16 F H = 0 \<and> unat (get32 F (H + 2)) = B \<and>
     take 4 (drop 8 (ota_bin F H)) = [0x4b, 0x4e, 0x4c, 0x54] \<and> get32 (ota_bin F H) 0x18 = of_nat B \<and>
     get32 (ota_bin F H) (B - 4) = xcrc32 (take (B - 4) (ota_bin F H)) 0xffffffff"

definition ota_info :: "u8 list \<Rightarrow> ota_preamble_t" where
  "ota_info F = \<lparr>fileVer = get32 F 14, chipType = get16 F 12, manufaurerCode = get16 F 10, imageSize = of_nat (length F)\<rparr>"

section \<open>Scanning the header\<close>

lemma of_nat_u32_eq: "x < 2 ^ 32 \<Longrightarrow> y < 2 ^ 32 \<Longrightarrow> (of_nat x :: u32) = of_nat y \<longleftrightarrow> x = y"
  by (metis unat_of_nat_u32)

lemma of_nat_u32_special:
  assumes "x < 2 ^ 31"
  shows "(of_nat x :: u32) = 6 \<longleftrightarrow> x = 6" "(of_nat x :: u32) = 10 \<longleftrightarrow> x = 10"
    "(of_nat x :: u32) = 12 \<longleftrightarrow> x = 12" "(of_nat x :: u32) = 14 \<longleftrightarrow> x = 14"
  using of_nat_u32_eq[of x 6] of_nat_u32_eq[of x 10] of_nat_u32_eq[of x 12] of_nat_u32_eq[of x 14] assms by simp_all

lemma hdr_scan_skip:
  assumes "ota_headercnt s = of_nat n" "i + m \<le> len" "n + m < 2 ^ 31"
    "\<And>x. n \<le> x \<Longrightarrow> x < n + m \<Longrightarrow> x \<notin> {6, 10, 12, 14} \<and> (ota_headersize s = 0 \<or> ota_headersize s \<noteq> of_nat x)"
  shows "hdr_scan len p i s = hdr_scan len p (i + m) (s\<lparr>ota_headercnt := of_nat (n + m)\<rparr>)"
  using assms
proof (induction m arbitrary: i n s)
  case 0
  then have "s\<lparr>ota_headercnt := of_nat n\<rparr> = s" by (cases s) simp
  then show ?case by simp
next
  case (Suc m)
  let ?s = "s\<lparr>ota_headercnt := of_nat (n + 1)\<rparr>"
  have n: "n \<notin> {6, 10, 12, 14}" "ota_headersize s = 0 \<or> ota_headersize s \<noteq> of_nat n" using Suc.prems(4)[of n] by simp_all
  have "hdr_scan len p i s = hdr_scan len p (i + 1) ?s"
    using Suc.prems(1-3) n by (subst hdr_scan.simps) (auto simp: of_nat_u32_special add.commute)
  also have "\<dots> = hdr_scan len p (i + 1 + m) (?s\<lparr>ota_headercnt := of_nat (n + 1 + m)\<rparr>)"
  proof (rule Suc.IH)
    fix x assume "n + 1 \<le> x" "x < n + 1 + m"
    then show "x \<notin> {6, 10, 12, 14} \<and> (ota_headersize ?s = 0 \<or> ota_headersize ?s \<noteq> of_nat x)" using Suc.prems(4)[of x] by simp
  qed (use Suc.prems(2,3) in simp_all)
  finally show ?case by (simp add: add.assoc)
qed

text \<open>The first block holds the fields; they are taken over.\<close>

lemma hdr_scan_first:
  assumes "ota_headercnt s = 0" "ota_headersize s = 0" "48 \<le> unat (g16 p 6)"
  shows "hdr_scan 48 p 0 s = (48, s\<lparr>ota_headercnt := 48, ota_headersize := ucast (g16 p 6),
    rc_otaInfo := (rc_otaInfo s)\<lparr>manufaurerCode := g16 p 10, chipType := g16 p 12, fileVer := g32 p 14\<rparr>\<rparr>)"
proof -
  let ?h = "ucast (g16 p 6) :: u32"
  have h: "?h \<noteq> of_nat x" if "x < 48" for x
  proof
    assume "?h = of_nat x"
    then have "unat (of_nat x :: u32) = unat (g16 p 6)" by (metis unat_u16_u32)
    then show False using that assms(3) by (simp add: unat_of_nat_u32)
  qed
  have skip: "hdr_scan 48 p i s' = hdr_scan 48 p j (s'\<lparr>ota_headercnt := of_nat j\<rparr>)"
    if "ota_headercnt s' = of_nat i" "i \<le> j" "j \<le> 48" "{6, 10, 12, 14} \<inter> {i..<j} = {}" "ota_headersize s' = 0 \<or> ota_headersize s' = ?h"
    for i j and s' :: "'c ota"
  proof -
    have "hdr_scan 48 p i s' = hdr_scan 48 p (i + (j - i)) (s'\<lparr>ota_headercnt := of_nat (i + (j - i))\<rparr>)"
    proof (rule hdr_scan_skip[OF that(1)])
      fix x assume x: "i \<le> x" "x < i + (j - i)"
      then have "x \<in> {i..<j}" using that(2) by simp
      then have "x \<notin> {6, 10, 12, 14}" using that(4) by blast
      then show "x \<notin> {6, 10, 12, 14} \<and> (ota_headersize s' = 0 \<or> ota_headersize s' \<noteq> of_nat x)" using that(3,5) x h[of x] by auto
    qed (use that in simp_all)
    then show ?thesis using that(2) by simp
  qed
  have "hdr_scan 48 p 0 s = hdr_scan 48 p 6 (s\<lparr>ota_headercnt := 6\<rparr>)" using skip[of s 0 6] assms by simp
  also have "\<dots> = hdr_scan 48 p 7 (s\<lparr>ota_headercnt := 7, ota_headersize := ?h\<rparr>)" by (cases s) (subst hdr_scan.simps, simp)
  also have "\<dots> = hdr_scan 48 p 10 (s\<lparr>ota_headercnt := 10, ota_headersize := ?h\<rparr>)"
    using skip[of "s\<lparr>ota_headercnt := 7, ota_headersize := ?h\<rparr>" 7 10] by (cases s) simp
  also have "\<dots> = hdr_scan 48 p 11 (s\<lparr>ota_headercnt := 11, ota_headersize := ?h, rc_otaInfo := (rc_otaInfo s)\<lparr>manufaurerCode := g16 p 10\<rparr>\<rparr>)"
    (is "_ = hdr_scan _ _ _ ?s11") by (cases s) (subst hdr_scan.simps, simp)
  also have "\<dots> = hdr_scan 48 p 12 (?s11\<lparr>ota_headercnt := 12\<rparr>)" using skip[of ?s11 11 12] by (cases s) simp
  also have "\<dots> = hdr_scan 48 p 13 (?s11\<lparr>ota_headercnt := 13, rc_otaInfo := (rc_otaInfo ?s11)\<lparr>chipType := g16 p 12\<rparr>\<rparr>)"
    (is "_ = hdr_scan _ _ _ ?s13") by (cases s) (subst hdr_scan.simps, simp)
  also have "\<dots> = hdr_scan 48 p 14 (?s13\<lparr>ota_headercnt := 14\<rparr>)" using skip[of ?s13 13 14] by (cases s) simp
  also have "\<dots> = hdr_scan 48 p 15 (?s13\<lparr>ota_headercnt := 15, rc_otaInfo := (rc_otaInfo ?s13)\<lparr>fileVer := g32 p 14\<rparr>\<rparr>)"
    (is "_ = hdr_scan _ _ _ ?s15") by (cases s) (subst hdr_scan.simps, simp)
  also have "\<dots> = hdr_scan 48 p 48 (?s15\<lparr>ota_headercnt := 48\<rparr>)" using skip[of ?s15 15 48] by (cases s) simp
  also have "\<dots> = (48, ?s15\<lparr>ota_headercnt := 48\<rparr>)" by (cases s) (subst hdr_scan.simps, simp)
  finally show ?thesis by (cases s) simp
qed

text \<open>A later block: either all header, or the header ends at its byte \<open>H mod 48\<close>.\<close>

lemma hdr_scan_inside:
  assumes "ota_headercnt s = of_nat n" "ota_headersize s = of_nat H" "48 \<le> n" "n + 48 \<le> H" "H < 2 ^ 31"
  shows "hdr_scan 48 p 0 s = (48, s\<lparr>ota_headercnt := of_nat (n + 48)\<rparr>)"
proof -
  have "hdr_scan 48 p 0 s = hdr_scan 48 p (0 + 48) (s\<lparr>ota_headercnt := of_nat (n + 48)\<rparr>)"
    by (rule hdr_scan_skip[OF assms(1)]) (use assms(2-5) of_nat_u32_eq in auto)
  then show ?thesis by (subst (asm) (2) hdr_scan.simps) simp
qed

lemma hdr_scan_end:
  assumes "ota_headercnt s = of_nat n" "ota_headersize s = of_nat H" "48 \<le> n" "n \<le> H" "H < n + 48" "H < 2 ^ 31"
  shows "hdr_scan 48 p 0 s = (H - n + 6, s\<lparr>ota_state := OTA_STA_DATAING, ota_headercnt := of_nat (H + 6)\<rparr>)"
proof -
  have "hdr_scan 48 p 0 s = hdr_scan 48 p (0 + (H - n)) (s\<lparr>ota_headercnt := of_nat (n + (H - n))\<rparr>)"
    by (rule hdr_scan_skip[OF assms(1)]) (use assms(2-6) of_nat_u32_eq in auto)
  also have "\<dots> = hdr_scan 48 p (H - n) (s\<lparr>ota_headercnt := of_nat H\<rparr>)" using assms(4) by simp
  also have "\<dots> = (H - n + 6, s\<lparr>ota_state := OTA_STA_DATAING, ota_headercnt := of_nat (H + 6)\<rparr>)"
  proof -
    have "(of_nat H :: u32) \<noteq> 0" using of_nat_u32_eq[of H 0] assms(3,4,6) by simp
    moreover have "H \<noteq> 6" "H \<noteq> 10" "H \<noteq> 12" "H \<noteq> 14" using assms(3,4) by simp_all
    ultimately show ?thesis using assms by (subst hdr_scan.simps) (simp add: of_nat_u32_special add.commute)
  qed
  finally show ?thesis .
qed

section \<open>Writing a block\<close>

text \<open>The image as it is on the flash until the reboot: the start flag is left erased.\<close>

definition img_of :: "u8 list \<Rightarrow> u8 list" where
  "img_of bin = bin[8 := 0xff]"

lemma img_of_simps [simp]: "length (img_of bin) = length bin" "j \<noteq> 8 \<Longrightarrow> img_of bin ! j = bin ! j"
  by (simp_all add: img_of_def)

definition img_on :: "mem \<Rightarrow> u8 list \<Rightarrow> nat \<Rightarrow> bool" where
  "img_on m bin off \<longleftrightarrow> (\<forall>j < length bin. at m (0x40000 + j) = (if j < off then img_of bin ! j else 0xff))"

text \<open>The bytes of a block go to the flash with the flag blanked, into the CRC as they are.\<close>

lemma chunk_flash:
  assumes "\<And>j. j < n \<Longrightarrow> p (i + j) = bin ! (off + j)" "off + n \<le> length bin"
  shows "map (if off \<le> 8 \<and> 8 < off + n then p(i + 8 - off := 0xff) else p) [i..<i + n] = take n (drop off (img_of bin))"
    (is "map ?q _ = _")
proof (rule nth_equalityI)
  fix j assume "j < length (map ?q [i..<i + n])"
  then have j: "j < n" by simp
  have "?q (i + j) = img_of bin ! (off + j)"
  proof (cases "off + j = 8")
    case True
    then have "off \<le> 8 \<and> 8 < off + n" "i + 8 - off = i + j" using j by auto
    then show ?thesis using True assms(2) j by (simp add: img_of_def)
  next
    case False
    then have "off \<le> 8 \<Longrightarrow> i + 8 - off \<noteq> i + j" by linarith
    then show ?thesis using False assms(1)[OF j] by auto
  qed
  then show "map ?q [i..<i + n] ! j = take n (drop off (img_of bin)) ! j" using j assms(2) by simp
qed (use assms(2) in simp)

lemma chunk_crc:
  assumes "\<And>j. j < n \<Longrightarrow> p (i + j) = bin ! (off + j)" "off + n \<le> length bin" "bin ! 8 = 0x4b" "k \<le> n"
  shows "map (if off \<le> 8 \<and> 8 < off + n then p(i + 8 - off := 0xff, i + 8 - off := 0x4b) else p) [i..<i + k] = take k (drop off bin)"
    (is "map ?q _ = _")
proof (rule nth_equalityI)
  fix j assume "j < length (map ?q [i..<i + k])"
  then have j: "j < n" "j < k" using assms(4) by auto
  have "?q (i + j) = bin ! (off + j)"
  proof (cases "off + j = 8")
    case True
    then have "off \<le> 8 \<and> 8 < off + n" "i + 8 - off = i + j" using j by auto
    then show ?thesis using True assms(3) by simp
  next
    case False
    then have "off \<le> 8 \<Longrightarrow> i + 8 - off \<noteq> i + j" by linarith
    then show ?thesis using assms(1)[OF j(1)] by auto
  qed
  then show "map ?q [i..<i + k] ! j = take k (drop off bin) ! j" using j assms(2) by simp
qed (use assms(2,4) in simp)

lemma crc_len_min:
  assumes "n \<le> 48" "off + n \<le> B" "4 \<le> B" "H + 6 + B < 2 ^ 31"
  shows "crc_len (of_nat (H + 6 + (off + n))) (of_nat (H + 6 + off)) (of_nat (H + 6 + B)) (of_nat n) = of_nat (min (off + n) (B - 4) - min off (B - 4))"
proof -
  have sz: "(of_nat (H + 6 + B) - 4 :: u32) = of_nat (H + 6 + (B - 4))"
  proof -
    have "(of_nat (H + 6 + B) :: u32) = of_nat (H + 6 + (B - 4)) + of_nat 4" unfolding of_nat_add[symmetric] using assms(3) by simp
    then show ?thesis by simp
  qed
  have lt: "(of_nat (H + 6 + (B - 4)) :: u32) < of_nat (H + 6 + x) \<longleftrightarrow> B - 4 < x" if "x \<le> B" for x
  proof -
    have u: "unat (of_nat (H + 6 + y) :: u32) = H + 6 + y" if "y \<le> B" for y by (rule unat_of_nat_u32) (use assms(4) that in simp)
    show ?thesis unfolding word_less_nat_alt u[OF that] u[of "B - 4", OF diff_le_self] by simp
  qed
  show ?thesis
  proof (cases "B - 4 < off + n")
    case False
    then show ?thesis unfolding crc_len_def sz using lt[of "off + n"] assms(2) by simp
  next
    case gt: True
    show ?thesis
    proof (cases "B - 4 < off")
      case True
      then show ?thesis unfolding crc_len_def sz using lt[of "off + n"] lt[of off] assms(2) gt by simp
    next
      case False
      let ?o = "off + n - (B - 4)"
      have o: "?o \<le> 4" "?o \<le> n" using assms(2) False gt by simp_all
      have d: "(of_nat (H + 6 + (off + n)) - of_nat (H + 6 + (B - 4)) :: u32) = of_nat ?o"
      proof -
        have "(of_nat (H + 6 + (off + n)) :: u32) = of_nat (H + 6 + (B - 4)) + of_nat ?o" unfolding of_nat_add[symmetric] using gt by simp
        then show ?thesis by simp
      qed
      have u: "(ucast (of_nat ?o :: u32) :: u16) = of_nat ?o" "(ucast (of_nat n :: u8) :: u16) = of_nat n" "(ucast (of_nat ?o :: u16) :: u8) = of_nat ?o"
        using o assms(1) by (simp_all add: unsigned_of_nat take_bit_nat_eq_self)
      have c: "(of_nat ?o :: u16) < of_nat n \<longleftrightarrow> ?o < n"
        using o assms(1) by (simp add: word_less_nat_alt unat_of_nat take_bit_nat_eq_self)
      have s: "(of_nat n - of_nat ?o :: u8) = of_nat (n - ?o)" using o by (simp add: of_nat_diff)
      have "n - ?o = min (off + n) (B - 4) - min off (B - 4)" using gt False by simp
      then show ?thesis unfolding crc_len_def sz d Let_def u c s
        using lt[of "off + n"] lt[of off] assms(2) gt False by auto
    qed
  qed
qed

lemma img_on_blank:
  assumes "img_on m bin off" "off + n \<le> length bin"
  shows "blank m (0x40000 + off) (0x40000 + off + n)"
  unfolding blank_def
proof (intro allI impI)
  fix j assume j: "0x40000 + off \<le> j \<and> j < 0x40000 + off + n"
  define k where "k = j - 0x40000"
  have "j = 0x40000 + k" "off \<le> k" "k < length bin" using j assms(2) by (auto simp: k_def)
  then show "at m j = 0xff" using assms(1) unfolding img_on_def by simp
qed

lemma img_on_step:
  assumes "img_on m bin off" "off + n \<le> length bin" "0x40000 + length bin \<le> 2 ^ 31"
    "m' = nor_write m (of_nat (0x40000 + off)) (take n (drop off (img_of bin)))"
  shows "img_on m' bin (off + n)"
    "\<And>j. j < 2 ^ 32 \<Longrightarrow> \<not> (0x40000 \<le> j \<and> j < 0x40000 + length bin) \<Longrightarrow> at m' j = at m j"
proof -
  let ?bs = "take n (drop off (img_of bin))"
  have l: "length ?bs = n" using assms(2) by simp
  have b: "blank m (0x40000 + off) (0x40000 + off + length ?bs)" unfolding l by (rule img_on_blank[OF assms(1,2)])
  have s: "0x40000 + off + length ?bs \<le> 2 ^ 31" using assms(2,3) l by simp
  note w = at_write_blank[OF b s]
  show "img_on m' bin (off + n)" unfolding img_on_def
  proof (intro allI impI)
    fix j assume j: "j < length bin"
    have "0x40000 + j < (2 :: nat) ^ 32" using j assms(3) by simp
    then show "at m' (0x40000 + j) = (if j < off + n then img_of bin ! j else 0xff)"
      unfolding assms(4) using w[of "0x40000 + j"] assms(1) j l assms(2) by (auto simp: img_on_def)
  qed
  fix j :: nat assume "j < 2 ^ 32" "\<not> (0x40000 \<le> j \<and> j < 0x40000 + length bin)"
  then show "at m' j = at m j" unfolding assms(4) using w[of j] l assms(2) by auto
qed

lemma write_block_eq:
  assumes "keyword_in (flashOffsetAddr s) dl = fl"
    "map (if fl then p(i + 8 - unat (flashOffsetAddr s) := 0xff) else p) [i..<i + unat dl] = bs1"
    "flash_writeWithCheck d (fl_chip (flash_unlock (ota_flash s))) (new_base s + flashOffsetAddr s) bs1 = (ok, c)"
    "crc_len (ota_headercnt s + ucast dl) (ota_headercnt s) (imageSize (rc_otaInfo s)) dl = m"
    "map (if fl then p(i + 8 - unat (flashOffsetAddr s) := 0xff, i + 8 - unat (flashOffsetAddr s) := 0x4b) else p) [i..<i + unat m] = bs2"
  shows "write_block d i dl p s = (ok, s\<lparr>ota_headercnt := ota_headercnt s + ucast dl,
    ota_flash := (flash_unlock (ota_flash s))\<lparr>fl_chip := c\<rparr>, flashOffsetAddr := flashOffsetAddr s + ucast dl,
    crcValue := (if m = 0 then crcValue s else xcrc32 bs2 (crcValue s))\<rparr>)"
  using assms by (cases s; cases fl) (auto simp: write_block_def Let_def new_base_def set_chip_def)

context nor_flash begin

lemma img_write:
  assumes "writable c" "img_on (cells c) bin off" "off + n \<le> length bin" "0x40000 + length bin < 2 ^ 31"
  obtains c' where "flash_writeWithCheck D c (0x40000 + of_nat off) (take n (drop off (img_of bin))) = (True, c')"
    "writable c'" "img_on (cells c') bin (off + n)"
    "\<And>j. j < 2 ^ 32 \<Longrightarrow> \<not> (0x40000 \<le> j \<and> j < 0x40000 + length bin) \<Longrightarrow> at (cells c') j = at (cells c) j"
proof -
  let ?bs = "take n (drop off (img_of bin))"
  have l: "length ?bs = n" using assms(3) by simp
  have "blank (cells c) (0x40000 + off) (0x40000 + off + length ?bs)" unfolding l by (rule img_on_blank[OF assms(2,3)])
  moreover have "0x40000 + off + length ?bs \<le> 2 ^ 31" "length ?bs < 2 ^ 31" using assms(3,4) l by simp_all
  ultimately obtain c' where c': "flash_writeWithCheck D c (of_nat (0x40000 + off)) ?bs = (True, c')"
    "cells c' = nor_write (cells c) (of_nat (0x40000 + off)) ?bs" "writable c'"
    using checked_blank[OF assms(1)] by blast
  have a: "(of_nat (0x40000 + off) :: u32) = 0x40000 + of_nat off" by simp
  show thesis by (rule that[OF c'(1)[unfolded a] c'(3) img_on_step[OF assms(2,3) less_imp_le[OF assms(4)] c'(2)]])
qed

text \<open>The writing part of \<open>ota_DataProcess\<close>, for \<open>n\<close> bytes at index \<open>i\<close>.\<close>

lemma DataProcess_data:
  assumes "(if ota_state s = OTA_STA_STARTING then hdr_scan L p 0 s else (0, s)) = (i, s1)" "ota_state s1 = OTA_STA_DATAING"
    "L = i + n" "0 < L" "L \<le> 48" "\<And>j. j < n \<Longrightarrow> p (i + j) = bin ! (off + j)" "off + n \<le> length bin" "52 < length bin" "bin ! 8 = 0x4b"
    "H + 6 + length bin < 0x30000" "ota_headercnt s1 = of_nat (H + 6 + off)" "imageSize (rc_otaInfo s1) = of_nat (H + 6 + length bin)"
    "mcuBootAddr s1 = 0" "flashOffsetAddr s1 = of_nat off" "crcValue s1 = xcrc32 (take (min off (length bin - 4)) bin) 0xffffffff"
    "flash_ok cells writable (ota_flash s1)" "img_on (cells (chip s1)) bin off"
  obtains c' where "ota_DataProcess D (of_nat L) p s = (True, s1\<lparr>ota_headercnt := of_nat (H + 6 + (off + n)),
      ota_flash := (flash_unlock (ota_flash s1))\<lparr>fl_chip := c'\<rparr>, flashOffsetAddr := of_nat (off + n),
      crcValue := xcrc32 (take (min (off + n) (length bin - 4)) bin) 0xffffffff\<rparr>)"
    "writable c'" "img_on (cells c') bin (off + n)"
    "\<And>j. j < 2 ^ 32 \<Longrightarrow> \<not> (0x40000 \<le> j \<and> j < 0x40000 + length bin) \<Longrightarrow> at (cells c') j = at (cells (chip s1)) j"
proof -
  have n: "n \<le> 48" "i \<le> 48" using assms(3,5) by simp_all
  note u = flash_unlock_ok[OF assms(16)]
  have bin: "0x40000 + length bin < 2 ^ 31" using assms(10) by simp
  obtain c' where c': "flash_writeWithCheck D (fl_chip (flash_unlock (ota_flash s1))) (0x40000 + of_nat off) (take n (drop off (img_of bin))) = (True, c')"
    "writable c'" "img_on (cells c') bin (off + n)"
    "\<And>j. j < 2 ^ 32 \<Longrightarrow> \<not> (0x40000 \<le> j \<and> j < 0x40000 + length bin) \<Longrightarrow> at (cells c') j = at (cells (chip s1)) j"
    using img_write[of "fl_chip (flash_unlock (ota_flash s1))" bin off n] u assms(17,7) bin by auto
  let ?flag = "keyword_in (of_nat off) (of_nat n)"
  have un: "unat (of_nat n :: u8) = n" "unat (of_nat i :: u8) = i" "unat (of_nat L :: u8) = L" "(ucast (of_nat n :: u8) :: u32) = of_nat n"
    using n assms(5) by (simp_all add: unat_of_nat_small unsigned_of_nat take_bit_nat_eq_self)
  have uo: "unat (of_nat off :: u32) = off" "unat (of_nat (off + n) :: u32) = off + n" by (rule unat_of_nat_u32, use assms(7) bin in simp)+
  have flag: "?flag \<longleftrightarrow> off \<le> 8 \<and> 8 < off + n"
  proof -
    have "unat (of_nat n + of_nat off :: u32) = off + n" using uo(2) by (simp add: add.commute)
    then show ?thesis unfolding keyword_in_def un(4) word_le_nat_alt word_less_nat_alt uo(1) un(1) by auto
  qed
  define dd where "dd = min (off + n) (length bin - 4) - min off (length bin - 4)"
  have dl: "of_nat L - of_nat i = (of_nat n :: u8)" using assms(3) by simp
  have hc: "of_nat (H + 6 + off) + of_nat n = (of_nat (H + 6 + (off + n)) :: u32)" by simp
  have cl: "crc_len (of_nat (H + 6 + (off + n))) (of_nat (H + 6 + off)) (of_nat (H + 6 + length bin)) (of_nat n) = of_nat dd"
    unfolding dd_def by (rule crc_len_min[OF n(1) assms(7)]) (use assms(8,10) in simp_all)
  have d1: "dd \<le> n" by (simp add: dd_def)
  then have d2: "unat (of_nat dd :: u8) = dd" by (intro unat_of_nat_small) (use n in simp)
  have d0: "(of_nat dd :: u8) = 0 \<longleftrightarrow> dd = 0" using unat_eq_zero[of "of_nat dd :: u8"] unfolding d2 by (rule sym)
  have L0: "(0 :: u8) < of_nat L" using assms(4) un(3) by (simp add: word_less_nat_alt)
  have crc: "(if dd = 0 then xcrc32 (take (min off (length bin - 4)) bin) 0xffffffff
      else xcrc32 (take dd (drop off bin)) (xcrc32 (take (min off (length bin - 4)) bin) 0xffffffff)) = xcrc32 (take (min (off + n) (length bin - 4)) bin) 0xffffffff"
  proof (cases "off \<le> length bin - 4")
    case True
    then have "min (off + n) (length bin - 4) = off + dd" "min off (length bin - 4) = off" by (simp_all add: dd_def)
    moreover have "take (off + dd) bin = take off bin @ take dd (drop off bin)" by (rule take_add)
    ultimately show ?thesis by (simp add: xcrc32_append)
  next
    case False
    then show ?thesis by (simp add: dd_def min_def)
  qed
  have mf: "map (if ?flag then p(i + 8 - off := 0xff) else p) [i..<i + n] = take n (drop off (img_of bin))"
    unfolding flag by (rule chunk_flash[OF assms(6,7)])
  have mc: "map (if ?flag then p(i + 8 - off := 0xff, i + 8 - off := 0x4b) else p) [i..<i + dd] = take dd (drop off bin)"
    unfolding flag by (rule chunk_crc[OF assms(6,7,9) d1])
  have "ota_DataProcess D (of_nat L) p s = (True, s1\<lparr>ota_headercnt := of_nat (H + 6 + (off + n)),
      ota_flash := (flash_unlock (ota_flash s1))\<lparr>fl_chip := c'\<rparr>, flashOffsetAddr := of_nat (off + n),
      crcValue := xcrc32 (take (min (off + n) (length bin - 4)) bin) 0xffffffff\<rparr>)"
  proof -
    have "ota_DataProcess D (of_nat L) p s = write_block D i (of_nat n) p s1"
      unfolding ota_DataProcess_def un(3) assms(1) prod.case dl un(2) using assms(2) L0 by simp
    also have "\<dots> = (True, s1\<lparr>ota_headercnt := ota_headercnt s1 + ucast (of_nat n :: u8),
      ota_flash := (flash_unlock (ota_flash s1))\<lparr>fl_chip := c'\<rparr>, flashOffsetAddr := flashOffsetAddr s1 + ucast (of_nat n :: u8),
      crcValue := (if (of_nat dd :: u8) = 0 then crcValue s1 else xcrc32 (take dd (drop off bin)) (crcValue s1))\<rparr>)"
    proof (rule write_block_eq)
      show "keyword_in (flashOffsetAddr s1) (of_nat n) = ?flag" unfolding assms(14) ..
      show "map (if ?flag then p(i + 8 - unat (flashOffsetAddr s1) := 0xff) else p) [i..<i + unat (of_nat n :: u8)] = take n (drop off (img_of bin))"
        unfolding assms(14) un(1) uo(1) by (rule mf)
      show "flash_writeWithCheck D (fl_chip (flash_unlock (ota_flash s1))) (new_base s1 + flashOffsetAddr s1) (take n (drop off (img_of bin))) = (True, c')"
        using c'(1) by (simp add: new_base_def assms(13,14))
      show "crc_len (ota_headercnt s1 + ucast (of_nat n :: u8)) (ota_headercnt s1) (imageSize (rc_otaInfo s1)) (of_nat n) = of_nat dd"
        unfolding assms(11,12) un(4) hc by (rule cl)
      show "map (if ?flag then p(i + 8 - unat (flashOffsetAddr s1) := 0xff, i + 8 - unat (flashOffsetAddr s1) := 0x4b) else p)
          [i..<i + unat (of_nat dd :: u8)] = take dd (drop off bin)"
        unfolding assms(14) d2 uo(1) by (rule mc)
    qed
    also have "\<dots> = (True, s1\<lparr>ota_headercnt := of_nat (H + 6 + (off + n)),
      ota_flash := (flash_unlock (ota_flash s1))\<lparr>fl_chip := c'\<rparr>, flashOffsetAddr := of_nat (off + n),
      crcValue := xcrc32 (take (min (off + n) (length bin - 4)) bin) 0xffffffff\<rparr>)"
      unfolding assms(11,14,15) un(4) hc d0 crc by simp
    finally show ?thesis .
  qed
  then show thesis using that c'(2-4) by blast
qed

end

section \<open>The final check\<close>

context nor_flash begin

lemma img_read:
  assumes "img_on (cells c) bin (length bin)" "x + n \<le> length bin"
  shows "flash_read D c (0x40000 + of_nat x) n = take n (drop x (img_of bin))"
proof -
  have "flash_read D c (of_nat (0x40000 + x)) n = map (at (cells c)) [0x40000 + x..<0x40000 + x + n]" by (rule read_at)
  also have "\<dots> = take n (drop x (img_of bin))"
    using assms by (intro nth_equalityI) (simp_all add: img_on_def add.assoc)
  finally show ?thesis by simp
qed

lemma img_get32:
  assumes "img_on (cells c) bin (length bin)" "x + 4 \<le> length bin" "8 < x"
  shows "get32 (flash_read D c (0x40000 + of_nat x) 4) 0 = get32 bin x"
proof -
  have "take 4 (drop x (img_of bin)) = map ((!) (img_of bin)) [x..<x + 4]"
    using assms(2) by (intro nth_equalityI) simp_all
  then have "take 4 (drop x (img_of bin)) = [bin ! x, bin ! (x + 1), bin ! (x + 2), bin ! (x + 3)]"
    unfolding upt4 using assms(3) by simp
  then show ?thesis unfolding img_read[OF assms(1,2)] by (simp only: get32_def nth_Cons_0 nth_Cons_numeral One_nat_def nth_Cons_Suc) simp
qed

lemma verify_loop_img:
  assumes "img_on (cells c) bin (length bin)" "52 < length bin" "length bin < 0x30000" "bin ! 8 = 0x4b"
  shows "x = 0 \<or> 48 \<le> x \<Longrightarrow> x \<le> length bin - 4 \<Longrightarrow> length buf = 48 \<Longrightarrow>
    verify_loop D c 0x40000 (of_nat (length bin - 4)) buf 48 (of_nat x) (xcrc32 (take x bin) 0xffffffff) =
      Some (xcrc32 (take (length bin - 4) bin) 0xffffffff)"
proof (induction "length bin - 4 - x" arbitrary: x buf rule: less_induct)
  case less
  let ?B = "length bin - 4"
  have lt: "(of_nat a :: u32) < of_nat b \<longleftrightarrow> a < b" if "a < 2 ^ 31" "b < 2 ^ 31" for a b
    using that by (simp add: word_less_nat_alt unat_of_nat_u32)
  have B: "?B < 2 ^ 31" "x < 2 ^ 31" "x + 48 < 2 ^ 31" using assms(3) less.prems(2) by simp_all
  show ?case
  proof (cases "x < ?B")
    case False
    then show ?thesis using less.prems(2) lt[OF B(2,1)] by (subst verify_loop.simps) simp
  next
    case True
    let ?rd = "flash_read D c (0x40000 + of_nat x) 48"
    define f where "f = (if x + 48 < ?B then 48 else ?B - x)"
    have f: "0 < f" "f \<le> 48" "x + f \<le> ?B" "x + f = ?B \<or> f = 48" using True by (auto simp: f_def)
    define buf2 where "buf2 = (if (of_nat x :: u32) = 0 then ?rd[8 := 0x4b] else ?rd)"
    have rd: "?rd = map (at (cells c)) [0x40000 + x..<0x40000 + x + 48]"
      using read_at[of c "0x40000 + x" 48] by simp
    then have lr: "length ?rd = 48" by simp
    have ifl: "length (if P then a else b) = 48" if "length a = 48" "length b = 48" for P and a b :: "u8 list" using that by simp
    have l2: "length buf2 = 48" unfolding buf2_def by (rule ifl[OF _ lr]) (simp only: length_list_update lr)
    have x0: "(of_nat x :: u32) = 0 \<longleftrightarrow> x = 0" using of_nat_u32_eq[of x 0] B by simp
    have tk: "take f buf2 = take f (drop x bin)"
    proof (rule nth_equalityI)
      fix j assume "j < length (take f buf2)"
      then have j: "j < f" "j < 48" using l2 by simp_all
      have "?rd ! j = at (cells c) (0x40000 + (x + j))" unfolding rd using j(2) by (simp add: add.assoc)
      also have "\<dots> = img_of bin ! (x + j)" using assms(1) j f(3) by (simp add: img_on_def)
      finally have r: "?rd ! j = img_of bin ! (x + j)" .
      have "buf2 ! j = bin ! (x + j)"
        using r j lr less.prems(1) assms(4) unfolding buf2_def x0 by (cases "j = 8") (auto simp: nth_list_update)
      then show "take f buf2 ! j = take f (drop x bin) ! j" using j f(3) by simp
    qed (use l2 f in simp)
    have fl: "(if of_nat ?B > (of_nat x + 48 :: u32) then 48 else unat (of_nat ?B - of_nat x :: u32)) = f"
    proof -
      have "(of_nat ?B - of_nat x :: u32) = of_nat (?B - x)" using True by (simp add: of_nat_diff)
      moreover have "unat (of_nat (?B - x) :: u32) = ?B - x" by (rule unat_of_nat_u32) (use assms(3) in simp)
      ultimately show ?thesis using lt[OF B(3,1)] by (simp add: f_def)
    qed
    have "verify_loop D c 0x40000 (of_nat ?B) buf 48 (of_nat x) (xcrc32 (take x bin) 0xffffffff) =
        verify_loop D c 0x40000 (of_nat ?B) buf2 f (of_nat x + of_nat f) (xcrc32 (take f buf2) (xcrc32 (take x bin) 0xffffffff))"
    proof -
      have "?rd @ drop 48 buf = ?rd" using less.prems(3) by simp
      moreover have "(of_nat x :: u32) < of_nat ?B" using lt[OF B(2,1)] True by simp
      ultimately show ?thesis
        by (subst verify_loop.simps) (simp only: Let_def fl buf2_def not_not if_True if_False not_True_eq_False)
    qed
    also have "xcrc32 (take f buf2) (xcrc32 (take x bin) 0xffffffff) = xcrc32 (take (x + f) bin) 0xffffffff"
      unfolding tk by (simp add: take_add xcrc32_append)
    also have "of_nat x + of_nat f = (of_nat (x + f) :: u32)" by simp
    also have "verify_loop D c 0x40000 (of_nat ?B) buf2 f (of_nat (x + f)) (xcrc32 (take (x + f) bin) 0xffffffff) =
        Some (xcrc32 (take ?B bin) 0xffffffff)"
    proof (cases "x + f = ?B")
      case True
      then show ?thesis unfolding True by (subst verify_loop.simps) simp
    next
      case F: False
      then have "f = 48" using f(4) by simp
      then show ?thesis using less.hyps[of "x + 48" buf2] l2 f True F by simp
    qed
    finally show ?thesis .
  qed
qed

lemma verify_img:
  assumes "img_on (cells (chip s)) bin (length bin)" "52 < length bin" "length bin < 0x30000" "bin ! 8 = 0x4b" "mcuBootAddr s = 0"
    "get32 bin 0x18 = of_nat (length bin)" "get32 bin (length bin - 4) = xcrc32 (take (length bin - 4) bin) 0xffffffff"
  shows "verifyFirmwareCrc D s = Some True"
proof -
  have len: "get32 (flash_read D (chip s) (0x40000 + 0x18) 4) 0 = of_nat (length bin)"
    using img_get32[OF assms(1), of 24] assms(2,6) by simp
  have m4: "(of_nat (length bin) - 4 :: u32) = of_nat (length bin - 4)" using assms(2) by (simp add: of_nat_diff)
  have crc: "get32 (flash_read D (chip s) (0x40000 + of_nat (length bin) - 4) 4) 0 = xcrc32 (take (length bin - 4) bin) 0xffffffff"
    using img_get32[OF assms(1), of "length bin - 4"] assms(2,7) m4 by (simp add: add_diff_eq[symmetric] del: of_nat_diff)
  have gt: "(48 :: u32) < of_nat (length bin - 4)"
    using assms(2,3) by (simp add: word_less_nat_alt unat_of_nat_u32 del: of_nat_diff)
  have base: "(if mcuBootAddr s \<noteq> 0 then 0 else FLASH_OTA_NEWIMAGE_ADDR) = FLASH_OTA_NEWIMAGE_ADDR" using assms(5) by simp
  show ?thesis
    unfolding verifyFirmwareCrc_def Let_def base len m4 crc
    using gt verify_loop_img[OF assms(1-4), of 0 "replicate 48 0"] by (simp add: crc del: of_nat_diff)
qed

end

section \<open>The controller between two blocks\<close>

text \<open>\<open>k\<close> counts the blocks, \<open>m\<close> the bytes of the file received; \<open>m0\<close> is the flash before.\<close>

definition ota_outside :: "mem \<Rightarrow> mem \<Rightarrow> bool" where
  "ota_outside m0 m \<longleftrightarrow> (\<forall>j < 2 ^ 32. \<not> (0x40000 \<le> j \<and> j < 0x70000) \<longrightarrow> at m j = at m0 j)"

definition rc_inv :: "('c \<Rightarrow> mem) \<Rightarrow> ('c \<Rightarrow> bool) \<Rightarrow> mem \<Rightarrow> u8 list \<Rightarrow> nat \<Rightarrow> nat \<Rightarrow> nat \<Rightarrow> 'c ota \<Rightarrow> bool" where
  "rc_inv cells writable m0 F H k m s \<longleftrightarrow>
     rc_otaInfo s = ota_info F \<and> mcuBootAddr s = 0 \<and> rcDataCount s = of_nat k \<and>
     ota_headercnt s = of_nat m \<and> ota_headersize s = (if m = 0 then 0 else of_nat H) \<and>
     ota_state s = (if m \<le> H then OTA_STA_STARTING else OTA_STA_DATAING) \<and>
     flashOffsetAddr s = of_nat (m - (H + 6)) \<and>
     crcValue s = xcrc32 (take (min (m - (H + 6)) (length (ota_bin F H) - 4)) (ota_bin F H)) 0xffffffff \<and>
     flash_ok cells writable (ota_flash s) \<and> img_on (cells (chip s)) (ota_bin F H) (m - (H + 6)) \<and>
     ota_outside m0 (cells (chip s))"

lemma ota_file_bin:
  assumes "ota_file F H B"
  shows "length (ota_bin F H) = B" "\<And>j. j < B \<Longrightarrow> ota_bin F H ! j = F ! (H + 6 + j)"
  using assms by (simp_all add: ota_file_def ota_bin_def)

lemma ota_file_flag: "ota_file F H B \<Longrightarrow> ota_bin F H ! 8 = 0x4b"
proof -
  assume a: "ota_file F H B"
  then have t: "take 4 (drop 8 (ota_bin F H)) = [0x4b, 0x4e, 0x4c, 0x54]" by (simp add: ota_file_def)
  have "length (ota_bin F H) > 12" using a by (simp add: ota_file_def ota_bin_def)
  then show ?thesis using arg_cong[OF t, of "\<lambda>l. l ! 0"] by simp
qed

lemma rc_inv_cong:
  assumes "rc_inv cells writable m0 F H k m s" "rc_otaInfo s' = rc_otaInfo s" "mcuBootAddr s' = mcuBootAddr s" "rcDataCount s' = of_nat k'"
    "ota_headercnt s' = ota_headercnt s" "ota_headersize s' = ota_headersize s" "ota_state s' = ota_state s"
    "flashOffsetAddr s' = flashOffsetAddr s" "crcValue s' = crcValue s" "ota_flash s' = ota_flash s"
  shows "rc_inv cells writable m0 F H k' m s'"
  using assms by (simp add: rc_inv_def)

context nor_flash begin

lemma DataProcess_inv:
  assumes "ota_file F H B" "rc_inv cells writable m0 F H k (48 * k) s" "L = min 48 (length F - 48 * k)" "48 * k < length F"
    "\<And>j. j < L \<Longrightarrow> p j = F ! (48 * k + j)"
  obtains s' where "ota_DataProcess D (of_nat L) p s = (True, s')" "rc_inv cells writable m0 F H k (48 * k + L) s'"
    "autoPollingCb s' = autoPollingCb s" "tryPollingCb s' = tryPollingCb s" "g_tlAppDataSeqNo s' = g_tlAppDataSeqNo s"
    "ota_out s' = ota_out s" "ota_pairingRef s' = ota_pairingRef s"
proof -
  let ?m = "48 * k" and ?bin = "ota_bin F H"
  note f = assms(1)[unfolded ota_file_def] and bin = ota_file_bin[OF assms(1)]
  have N: "length F = H + 6 + B" "length F < 0x30000" "52 < B" "56 \<le> H" "H mod 48 \<le> 42" using f by simp_all
  have "H < 0x30000" using N by linarith
  then have H31: "H < 2 ^ 31" by simp
  have inv: "rc_otaInfo s = ota_info F" "mcuBootAddr s = 0" "rcDataCount s = of_nat k"
     "ota_headercnt s = of_nat ?m" "ota_headersize s = (if ?m = 0 then 0 else of_nat H)"
     "ota_state s = (if ?m \<le> H then OTA_STA_STARTING else OTA_STA_DATAING)" "flashOffsetAddr s = of_nat (?m - (H + 6))"
     "crcValue s = xcrc32 (take (min (?m - (H + 6)) (length ?bin - 4)) ?bin) 0xffffffff"
     "flash_ok cells writable (ota_flash s)" "img_on (cells (chip s)) ?bin (?m - (H + 6))" "ota_outside m0 (cells (chip s))"
    using assms(2) by (simp_all only: rc_inv_def)
  have com: "52 < length ?bin" "?bin ! 8 = 0x4b" "H + 6 + length ?bin < 0x30000" "imageSize (rc_otaInfo s) = of_nat (H + 6 + length ?bin)"
    using N(1-3) f ota_file_flag[OF assms(1)] bin(1) inv(1) by (simp_all add: ota_info_def)
  have L: "0 < L" "L \<le> 48" "unat (of_nat L :: u8) = L" "?m + L \<le> length F" using assms(3,4) by (simp_all add: unat_of_nat_small)
  show thesis
  proof (cases "?m + 48 \<le> H")
    case True
    then have L48: "L = 48" using N(1) assms(3) by simp
    have st: "ota_state s = OTA_STA_STARTING" using inv(6) True by simp
    define s' where "s' = (if k = 0 then s\<lparr>ota_headercnt := 48, ota_headersize := of_nat H\<rparr> else s\<lparr>ota_headercnt := of_nat (?m + 48)\<rparr>)"
    have sc: "hdr_scan 48 p 0 s = (48, s')"
    proof (cases "k = 0")
      case True
      have g: "g16 p 6 = get16 F 6" "g16 p 10 = get16 F 10" "g16 p 12 = get16 F 12" "g32 p 14 = get32 F 14"
        using assms(5) True L48 by (simp_all add: g16_eq g32_eq get16_def get32_def)
      have h: "(ucast (get16 F 6) :: u32) = of_nat H" "48 \<le> unat (get16 F 6)" using f unat_u16_u32[of "get16 F 6"] by (metis of_nat_unat, simp)
      have "hdr_scan 48 p 0 s = (48, s\<lparr>ota_headercnt := 48, ota_headersize := ucast (g16 p 6),
          rc_otaInfo := (rc_otaInfo s)\<lparr>manufaurerCode := g16 p 10, chipType := g16 p 12, fileVer := g32 p 14\<rparr>\<rparr>)"
        by (rule hdr_scan_first) (use inv(4,5) True g h in simp_all)
      also have "\<dots> = (48, s')" using inv(1) True by (cases s) (simp add: s'_def g h(1) ota_info_def)
      finally show ?thesis .
    next
      case False
      have "hdr_scan 48 p 0 s = (48, s\<lparr>ota_headercnt := of_nat (?m + 48)\<rparr>)"
        by (rule hdr_scan_inside[OF inv(4) _ _ True H31]) (use inv(5) False in simp_all)
      then show ?thesis using False by (simp only: s'_def if_False)
    qed
    have "ota_DataProcess D (of_nat L) p s = (True, s')"
    proof -
      have "ota_state s' = OTA_STA_STARTING" using st by (simp add: s'_def)
      then show ?thesis unfolding ota_DataProcess_def L(3) using st sc L48 by simp
    qed
    moreover have "rc_inv cells writable m0 F H k (48 * k + L) s'"
      using inv True by (simp add: rc_inv_def s'_def L48)
    ultimately show thesis by (rule that) (simp_all add: s'_def)
  next
    case False
    show thesis
    proof (cases "?m \<le> H")
      case True
      then have hm: "H - ?m = H mod 48"
        using False by (metis Suc_eq_plus1 add.commute div_mod_decomp le_add_diff_inverse mod_less mod_mult_self2 not_le_imp_less nat_add_left_cancel_less)
      have L48: "L = 48" using N True assms(3) by simp
      have k: "48 \<le> ?m" using False N(4) by (cases k) simp_all
      define i where "i = H - ?m + 6"
      have i: "i \<le> 48" "?m + i = H + 6" using hm N(5) True by (simp_all add: i_def)
      let ?s1 = "s\<lparr>ota_state := OTA_STA_DATAING, ota_headercnt := of_nat (H + 6)\<rparr>"
      have st: "ota_state s = OTA_STA_STARTING" using inv(6) True by simp
      have sc: "hdr_scan 48 p 0 s = (i, ?s1)" unfolding i_def
        by (rule hdr_scan_end[OF inv(4) _ k True _ H31]) (use inv(5) k False in simp_all)
      have off0: "?m - (H + 6) = 0" using True by simp
      obtain c' where c': "ota_DataProcess D (of_nat L) p s = (True, ?s1\<lparr>ota_headercnt := of_nat (H + 6 + (0 + (48 - i))),
          ota_flash := (flash_unlock (ota_flash ?s1))\<lparr>fl_chip := c'\<rparr>, flashOffsetAddr := of_nat (0 + (48 - i)),
          crcValue := xcrc32 (take (min (0 + (48 - i)) (length ?bin - 4)) ?bin) 0xffffffff\<rparr>)"
        "writable c'" "img_on (cells c') ?bin (0 + (48 - i))"
        "\<And>j. j < 2 ^ 32 \<Longrightarrow> \<not> (0x40000 \<le> j \<and> j < 0x40000 + length ?bin) \<Longrightarrow> at (cells c') j = at (cells (chip ?s1)) j"
      proof (rule DataProcess_data[of s L p i ?s1 "48 - i" ?bin 0 H])
        show "(if ota_state s = OTA_STA_STARTING then hdr_scan L p 0 s else (0, s)) = (i, ?s1)" using st sc L48 by simp
        show "L = i + (48 - i)" "0 < L" "L \<le> 48" using L48 i(1) by simp_all
        show "0 + (48 - i) \<le> length ?bin" using com(1) by simp
        fix j assume j: "j < 48 - i"
        then have "p (i + j) = F ! (?m + (i + j))" using assms(5)[of "i + j"] L48 by simp
        also have "?m + (i + j) = H + 6 + j" using i(2) by simp
        finally show "p (i + j) = ?bin ! (0 + j)" using bin(2)[of j] j N(3) by simp
      next
        show "ota_state ?s1 = OTA_STA_DATAING" "ota_headercnt ?s1 = of_nat (H + 6 + 0)" "flashOffsetAddr ?s1 = of_nat 0"
          "mcuBootAddr ?s1 = 0" "flash_ok cells writable (ota_flash ?s1)" using inv(2,7,9) off0 by simp_all
        show "imageSize (rc_otaInfo ?s1) = of_nat (H + 6 + length ?bin)" using com(4) by simp
        show "crcValue ?s1 = xcrc32 (take (min 0 (length ?bin - 4)) ?bin) 0xffffffff" using inv(8) off0 by simp
        show "img_on (cells (chip ?s1)) ?bin 0" using inv(10) off0 by simp
      qed (rule com | blast)+
      show thesis
      proof (rule that[OF c'(1)])
        have e: "H + 6 + (0 + (48 - i)) = ?m + L" "?m + L - (H + 6) = 0 + (48 - i)" using i L48 by simp_all
        show "rc_inv cells writable m0 F H k (48 * k + L) (?s1\<lparr>ota_headercnt := of_nat (H + 6 + (0 + (48 - i))),
          ota_flash := (flash_unlock (ota_flash ?s1))\<lparr>fl_chip := c'\<rparr>, flashOffsetAddr := of_nat (0 + (48 - i)),
          crcValue := xcrc32 (take (min (0 + (48 - i)) (length ?bin - 4)) ?bin) 0xffffffff\<rparr>)"
          unfolding e(1) rc_inv_def e(2) using inv c'(2-4) False L48 k flash_unlock_ok[OF inv(9)] N bin(1)
          by (auto simp: ota_outside_def flash_ok_def split: option.splits)
      qed simp_all
    next
      case gt: False
      then have "H + 6 \<le> ?m"
      proof -
        have "H < 48 * k" using gt by simp
        then have "H div 48 < k" by simp
        then have "48 * (H div 48) + 48 \<le> 48 * k" by simp
        then show ?thesis using N(5) mult_div_mod_eq[of 48 H] by linarith
      qed
      then obtain off where off: "?m = H + 6 + off" by (metis le_Suc_ex)
      have st: "ota_state s = OTA_STA_DATAING" using inv(6) gt by simp
      have o: "?m - (H + 6) = off" using off by simp
      obtain c' where c': "ota_DataProcess D (of_nat L) p s = (True, s\<lparr>ota_headercnt := of_nat (H + 6 + (off + L)),
          ota_flash := (flash_unlock (ota_flash s))\<lparr>fl_chip := c'\<rparr>, flashOffsetAddr := of_nat (off + L),
          crcValue := xcrc32 (take (min (off + L) (length ?bin - 4)) ?bin) 0xffffffff\<rparr>)"
        "writable c'" "img_on (cells c') ?bin (off + L)"
        "\<And>j. j < 2 ^ 32 \<Longrightarrow> \<not> (0x40000 \<le> j \<and> j < 0x40000 + length ?bin) \<Longrightarrow> at (cells c') j = at (cells (chip s)) j"
      proof (rule DataProcess_data[of s L p 0 s L ?bin off H])
        show "(if ota_state s = OTA_STA_STARTING then hdr_scan L p 0 s else (0, s)) = (0, s)" using st by simp
        show "L = 0 + L" "0 < L" "L \<le> 48" using L(1,2) by simp_all
        show ol: "off + L \<le> length ?bin" using L(4) off N(1) bin(1) by simp
        fix j assume j: "j < L"
        then have "p j = F ! (H + 6 + (off + j))" using assms(5)[OF j] off by (simp add: add.assoc)
        then show "p (0 + j) = ?bin ! (off + j)" using bin(2)[of "off + j"] ol j bin(1) by simp
      next
        show "ota_headercnt s = of_nat (H + 6 + off)" using inv(4) off by simp
        show "flashOffsetAddr s = of_nat off" "crcValue s = xcrc32 (take (min off (length ?bin - 4)) ?bin) 0xffffffff"
          "img_on (cells (chip s)) ?bin off" using inv(7,8,10) unfolding o by simp_all
      qed (rule com inv(2) inv(9) st | blast)+
      show thesis
      proof (rule that[OF c'(1)])
        have e: "H + 6 + (off + L) = ?m + L" "?m + L - (H + 6) = off + L" using off by simp_all
        show "rc_inv cells writable m0 F H k (48 * k + L) (s\<lparr>ota_headercnt := of_nat (H + 6 + (off + L)),
          ota_flash := (flash_unlock (ota_flash s))\<lparr>fl_chip := c'\<rparr>, flashOffsetAddr := of_nat (off + L),
          crcValue := xcrc32 (take (min (off + L) (length ?bin - 4)) ?bin) 0xffffffff\<rparr>)"
          unfolding e(1) rc_inv_def e(2) using inv c'(2-4) gt flash_unlock_ok[OF inv(9)] N bin(1)
          by (auto simp: ota_outside_def flash_ok_def split: option.splits)
      qed simp_all
    qed
  qed
qed

end

section \<open>The two ends, coupled\<close>

text \<open>The last frame an end has sent, and a round: the target gets the controller's, the controller the answer.\<close>

definition sent :: "'c ota \<Rightarrow> u8 list" where
  "sent s = last (concat (map (\<lambda>e. case e of Send _ f \<Rightarrow> [f] | _ \<Rightarrow> []) (ota_out s)))"

definition ota_round :: "'d drv_flash \<Rightarrow> 'c drv_flash \<Rightarrow> u8 list \<Rightarrow> buf \<Rightarrow> 'd ota \<times> 'c ota \<Rightarrow> ('d ota \<times> 'c ota) option" where
  "ota_round dt dc stack junk tc =
     (case tl_appDataIndicate (tl_appOtaCmdHandler_target dt True stack) (\<lambda>_. Some) (deliver junk (sent (snd tc))) (fst tc) of
        None \<Rightarrow> None
      | Some t \<Rightarrow>
          map_option (\<lambda>c. (t, c))
            (tl_appDataIndicate (tl_appOtaCmdHandler_controller dc True) (\<lambda>_. Some) (deliver junk (sent t)) (snd tc)))"

primrec ota_rounds ::
  "'d drv_flash \<Rightarrow> 'c drv_flash \<Rightarrow> u8 list \<Rightarrow> (nat \<Rightarrow> buf) \<Rightarrow> nat \<Rightarrow> 'd ota \<times> 'c ota \<Rightarrow> ('d ota \<times> 'c ota) option" where
  "ota_rounds dt dc stack junk 0 tc = Some tc"
| "ota_rounds dt dc stack junk (Suc n) tc =
     (case ota_rounds dt dc stack junk n tc of None \<Rightarrow> None | Some tc' \<Rightarrow> ota_round dt dc stack (junk n) tc')"

lemma sent_send [simp]: "sent (send_frame cmd len body s) = [0x31, g_tlAppDataSeqNo s, cmd, len] @ body"
  by (simp add: sent_def send_frame_def emit_def)

lemma sent_emit: "(case e of Send _ _ \<Rightarrow> False | _ \<Rightarrow> True) \<Longrightarrow> sent (emit e s) = sent s"
  by (cases e) (simp_all add: sent_def emit_def)

lemma sent_cong: "ota_out s' = ota_out s \<Longrightarrow> sent s' = sent s"
  by (simp add: sent_def)

text \<open>Dispatch of a delivered frame.\<close>

lemma indicate:
  assumes "f = [0x31, q, cmd, len] @ body"
  shows "tl_appDataIndicate h audio (deliver junk f) s = h (deliver junk f) s" "deliver junk f 2 = cmd" "deliver junk f 1 = q"
    "(\<lambda>i. deliver junk f (4 + i)) = pld junk f"
  by (simp_all add: assms tl_appDataIndicate_def deliver_def pld_def)

section \<open>The target's answers\<close>

definition file_on :: "mem \<Rightarrow> u8 list \<Rightarrow> bool" where
  "file_on m F \<longleftrightarrow> (\<forall>j < length F. at m (0x40000 + j) = F ! j)"

definition tg_inv :: "('d \<Rightarrow> mem) \<Rightarrow> u8 list \<Rightarrow> 'd ota \<Rightarrow> bool" where
  "tg_inv cells F t \<longleftrightarrow> rc_otaInfo t = ota_info F \<and> ota_state t = OTA_BIN_VALID \<and> ota_headersize t = of_nat (length F) \<and>
     mcuBootAddr t = 0 \<and> file_on (cells (chip t)) F"

context nor_flash begin

lemma file_read:
  assumes "file_on (cells c) F" "x + n \<le> length F"
  shows "flash_read D c (0x40000 + of_nat x) n = take n (drop x F)"
proof -
  have "flash_read D c (of_nat (0x40000 + x)) n = map (at (cells c)) [0x40000 + x..<0x40000 + x + n]" by (rule read_at)
  also have "\<dots> = take n (drop x F)"
    using assms by (intro nth_equalityI) (simp_all add: file_on_def add.assoc)
  finally show ?thesis by simp
qed

lemma dataReqHandler_eq:
  assumes "pre_of p = h" "fileVer h = fileVer (rc_otaInfo t)" "chipType h = chipType (rc_otaInfo t)"
    "manufaurerCode h = manufaurerCode (rc_otaInfo t)" "ota_state t = OTA_BIN_VALID" "imageSize h * of_nat OTA_FRAMESIZE = cnt"
    "(if cnt + of_nat OTA_FRAMESIZE < ota_headersize t then OTA_FRAMESIZE else unat (ota_headersize t) mod OTA_FRAMESIZE) = n"
    "flash_read d (chip t) (new_base t + cnt) n = bs"
  shows "ota_dataReqHandler d True p t = Some (send_frame TL_CMD_OTA_DATA_RSP (of_nat (4 + 13 + n))
    (pre_bytes ((rc_otaInfo t)\<lparr>imageSize := imageSize h\<rparr>) @ [of_nat n] @ bs) (t\<lparr>ota_headercnt := cnt\<rparr>))"
  using assms(1-5) unfolding assms(8)[symmetric] unfolding assms(7)[symmetric] unfolding assms(6)[symmetric]
  by (cases t) (simp add: ota_dataReqHandler_def Let_def new_base_def)

lemma target_data:
  assumes "tg_inv cells F t" "length F < 0x30000" "length F mod 48 \<noteq> 0 \<or> 48 * k + 48 < length F" "48 * k < length F" "L = min 48 (length F - 48 * k)"
    "f = [0x31, q, 5, 12] @ pre_bytes ((ota_info F)\<lparr>imageSize := of_nat k\<rparr>)" "seq_number t \<noteq> ucast q"
  obtains t' where "tl_appDataIndicate (tl_appOtaCmdHandler_target D True stack) (\<lambda>_. Some) (deliver junk f) t = Some t'"
    "sent t' = [0x31, g_tlAppDataSeqNo t, 6, of_nat (17 + L)] @ pre_bytes ((ota_info F)\<lparr>imageSize := of_nat k\<rparr>) @ of_nat L # take L (drop (48 * k) F)"
    "tg_inv cells F t'" "seq_number t' = ucast q"
proof -
  have inv: "rc_otaInfo t = ota_info F" "ota_state t = OTA_BIN_VALID" "ota_headersize t = of_nat (length F)" "mcuBootAddr t = 0" "file_on (cells (chip t)) F"
    using assms(1) by (simp_all add: tg_inv_def)
  note ind = indicate[OF assms(6)]
  have pre: "pre_of (pld junk f) = (ota_info F)\<lparr>imageSize := of_nat k\<rparr>"
    unfolding assms(6) using pre_of_pld[of "[0x31, q, 5, 12]" junk "(ota_info F)\<lparr>imageSize := of_nat k\<rparr>" "[]"] by simp
  have L: "L \<le> 48" "48 * k + L \<le> length F" using assms(4,5) by simp_all
  have cnt: "(of_nat k * of_nat OTA_FRAMESIZE :: u32) = of_nat (48 * k)" by simp
  have rl: "(if of_nat (48 * k) + of_nat OTA_FRAMESIZE < (of_nat (length F) :: u32) then OTA_FRAMESIZE
      else unat (of_nat (length F) :: u32) mod OTA_FRAMESIZE) = L"
  proof -
    have u: "unat (of_nat (48 * k + 48) :: u32) = 48 * k + 48" "unat (of_nat (length F) :: u32) = length F"
      by (rule unat_of_nat_u32, use assms(2,4) in simp)+
    have lt: "of_nat (48 * k) + of_nat OTA_FRAMESIZE < (of_nat (length F) :: u32) \<longleftrightarrow> 48 * k + 48 < length F"
      unfolding of_nat_add[symmetric] word_less_nat_alt u ..
    have m: "length F mod 48 = length F - 48 * k" if "\<not> 48 * k + 48 < length F"
    proof -
      have "length F \<noteq> 48 * k + 48" using assms(3) that by auto
      then have "length F = 48 * k + (length F - 48 * k)" "length F - 48 * k < 48" using that assms(4) by simp_all
      then show ?thesis by (metis mod_less mod_mult_self4)
    qed
    have a: "L = 48" if "48 * k + 48 < length F" using that assms(5) by linarith
    have b: "L = length F - 48 * k" if "\<not> 48 * k + 48 < length F" using that assms(5) by linarith
    show ?thesis unfolding lt u(2) using m a b by (cases "48 * k + 48 < length F") simp_all
  qed
  let ?t = "t\<lparr>seq_number := ucast q, ota_headercnt := of_nat (48 * k)\<rparr>"
  let ?t' = "send_frame TL_CMD_OTA_DATA_RSP (of_nat (4 + 13 + L))
      (pre_bytes ((rc_otaInfo ?t)\<lparr>imageSize := of_nat k\<rparr>) @ [of_nat L] @ take L (drop (48 * k) F)) ?t"
  have rd: "flash_read D (chip t) (0x40000 + of_nat (48 * k)) L = take L (drop (48 * k) F)"
    by (rule file_read[OF inv(5) L(2)])
  have "ota_dataReqHandler D True (pld junk f) (t\<lparr>seq_number := ucast q\<rparr>) = Some ?t'"
  proof -
    let ?u = "t\<lparr>seq_number := ucast q\<rparr>" and ?r = "(ota_info F)\<lparr>imageSize := of_nat k\<rparr>"
    have hs: "ota_headersize ?u = of_nat (length F)" and nb: "new_base ?u = 0x40000" and ch: "chip ?u = chip t"
      using inv(3,4) by (simp_all add: new_base_def)
    have "ota_dataReqHandler D True (pld junk f) ?u = Some (send_frame TL_CMD_OTA_DATA_RSP (of_nat (4 + 13 + L))
        (pre_bytes ((rc_otaInfo ?u)\<lparr>imageSize := imageSize ?r\<rparr>) @ [of_nat L] @ take L (drop (48 * k) F)) (?u\<lparr>ota_headercnt := of_nat (48 * k)\<rparr>))"
      by (rule dataReqHandler_eq[OF pre]; (unfold hs nb ch)?) (use inv(1,2) rl rd in simp_all)
    then show ?thesis by simp
  qed
  then have "tl_appDataIndicate (tl_appOtaCmdHandler_target D True stack) (\<lambda>_. Some) (deliver junk f) t = Some ?t'"
    unfolding ind(1) tl_appOtaCmdHandler_target_def Let_def ind(2-4) using assms(7) by simp
  moreover have "tg_inv cells F ?t'" "seq_number ?t' = ucast q" using inv by (simp_all add: tg_inv_def send_frame_def emit_def)
  moreover have "sent ?t' = [0x31, g_tlAppDataSeqNo t, 6, of_nat (17 + L)] @ pre_bytes ((ota_info F)\<lparr>imageSize := of_nat k\<rparr>) @ of_nat L # take L (drop (48 * k) F)"
    using inv(1) by simp
  ultimately show thesis using that by blast
qed

end

section \<open>The controller's step\<close>

lemma unon_fields:
  "rc_otaInfo (unon_auto s) = rc_otaInfo s" "mcuBootAddr (unon_auto s) = mcuBootAddr s" "rcDataCount (unon_auto s) = rcDataCount s"
  "ota_headercnt (unon_auto s) = ota_headercnt s" "ota_headersize (unon_auto s) = ota_headersize s" "ota_state (unon_auto s) = ota_state s"
  "flashOffsetAddr (unon_auto s) = flashOffsetAddr s" "crcValue (unon_auto s) = crcValue s" "ota_flash (unon_auto s) = ota_flash s"
  "g_tlAppDataSeqNo (unon_auto s) = g_tlAppDataSeqNo s"
  "rc_otaInfo (unon_try s) = rc_otaInfo s" "mcuBootAddr (unon_try s) = mcuBootAddr s" "rcDataCount (unon_try s) = rcDataCount s"
  "ota_headercnt (unon_try s) = ota_headercnt s" "ota_headersize (unon_try s) = ota_headersize s" "ota_state (unon_try s) = ota_state s"
  "flashOffsetAddr (unon_try s) = flashOffsetAddr s" "crcValue (unon_try s) = crcValue s" "ota_flash (unon_try s) = ota_flash s"
  "g_tlAppDataSeqNo (unon_try s) = g_tlAppDataSeqNo s"
  by (simp_all add: unon_auto_def unon_try_def emit_def split: option.splits)

lemma dataReqCb_fields:
  assumes "ota_dataReqCb True s = Some s'"
  shows "rc_otaInfo s' = rc_otaInfo s" "mcuBootAddr s' = mcuBootAddr s" "rcDataCount s' = rcDataCount s"
    "ota_headercnt s' = ota_headercnt s" "ota_headersize s' = ota_headersize s" "ota_state s' = ota_state s"
    "flashOffsetAddr s' = flashOffsetAddr s" "crcValue s' = crcValue s" "ota_flash s' = ota_flash s"
    "g_tlAppDataSeqNo s' = g_tlAppDataSeqNo s + 1"
    "sent s' = [0x31, g_tlAppDataSeqNo s, 5, 12] @ pre_bytes ((rc_otaInfo s)\<lparr>imageSize := rcDataCount s\<rparr>)"
  using assms by (auto simp: ota_dataReqCb_def Let_def on_try_def data_req_def send_frame_def emit_def sent_def unon_fields)

context nor_flash begin

text \<open>A block in the middle: it is stored and the next one requested.\<close>

lemma controller_data:
  assumes "ota_file F H B" "rc_inv cells writable m0 F H k (48 * k) s" "L = min 48 (length F - 48 * k)" "48 * k < length F"
    "f = [0x31, q, 6, len] @ pre_bytes ((ota_info F)\<lparr>imageSize := of_nat k\<rparr>) @ of_nat L # take L (drop (48 * k) F)"
  shows "48 * k + 48 < length F \<Longrightarrow> \<exists>s'. tl_appDataIndicate (tl_appOtaCmdHandler_controller D True) (\<lambda>_. Some) (deliver junk f) s = Some s' \<and>
      rc_inv cells writable m0 F H (Suc k) (48 * Suc k) s' \<and> g_tlAppDataSeqNo s' = g_tlAppDataSeqNo s + 1 \<and>
      sent s' = [0x31, g_tlAppDataSeqNo s, 5, 12] @ pre_bytes ((ota_info F)\<lparr>imageSize := of_nat (Suc k)\<rparr>)"
    and "\<not> 48 * k + 48 < length F \<Longrightarrow> \<exists>s'. tl_appDataIndicate (tl_appOtaCmdHandler_controller D True) (\<lambda>_. Some) (deliver junk f) s = Some s' \<and>
      ota_state s' = OTA_STA_SUCCESS \<and> autoPollingCb s' = Some ota_stopRspCb \<and> mcuBootAddr s' = 0 \<and> rc_otaInfo s' = ota_info F \<and>
      flash_ok cells writable (ota_flash s') \<and> img_on (cells (chip s')) (ota_bin F H) B \<and> ota_outside m0 (cells (chip s'))"
proof -
  note ff = assms(1)[unfolded ota_file_def] and bin = ota_file_bin[OF assms(1)]
  have N: "length F = H + 6 + B" "length F < 0x30000" "52 < B" using ff by simp_all
  have L: "0 < L" "L \<le> 48" "48 * k + L \<le> length F" using assms(3,4) by simp_all
  have l: "length (take L (drop (48 * k) F)) = L" using L(3) by simp
  let ?r = "(ota_info F)\<lparr>imageSize := of_nat k\<rparr>" and ?p = "pld junk f"
  note ind = indicate[OF assms(5)]
  have pre: "pre_of ?p = ?r"
    unfolding assms(5) using pre_of_pld[of "[0x31, q, 6, len]" junk ?r] by simp
  have pl: "payloadSize ?p = of_nat L" "payload_at ?p = (\<lambda>i. if i < L then F ! (48 * k + i) else junk (17 + i))"
    using pld_data[of "[0x31, q, 6, len]" "take L (drop (48 * k) F)" junk ?r] L l unfolding assms(5) by (auto simp: fun_eq_iff)
  have L0: "(of_nat L :: u8) \<noteq> 0" 
  proof -
    have "unat (of_nat L :: u8) = L" by (rule unat_of_nat_small) (use L(2) in simp)
    then show ?thesis using L(1) by (intro notI) simp
  qed
  have inv: "rc_otaInfo s = ota_info F" "rcDataCount s = of_nat k" using assms(2) by (simp_all add: rc_inv_def)
  let ?s1 = "unon_try (unon_auto s)"
  have r1: "rc_inv cells writable m0 F H k (48 * k) ?s1"
    by (rule rc_inv_cong[OF assms(2)]) (simp_all add: unon_fields inv(2))
  obtain s2 where s2: "ota_DataProcess D (of_nat L) (payload_at ?p) ?s1 = (True, s2)" "rc_inv cells writable m0 F H k (48 * k + L) s2"
    "g_tlAppDataSeqNo s2 = g_tlAppDataSeqNo ?s1"
    using DataProcess_inv[OF assms(1) r1 assms(3,4), of "payload_at ?p"] pl(2) by auto
  let ?s4 = "s2\<lparr>rcDataCount := rcDataCount s2 + 1\<rparr>"
  have r2: "rc_otaInfo s2 = ota_info F" "mcuBootAddr s2 = 0" "rcDataCount s2 = of_nat k" "ota_headercnt s2 = of_nat (48 * k + L)"
    "ota_headersize s2 = of_nat H" "crcValue s2 = xcrc32 (take (min (48 * k + L - (H + 6)) (length (ota_bin F H) - 4)) (ota_bin F H)) 0xffffffff"
    "flash_ok cells writable (ota_flash s2)" "img_on (cells (chip s2)) (ota_bin F H) (48 * k + L - (H + 6))" "ota_outside m0 (cells (chip s2))"
    using s2(2) L(1) by (simp_all add: rc_inv_def)
  have ge: "ota_headercnt ?s4 \<ge> imageSize (rc_otaInfo ?s4) \<longleftrightarrow> length F \<le> 48 * k + L"
  proof -
    have u: "unat (of_nat (48 * k + L) :: u32) = 48 * k + L" "unat (of_nat (length F) :: u32) = length F"
      by (rule unat_of_nat_u32, use N(2) L(3) in simp)+
    have "imageSize (rc_otaInfo ?s4) = of_nat (length F)" "ota_headercnt ?s4 = of_nat (48 * k + L)" using r2(1,4) by (simp_all add: ota_info_def)
    then show ?thesis unfolding word_le_nat_alt by (simp only: u)
  qed
  have acc: "manufaurerCode ?r = manufaurerCode (rc_otaInfo s) \<and> chipType ?r = chipType (rc_otaInfo s) \<and> fileVer ?r = fileVer (rc_otaInfo s) \<and> imageSize ?r = rcDataCount s"
    using inv by simp
  have disp: "tl_appDataIndicate (tl_appOtaCmdHandler_controller D True) (\<lambda>_. Some) (deliver junk f) s = ota_dataRspHandler D True ?p s"
    unfolding ind(1) tl_appOtaCmdHandler_controller_def Let_def ind(2-4) by simp
  show "\<exists>s'. tl_appDataIndicate (tl_appOtaCmdHandler_controller D True) (\<lambda>_. Some) (deliver junk f) s = Some s' \<and>
      rc_inv cells writable m0 F H (Suc k) (48 * Suc k) s' \<and> g_tlAppDataSeqNo s' = g_tlAppDataSeqNo s + 1 \<and>
      sent s' = [0x31, g_tlAppDataSeqNo s, 5, 12] @ pre_bytes ((ota_info F)\<lparr>imageSize := of_nat (Suc k)\<rparr>)" if more: "48 * k + 48 < length F"
  proof -
    have L48: "L = 48" using more assms(3) by simp
    obtain s' where s': "ota_dataReqCb True ?s4 = Some s'" by (simp add: ota_dataReqCb_def Let_def)
    have "ota_dataRspHandler D True ?p s = Some s'"
      unfolding ota_dataRspHandler_def Let_def pre if_P[OF acc] pl(1) if_not_P[OF L0] s2(1) prod.case
      using ge more L48 s' by simp
    moreover have "rc_inv cells writable m0 F H (Suc k) (48 * Suc k) s'"
    proof -
      have e: "48 * k + L = 48 * Suc k" using L48 by simp
      show ?thesis by (rule rc_inv_cong[OF s2(2)[unfolded e]]) (simp_all add: dataReqCb_fields[OF s'] r2(3))
    qed
    moreover have "g_tlAppDataSeqNo s' = g_tlAppDataSeqNo s + 1"
      "sent s' = [0x31, g_tlAppDataSeqNo s, 5, 12] @ pre_bytes ((ota_info F)\<lparr>imageSize := of_nat (Suc k)\<rparr>)"
      by (simp_all add: dataReqCb_fields[OF s'] r2(1,3) s2(3) unon_fields add.commute)
    ultimately show ?thesis unfolding disp by blast
  qed
  show "\<exists>s'. tl_appDataIndicate (tl_appOtaCmdHandler_controller D True) (\<lambda>_. Some) (deliver junk f) s = Some s' \<and>
      ota_state s' = OTA_STA_SUCCESS \<and> autoPollingCb s' = Some ota_stopRspCb \<and> mcuBootAddr s' = 0 \<and> rc_otaInfo s' = ota_info F \<and>
      flash_ok cells writable (ota_flash s') \<and> img_on (cells (chip s')) (ota_bin F H) B \<and> ota_outside m0 (cells (chip s'))"
    if last: "\<not> 48 * k + 48 < length F"
  proof -
    have e: "48 * k + L = length F" "48 * k + L - (H + 6) = B" using last assms(3,4) N(1) by simp_all
    let ?bin = "ota_bin F H" and ?s' = "on_auto ota_stopRspCb 100000 (?s4\<lparr>ota_state := OTA_STA_SUCCESS, ota_RetryCnt := DATAREQ_RETRYCNT\<rparr>)"
    have full: "img_on (cells (chip ?s4)) ?bin (length ?bin)" using r2(8) unfolding e(2) bin(1) by simp
    have cv: "crcValue ?s4 = xcrc32 (take (B - 4) ?bin) 0xffffffff" using r2(6) unfolding e(2) bin(1) by simp
    have fb: "52 < length ?bin" "length ?bin < 0x30000" "?bin ! 8 = 0x4b" "get32 ?bin 0x18 = of_nat (length ?bin)"
      "get32 ?bin (length ?bin - 4) = xcrc32 (take (length ?bin - 4) ?bin) 0xffffffff"
      using ff N bin(1) ota_file_flag[OF assms(1)] by simp_all
    have ver: "verifyFirmwareCrc D ?s4 = Some True"
      by (rule verify_img[OF full fb(1-3) _ fb(4,5)]) (simp add: r2(2))
    have addr: "new_base ?s4 + imageSize (rc_otaInfo ?s4) - ota_headersize ?s4 - 4 - 6 = 0x40000 + of_nat (B - 4)"
    proof -
      have "(of_nat (length F) :: u32) = of_nat H + 6 + of_nat (B - 4) + 4" using N(1,3) by (simp add: of_nat_diff)
      then show ?thesis using r2(1,2,5) by (simp add: new_base_def ota_info_def del: of_nat_diff)
    qed
    have crc: "get32 (flash_read D (chip ?s4) (new_base ?s4 + imageSize (rc_otaInfo ?s4) - ota_headersize ?s4 - 4 - 6) 4) 0 = crcValue ?s4"
      unfolding addr cv using img_get32[OF full, of "B - 4"] fb(5) bin(1) N(3) by simp
    have "ota_dataRspHandler D True ?p s = Some ?s'"
      unfolding ota_dataRspHandler_def Let_def pre if_P[OF acc] pl(1) if_not_P[OF L0] s2(1) prod.case not_True_eq_False if_False
        if_P[OF iffD2[OF ge e(1)[THEN eq_imp_le[OF sym]]]] if_P[OF crc] ver option.case by simp
    moreover have "ota_state ?s' = OTA_STA_SUCCESS" "autoPollingCb ?s' = Some ota_stopRspCb" "mcuBootAddr ?s' = 0" "rc_otaInfo ?s' = ota_info F"
      "flash_ok cells writable (ota_flash ?s')" "img_on (cells (chip ?s')) ?bin B" "ota_outside m0 (cells (chip ?s'))"
      using r2(1,2,7,8,9) e(2) by (simp_all add: on_auto_def emit_def)
    ultimately show ?thesis unfolding disp by blast
  qed
qed

end

section \<open>The handshake\<close>

lemma get_take: "i + 4 \<le> n \<Longrightarrow> get32 (take n F) i = get32 F i" "i + 2 \<le> n \<Longrightarrow> get16 (take n F) i = get16 F i"
  by (simp_all add: get32_def get16_def)

lemma get_drop: "i + 4 + x \<le> length F \<Longrightarrow> get32 (drop x F) i = get32 F (x + i)" "i + 2 + x \<le> length F \<Longrightarrow> get16 (drop x F) i = get16 F (x + i)"
  by (simp_all add: get32_def get16_def add.assoc)

lemma pre_of_head:
  assumes "length h = 4"
  shows "fileVer (pre_of (pld junk (h @ pre_head r))) = fileVer r" "chipType (pre_of (pld junk (h @ pre_head r))) = chipType r"
    "manufaurerCode (pre_of (pld junk (h @ pre_head r))) = manufaurerCode r"
proof -
  let ?f = "h @ pre_head r"
  have l: "length ?f = 12" using assms by simp
  have "get32 ?f 4 = fileVer r" "get16 ?f 8 = chipType r" "get16 ?f 10 = manufaurerCode r"
  proof -
    have e: "get32 (?f @ u32_bytes 0) 4 = get32 ?f 4" "get16 (?f @ u32_bytes 0) 8 = get16 ?f 8" "get16 (?f @ u32_bytes 0) 10 = get16 ?f 10"
      using l unfolding get32_def get16_def by (simp_all only: nth_append_left)
    have p: "?f @ u32_bytes 0 = h @ pre_bytes (r\<lparr>imageSize := 0\<rparr>) @ []" by (simp add: pre_bytes_def pre_head_def)
    show "get32 ?f 4 = fileVer r" "get16 ?f 8 = chipType r" "get16 ?f 10 = manufaurerCode r"
      using get_pre_bytes[OF assms, of "r\<lparr>imageSize := 0\<rparr>" "[]"] unfolding p[symmetric] e by simp_all
  qed
  then show "fileVer (pre_of (pld junk ?f)) = fileVer r" "chipType (pre_of (pld junk ?f)) = chipType r"
    "manufaurerCode (pre_of (pld junk ?f)) = manufaurerCode r"
    using l by (simp_all add: pre_of_def pld_def g_shift g32_deliver g16_deliver)
qed

lemma of_nat_unat_eq: "unat (w :: 'a::len word) = n \<Longrightarrow> w = of_nat n"
  by (metis of_nat_unat ucast_id)

context nor_flash begin

lemma target_start:
  assumes "ota_file F H B" "file_on (cells (chip t)) F" "mcuBootAddrGet D (chip t) = 0"
    "f = [0x31, q, 1, 8] @ pre_head r" "fileVer r = firmwareVersion" "chipType r = CHIP_ID" "manufaurerCode r = TELINK_MANUFACTURER_CODE"
  obtains t' where "tl_appDataIndicate (tl_appOtaCmdHandler_target D True stack) (\<lambda>_. Some) (deliver junk f) t = Some t'"
    "sent t' = [0x31, g_tlAppDataSeqNo t, 2, 12] @ pre_bytes (ota_info F)" "tg_inv cells F t'" "seq_number t' = 0x100"
proof -
  note ff = assms(1)[unfolded ota_file_def]
  have N: "length F = H + 6 + B" "length F < 0x30000" "56 \<le> H" using ff by simp_all
  note ind = indicate[OF assms(4)]
  have h: "fileVer (pre_of (pld junk f)) = firmwareVersion" "chipType (pre_of (pld junk f)) = CHIP_ID"
    "manufaurerCode (pre_of (pld junk f)) = TELINK_MANUFACTURER_CODE"
    using pre_of_head[of "[0x31, q, 1, 8]" junk r] assms(5-7) unfolding assms(4) by simp_all
  have r4: "get32 (flash_read D (chip t) 0x40000 4) 0 = OTA_UPGRADE_FILE_ID"
    using file_read[OF assms(2), of 0 4] N ff by (simp add: get_take)
  have r56: "flash_read D (chip t) 0x40000 56 = take 56 F" using file_read[OF assms(2), of 0 56] N by simp
  have hl: "(ucast (get16 F 6) :: u32) = of_nat H" using ff unat_u16_u32[of "get16 F 6"] by (intro of_nat_unat_eq) simp
  have us: "unat (get32 F 52) = length F" "unat (get32 F (H + 2)) = B" using ff by blast+
  note tot = of_nat_unat_eq[OF us(1)] and bs = of_nat_unat_eq[OF us(2)]
  have hdr: "hdrFields_of (take 56 F) = \<lparr>otaHdrLen = get16 F 6, h_manufaurerCode = TELINK_MANUFACTURER_CODE, h_chipType = CHIP_ID,
      h_fileVer = get32 F 14, totalImageSize = of_nat (length F)\<rparr>"
    using ff tot by (simp add: hdrFields_of_def get_take)
  have r6: "flash_read D (chip t) (0x40000 + of_nat H) 6 = take 6 (drop H F)" by (rule file_read[OF assms(2)]) (use N in simp)
  have sg: "get16 (take 6 (drop H F)) 0 = 0" "get32 (take 6 (drop H F)) 2 = of_nat B"
    using ff bs N get_take(2)[of 0 6 "drop H F"] get_take(1)[of 2 6 "drop H F"] get_drop(2)[of 0 H F] get_drop(1)[of 2 H F] by (simp_all add: add.commute)
  have lt: "(of_nat H :: u32) < of_nat (length F)" "\<not> (0x30000 :: u32) \<le> of_nat (length F)"
  proof -
    have u: "unat (of_nat H :: u32) = H" "unat (of_nat (length F) :: u32) = length F" by (rule unat_of_nat_u32, use N in simp)+
    show "(of_nat H :: u32) < of_nat (length F)" "\<not> (0x30000 :: u32) \<le> of_nat (length F)"
      unfolding word_less_nat_alt word_le_nat_alt u using N by simp_all
  qed
  have sm: "(of_nat (length F) :: u32) = of_nat H + of_nat B + 6" using N(1) by simp
  let ?i = "ota_info F"
  let ?u = "(ota_initInfo D t)\<lparr>rc_otaInfo := ?i, ota_headersize := imageSize ?i, ota_headercnt := 0, ota_state := OTA_BIN_VALID\<rparr>"
  have boot: "mcuBootAddr (ota_initInfo D t) = 0" "ota_flash (ota_initInfo D t) = ota_flash t" "g_tlAppDataSeqNo (ota_initInfo D t) = g_tlAppDataSeqNo t"
    using assms(3) by (simp_all add: ota_initInfo_def)
  have nb: "new_base (ota_initInfo D t) = 0x40000" by (simp add: new_base_def boot)
  have inf: "ota_info F = \<lparr>fileVer = get32 F 14, chipType = CHIP_ID, manufaurerCode = TELINK_MANUFACTURER_CODE, imageSize = of_nat (length F)\<rparr>"
    using ff by (simp add: ota_info_def)
  have fv: "firmwareVersion < get32 F 14" using ff by simp
  have "ota_startReqHandler D True stack (pld junk f) t = Some (send_frame TL_CMD_OTA_START_RSP 12 (pre_bytes (rc_otaInfo ?u)) ?u)"
    unfolding ota_startReqHandler_def Let_def nb boot(2) r4 r56 hdr ota_hdrFields_t.simps h hl
    using r6 sg lt sm fv inf by (simp del: of_nat_add)
  then have "tl_appDataIndicate (tl_appOtaCmdHandler_target D True stack) (\<lambda>_. Some) (deliver junk f) t =
      Some ((send_frame TL_CMD_OTA_START_RSP 12 (pre_bytes (rc_otaInfo ?u)) ?u)\<lparr>seq_number := 0x100\<rparr>)"
    unfolding ind(1) tl_appOtaCmdHandler_target_def Let_def ind(2-4) by simp
  moreover have "sent ((send_frame TL_CMD_OTA_START_RSP 12 (pre_bytes (rc_otaInfo ?u)) ?u)\<lparr>seq_number := 0x100\<rparr>) =
      [0x31, g_tlAppDataSeqNo t, 2, 12] @ pre_bytes (ota_info F)"
    using sent_send[of TL_CMD_OTA_START_RSP 12 "pre_bytes (rc_otaInfo ?u)" ?u] boot(3) by (simp add: sent_def)
  moreover have "tg_inv cells F ((send_frame TL_CMD_OTA_START_RSP 12 (pre_bytes (rc_otaInfo ?u)) ?u)\<lparr>seq_number := 0x100\<rparr>)"
    using boot assms(2) by (simp add: tg_inv_def send_frame_def emit_def ota_info_def)
  ultimately show thesis using that by simp
qed

text \<open>An accepted answer to the request erases the image area behind the byte-wide boot address.\<close>

lemma startRsp_erases:
  assumes "f = [0x31, q, 2, 12] @ pre_bytes r" "manufaurerCode r = TELINK_MANUFACTURER_CODE" "chipType r = CHIP_ID"
    "fileVer r > firmwareVersion" "imageSize r < OTA_MAX_IMAGE_SIZE" "flash_ok cells writable (ota_flash s)" "mcuBootAddr s = 0"
  obtains s' c where "tl_appDataIndicate (tl_appOtaCmdHandler_controller D True) (\<lambda>_. Some) (deliver junk f) s = Some s'"
    "ota_dataReqCb True ((unon_auto s)\<lparr>rc_otaInfo := r, ota_flash := (flash_unlock (ota_flash s))\<lparr>fl_chip := c\<rparr>, ota_state := OTA_STA_STARTING\<rparr>) = Some s'"
    "writable c" "\<And>j. j < 2 ^ 32 \<Longrightarrow>
      at (cells c) j = (if 0x40000 \<le> j \<and> j < 0x40000 + (unat (imageSize r) div 4096 + 1) * 4096 then 0xff else at (cells (chip s)) j)"
proof -
  note ind = indicate[OF assms(1)]
  have pre: "pre_of (pld junk f) = r" unfolding assms(1) using pre_of_pld[of "[0x31, q, 2, 12]" junk r "[]"] by simp
  let ?s1 = "(unon_auto s)\<lparr>rc_otaInfo := r\<rparr>"
  let ?n = "unat (imageSize r) div 4096 + 1"
  have "unat (imageSize r) < 0x30000" using assms(5) by (simp add: word_less_nat_alt)
  then have n48: "?n \<le> 48" by simp
  note u = flash_unlock_ok[OF assms(6)]
  let ?c = "erase_run D (of_nat 0x40000) ?n (fl_chip (flash_unlock (ota_flash s)))"
  have c: "writable ?c" "\<And>j. j < 2 ^ 32 \<Longrightarrow> at (cells ?c) j = (if 0x40000 \<le> j \<and> j < 0x40000 + ?n * 4096 then 0xff else at (cells (chip s)) j)"
    using erase_run_at[where c = "fl_chip (flash_unlock (ota_flash s))" and a = "0x40000" and n = ?n] u n48 by simp_all
  let ?s2 = "(unon_auto s)\<lparr>rc_otaInfo := r, ota_flash := (flash_unlock (ota_flash s))\<lparr>fl_chip := ?c\<rparr>, ota_state := OTA_STA_STARTING\<rparr>"
  obtain s' where s': "ota_dataReqCb True ?s2 = Some s'" by (simp add: ota_dataReqCb_def Let_def)
  have acc: "manufaurerCode r = TELINK_MANUFACTURER_CODE \<and> chipType r = CHIP_ID \<and> fileVer r > firmwareVersion" using assms(2-4) by blast
  have nb: "new_base ?s1 = 0x40000" using assms(7) by (simp add: new_base_def unon_fields)
  have er: "fold (\<lambda>i c. flash_erase D c (0x40000 + of_nat (i * 4096))) [0..<?n] (chip (unlock ?s1)) = ?c"
    by (simp add: erase_run_def unon_fields)
  have st: "(set_chip ?c (unlock ?s1))\<lparr>ota_state := OTA_STA_STARTING\<rparr> = ?s2" by (simp add: set_chip_def unon_fields)
  have "ota_startRspHandler D True (pld junk f) s = Some s'"
    unfolding ota_startRspHandler_def Let_def pre if_P[OF acc] if_P[OF assms(5)] nb er st s' ..
  then have "tl_appDataIndicate (tl_appOtaCmdHandler_controller D True) (\<lambda>_. Some) (deliver junk f) s = Some s'"
    unfolding ind(1) tl_appOtaCmdHandler_controller_def Let_def ind(2-4) by simp
  then show thesis using that s' c by blast
qed

lemma controller_start:
  assumes "ota_file F H B" "f = [0x31, q, 2, 12] @ pre_bytes (ota_info F)" "flash_ok cells writable (ota_flash s)"
    "mcuBootAddr s = 0" "rcDataCount s = 0" "ota_headercnt s = 0" "ota_headersize s = 0" "flashOffsetAddr s = 0" "crcValue s = 0xffffffff"
  obtains s' where "tl_appDataIndicate (tl_appOtaCmdHandler_controller D True) (\<lambda>_. Some) (deliver junk f) s = Some s'"
    "rc_inv cells writable (cells (chip s)) F H 0 0 s'" "g_tlAppDataSeqNo s' = g_tlAppDataSeqNo s + 1"
    "sent s' = [0x31, g_tlAppDataSeqNo s, 5, 12] @ pre_bytes ((ota_info F)\<lparr>imageSize := 0\<rparr>)"
proof -
  note ff = assms(1)[unfolded ota_file_def] and bin = ota_file_bin[OF assms(1)]
  have N: "length F = H + 6 + B" "length F < 0x30000" using ff by simp_all
  have im: "unat (imageSize (ota_info F)) = length F" using N(2) by (simp add: ota_info_def unat_of_nat_u32)
  have acc: "manufaurerCode (ota_info F) = TELINK_MANUFACTURER_CODE" "chipType (ota_info F) = CHIP_ID" "fileVer (ota_info F) > firmwareVersion"
    using ff by (simp_all add: ota_info_def)
  have lt: "imageSize (ota_info F) < OTA_MAX_IMAGE_SIZE" using N(2) im by (simp add: word_less_nat_alt)
  let ?n = "length F div 4096 + 1"
  have n48: "?n \<le> 48" and cov: "length F < ?n * 4096" using N(2) by simp_all
  obtain s' c where s': "tl_appDataIndicate (tl_appOtaCmdHandler_controller D True) (\<lambda>_. Some) (deliver junk f) s = Some s'"
    "ota_dataReqCb True ((unon_auto s)\<lparr>rc_otaInfo := ota_info F, ota_flash := (flash_unlock (ota_flash s))\<lparr>fl_chip := c\<rparr>, ota_state := OTA_STA_STARTING\<rparr>) = Some s'"
    "writable c" "\<And>j. j < 2 ^ 32 \<Longrightarrow> at (cells c) j = (if 0x40000 \<le> j \<and> j < 0x40000 + ?n * 4096 then 0xff else at (cells (chip s)) j)"
    using startRsp_erases[OF assms(2) acc lt assms(3,4)] unfolding im by blast
  have "rc_inv cells writable (cells (chip s)) F H 0 0 s'"
  proof -
    have "img_on (cells c) (ota_bin F H) 0" unfolding img_on_def
    proof (intro allI impI)
      fix j assume "j < length (ota_bin F H)"
      then have "0x40000 + j < 2 ^ 32" "j < ?n * 4096" using bin(1) N cov by simp_all
      then show "at (cells c) (0x40000 + j) = (if j < 0 then img_of (ota_bin F H) ! j else 0xff)" using s'(4) by simp
    qed
    moreover have "ota_outside (cells (chip s)) (cells c)" unfolding ota_outside_def using s'(4) n48 by simp
    moreover have "flash_ok cells writable ((flash_unlock (ota_flash s))\<lparr>fl_chip := c\<rparr>)"
      using flash_unlock_ok[OF assms(3)] s'(3) by (simp add: flash_ok_def split: option.splits)
    ultimately show ?thesis
      unfolding rc_inv_def dataReqCb_fields(1-9)[OF s'(2)] using assms(4-9) by (simp add: unon_fields)
  qed
  moreover have "g_tlAppDataSeqNo s' = g_tlAppDataSeqNo s + 1" "sent s' = [0x31, g_tlAppDataSeqNo s, 5, 12] @ pre_bytes ((ota_info F)\<lparr>imageSize := 0\<rparr>)"
    unfolding dataReqCb_fields(10,11)[OF s'(2)] using assms(5) by (simp_all add: unon_fields)
  ultimately show thesis using that s'(1) by blast
qed

end

section \<open>The whole transfer\<close>

definition ota_coupled ::
  "('d \<Rightarrow> mem) \<Rightarrow> ('c \<Rightarrow> mem) \<Rightarrow> ('c \<Rightarrow> bool) \<Rightarrow> mem \<Rightarrow> u8 list \<Rightarrow> nat \<Rightarrow> nat \<Rightarrow> 'd ota \<times> 'c ota \<Rightarrow> bool" where
  "ota_coupled cellst cells writable m0 F H k tc \<longleftrightarrow>
     rc_inv cells writable m0 F H k (48 * k) (snd tc) \<and> tg_inv cellst F (fst tc) \<and>
     (\<exists>q. sent (snd tc) = [0x31, q, 5, 12] @ pre_bytes ((ota_info F)\<lparr>imageSize := of_nat k\<rparr>) \<and>
        seq_number (fst tc) \<noteq> ucast q \<and> g_tlAppDataSeqNo (snd tc) = q + 1)"

lemma seq_neq: "(ucast q :: u16) \<noteq> ucast (q + 1 :: u8)" "(0x100 :: u16) \<noteq> ucast (q :: u8)"
proof -
  have u: "unat (ucast x :: u16) = unat (x :: u8)" for x using u8_less_256[of x] by (simp add: unsigned_ucast_eq take_bit_nat_eq_self)
  show "(ucast q :: u16) \<noteq> ucast (q + 1)"
  proof
    assume "(ucast q :: u16) = ucast (q + 1)"
    then have "unat q = unat (q + 1)" by (metis u)
    then have "q = q + 1" by (metis of_nat_unat_eq)
    then show False by simp
  qed
  show "(0x100 :: u16) \<noteq> ucast q"
  proof
    assume "(0x100 :: u16) = ucast q"
    then have "unat (0x100 :: u16) = unat q" by (metis u)
    then show False using u8_less_256[of q] by simp
  qed
qed

lemma round_step:
  assumes "nor_flash wt rt et cellst writablet" "nor_flash wr rd er cells writable" "ota_file F H B"
    "ota_coupled cellst cells writable m0 F H k tc" "48 * k + 48 < length F"
  shows "\<exists>tc'. ota_round (mk_drv wt rt et) (mk_drv wr rd er) stack junk tc = Some tc' \<and> ota_coupled cellst cells writable m0 F H (Suc k) tc'"
proof -
  obtain t c where tc: "tc = (t, c)" by (cases tc)
  have i: "rc_inv cells writable m0 F H k (48 * k) c" "tg_inv cellst F t" using assms(4) by (simp_all add: ota_coupled_def tc)
  obtain q where q: "sent c = [0x31, q, 5, 12] @ pre_bytes ((ota_info F)\<lparr>imageSize := of_nat k\<rparr>)" "seq_number t \<noteq> ucast q" "g_tlAppDataSeqNo c = q + 1"
    using assms(4) by (auto simp: ota_coupled_def tc)
  have k: "48 * k < length F" "length F < 0x30000" using assms(3,5) by (simp_all add: ota_file_def)
  obtain t' where t': "tl_appDataIndicate (tl_appOtaCmdHandler_target (mk_drv wt rt et) True stack) (\<lambda>_. Some) (deliver junk (sent c)) t = Some t'"
    "sent t' = [0x31, g_tlAppDataSeqNo t, 6, of_nat (17 + min 48 (length F - 48 * k))] @ pre_bytes ((ota_info F)\<lparr>imageSize := of_nat k\<rparr>) @
      of_nat (min 48 (length F - 48 * k)) # take (min 48 (length F - 48 * k)) (drop (48 * k) F)"
    "tg_inv cellst F t'" "seq_number t' = ucast q"
    using nor_flash.target_data[OF assms(1) i(2) k(2) disjI2[OF assms(5)] k(1) refl q(1,2)] by blast
  obtain c' where c': "tl_appDataIndicate (tl_appOtaCmdHandler_controller (mk_drv wr rd er) True) (\<lambda>_. Some) (deliver junk (sent t')) c = Some c'"
    "rc_inv cells writable m0 F H (Suc k) (48 * Suc k) c'" "g_tlAppDataSeqNo c' = g_tlAppDataSeqNo c + 1"
    "sent c' = [0x31, g_tlAppDataSeqNo c, 5, 12] @ pre_bytes ((ota_info F)\<lparr>imageSize := of_nat (Suc k)\<rparr>)"
    using nor_flash.controller_data(1)[OF assms(2,3) i(1) refl k(1) t'(2) assms(5)] by blast
  have "ota_round (mk_drv wt rt et) (mk_drv wr rd er) stack junk tc = Some (t', c')"
    unfolding ota_round_def tc fst_conv snd_conv t'(1) option.case c'(1) by simp
  moreover have "ota_coupled cellst cells writable m0 F H (Suc k) (t', c')"
    unfolding ota_coupled_def fst_conv snd_conv
    by (intro conjI exI[of _ "g_tlAppDataSeqNo c"] c'(2) t'(3) c'(4) c'(3)) (simp only: t'(4) q(3) seq_neq(1) not_False_eq_True)
  ultimately show ?thesis by blast
qed

lemma round_last:
  assumes "nor_flash wt rt et cellst writablet" "nor_flash wr rd er cells writable" "ota_file F H B" "length F mod 48 \<noteq> 0"
    "ota_coupled cellst cells writable m0 F H k tc" "48 * k < length F" "\<not> 48 * k + 48 < length F"
  shows "\<exists>t c. ota_round (mk_drv wt rt et) (mk_drv wr rd er) stack junk tc = Some (t, c) \<and>
    ota_state c = OTA_STA_SUCCESS \<and> autoPollingCb c = Some ota_stopRspCb \<and> mcuBootAddr c = 0 \<and> rc_otaInfo c = ota_info F \<and>
    flash_ok cells writable (ota_flash c) \<and> img_on (cells (chip c)) (ota_bin F H) B \<and> ota_outside m0 (cells (chip c))"
proof -
  obtain t c where tc: "tc = (t, c)" by (cases tc)
  have i: "rc_inv cells writable m0 F H k (48 * k) c" "tg_inv cellst F t" using assms(5) by (simp_all add: ota_coupled_def tc)
  obtain q where q: "sent c = [0x31, q, 5, 12] @ pre_bytes ((ota_info F)\<lparr>imageSize := of_nat k\<rparr>)" "seq_number t \<noteq> ucast q"
    using assms(5) by (auto simp: ota_coupled_def tc)
  have N: "length F < 0x30000" using assms(3) by (simp add: ota_file_def)
  obtain t' where t': "tl_appDataIndicate (tl_appOtaCmdHandler_target (mk_drv wt rt et) True stack) (\<lambda>_. Some) (deliver junk (sent c)) t = Some t'"
    "sent t' = [0x31, g_tlAppDataSeqNo t, 6, of_nat (17 + min 48 (length F - 48 * k))] @ pre_bytes ((ota_info F)\<lparr>imageSize := of_nat k\<rparr>) @
      of_nat (min 48 (length F - 48 * k)) # take (min 48 (length F - 48 * k)) (drop (48 * k) F)"
    using nor_flash.target_data[OF assms(1) i(2) N disjI1[OF assms(4)] assms(6) refl q] by blast
  obtain c' where c': "tl_appDataIndicate (tl_appOtaCmdHandler_controller (mk_drv wr rd er) True) (\<lambda>_. Some) (deliver junk (sent t')) c = Some c'"
    "ota_state c' = OTA_STA_SUCCESS \<and> autoPollingCb c' = Some ota_stopRspCb \<and> mcuBootAddr c' = 0 \<and> rc_otaInfo c' = ota_info F \<and>
      flash_ok cells writable (ota_flash c') \<and> img_on (cells (chip c')) (ota_bin F H) B \<and> ota_outside m0 (cells (chip c'))"
    using nor_flash.controller_data(2)[OF assms(2,3) i(1) refl assms(6) t'(2) assms(7)] by blast
  have "ota_round (mk_drv wt rt et) (mk_drv wr rd er) stack junk tc = Some (t', c')"
    unfolding ota_round_def tc fst_conv snd_conv t'(1) option.case c'(1) by simp
  then show ?thesis using c'(2) by blast
qed

text \<open>The controller asks: \<open>ota_startReq\<close>, and its timer sends the request.\<close>

definition ota_ask :: "'c drv_flash \<Rightarrow> u8 \<Rightarrow> 'c ota \<Rightarrow> 'c ota" where
  "ota_ask d ref c = (case ota_startReqCb_fn True (ota_startReq d ref c) of Some (_, c') \<Rightarrow> c' | None \<Rightarrow> c)"

lemma ota_ask_fields:
  "sent (ota_ask d ref c) = [0x31, g_tlAppDataSeqNo c, 1, 8] @
     pre_head \<lparr>fileVer = firmwareVersion, chipType = CHIP_ID, manufaurerCode = TELINK_MANUFACTURER_CODE, imageSize = 0\<rparr>"
  "ota_flash (ota_ask d ref c) = ota_flash c" "mcuBootAddr (ota_ask d ref c) = ucast (mcuBootAddrGet d (chip c))"
  "rcDataCount (ota_ask d ref c) = 0" "ota_headercnt (ota_ask d ref c) = 0" "ota_headersize (ota_ask d ref c) = 0"
  "flashOffsetAddr (ota_ask d ref c) = 0" "crcValue (ota_ask d ref c) = 0xffffffff"
  by (simp_all add: ota_ask_def ota_startReqCb_fn_def Let_def ota_startReq_def on_auto_def unon_try_def unon_auto_def emit_def
      ota_initInfo_def send_frame_def sent_def split: option.splits)

lemma round_start:
  assumes "nor_flash wt rt et cellst writablet" "nor_flash wr rd er cells writable" "ota_file F H B"
    "file_on (cellst (chip t)) F" "mcuBootAddrGet (mk_drv wt rt et) (chip t) = 0"
    "flash_ok cells writable (ota_flash c)" "mcuBootAddrGet (mk_drv wr rd er) (chip c) = 0"
  shows "\<exists>tc'. ota_round (mk_drv wt rt et) (mk_drv wr rd er) stack junk (t, ota_ask (mk_drv wr rd er) ref c) = Some tc' \<and>
    ota_coupled cellst cells writable (cells (chip c)) F H 0 tc'"
proof -
  let ?c = "ota_ask (mk_drv wr rd er) ref c"
  note a = ota_ask_fields[of "mk_drv wr rd er" ref c]
  obtain t' where t': "tl_appDataIndicate (tl_appOtaCmdHandler_target (mk_drv wt rt et) True stack) (\<lambda>_. Some) (deliver junk (sent ?c)) t = Some t'"
    "sent t' = [0x31, g_tlAppDataSeqNo t, 2, 12] @ pre_bytes (ota_info F)" "tg_inv cellst F t'" "seq_number t' = 0x100"
    using nor_flash.target_start[OF assms(1,3,4,5) a(1), of stack junk] by auto
  have fo: "flash_ok cells writable (ota_flash ?c)" "mcuBootAddr ?c = 0" using assms(6,7) a(2,3) by simp_all
  obtain c' where c': "tl_appDataIndicate (tl_appOtaCmdHandler_controller (mk_drv wr rd er) True) (\<lambda>_. Some) (deliver junk (sent t')) ?c = Some c'"
    "rc_inv cells writable (cells (chip ?c)) F H 0 0 c'" "g_tlAppDataSeqNo c' = g_tlAppDataSeqNo ?c + 1"
    "sent c' = [0x31, g_tlAppDataSeqNo ?c, 5, 12] @ pre_bytes ((ota_info F)\<lparr>imageSize := 0\<rparr>)"
    using nor_flash.controller_start[OF assms(2,3) t'(2) fo a(4-8), of junk] by blast
  have "ota_round (mk_drv wt rt et) (mk_drv wr rd er) stack junk (t, ?c) = Some (t', c')"
    unfolding ota_round_def fst_conv snd_conv t'(1) option.case c'(1) by simp
  moreover have "ota_coupled cellst cells writable (cells (chip c)) F H 0 (t', c')"
    unfolding ota_coupled_def fst_conv snd_conv
    by (intro conjI exI[of _ "g_tlAppDataSeqNo ?c"]) (use c'(2-4) t'(3) a(2) in \<open>simp_all add: t'(4) seq_neq(2)\<close>)
  ultimately show ?thesis by blast
qed

lemma rounds_reach:
  assumes "nor_flash wt rt et cellst writablet" "nor_flash wr rd er cells writable" "ota_file F H B"
    "file_on (cellst (chip t)) F" "mcuBootAddrGet (mk_drv wt rt et) (chip t) = 0"
    "flash_ok cells writable (ota_flash c)" "mcuBootAddrGet (mk_drv wr rd er) (chip c) = 0"
  shows "48 * k < length F \<Longrightarrow> \<exists>tc'. ota_rounds (mk_drv wt rt et) (mk_drv wr rd er) stack junk (Suc k) (t, ota_ask (mk_drv wr rd er) ref c) = Some tc' \<and>
    ota_coupled cellst cells writable (cells (chip c)) F H k tc'"
proof (induction k)
  case 0
  then show ?case using round_start[OF assms(1-7), of stack "junk 0" ref] by simp
next
  case (Suc k)
  then obtain tc' where tc': "ota_rounds (mk_drv wt rt et) (mk_drv wr rd er) stack junk (Suc k) (t, ota_ask (mk_drv wr rd er) ref c) = Some tc'"
    "ota_coupled cellst cells writable (cells (chip c)) F H k tc'" by auto
  show ?case using round_step[OF assms(1-3) tc'(2), of stack "junk (Suc k)"] tc'(1) Suc.prems by simp
qed

section \<open>Switching to the new image\<close>

lemma startup_flag_iff: "length bs = 4 \<Longrightarrow> get32 bs 0 = TL_START_UP_FLAG_WHOLE \<longleftrightarrow> bs = [0x4b, 0x4e, 0x4c, 0x54]"
proof -
  assume l: "length bs = 4"
  have b: "u32_bytes TL_START_UP_FLAG_WHOLE = [0x4b, 0x4e, 0x4c, 0x54]" by (simp add: u32_bytes_def)
  have "get32 [0x4b, 0x4e, 0x4c, 0x54] 0 = TL_START_UP_FLAG_WHOLE" by (simp add: get32_def)
  then show ?thesis using u32_bytes_get32[OF l] b by metis
qed

context nor_flash begin

lemma boot_addr:
  "mcuBootAddrGet D c = (if map (at (cells c)) [8..<12] = [0x4b, 0x4e, 0x4c, 0x54] then 0
     else if map (at (cells c)) [0x40008..<0x4000c] = [0x4b, 0x4e, 0x4c, 0x54] then 0x40000 else 0xFFFFFFFF)"
  using read_at[of c 8 4] read_at[of c "0x40008" 4] startup_flag_iff[of "map (at (cells c)) [8..<12]"]
    startup_flag_iff[of "map (at (cells c)) [0x40008..<0x4000c]"]
  by (simp add: mcuBootAddrGet_def del: upt_rec_numeral)

lemma reboot_switches:
  assumes "flash_ok cells writable (ota_flash s)" "img_on (cells (chip s)) bin (length bin)" "mcuBootAddr s = 0"
    "take 4 (drop 8 bin) = [0x4b, 0x4e, 0x4c, 0x54]" "12 < length bin" "length bin < 0x30000"
  shows "mcuBootAddrGet D (chip (ota_mcuReboot D s)) = 0x40000 \<and>
    (\<forall>j < length bin. at (cells (chip (ota_mcuReboot D s))) (0x40000 + j) = bin ! j)"
proof -
  note u = flash_unlock_ok[OF assms(1)]
  let ?c0 = "fl_chip (flash_unlock (ota_flash s))"
  let ?c1 = "flash_write D ?c0 (of_nat 0x40008) [0x4b]" and ?m1 = "nor_write (cells ?c0) (of_nat 0x40008) [0x4b]"
  let ?c2 = "flash_write D ?c1 (of_nat 8) [0]"
  have c1: "cells ?c1 = ?m1" "writable ?c1" using flash_write_cells[of ?c0 "[0x4b]" "of_nat 0x40008"] u by auto
  have c2: "cells ?c2 = nor_write ?m1 (of_nat 8) [0]" "writable ?c2" using flash_write_cells[OF c1(2), of "[0]" "of_nat 8"] c1(1) by auto
  have at2: "at (cells ?c2) j = (if j = 8 then 0 else if j = 0x40008 then at (cells (chip s)) j AND 0x4b else at (cells (chip s)) j)"
    if "j < 2 ^ 32" for j
  proof -
    have "at (nor_write ?m1 (of_nat 8) [0]) j = (if 8 \<le> j \<and> j < 8 + length [0 :: u8] then at ?m1 j AND [0] ! (j - 8) else at ?m1 j)"
      by (rule at_write) (use that in simp_all)
    moreover have "at ?m1 j = (if 0x40008 \<le> j \<and> j < 0x40008 + length [0x4b :: u8] then at (cells ?c0) j AND [0x4b] ! (j - 0x40008) else at (cells ?c0) j)"
      by (rule at_write) (use that in simp_all)
    moreover have "8 \<le> j \<and> j < 8 + length [0 :: u8] \<longleftrightarrow> j = 8" "0x40008 \<le> j \<and> j < 0x40008 + length [0x4b :: u8] \<longleftrightarrow> j = 0x40008" by auto
    ultimately show ?thesis unfolding c2(1) using u by simp
  qed
  let ?f = "(flash_unlock (ota_flash s))\<lparr>fl_chip := ?c2\<rparr>"
  have "flash_ok cells writable ?f" using u c2(2) by (simp add: flash_ok_def split: option.splits)
  then have lk: "cells (fl_chip (flash_lock ?f)) = cells ?c2" using flash_lock_ok[of cells writable ?f] by simp
  have ch: "chip (ota_mcuReboot D s) = fl_chip (flash_lock ?f)"
    unfolding ota_mcuReboot_def Let_def using assms(3) by (simp add: emit_def set_chip_def)
  have new: "at (cells ?c2) (0x40000 + j) = bin ! j" if "j < length bin" for j
  proof (cases "j = 8")
    case True
    have "bin ! 8 = 0x4b" using arg_cong[OF assms(4), of "\<lambda>l. l ! 0"] assms(5) by simp
    moreover have "at (cells (chip s)) (0x40000 + 8) = 0xff"
    proof -
      have "(8 :: nat) < length bin" using assms(5) by simp
      then have "at (cells (chip s)) (0x40000 + 8) = img_of bin ! 8" using assms(2) unfolding img_on_def by presburger
      then show ?thesis using assms(5) by (simp add: img_of_def)
    qed
    ultimately show ?thesis using True at2[of "0x40008"] by simp
  next
    case False
    have "at (cells (chip s)) (0x40000 + j) = bin ! j" using assms(2) that False by (simp add: img_on_def)
    moreover have "0x40000 + j < 2 ^ 32" using that assms(6) by simp
    ultimately show ?thesis using at2[of "0x40000 + j"] False by simp
  qed
  have f1: "map (at (cells ?c2)) [8..<12] \<noteq> [0x4b, 0x4e, 0x4c, 0x54]"
  proof
    assume "map (at (cells ?c2)) [8..<12] = [0x4b, 0x4e, 0x4c, 0x54]"
    from arg_cong[OF this, of "\<lambda>l. l ! 0"] have "at (cells ?c2) 8 = 0x4b" by simp
    then show False using at2[of 8] by simp
  qed
  have f2: "map (at (cells ?c2)) [0x40008..<0x4000c] = [0x4b, 0x4e, 0x4c, 0x54]"
  proof -
    have "map (at (cells ?c2)) [0x40008..<0x4000c] = take 4 (drop 8 bin)"
    proof (rule nth_equalityI)
      fix i assume "i < length (map (at (cells ?c2)) [0x40008..<0x4000c])"
      then have i: "i < 4" by simp
      then show "map (at (cells ?c2)) [0x40008..<0x4000c] ! i = take 4 (drop 8 bin) ! i"
        using new[of "8 + i"] assms(5) by (simp del: upt_rec_numeral)
    qed (use assms(5) in simp)
    then show ?thesis by (simp only: assms(4))
  qed
  show ?thesis unfolding ch boot_addr lk using f1 f2 new by presburger
qed

end

section \<open>Properties\<close>

text \<open>C1: An update completes. Let the dongle hold a well-formed image file newer than the running firmware,
  its size no multiple of 48, and both ends run from address 0. Then the remote control's request and
  the rounds of the protocol (every frame delivered, whatever the buffers held before) end after one
  round for the handshake and one per block in the state "success"; nothing outside the image area has
  changed, and after the reboot code has run, the new image is the one that boots, byte by byte the
  binary of the file.\<close>

theorem ota_update_completes:
  assumes "nor_chip pt rt et cellst writablet" "nor_chip pc rc ec cells writable"
    "dt = mk_drv (flash_write_page pt) rt et" "dc = mk_drv (flash_write_page pc) rc ec"
    "ota_file F H B" "length F mod 48 \<noteq> 0" "file_on (cellst (chip t0)) F" "mcuBootAddrGet dt (chip t0) = 0"
    "flash_ok cells writable (ota_flash c0)" "mcuBootAddrGet dc (chip c0) = 0"
  shows "\<exists>t c. ota_rounds dt dc stack junk (length F div 48 + 2) (t0, ota_ask dc ref c0) = Some (t, c) \<and>
    ota_state c = OTA_STA_SUCCESS \<and> ota_outside (cells (chip c0)) (cells (chip c)) \<and>
    mcuBootAddrGet dc (chip (ota_mcuReboot dc c)) = 0x40000 \<and>
    (\<forall>j < B. at (cells (chip (ota_mcuReboot dc c))) (0x40000 + j) = ota_bin F H ! j)"
proof -
  have Nt: "nor_flash (flash_write_page pt) rt et cellst writablet" by (rule nor_chip.platform_nor[OF assms(1)])
  have Nc: "nor_flash (flash_write_page pc) rc ec cells writable" by (rule nor_chip.platform_nor[OF assms(2)])
  let ?k = "length F div 48"
  have k: "48 * ?k < length F" "\<not> 48 * ?k + 48 < length F" using assms(6) mult_div_mod_eq[of 48 "length F"] mod_less_divisor[of 48 "length F"] by linarith+
  obtain tc where tc: "ota_rounds dt dc stack junk (Suc ?k) (t0, ota_ask dc ref c0) = Some tc" "ota_coupled cellst cells writable (cells (chip c0)) F H ?k tc"
    using rounds_reach[OF Nt Nc assms(5,7) assms(8)[unfolded assms(3)] assms(9) assms(10)[unfolded assms(4)] k(1)] unfolding assms(3,4) by blast
  obtain t c where c: "ota_round dt dc stack (junk (Suc ?k)) tc = Some (t, c)" "ota_state c = OTA_STA_SUCCESS" "mcuBootAddr c = 0"
    "flash_ok cells writable (ota_flash c)" "img_on (cells (chip c)) (ota_bin F H) B" "ota_outside (cells (chip c0)) (cells (chip c))"
    using round_last[OF Nt Nc assms(5,6) tc(2) k] unfolding assms(3,4) by blast
  have r: "ota_rounds dt dc stack junk (?k + 2) (t0, ota_ask dc ref c0) = Some (t, c)" using tc(1) c(1) by simp
  note b = ota_file_bin[OF assms(5)]
  have f: "take 4 (drop 8 (ota_bin F H)) = [0x4b, 0x4e, 0x4c, 0x54]" "12 < length (ota_bin F H)" "length (ota_bin F H) < 0x30000"
    using assms(5) b(1) by (simp_all add: ota_file_def)
  show ?thesis
    using r c(2,6) nor_flash.reboot_switches[OF Nc c(4) c(5)[folded b(1)] c(3) f] unfolding assms(4) b(1) by blast
qed

text \<open>A small file: the 56-byte header, the sign information and a binary of \<open>32 + n\<close> bytes.\<close>

definition demo_body :: "nat \<Rightarrow> u8 list" where
  "demo_body n = replicate 8 0 @ [0x4b, 0x4e, 0x4c, 0x54] @ replicate 12 0 @ [of_nat (32 + n), 0, 0, 0] @ replicate n 0"

definition demo_head :: "nat \<Rightarrow> u8 list" where
  "demo_head n = [0x1e, 0xf1, 0xee, 0x0b, 0, 1, 56, 0, 0, 0, 0x41, 0x11, 0x58, 0x82, 7, 1, 0, 1] @ replicate 34 0 @
     [of_nat (94 + n), 0, 0, 0] @ [0, 0, of_nat (32 + n), 0, 0, 0]"

definition demo_file :: "nat \<Rightarrow> u8 list" where
  "demo_file n = demo_head n @ demo_body n @ u32_bytes (xcrc32 (demo_body n) 0xffffffff)"

text \<open>Both ends run from address 0; the target has the file at 0x40000.\<close>

definition demo_flash :: "u8 list \<Rightarrow> mem" where
  "demo_flash F a = (if 8 \<le> unat a \<and> unat a < 12 then [0x4b, 0x4e, 0x4c, 0x54] ! (unat a - 8)
     else if 0x40000 \<le> unat a \<and> unat a < 0x40000 + length F then F ! (unat a - 0x40000) else 0xff)"

definition ota0 :: "mem \<Rightarrow> mem ota" where
  "ota0 m = \<lparr>rc_otaInfo = \<lparr>fileVer = 0, chipType = 0, manufaurerCode = 0, imageSize = 0\<rparr>, ota_RetryCnt = 0, ota_pairingRef = 0,
     ota_state = 0, ota_headercnt = 0, ota_headersize = 0, mcuBootAddr = 0, crcValue = 0, flashOffsetAddr = 0, rcDataCount = 0,
     targetDataCount = 0, autoPollingCb = None, tryPollingCb = None, seq_number = 0, g_tlAppDataSeqNo = 0,
     ota_flash = new_device\<lparr>fl_chip := m\<rparr>, ota_out = []\<rparr>"

lemma demo_file_ok: "20 < n \<Longrightarrow> n < 100 \<Longrightarrow> ota_file (demo_file n) 56 (32 + n)"
proof -
  assume n: "20 < n" "n < 100"
  have u: "unat (ucast (of_nat x :: u8) :: u32) = x" "(ucast (of_nat x :: u8) :: u32) = of_nat x" if "x < 256" for x
    using that by (simp_all add: unsigned_of_nat unsigned_ucast_eq take_bit_nat_eq_self)
  have b: "length (demo_body n) = 28 + n" by (simp add: demo_body_def)
  have l4: "length (u32_bytes v) = 4" for v by (simp add: u32_bytes_def)
  have h: "length (demo_head n) = 62" by (simp add: demo_head_def)
  have l: "length (demo_file n) = 94 + n" by (simp add: demo_file_def b l4 h)
  have bin: "ota_bin (demo_file n) 56 = demo_body n @ u32_bytes (xcrc32 (demo_body n) 0xffffffff)" by (simp add: ota_bin_def demo_file_def h)
  have g: "get32 (demo_file n) i = get32 (demo_head n) i" "get16 (demo_file n) i = get16 (demo_head n) i" if "i + 4 \<le> 62" for i
    using that h by (simp_all add: demo_file_def get32_def get16_def nth_append)
  have "get32 (demo_file n) 0 = OTA_UPGRADE_FILE_ID" "unat (get16 (demo_file n) 6) = 56" "get16 (demo_file n) 10 = TELINK_MANUFACTURER_CODE"
    "get16 (demo_file n) 12 = CHIP_ID" "get32 (demo_file n) 14 = 0x01000107" "unat (get32 (demo_file n) 52) = 94 + n" "get16 (demo_file n) 56 = 0"
    "unat (get32 (demo_file n) 58) = 32 + n"
    by (simp_all add: g demo_head_def del: of_nat_add)
      (use n in \<open>simp_all add: get32_def get16_def nth_append u unat_of_nat_u32 del: of_nat_add\<close>)
  moreover have "take 4 (drop 8 (ota_bin (demo_file n) 56)) = [0x4b, 0x4e, 0x4c, 0x54]" by (simp add: bin demo_body_def)
  moreover have "get32 (ota_bin (demo_file n) 56) 0x18 = of_nat (32 + n)"
  proof -
    have "get32 (ota_bin (demo_file n) 56) 0x18 = get32 (demo_body n) 0x18" by (simp add: bin get32_def nth_append b)
    also have "\<dots> = of_nat (32 + n)" using n by (simp add: demo_body_def get32_def nth_append u del: of_nat_add)
    finally show ?thesis .
  qed
  moreover have "get32 (ota_bin (demo_file n) 56) (28 + n) = xcrc32 (take (28 + n) (ota_bin (demo_file n) 56)) 0xffffffff"
  proof -
    have "get32 (demo_body n @ u32_bytes v) (28 + n) = v" for v
      using get32_bytes[of v "[]"] by (simp add: get32_def nth_append b numeral_2_eq_2)
    then show ?thesis by (simp add: bin b)
  qed
  ultimately show ?thesis using l n unfolding ota_file_def by simp
qed

lemma demo_flash_ok: "length F < 1000 \<Longrightarrow> file_on (demo_flash F) F"
  unfolding file_on_def
proof (intro allI impI)
  fix j assume l: "length F < 1000" and j: "j < length F"
  then have "unat (of_nat (0x40000 + j) :: u32) = 0x40000 + j" by (intro unat_of_nat_u32) simp
  then show "at (demo_flash F) (0x40000 + j) = F ! j" unfolding at_def demo_flash_def using j by simp
qed

lemma demo_flash_boot: "map (at (demo_flash F)) [8..<12] = [0x4b, 0x4e, 0x4c, 0x54]"
  by (simp add: at_def demo_flash_def)

definition second_slot :: mem where
  "second_slot a = (if 0x40008 \<le> unat a \<and> unat a < 0x4000c then [0x4b, 0x4e, 0x4c, 0x54] ! (unat a - 0x40008) else 0xff)"

theorem ota_update_completes_witness:
  "\<exists>t c. ota_rounds myFlashDrv_ideal myFlashDrv_ideal [] (\<lambda>_ _. 0xaa) 4
     (ota0 (demo_flash (demo_file 28)), ota_ask myFlashDrv_ideal 1 (ota0 (demo_flash []))) = Some (t, c) \<and> ota_state c = OTA_STA_SUCCESS"
proof -
  have l: "length (demo_file 28) = 122" using demo_file_ok[of 28] by (simp add: ota_file_def)
  have m: "length (demo_file 28) mod 48 \<noteq> 0" by (simp add: l)
  have fo: "ota_file (demo_file 28) 56 60" using demo_file_ok[of 28] by simp
  have f: "file_on (demo_flash (demo_file 28)) (demo_file 28)" by (rule demo_flash_ok) (simp add: l)
  have b: "mcuBootAddrGet myFlashDrv_ideal (demo_flash F) = 0" for F
    using ideal.platform.boot_addr[of "demo_flash F"] demo_flash_boot[of F] by simp
  have ok: "flash_ok (\<lambda>m. m) (\<lambda>_. True) (ota_flash (ota0 (demo_flash [])))" by (simp add: ota0_def flash_ok_def new_device_def)
  have ch: "chip (ota0 m) = m" for m by (simp add: ota0_def)
  have "length (demo_file 28) div 48 + 2 = 4" by (simp add: l)
  then show ?thesis
    using ota_update_completes[OF ideal.nor_chip_axioms ideal.nor_chip_axioms refl refl fo m _ _ ok _,
        of "ota0 (demo_flash (demo_file 28))" "[]" "\<lambda>_ _. 0xaa" 1] f b unfolding ch by metis
qed

section \<open>Two defects\<close>

context nor_flash begin

text \<open>The last block of a file whose size is a multiple of 48 is answered with no data.\<close>

lemma target_last_empty:
  assumes "tg_inv cells F t" "length F < 0x30000" "48 * k + 48 = length F"
    "f = [0x31, q, 5, 12] @ pre_bytes ((ota_info F)\<lparr>imageSize := of_nat k\<rparr>)" "seq_number t \<noteq> ucast q"
  obtains t' where "tl_appDataIndicate (tl_appOtaCmdHandler_target D True stack) (\<lambda>_. Some) (deliver junk f) t = Some t'"
    "sent t' = [0x31, g_tlAppDataSeqNo t, 6, 17] @ pre_bytes ((ota_info F)\<lparr>imageSize := of_nat k\<rparr>) @ of_nat 0 # []"
proof -
  have inv: "rc_otaInfo t = ota_info F" "ota_state t = OTA_BIN_VALID" "ota_headersize t = of_nat (length F)"
    using assms(1) by (simp_all add: tg_inv_def)
  note ind = indicate[OF assms(4)]
  have pre: "pre_of (pld junk f) = (ota_info F)\<lparr>imageSize := of_nat k\<rparr>"
    unfolding assms(4) using pre_of_pld[of "[0x31, q, 5, 12]" junk "(ota_info F)\<lparr>imageSize := of_nat k\<rparr>" "[]"] by simp
  have rl: "(if of_nat (48 * k) + of_nat OTA_FRAMESIZE < (of_nat (length F) :: u32) then OTA_FRAMESIZE
      else unat (of_nat (length F) :: u32) mod OTA_FRAMESIZE) = 0"
  proof -
    have "of_nat (48 * k) + of_nat OTA_FRAMESIZE = (of_nat (length F) :: u32)" unfolding assms(3)[symmetric] by simp
    moreover have "unat (of_nat (length F) :: u32) = length F" by (rule unat_of_nat_u32) (use assms(2) in simp)
    moreover have "length F mod 48 = 0" unfolding assms(3)[symmetric] by simp
    ultimately show ?thesis by simp
  qed
  let ?u = "t\<lparr>seq_number := ucast q\<rparr>" and ?r = "(ota_info F)\<lparr>imageSize := of_nat k\<rparr>"
  have hs: "ota_headersize ?u = of_nat (length F)" using inv(3) by simp
  have rd: "flash_read D c a 0 = []" for c a by (simp add: flash_read_def Let_def flash_read_rounds.simps rd_cells block_0 in_page_def)
  have "ota_dataReqHandler D True (pld junk f) ?u = Some (send_frame TL_CMD_OTA_DATA_RSP (of_nat (4 + 13 + 0))
      (pre_bytes ((rc_otaInfo ?u)\<lparr>imageSize := imageSize ?r\<rparr>) @ [of_nat 0] @ []) (?u\<lparr>ota_headercnt := of_nat (48 * k)\<rparr>))" (is "_ = Some ?t'")
    by (rule dataReqHandler_eq[OF pre]; (unfold hs)?) (use inv rl rd in simp_all)
  then have "tl_appDataIndicate (tl_appOtaCmdHandler_target D True stack) (\<lambda>_. Some) (deliver junk f) t = Some ?t'"
    unfolding ind(1) tl_appOtaCmdHandler_target_def Let_def ind(2-4) using assms(5) by simp
  then show thesis by (rule that) (simp add: inv(1))
qed

lemma controller_empty:
  assumes "rc_otaInfo s = ota_info F" "rcDataCount s = of_nat k" "f = [0x31, q, 6, len] @ pre_bytes ((ota_info F)\<lparr>imageSize := of_nat k\<rparr>) @ of_nat 0 # []"
  shows "tl_appDataIndicate (tl_appOtaCmdHandler_controller D True) (\<lambda>_. Some) (deliver junk f) s = Some (fail_later (unon_try (unon_auto s)))"
proof -
  note ind = indicate[OF assms(3)]
  let ?r = "(ota_info F)\<lparr>imageSize := of_nat k\<rparr>"
  have pre: "pre_of (pld junk f) = ?r" unfolding assms(3) using pre_of_pld[of "[0x31, q, 6, len]" junk ?r] by simp
  have "payloadSize (pld junk f) = 0" unfolding assms(3) using pld_data[of "[0x31, q, 6, len]" "[]" junk ?r] by simp
  then have "ota_dataRspHandler D True (pld junk f) s = Some (fail_later (unon_try (unon_auto s)))"
    unfolding ota_dataRspHandler_def Let_def pre using assms(1,2) by simp
  then show ?thesis unfolding ind(1) tl_appOtaCmdHandler_controller_def Let_def ind(2-4) by simp
qed

end

text \<open>C26: A file whose size is a multiple of 48 cannot be transferred: with everything else as in a good
  update, the answer for the last block has no data, and the remote control gives up.\<close>

theorem ota_multiple_of_48_fails:
  assumes "nor_chip pt rt et cellst writablet" "nor_chip pc rc ec cells writable"
    "dt = mk_drv (flash_write_page pt) rt et" "dc = mk_drv (flash_write_page pc) rc ec"
    "ota_file F H B" "length F mod 48 = 0" "file_on (cellst (chip t0)) F" "mcuBootAddrGet dt (chip t0) = 0"
    "flash_ok cells writable (ota_flash c0)" "mcuBootAddrGet dc (chip c0) = 0"
  shows "\<exists>t c. ota_rounds dt dc stack junk (length F div 48 + 1) (t0, ota_ask dc ref c0) = Some (t, c) \<and>
    ota_state c = OTA_STA_FAILED \<and> last (ota_out c) = OnTimer ota_callBackRestore 500000"
proof -
  have Nt: "nor_flash (flash_write_page pt) rt et cellst writablet" by (rule nor_chip.platform_nor[OF assms(1)])
  have Nc: "nor_flash (flash_write_page pc) rc ec cells writable" by (rule nor_chip.platform_nor[OF assms(2)])
  have N: "0 < length F" "length F < 0x30000" using assms(5) by (simp_all add: ota_file_def)
  obtain k where k: "length F div 48 = Suc k" "48 * k < length F" "48 * k + 48 = length F"
  proof -
    have "length F = 48 * (length F div 48)" using assms(6) by auto
    moreover obtain k where "length F div 48 = Suc k" using N(1) calculation by (cases "length F div 48") simp_all
    ultimately show thesis using that[of k] by simp
  qed
  obtain tc where r: "ota_rounds dt dc stack junk (Suc k) (t0, ota_ask dc ref c0) = Some tc" "ota_coupled cellst cells writable (cells (chip c0)) F H k tc"
    using rounds_reach[OF Nt Nc assms(5,7) assms(8)[unfolded assms(3)] assms(9) assms(10)[unfolded assms(4)] k(2)] unfolding assms(3,4) by blast
  obtain t c where tc: "tc = (t, c)" by (cases tc)
  have i: "rc_otaInfo c = ota_info F" "rcDataCount c = of_nat k" "tg_inv cellst F t" using r(2) by (simp_all add: ota_coupled_def rc_inv_def tc)
  obtain q where q: "sent c = [0x31, q, 5, 12] @ pre_bytes ((ota_info F)\<lparr>imageSize := of_nat k\<rparr>)" "seq_number t \<noteq> ucast q"
    using r(2) by (auto simp: ota_coupled_def tc)
  obtain t' where t': "tl_appDataIndicate (tl_appOtaCmdHandler_target dt True stack) (\<lambda>_. Some) (deliver (junk (Suc k)) (sent c)) t = Some t'"
    "sent t' = [0x31, g_tlAppDataSeqNo t, 6, 17] @ pre_bytes ((ota_info F)\<lparr>imageSize := of_nat k\<rparr>) @ of_nat 0 # []"
    using nor_flash.target_last_empty[OF Nt i(3) N(2) k(3) q, of stack "junk (Suc k)"] unfolding assms(3) by blast
  let ?c = "fail_later (unon_try (unon_auto c))"
  have "ota_round dt dc stack (junk (Suc k)) tc = Some (t', ?c)"
    unfolding ota_round_def tc fst_conv snd_conv t'(1) option.case
    using nor_flash.controller_empty[OF Nc i(1,2) t'(2), of "junk (Suc k)"] unfolding assms(4) by simp
  then have "ota_rounds dt dc stack junk (length F div 48 + 1) (t0, ota_ask dc ref c0) = Some (t', ?c)" using r(1) k(1) by simp
  moreover have "ota_state ?c = OTA_STA_FAILED" "last (ota_out ?c) = OnTimer ota_callBackRestore 500000" by (simp_all add: emit_def)
  ultimately show ?thesis by blast
qed

theorem ota_multiple_of_48_fails_witness:
  "\<exists>t c. ota_rounds myFlashDrv_ideal myFlashDrv_ideal [] (\<lambda>_ _. 0xaa) 4
     (ota0 (demo_flash (demo_file 50)), ota_ask myFlashDrv_ideal 1 (ota0 (demo_flash []))) = Some (t, c) \<and>
     ota_state c = OTA_STA_FAILED \<and> last (ota_out c) = OnTimer ota_callBackRestore 500000"
proof -
  have fo: "ota_file (demo_file 50) 56 82" using demo_file_ok[of 50] by simp
  then have l: "length (demo_file 50) = 144" by (simp add: ota_file_def)
  have m: "length (demo_file 50) mod 48 = 0" by (simp add: l)
  have f: "file_on (demo_flash (demo_file 50)) (demo_file 50)" by (rule demo_flash_ok) (simp add: l)
  have b: "mcuBootAddrGet myFlashDrv_ideal (demo_flash F) = 0" for F
    using ideal.platform.boot_addr[of "demo_flash F"] demo_flash_boot[of F] by simp
  have ok: "flash_ok (\<lambda>m. m) (\<lambda>_. True) (ota_flash (ota0 (demo_flash [])))" by (simp add: ota0_def flash_ok_def new_device_def)
  have ch: "chip (ota0 m) = m" for m by (simp add: ota0_def)
  have "length (demo_file 50) div 48 + 1 = 4" by (simp add: l)
  then show ?thesis
    using ota_multiple_of_48_fails[OF ideal.nor_chip_axioms ideal.nor_chip_axioms refl refl fo m _ _ ok _,
        of "ota0 (demo_flash (demo_file 50))" "[]" "\<lambda>_ _. 0xaa" 1] f b unfolding ch by metis
qed

text \<open>C10: The boot address is kept in one byte, so 0x40000 reads as 0. A device that runs from the second
  slot and accepts an update erases the image it runs from: afterwards neither slot is bootable.\<close>

theorem ota_erases_running_image:
  assumes "nor_chip program read_cmd erase_cmd cells writable" "d = mk_drv (flash_write_page program) read_cmd erase_cmd"
    "flash_ok cells writable (ota_flash s)" "mcuBootAddrGet d (chip s) = 0x40000"
    "f = [0x31, q, TL_CMD_OTA_START_RSP, 12] @ pre_bytes r" "manufaurerCode r = TELINK_MANUFACTURER_CODE" "chipType r = CHIP_ID"
    "fileVer r > firmwareVersion" "imageSize r < OTA_MAX_IMAGE_SIZE"
  shows "\<exists>s'. tl_appDataIndicate (tl_appOtaCmdHandler_controller d True) (\<lambda>_. Some) (deliver junk f) (ota_ask d ref s) = Some s' \<and>
    mcuBootAddrGet d (chip s') = 0xFFFFFFFF"
proof -
  have N: "nor_flash (flash_write_page program) read_cmd erase_cmd cells writable" by (rule nor_chip.platform_nor[OF assms(1)])
  let ?s = "ota_ask d ref s"
  note a = ota_ask_fields(2,3)[of d ref s]
  have m: "mcuBootAddr ?s = 0" unfolding a(2) assms(4) by simp
  have fo: "flash_ok cells writable (ota_flash ?s)" using assms(3) a(1) by simp
  obtain s' c where s': "tl_appDataIndicate (tl_appOtaCmdHandler_controller d True) (\<lambda>_. Some) (deliver junk f) ?s = Some s'"
    "ota_dataReqCb True ((unon_auto ?s)\<lparr>rc_otaInfo := r, ota_flash := (flash_unlock (ota_flash ?s))\<lparr>fl_chip := c\<rparr>, ota_state := OTA_STA_STARTING\<rparr>) = Some s'"
    "\<And>j. j < 2 ^ 32 \<Longrightarrow> at (cells c) j = (if 0x40000 \<le> j \<and> j < 0x40000 + (unat (imageSize r) div 4096 + 1) * 4096 then 0xff else at (cells (chip ?s)) j)"
    using nor_flash.startRsp_erases[OF N assms(5-9) fo m] unfolding assms(2) by blast
  have ch: "chip s' = c" using dataReqCb_fields(9)[OF s'(2)] by simp
  have old: "map (at (cells (chip s))) [8..<12] \<noteq> [0x4b, 0x4e, 0x4c, 0x54]"
    using assms(4) nor_flash.boot_addr[OF N, of "chip s"] unfolding assms(2) by (auto split: if_splits)
  have "map (at (cells c)) [8..<12] = map (at (cells (chip s))) [8..<12]"
    by (rule map_at_cong) (use s'(3) a(1) in simp)
  then have f1: "map (at (cells c)) [8..<12] \<noteq> [0x4b, 0x4e, 0x4c, 0x54]" using old by simp
  have f2: "map (at (cells c)) [0x40008..<0x4000c] \<noteq> [0x4b, 0x4e, 0x4c, 0x54]"
  proof
    assume "map (at (cells c)) [0x40008..<0x4000c] = [0x4b, 0x4e, 0x4c, 0x54]"
    from arg_cong[OF this, of "\<lambda>l. l ! 0"] have "at (cells c) 0x40008 = 0x4b" by simp
    then show False using s'(3)[of "0x40008"] by simp
  qed
  have "mcuBootAddrGet d (chip s') = 0xFFFFFFFF"
    unfolding ch assms(2) nor_flash.boot_addr[OF N] using f1 f2 by (simp only: if_False)
  then show ?thesis using s'(1) by blast
qed

theorem ota_erases_running_image_witness:
  "\<exists>s'. tl_appDataIndicate (tl_appOtaCmdHandler_controller myFlashDrv_ideal True) (\<lambda>_. Some)
      (deliver (\<lambda>_. 0) ([0x31, 0, TL_CMD_OTA_START_RSP, 12] @
         pre_bytes \<lparr>fileVer = 0x01000107, chipType = CHIP_ID, manufaurerCode = TELINK_MANUFACTURER_CODE, imageSize = 100\<rparr>))
      (ota_ask myFlashDrv_ideal 1 (ota0 second_slot)) = Some s' \<and>
    mcuBootAddrGet myFlashDrv_ideal (chip s') = 0xFFFFFFFF"
proof -
  have "map (at second_slot) [8..<12] \<noteq> [0x4b, 0x4e, 0x4c, 0x54]" "map (at second_slot) [0x40008..<0x4000c] = [0x4b, 0x4e, 0x4c, 0x54]"
    by (simp_all add: at_def second_slot_def)
  then have b: "mcuBootAddrGet myFlashDrv_ideal (chip (ota0 second_slot)) = 0x40000"
    using ideal.platform.boot_addr[of second_slot] by (simp only: if_False if_True refl) (simp add: ota0_def)
  have ok: "flash_ok (\<lambda>m. m) (\<lambda>_. True) (ota_flash (ota0 second_slot))" by (simp add: ota0_def flash_ok_def new_device_def)
  show ?thesis
    by (rule ota_erases_running_image[OF ideal.nor_chip_axioms refl ok b refl]) simp_all
qed

end
