(* ===== verification/DrvTimer.thy ===== *)
theory DrvTimer
  imports Prelude
begin

text \<open>
  The hardware timers, \<open>proj/drivers/drv_timer.c\<close>, on the 8258: four timers, three of the system clock and
  (index 3) the system timer. Writes to the timer registers are appended to a trace. A callback is a
  value of the client's type \<open>'cb\<close>; \<open>run\<close> says what it does with the whole state, timers included, and
  what it returns. An interrupt runs with the others locked out, so it is one step.
\<close>

section \<open>State\<close>

datatype hwTmr_status = TIMER_IDLE | TIMER_WOF | TIMER_WTO

record 'cb hwTmr_info =
  expire_low :: u32
  expire_high :: u32
  tmr_cb :: "'cb option"
  tmr_arg :: u32
  tmr_status :: hwTmr_status

text \<open>The registers written: capture and start value, mode, interrupt enable, start and stop.\<close>

datatype tmr_reg =
    CapTick nat u32
  | InitTick nat u32
  | TmrMode nat u8
  | TmrIrqEnable nat
  | TmrStart nat
  | TmrStop nat
  | StmrCapture u32
  | StmrIrqEnable
  | StmrIrqMask bool

record ('cb, 'w) hwTmr_st =
  timerInfo :: "'cb hwTmr_info list"
  regs :: "tmr_reg list"
  clock_time :: u32
  user :: 'w

text \<open>Ticks per microsecond of the two clocks (\<open>H_TIMER_CLOCK_1US\<close>, \<open>S_TIMER_CLOCK_1US\<close>).\<close>

record tmr_clocks =
  h_clock_1us :: u32
  s_clock_1us :: u32

type_synonym ('cb, 'w) tmr_run = "'cb \<Rightarrow> u32 \<Rightarrow> ('cb, 'w) hwTmr_st \<Rightarrow> int \<times> ('cb, 'w) hwTmr_st"

definition TIMER_IDX_3 :: nat where "TIMER_IDX_3 = 3"
definition TIMER_NUM :: nat where "TIMER_NUM = 4"
definition TIMER_OVERFLOW_VALUE :: u32 where "TIMER_OVERFLOW_VALUE = 0xFFFFFFFE"
definition HW_TIMER_SUCC :: u8 where "HW_TIMER_SUCC = 0"
definition HW_TIMER_IS_RUNNING :: u8 where "HW_TIMER_IS_RUNNING = 1"
definition HW_TIMER_INVALID :: u8 where "HW_TIMER_INVALID = 2"

definition TIMER_TICK_1US_GET :: "tmr_clocks \<Rightarrow> nat \<Rightarrow> u32" where
  "TIMER_TICK_1US_GET k idx = (if idx < TIMER_IDX_3 then h_clock_1us k else s_clock_1us k)"

definition TIMER_SAFE_BOUNDARY_IN_US :: "u32 \<Rightarrow> u32" where
  "TIMER_SAFE_BOUNDARY_IN_US v = 10 * v"

definition info0 :: "'cb hwTmr_info" where
  "info0 = \<lparr>expire_low = 0, expire_high = 0, tmr_cb = None, tmr_arg = 0, tmr_status = TIMER_IDLE\<rparr>"

definition reg :: "tmr_reg \<Rightarrow> ('cb, 'w) hwTmr_st \<Rightarrow> ('cb, 'w) hwTmr_st" where
  "reg r s = s\<lparr>regs := regs s @ [r]\<rparr>"

definition set_info :: "nat \<Rightarrow> 'cb hwTmr_info \<Rightarrow> ('cb, 'w) hwTmr_st \<Rightarrow> ('cb, 'w) hwTmr_st" where
  "set_info idx p s = s\<lparr>timerInfo := (timerInfo s)[idx := p]\<rparr>"

section \<open>Operations\<close>

definition hwTimerInit :: "nat \<Rightarrow> u8 \<Rightarrow> ('cb, 'w) hwTmr_st \<Rightarrow> ('cb, 'w) hwTmr_st" where
  "hwTimerInit idx mode s =
    (if idx < TIMER_IDX_3 then reg (TmrIrqEnable idx) (reg (TmrMode idx mode) (reg (InitTick idx 0) s))
     else reg StmrIrqEnable s)"

definition hwTimerSet :: "nat \<Rightarrow> u32 \<Rightarrow> ('cb, 'w) hwTmr_st \<Rightarrow> ('cb, 'w) hwTmr_st" where
  "hwTimerSet idx tick s =
    (if idx < TIMER_IDX_3 then reg (CapTick idx tick) s else reg (StmrCapture (tick + clock_time s)) s)"

definition hwTimerStart :: "nat \<Rightarrow> ('cb, 'w) hwTmr_st \<Rightarrow> ('cb, 'w) hwTmr_st" where
  "hwTimerStart idx s =
    (if idx < TIMER_IDX_3 then reg (TmrStart idx) (reg (InitTick idx 0) s) else reg (StmrIrqMask True) s)"

definition hwTimerStop :: "nat \<Rightarrow> ('cb, 'w) hwTmr_st \<Rightarrow> ('cb, 'w) hwTmr_st" where
  "hwTimerStop idx s = (if idx < TIMER_IDX_3 then reg (TmrStop idx) s else reg (StmrIrqMask False) s)"

text \<open>The value programmed next: the timer only counts 32 bits, \<open>high\<close> full turns come first.\<close>

definition next_capture :: "'cb hwTmr_info \<Rightarrow> u32" where
  "next_capture p = (if expire_high p \<noteq> 0 then TIMER_OVERFLOW_VALUE else expire_low p)"

definition hwTmr_setAbs ::
  "tmr_clocks \<Rightarrow> ('cb, 'w) tmr_run \<Rightarrow> nat \<Rightarrow> u32 \<Rightarrow> u32 \<Rightarrow> 'cb option \<Rightarrow> u32 \<Rightarrow> ('cb, 'w) hwTmr_st
    \<Rightarrow> u8 \<times> ('cb, 'w) hwTmr_st" where
  "hwTmr_setAbs k run idx high low func arg s =
    (if tmr_status (timerInfo s ! idx) \<noteq> TIMER_IDLE then (HW_TIMER_IS_RUNNING, s)
     else
       let p = \<lparr>expire_low = low, expire_high = high, tmr_cb = func, tmr_arg = arg,
                tmr_status = (if high \<noteq> 0 then TIMER_WOF else TIMER_WTO)\<rparr>;
           s1 = set_info idx p s
       in if high = 0 \<and> low < TIMER_SAFE_BOUNDARY_IN_US (TIMER_TICK_1US_GET k idx)
          then let s2 = set_info idx info0 s1
               in (0xf3, case func of None \<Rightarrow> s2 | Some f \<Rightarrow> snd (run f arg s2))
          else (HW_TIMER_SUCC, hwTimerSet idx (next_capture p) s1))"

definition drv_hwTmr_irq_process ::
  "tmr_clocks \<Rightarrow> ('cb, 'w) tmr_run \<Rightarrow> nat \<Rightarrow> ('cb, 'w) hwTmr_st \<Rightarrow> ('cb, 'w) hwTmr_st" where
  "drv_hwTmr_irq_process k run idx s =
    (let p = timerInfo s ! idx in
     if tmr_status p = TIMER_WTO then
       (case tmr_cb p of
          None \<Rightarrow> s
        | Some f \<Rightarrow>
            let (t, s1) = run f (tmr_arg p) s; p1 = timerInfo s1 ! idx in
            if t < 0 then hwTimerStop idx s1
            else if t = 0 then
              (if idx < TIMER_IDX_3 then s1 else hwTimerSet idx (next_capture p1) s1)
            else
              let p2 = p1\<lparr>expire_low := of_int t * TIMER_TICK_1US_GET k idx\<rparr>
              in hwTimerSet idx (next_capture p2) (set_info idx p2 s1))
     else
       let p1 = p\<lparr>expire_high := expire_high p - 1\<rparr> in
       if expire_high p1 \<noteq> 0 then hwTimerSet idx TIMER_OVERFLOW_VALUE (set_info idx p1 s)
       else hwTimerSet idx (expire_low p1) (set_info idx (p1\<lparr>tmr_status := TIMER_WTO\<rparr>) s))"

definition hwTimerInfoReset :: "nat \<Rightarrow> ('cb, 'w) hwTmr_st \<Rightarrow> ('cb, 'w) hwTmr_st" where
  "hwTimerInfoReset idx s = set_info idx info0 s"

definition drv_hwTmr_init :: "nat \<Rightarrow> u8 \<Rightarrow> ('cb, 'w) hwTmr_st \<Rightarrow> ('cb, 'w) hwTmr_st" where
  "drv_hwTmr_init idx mode s =
    (if idx \<ge> TIMER_NUM then s else hwTimerInit idx mode (hwTimerInfoReset idx s))"

definition drv_hwTmr_cancel :: "nat \<Rightarrow> ('cb, 'w) hwTmr_st \<Rightarrow> ('cb, 'w) hwTmr_st" where
  "drv_hwTmr_cancel idx s =
    (if idx \<ge> TIMER_NUM then s else set_info idx info0 (hwTimerStop idx s))"

definition drv_hwTmr_set ::
  "tmr_clocks \<Rightarrow> ('cb, 'w) tmr_run \<Rightarrow> nat \<Rightarrow> u32 \<Rightarrow> 'cb option \<Rightarrow> u32 \<Rightarrow> ('cb, 'w) hwTmr_st
    \<Rightarrow> u8 \<times> ('cb, 'w) hwTmr_st" where
  "drv_hwTmr_set k run idx t_us func arg s =
    (if idx \<ge> TIMER_NUM then (HW_TIMER_INVALID, s)
     else hwTmr_setAbs k run idx 0 (t_us * TIMER_TICK_1US_GET k idx) func arg s)"

text \<open>\<open>drv_timer_irq0_handler\<close> to \<open>drv_timer_irq3_handler\<close>.\<close>

definition drv_timer_irq_handler ::
  "nat \<Rightarrow> tmr_clocks \<Rightarrow> ('cb, 'w) tmr_run \<Rightarrow> ('cb, 'w) hwTmr_st \<Rightarrow> ('cb, 'w) hwTmr_st" where
  "drv_timer_irq_handler idx k run s = drv_hwTmr_irq_process k run idx s"

section \<open>Reachable states\<close>

text \<open>
  What can happen to the timers: a client initialises, sets, starts or cancels one, an interrupt of a timer in use is
  served, or the rest of the state changes.
\<close>

inductive hw_reach :: "tmr_clocks \<Rightarrow> ('cb, 'w) tmr_run \<Rightarrow> ('cb, 'w) hwTmr_st \<Rightarrow> bool"
  for k :: tmr_clocks and run :: "('cb, 'w) tmr_run" where
  start: "timerInfo w = replicate TIMER_NUM info0 \<Longrightarrow> hw_reach k run w"
| init: "hw_reach k run w \<Longrightarrow> hw_reach k run (drv_hwTmr_init idx mode w)"
| set: "hw_reach k run w \<Longrightarrow> hw_reach k run (snd (drv_hwTmr_set k run idx t_us f arg w))"
| start_hw: "hw_reach k run w \<Longrightarrow> hw_reach k run (hwTimerStart idx w)"
| cancel: "hw_reach k run w \<Longrightarrow> hw_reach k run (drv_hwTmr_cancel idx w)"
| irq: "hw_reach k run w \<Longrightarrow> idx < TIMER_NUM \<Longrightarrow> tmr_status (timerInfo w ! idx) \<noteq> TIMER_IDLE \<Longrightarrow>
        hw_reach k run (drv_timer_irq_handler idx k run w)"
| other: "hw_reach k run w \<Longrightarrow> timerInfo v = timerInfo w \<Longrightarrow> regs v = regs w \<Longrightarrow> hw_reach k run v"

text \<open>The capture value a timer of the system clock was last programmed with.\<close>

definition capture_of :: "nat \<Rightarrow> tmr_reg list \<Rightarrow> u32 option" where
  "capture_of idx rs = (case [v. CapTick i v \<leftarrow> rev rs, i = idx] of [] \<Rightarrow> None | v # _ \<Rightarrow> Some v)"

definition hw_inv :: "('cb, 'w) hwTmr_st \<Rightarrow> bool" where
  "hw_inv w \<longleftrightarrow> length (timerInfo w) = TIMER_NUM \<and>
     (\<forall>idx < TIMER_NUM. let p = timerInfo w ! idx in
        expire_high p = 0 \<and> tmr_status p \<noteq> TIMER_WOF \<and>
        (tmr_status p = TIMER_WTO \<and> idx < TIMER_IDX_3 \<longrightarrow> capture_of idx (regs w) = Some (expire_low p)))"

lemma capture_of_simps [simp]:
  "capture_of idx (rs @ [CapTick i v]) = (if i = idx then Some v else capture_of idx rs)"
  "capture_of idx (rs @ [InitTick i v]) = capture_of idx rs"
  "capture_of idx (rs @ [TmrMode i m]) = capture_of idx rs"
  "capture_of idx (rs @ [TmrIrqEnable i]) = capture_of idx rs"
  "capture_of idx (rs @ [TmrStart i]) = capture_of idx rs"
  "capture_of idx (rs @ [TmrStop i]) = capture_of idx rs"
  "capture_of idx (rs @ [StmrCapture v]) = capture_of idx rs"
  "capture_of idx (rs @ [StmrIrqEnable]) = capture_of idx rs"
  "capture_of idx (rs @ [StmrIrqMask b]) = capture_of idx rs"
  "capture_of idx (rs @ [InitTick i v, TmrStart i]) = capture_of idx rs"
  "capture_of idx (rs @ [InitTick i v, TmrMode i m, TmrIrqEnable i]) = capture_of idx rs"
  by (simp_all add: capture_of_def)

lemma nth_upd: "xs[i := x] ! j = (if i = j \<and> i < length xs then x else xs ! j)"
  by (cases "i < length xs") (simp_all add: nth_list_update list_update_beyond not_less)

lemma hw_inv_set_info:
  assumes "hw_inv w" "expire_high p = 0" "tmr_status p \<noteq> TIMER_WOF"
    "tmr_status p = TIMER_WTO \<Longrightarrow> v = expire_low p"
  shows "hw_inv (hwTimerSet idx v (set_info idx p w))"
  using assms
  by (auto simp: hw_inv_def set_info_def hwTimerSet_def reg_def nth_upd TIMER_NUM_def TIMER_IDX_3_def Let_def)

lemma set_info_twice [simp]: "set_info idx p (set_info idx q w) = set_info idx p w"
  by (simp add: set_info_def)

lemma hw_inv_idle: "hw_inv w \<Longrightarrow> hw_inv (set_info idx info0 w)"
  by (auto simp: hw_inv_def set_info_def nth_upd info0_def Let_def)

lemma hw_inv_reg:
  "hw_inv w \<Longrightarrow> hw_inv (hwTimerInit idx mode w)"
  "hw_inv w \<Longrightarrow> hw_inv (hwTimerStart idx w)"
  "hw_inv w \<Longrightarrow> hw_inv (hwTimerStop idx w)"
  by (simp_all add: hw_inv_def hwTimerInit_def hwTimerStart_def hwTimerStop_def reg_def Let_def)

lemma hw_inv_init: "hw_inv w \<Longrightarrow> hw_inv (drv_hwTmr_init idx mode w)"
  by (simp add: drv_hwTmr_init_def hwTimerInfoReset_def hw_inv_idle hw_inv_reg)

lemma hw_inv_cancel: "hw_inv w \<Longrightarrow> hw_inv (drv_hwTmr_cancel idx w)"
  by (simp add: drv_hwTmr_cancel_def hw_inv_idle hw_inv_reg)

lemma hw_inv_cong: "timerInfo v = timerInfo w \<Longrightarrow> regs v = regs w \<Longrightarrow> hw_inv v = hw_inv w"
  by (simp add: hw_inv_def)

text \<open>What a client of the timers promises: its callbacks keep the timers in order.\<close>

locale hwtmr_client =
  fixes run :: "('cb, 'w) tmr_run"
  assumes callback_keeps: "hw_inv w \<Longrightarrow> hw_inv (snd (run f arg w))"
begin

lemma set_keeps: "hw_inv w \<Longrightarrow> hw_inv (snd (drv_hwTmr_set k run idx t_us f arg w))"
  by (auto simp: drv_hwTmr_set_def hwTmr_setAbs_def Let_def next_capture_def
      intro!: hw_inv_idle hw_inv_set_info callback_keeps split: option.split)

lemma irq_keeps:
  assumes "hw_inv w" "idx < TIMER_NUM" "tmr_status (timerInfo w ! idx) \<noteq> TIMER_IDLE"
  shows "hw_inv (drv_timer_irq_handler idx k run w)"
proof -
  have wto: "tmr_status (timerInfo w ! idx) = TIMER_WTO"
    using assms by (cases "tmr_status (timerInfo w ! idx)") (auto simp: hw_inv_def Let_def)
  show ?thesis
  proof (cases "tmr_cb (timerInfo w ! idx)")
    case None
    then show ?thesis using assms(1) wto by (simp add: drv_timer_irq_handler_def drv_hwTmr_irq_process_def)
  next
    case (Some f)
    obtain t w1 where r: "run f (tmr_arg (timerInfo w ! idx)) w = (t, w1)" by fastforce
    have i: "hw_inv w1" using callback_keeps[OF assms(1), of f "tmr_arg (timerInfo w ! idx)"] r by simp
    then have p: "expire_high (timerInfo w1 ! idx) = 0" "tmr_status (timerInfo w1 ! idx) \<noteq> TIMER_WOF"
      using assms(2) by (simp_all add: hw_inv_def Let_def)
    have "hw_inv (hwTimerSet idx v w1)" if "\<not> idx < TIMER_IDX_3" for v
      using i that by (auto simp: hw_inv_def hwTimerSet_def reg_def Let_def)
    then show ?thesis
      using i p wto Some r hw_inv_reg(3)[OF i]
      by (auto simp: drv_timer_irq_handler_def drv_hwTmr_irq_process_def next_capture_def Let_def
          intro!: hw_inv_set_info)
  qed
qed

lemma reach_inv: "hw_reach k run w \<Longrightarrow> hw_inv w"
proof (induction rule: hw_reach.induct)
  case (start w)
  then show ?case by (auto simp: hw_inv_def info0_def Let_def)
next
  case (other w v)
  then show ?case using hw_inv_cong by metis
qed (simp_all add: hw_inv_init hw_inv_cancel hw_inv_reg set_keeps irq_keeps)

end

text \<open>C31: 
  A callback that ends its timer by a negative result stops the counter, but leaves the timer marked as running:
  it cannot be set again until it is cancelled.
\<close>

theorem hwtimer_stop_stays_running:
  assumes "idx < TIMER_NUM" "length (timerInfo w) = TIMER_NUM"
    "tmr_status (timerInfo w ! idx) = TIMER_WTO" "tmr_cb (timerInfo w ! idx) = Some f"
    "run f (tmr_arg (timerInfo w ! idx)) w = (t, w1)" "t < 0" "timerInfo w1 = timerInfo w"
  shows "drv_timer_irq_handler idx k run w = hwTimerStop idx w1 \<and>
    drv_hwTmr_set k run idx t_us g arg (drv_timer_irq_handler idx k run w) =
      (HW_TIMER_IS_RUNNING, drv_timer_irq_handler idx k run w) \<and>
    fst (drv_hwTmr_set k run idx t_us g arg (drv_hwTmr_cancel idx (drv_timer_irq_handler idx k run w))) \<noteq> HW_TIMER_IS_RUNNING"
proof -
  have i: "timerInfo (hwTimerStop idx w1) = timerInfo w"
    using assms(7) by (simp add: hwTimerStop_def reg_def)
  have irq: "drv_timer_irq_handler idx k run w = hwTimerStop idx w1"
    using assms(3-6) by (simp add: drv_timer_irq_handler_def drv_hwTmr_irq_process_def)
  have "tmr_status (timerInfo (drv_hwTmr_cancel idx (hwTimerStop idx w1)) ! idx) = TIMER_IDLE"
    using assms(1,2,7)
    by (simp add: drv_hwTmr_cancel_def set_info_def hwTimerStop_def reg_def info0_def)
  then show ?thesis
    using assms(1,3) i irq
    by (simp add: drv_hwTmr_set_def hwTmr_setAbs_def Let_def HW_TIMER_IS_RUNNING_def HW_TIMER_SUCC_def)
qed

definition hw_demo :: "(nat, nat) hwTmr_st" where
  "hw_demo = snd (drv_hwTmr_set \<lparr>h_clock_1us = 24, s_clock_1us = 16\<rparr> (\<lambda>f arg w. (-1, w)) 1 1000 (Some 5) 0
     \<lparr>timerInfo = replicate 4 info0, regs = [], clock_time = 0, user = 0\<rparr>)"

theorem hwtimer_stop_stays_running_witness:
  "fst (drv_hwTmr_set \<lparr>h_clock_1us = 24, s_clock_1us = 16\<rparr> (\<lambda>f arg w. (-1, w)) 1 500 (Some 5) 0
     (drv_timer_irq_handler 1 \<lparr>h_clock_1us = 24, s_clock_1us = 16\<rparr> (\<lambda>f arg w. (-1, w)) hw_demo)) = HW_TIMER_IS_RUNNING"
proof -
  have d: "timerInfo hw_demo ! 1 = \<lparr>expire_low = 24000, expire_high = 0, tmr_cb = Some 5, tmr_arg = 0, tmr_status = TIMER_WTO\<rparr>"
    "length (timerInfo hw_demo) = TIMER_NUM"
    by (simp_all add: hw_demo_def drv_hwTmr_set_def hwTmr_setAbs_def TIMER_NUM_def TIMER_TICK_1US_GET_def
        TIMER_SAFE_BOUNDARY_IN_US_def TIMER_IDX_3_def info0_def set_info_def hwTimerSet_def reg_def Let_def)
  let ?r = "\<lambda>f arg w. (-1, w)" and ?k = "\<lparr>h_clock_1us = 24, s_clock_1us = 16\<rparr>"
  have "drv_hwTmr_set ?k ?r 1 500 (Some 5) 0 (drv_timer_irq_handler 1 ?k ?r hw_demo) =
      (HW_TIMER_IS_RUNNING, drv_timer_irq_handler 1 ?k ?r hw_demo)"
    by (rule hwtimer_stop_stays_running[where f = 5 and t = "-1" and ?w1.0 = hw_demo, THEN conjunct2, THEN conjunct1])
      (use d in \<open>simp_all add: TIMER_NUM_def\<close>)
  then show ?thesis by simp
qed

end
