(* ===== verification/Ir.thy ===== *)
theory Ir
  imports DrvTimer EvBuffer
begin

text \<open>
  The infra-red transmitter: \<open>proj/drivers/ir/ir.c\<close> and the parts of \<open>drv_pwm.c\<close> it uses, as the 8258 boards
  build it (\<open>IR_DMA_FIFO_EN\<close>). There are two ways out. The uPD6121G (NEC) frame and learnt codes go to the DMA of the
  PWM as a table of 16-bit cells; the other encoders hand a table of intervals to \<open>ir_send_raw\<close>, whose
  hardware timer switches the carrier from its interrupt. Writes to the PWM are appended to a trace, in
  which \<open>DmaStart\<close> carries the cells the DMA is started on; the message buffers are the model of
  \<open>EvBuffer\<close>, the timer that of \<open>DrvTimer\<close>. A software timer is the interval it was armed with; the timer table
  is taken to have room. The temporary buffer in which a frame is assembled is a list here, its
  allocation and release are kept.
\<close>

section \<open>State\<close>

datatype pwm_ev =
    PwmSetClk
  | PwmSetMode u8
  | PwmSetPhase u8
  | PwmRevert u8
  | PwmCycleDuty u8 u16 u16
  | PwmStart u8
  | PwmStop u8
  | PwmIrqEn
  | DmaSetBuffer
  | DmaIrqEnable
  | DmaIrqDisable
  | DmaStart "u16 list"
  | DmaStop

datatype ir_cb = irTimer1IrqCb_cb

datatype ir_dma_cb = ir_send_release_cb

record ir_st =
  pool :: ev_buf
  cells :: "ptr \<Rightarrow> nat \<Rightarrow> u16"
  IR_CHAANEL :: u8
  totalCnt :: int
  curCnt :: int
  interval :: ptr
  repeatTimer :: "u32 option"
  stopTimer :: "u32 option"
  sta :: u8
  series_freq :: u32
  series_tmax_us :: u32
  series_cnt :: u32
  series_tm :: "u16 list"
  zrcir_dma_handler :: "ir_dma_cb option"
  pwm :: "pwm_ev list"

type_synonym ir_w = "(ir_cb, ir_st) hwTmr_st"

text \<open>The build: system clock, address of \<open>irDMABuffer.series_cnt\<close>, and the clocks of the timers.\<close>

record ir_cfg =
  sys_clock_hz :: int
  dma_addr :: ptr
  clocks :: tmr_clocks

definition IR_DATA_LEN_MAX :: nat where "IR_DATA_LEN_MAX = 128"
definition IR_DMA_SERIES_CNT1 :: nat where "IR_DMA_SERIES_CNT1 = 247"
definition IR_BASE_TIME :: nat where "IR_BASE_TIME = 50"
definition NO_SPECIAL :: u8 where "NO_SPECIAL = 0xff"
definition TIMER_IDX_1 :: nat where "TIMER_IDX_1 = 1"

definition upd :: "(ir_st \<Rightarrow> ir_st) \<Rightarrow> ir_w \<Rightarrow> ir_w" where
  "upd f w = w\<lparr>user := f (user w)\<rparr>"

definition pwm_out :: "pwm_ev \<Rightarrow> ir_st \<Rightarrow> ir_st" where
  "pwm_out e s = s\<lparr>pwm := pwm s @ [e]\<rparr>"

section \<open>The carrier\<close>

definition drv_pwm_init :: "ir_st \<Rightarrow> ir_st" where
  "drv_pwm_init s = pwm_out PwmSetClk s"

definition ir_init :: "u8 \<Rightarrow> ir_st \<Rightarrow> ir_st" where
  "ir_init channel s =
    (let s1 = drv_pwm_init (s\<lparr>IR_CHAANEL := channel\<rparr>)
     in pwm_out (PwmStop channel) (pwm_out (PwmRevert channel)
          (pwm_out (PwmSetPhase channel) (pwm_out (PwmSetMode channel) s1))))"

definition ir_set :: "ir_cfg \<Rightarrow> int \<Rightarrow> int \<Rightarrow> ir_st \<Rightarrow> ir_st" where
  "ir_set g hz low_duty s =
    (let max_tick = of_int (sys_clock_hz g div hz) :: u16;
         cmp_tick = of_int (uint max_tick div low_duty) :: u16
     in pwm_out PwmIrqEn (pwm_out (PwmCycleDuty (IR_CHAANEL s) max_tick cmp_tick) s))"

text \<open>The time given to \<open>MARK\<close> and \<open>SPACE\<close> is not used.\<close>

definition MARK :: "u32 \<Rightarrow> ir_st \<Rightarrow> ir_st" where
  "MARK t_us s = pwm_out (PwmStart (IR_CHAANEL s)) s"

definition SPACE :: "u32 \<Rightarrow> ir_st \<Rightarrow> ir_st" where
  "SPACE t_us s = pwm_out (PwmStop (IR_CHAANEL s)) s"

definition ir_isBusy :: "ir_st \<Rightarrow> u8" where
  "ir_isBusy s = sta s"

definition irInfoInit :: "ir_st \<Rightarrow> ir_st" where
  "irInfoInit s = s\<lparr>totalCnt := 0, curCnt := 0, interval := NULL, repeatTimer := None, stopTimer := None, sta := 0\<rparr>"

section \<open>Sending by timer\<close>

definition ir_repeatTimerCb :: "ir_st \<Rightarrow> int \<times> ir_st" where
  "ir_repeatTimerCb s = (-1, s\<lparr>pool := snd (ev_buf_free (pool s) (interval s)), interval := NULL, repeatTimer := None\<rparr>)"

definition ir_stopTimerCb :: "ir_st \<Rightarrow> int \<times> ir_st" where
  "ir_stopTimerCb s = (-1, s\<lparr>stopTimer := None, sta := 0\<rparr>)"

definition irTimer1IrqCb :: "ir_w \<Rightarrow> int \<times> ir_w" where
  "irTimer1IrqCb w =
    (let s = user w;
         t0 = ucast (cells s (interval s) (nat (curCnt s))) :: u32;
         t_us = (if 4 < t0 then t0 - 4 else t0)
     in if curCnt s = totalCnt s then
          (-1, upd (\<lambda>s. s\<lparr>repeatTimer := Some (50 * 1000), stopTimer := Some (100 * 1000)\<rparr>)
                 (drv_hwTmr_cancel TIMER_IDX_1 (upd (SPACE 0) w)))
        else
          let w1 = (if curCnt s mod 2 = 0 then upd (MARK t_us) w else upd (SPACE t_us) w)
          in (0, upd (\<lambda>s. s\<lparr>curCnt := curCnt s + 1\<rparr>) w1))"

fun ir_run :: "(ir_cb, ir_st) tmr_run" where
  "ir_run irTimer1IrqCb_cb arg w = irTimer1IrqCb w"

text \<open>Both timers are taken off, then a new buffer is asked for.\<close>

definition ir_new_interval :: "ir_st \<Rightarrow> ir_st" where
  "ir_new_interval s =
    (let (p, b) = ev_buf_allocate (pool s)
     in s\<lparr>repeatTimer := None, stopTimer := None, interval := p, pool := b\<rparr>)"

definition put_cells :: "ptr \<Rightarrow> u16 list \<Rightarrow> ir_st \<Rightarrow> ir_st" where
  "put_cells p xs s = s\<lparr>cells := (cells s)(p := (\<lambda>i. if i < length xs then xs ! i else cells s p i))\<rparr>"

definition ir_timer_start :: "ir_cfg \<Rightarrow> nat \<Rightarrow> ir_w \<Rightarrow> ir_w" where
  "ir_timer_start g n w =
    (let w1 = upd (\<lambda>s. s\<lparr>totalCnt := int n, curCnt := 0\<rparr>) w;
         w2 = snd (drv_hwTmr_set (clocks g) ir_run TIMER_IDX_1 1000 (Some irTimer1IrqCb_cb) 0 w1)
     in upd (\<lambda>s. s\<lparr>sta := 1\<rparr>) (hwTimerStart TIMER_IDX_1 w2))"

definition ir_send_serial :: "ir_cfg \<Rightarrow> u16 list \<Rightarrow> ir_w \<Rightarrow> ir_w" where
  "ir_send_serial g serial w =
    (let w1 = upd ir_new_interval w; p = interval (user w1)
     in if length serial > IR_DATA_LEN_MAX \<or> p = NULL then w1
        else ir_timer_start g (length serial) (upd (put_cells p serial) w1))"

text \<open>\<open>t_us\<close> is a \<open>u32\<close>, stored in a \<open>u16\<close>.\<close>

definition raw_interval :: "u8 \<Rightarrow> u8 \<Rightarrow> u8 list \<Rightarrow> nat \<Rightarrow> u16" where
  "raw_interval specialIndex specialBase raw i =
    (if i = unat specialIndex then ucast (ucast (raw ! i) * ucast specialBase :: u32)
     else ucast (ucast (raw ! i) * 50 :: u32))"

definition ir_send_raw :: "ir_cfg \<Rightarrow> u8 list \<Rightarrow> u8 \<Rightarrow> u8 \<Rightarrow> ir_w \<Rightarrow> ir_w" where
  "ir_send_raw g raw specialIndex specialBase w =
    (let w1 = upd ir_new_interval w; p = interval (user w1)
     in if length raw > IR_DATA_LEN_MAX \<or> p = NULL then w1
        else ir_timer_start g (length raw)
               (upd (put_cells p (map (raw_interval specialIndex specialBase raw) [0..<length raw])) w1))"

section \<open>Sending by DMA\<close>

definition PWM0_PULSE_NORMAL :: u16 where "PWM0_PULSE_NORMAL = 0"

definition pwm_config_dma_fifo_waveform :: "u8 \<Rightarrow> u16 \<Rightarrow> u16 \<Rightarrow> u16" where
  "pwm_config_dma_fifo_waveform carrier_en pulse_type pulse_num =
    push_bit 15 (ucast carrier_en) OR pulse_type OR (pulse_num AND 0x3fff)"

definition drv_ir_dma_plus_config :: "u16 \<Rightarrow> u8 \<Rightarrow> u16" where
  "drv_ir_dma_plus_config plus_num carrien = pwm_config_dma_fifo_waveform carrien PWM0_PULSE_NORMAL plus_num"

text \<open>The cells the DMA reads: as many as the byte count in front of them says.\<close>

definition dma_cells :: "ir_st \<Rightarrow> u16 list" where
  "dma_cells s = take (unat (series_cnt s) div 2) (series_tm s)"

definition drv_ir_dma_start :: "ir_st \<Rightarrow> ir_st" where
  "drv_ir_dma_start s = pwm_out (DmaStart (dma_cells s)) s"

definition drv_ir_dma_stop :: "ir_st \<Rightarrow> ir_st" where
  "drv_ir_dma_stop s = pwm_out DmaStop s"

definition drv_ir_dma_enable_irq :: "ir_st \<Rightarrow> ir_st" where
  "drv_ir_dma_enable_irq s = pwm_out DmaIrqEnable s"

definition drv_ir_dma_disable_irq :: "ir_st \<Rightarrow> ir_st" where
  "drv_ir_dma_disable_irq s = pwm_out DmaIrqDisable s"

definition drv_ir_dma_set_buffer :: "ir_st \<Rightarrow> ir_st" where
  "drv_ir_dma_set_buffer s = pwm_out DmaSetBuffer s"

definition ir_send_release :: "ir_st \<Rightarrow> ir_st" where
  "ir_send_release s = (drv_ir_dma_stop (drv_ir_dma_disable_irq s))\<lparr>sta := 0, interval := NULL\<rparr>"

definition zrcDMAIrcallback :: "ir_dma_cb option \<Rightarrow> ir_st \<Rightarrow> ir_st" where
  "zrcDMAIrcallback cb s = s\<lparr>zrcir_dma_handler := cb\<rparr>"

definition rc_ir_irq_prc :: "ir_st \<Rightarrow> ir_st" where
  "rc_ir_irq_prc s = (case zrcir_dma_handler s of None \<Rightarrow> s | Some ir_send_release_cb \<Rightarrow> ir_send_release s)"

definition Get_CarrierCycleTick :: "u32 \<Rightarrow> ir_st \<Rightarrow> u8 \<times> ir_st" where
  "Get_CarrierCycleTick irCycle s =
    (if irCycle = 0 then (0, s) else (1, s\<lparr>series_freq := 1000000 div irCycle, series_tmax_us := irCycle\<rparr>))"

text \<open>The common end: the byte count in front of the cells, and the start of the DMA.\<close>

definition ir_dma_go :: "nat \<Rightarrow> ir_st \<Rightarrow> ir_st" where
  "ir_dma_go n s =
    (let len = of_nat (2 * n) :: u32;
         s1 = drv_ir_dma_set_buffer (s\<lparr>series_cnt := len\<rparr>);
         s2 = zrcDMAIrcallback (Some ir_send_release_cb) (s1\<lparr>totalCnt := int (2 * n), curCnt := 0, sta := 1\<rparr>)
     in drv_ir_dma_start (drv_ir_dma_enable_irq s2))"

text \<open>
  A cell of a learnt code: the division is by the carrier period, in 32 bits, cut to the 16 bits of the
  parameter. A division by 0 (no carrier configured) is \<open>None\<close>.
\<close>

definition serial_cell :: "u32 \<Rightarrow> nat \<Rightarrow> u16 \<Rightarrow> u16" where
  "serial_cell tmax i t = drv_ir_dma_plus_config (ucast (ucast t div tmax :: u32)) (if odd i then 0 else 1)"

definition ir_dma_send_serial :: "ir_cfg \<Rightarrow> u16 list \<Rightarrow> ir_st \<Rightarrow> ir_st option" where
  "ir_dma_send_serial g serial s =
    (let s1 = s\<lparr>repeatTimer := None, stopTimer := None, interval := dma_addr g\<rparr>; n = length serial
     in if n > IR_DMA_SERIES_CNT1 then Some s1
        else if n > 0 \<and> series_tmax_us s = 0 then None
        else Some (ir_dma_go n
               (s1\<lparr>series_tm := map (\<lambda>i. serial_cell (series_tmax_us s) i (serial ! i)) [0..<n] @ drop n (series_tm s)\<rparr>)))"

definition ir_dma_send_raw :: "ir_cfg \<Rightarrow> u16 list \<Rightarrow> u8 \<Rightarrow> u8 \<Rightarrow> ir_st \<Rightarrow> ir_st" where
  "ir_dma_send_raw g raw specialIndex specialBase s =
    (let s1 = s\<lparr>repeatTimer := None, stopTimer := None, interval := dma_addr g\<rparr>; n = length raw
     in if n > IR_DMA_SERIES_CNT1 then s1
        else ir_dma_go n
               (s1\<lparr>series_tm := map (\<lambda>i. if i = unat specialIndex then ucast specialBase else raw ! i) [0..<n]
                                 @ drop n (series_tm s)\<rparr>))"

section \<open>Encoders\<close>

fun ir_dma_convert_byte :: "u16 \<Rightarrow> nat \<Rightarrow> u16 \<Rightarrow> u16 \<Rightarrow> bool \<Rightarrow> u16 \<Rightarrow> u16 \<Rightarrow> bool \<Rightarrow> u16 \<Rightarrow> u16 list" where
  "ir_dma_convert_byte data 0 one_mark one_space fmls_1 zero_mark zero_space fmls_0 cycle = []"
| "ir_dma_convert_byte data (Suc bitLen) one_mark one_space fmls_1 zero_mark zero_space fmls_0 cycle =
    (let waveform_logic_1_1st = drv_ir_dma_plus_config (one_mark div cycle) 1;
         waveform_logic_1_2nd = drv_ir_dma_plus_config (one_space div cycle) 0;
         waveform_logic_0_1st = drv_ir_dma_plus_config (zero_mark div cycle) 1;
         waveform_logic_0_2nd = drv_ir_dma_plus_config (zero_space div cycle) 0
     in (if data AND 1 \<noteq> 0 then
           (if fmls_1 then [waveform_logic_1_1st, waveform_logic_1_2nd] else [waveform_logic_1_2nd, waveform_logic_1_1st])
         else
           (if fmls_0 then [waveform_logic_0_1st, waveform_logic_0_2nd] else [waveform_logic_0_2nd, waveform_logic_0_1st]))
        @ ir_dma_convert_byte (drop_bit 1 data) bitLen one_mark one_space fmls_1 zero_mark zero_space fmls_0 cycle)"

fun ir_convert_byte :: "u16 \<Rightarrow> nat \<Rightarrow> u8 \<Rightarrow> u8 \<Rightarrow> bool \<Rightarrow> u8 \<Rightarrow> u8 \<Rightarrow> bool \<Rightarrow> u8 list" where
  "ir_convert_byte data 0 one_mark one_space fmls_1 zero_mark zero_space fmls_0 = []"
| "ir_convert_byte data (Suc bitLen) one_mark one_space fmls_1 zero_mark zero_space fmls_0 =
    (if data AND 1 \<noteq> 0 then (if fmls_1 then [one_mark, one_space] else [one_space, one_mark])
     else (if fmls_0 then [zero_mark, zero_space] else [zero_space, zero_mark]))
    @ ir_convert_byte (drop_bit 1 data) bitLen one_mark one_space fmls_1 zero_mark zero_space fmls_0"

text \<open>An encoder stops for ever (\<open>None\<close>) when there is no buffer for its frame.\<close>

definition with_buf :: "(ir_w \<Rightarrow> ir_w) \<Rightarrow> ir_w \<Rightarrow> ir_w option" where
  "with_buf send w =
    (let (buf, b) = ev_buf_allocate (pool (user w))
     in if buf = NULL then None
        else let w1 = send (upd (\<lambda>s. s\<lparr>pool := b\<rparr>) w)
             in Some (upd (\<lambda>s. s\<lparr>pool := snd (ev_buf_free (pool s) buf)\<rparr>) w1))"

definition NEC_HDR_MARK :: u16 where "NEC_HDR_MARK = 9000"
definition NEC_HDR_SPACE :: u16 where "NEC_HDR_SPACE = 4500"
definition NEC_BIT_MARK :: u16 where "NEC_BIT_MARK = 560"
definition NEC_ONE_SPACE :: u16 where "NEC_ONE_SPACE = 1600"
definition NEC_ZERO_SPACE :: u16 where "NEC_ZERO_SPACE = 560"
definition NEC_RPT_SPACE :: u16 where "NEC_RPT_SPACE = 2250"
definition PWM_CARRIER_CYCLE_US :: u16 where "PWM_CARRIER_CYCLE_US = 26"

definition nec_byte :: "u8 \<Rightarrow> u16 list" where
  "nec_byte b = ir_dma_convert_byte (ucast b) 8 NEC_BIT_MARK NEC_ONE_SPACE True NEC_BIT_MARK NEC_ZERO_SPACE True
                  PWM_CARRIER_CYCLE_US"

definition upd6121g_frame :: "u16 \<Rightarrow> u16 \<Rightarrow> bool \<Rightarrow> u16 list" where
  "upd6121g_frame addr cmd fRepeat =
    (let first_addr = ucast (drop_bit 8 (addr AND 0xff00)) :: u8;
         second_addr = ucast (addr AND 0x00ff) :: u8;
         first_cmd = ucast (drop_bit 8 (cmd AND 0xff00)) :: u8;
         second_cmd = ucast (cmd AND 0x00ff) :: u8
     in (if \<not> fRepeat then
           [drv_ir_dma_plus_config (NEC_HDR_MARK div PWM_CARRIER_CYCLE_US) 1,
            drv_ir_dma_plus_config (NEC_HDR_SPACE div PWM_CARRIER_CYCLE_US) 0]
           @ nec_byte first_addr @ nec_byte second_addr @ nec_byte first_cmd @ nec_byte second_cmd
         else
           [drv_ir_dma_plus_config (NEC_HDR_MARK div PWM_CARRIER_CYCLE_US) 1,
            drv_ir_dma_plus_config (NEC_RPT_SPACE div PWM_CARRIER_CYCLE_US) 0])
        @ [drv_ir_dma_plus_config (NEC_BIT_MARK div PWM_CARRIER_CYCLE_US) 1])"

definition ir_send_upd6121g :: "ir_cfg \<Rightarrow> u16 \<Rightarrow> u16 \<Rightarrow> bool \<Rightarrow> ir_w \<Rightarrow> ir_w option" where
  "ir_send_upd6121g g addr cmd fRepeat w =
    with_buf (upd (ir_dma_send_raw g (upd6121g_frame addr cmd fRepeat) NO_SPECIAL 0)) (upd (ir_set g 38000 3) w)"

text \<open>The LC7461 and MN6014 frames, in units of 50 us.\<close>

definition lc7461_frame :: "u16 \<Rightarrow> u16 \<Rightarrow> bool \<Rightarrow> u8 list" where
  "lc7461_frame addr cmd fRepeat =
    (let one_mark = of_nat (560 div IR_BASE_TIME); one_space = of_nat (1600 div IR_BASE_TIME);
         zero_mark = of_nat (560 div IR_BASE_TIME); zero_space = of_nat (560 div IR_BASE_TIME);
         conv = (\<lambda>d n. ir_convert_byte d n one_mark one_space True zero_mark zero_space True)
     in [of_nat (9000 div IR_BASE_TIME), of_nat (4500 div IR_BASE_TIME)]
        @ (if \<not> fRepeat then conv addr 13 @ conv (NOT addr) 13 @ conv cmd 8 @ conv (NOT cmd) 8 else [])
        @ [one_mark])"

definition ir_send_lc7461 :: "ir_cfg \<Rightarrow> u16 \<Rightarrow> u16 \<Rightarrow> bool \<Rightarrow> ir_w \<Rightarrow> ir_w option" where
  "ir_send_lc7461 g addr cmd fRepeat w =
    with_buf (ir_send_raw g (lc7461_frame addr cmd fRepeat) NO_SPECIAL 0) (upd (ir_set g 38000 2) w)"

definition mn6014_frame :: "nat \<Rightarrow> u8 \<Rightarrow> u8 \<Rightarrow> u8 list" where
  "mn6014_frame addr_bits addr cmd =
    (let one_mark = of_nat (850 div IR_BASE_TIME); one_space = of_nat (2500 div IR_BASE_TIME);
         zero_mark = of_nat (850 div IR_BASE_TIME); zero_space = of_nat (850 div IR_BASE_TIME);
         conv = (\<lambda>d n. ir_convert_byte d n one_mark one_space True zero_mark zero_space True)
     in [of_nat (3300 div IR_BASE_TIME), of_nat (3300 div IR_BASE_TIME)]
        @ conv (ucast addr) addr_bits @ conv (ucast cmd) 6
        @ conv (NOT (ucast addr)) addr_bits @ conv (NOT (ucast cmd)) 6 @ [one_mark])"

definition ir_send_mn6014_c6d6 :: "ir_cfg \<Rightarrow> u8 \<Rightarrow> u8 \<Rightarrow> bool \<Rightarrow> ir_w \<Rightarrow> ir_w option" where
  "ir_send_mn6014_c6d6 g addr cmd fRepeat w =
    with_buf (ir_send_raw g (mn6014_frame 6 addr cmd) NO_SPECIAL 0) (upd (ir_set g 38000 2) w)"

definition ir_send_mn6014_c5d6 :: "ir_cfg \<Rightarrow> u8 \<Rightarrow> u8 \<Rightarrow> bool \<Rightarrow> ir_w \<Rightarrow> ir_w option" where
  "ir_send_mn6014_c5d6 g addr cmd fRepeat w =
    with_buf (ir_send_raw g (mn6014_frame 5 addr cmd) NO_SPECIAL 0) (upd (ir_set g 56000 2) w)"

end
