(* ===== verification/IrProps.thy ===== *)
theory IrProps
  imports Ir
begin

text \<open>
  Properties of the infra-red transmitter: what the DMA is given decodes to the code that was sent, what the
  timer puts out, and what becomes of the message buffers.
\<close>

section \<open>Reading a frame back\<close>

text \<open>
  A receiver of the NEC protocol, from its definition: a cell is a mark (carrier on) or a space that lasts
  some microseconds; the lengths are recognised within a tenth.
\<close>

definition cell_us :: "u16 \<Rightarrow> bool \<times> nat" where
  "cell_us c = (bit c 15, 26 * unat (c AND 0x3fff))"

definition about :: "nat \<Rightarrow> nat \<Rightarrow> bool" where
  "about n d \<longleftrightarrow> 10 * d \<ge> 9 * n \<and> 10 * d \<le> 11 * n"

fun nec_bits :: "(bool \<times> nat) list \<Rightarrow> bool list option" where
  "nec_bits [] = None"
| "nec_bits [(m, d)] = (if m \<and> about 560 d then Some [] else None)"
| "nec_bits ((m, d) # (m', d') # r) =
    (if m \<and> \<not> m' \<and> about 560 d then
       (if about 1600 d' then map_option ((#) True) (nec_bits r)
        else if about 560 d' then map_option ((#) False) (nec_bits r) else None)
     else None)"

definition nec_byte_at :: "bool list \<Rightarrow> nat \<Rightarrow> u16" where
  "nec_byte_at bs k = horner_sum of_bool 2 (take 8 (drop (8 * k) bs))"

fun nec_decode :: "(bool \<times> nat) list \<Rightarrow> (u16 \<times> u16) option" where
  "nec_decode ((m, d) # (m', d') # r) =
    (if m \<and> about 9000 d \<and> \<not> m' \<and> about 4500 d' then
       (case nec_bits r of
          Some bs \<Rightarrow>
            if length bs = 32 then
              Some (push_bit 8 (nec_byte_at bs 0) OR nec_byte_at bs 1, push_bit 8 (nec_byte_at bs 2) OR nec_byte_at bs 3)
            else None
        | None \<Rightarrow> None)
     else None)"
| "nec_decode _ = None"

lemma bit_length: "length (ir_dma_convert_byte data n om os f1 zm zs f0 c) = 2 * n"
  by (induction n arbitrary: data) (auto simp: Let_def)

lemma nec_cells:
  "cell_us (drv_ir_dma_plus_config (NEC_HDR_MARK div PWM_CARRIER_CYCLE_US) 1) = (True, 8996)"
  "cell_us (drv_ir_dma_plus_config (NEC_HDR_SPACE div PWM_CARRIER_CYCLE_US) 0) = (False, 4498)"
  "cell_us (drv_ir_dma_plus_config (NEC_BIT_MARK div PWM_CARRIER_CYCLE_US) 1) = (True, 546)"
  "cell_us (drv_ir_dma_plus_config (NEC_ONE_SPACE div PWM_CARRIER_CYCLE_US) 0) = (False, 1586)"
  "cell_us (drv_ir_dma_plus_config (NEC_ZERO_SPACE div PWM_CARRIER_CYCLE_US) 0) = (False, 546)"
  by (simp_all add: cell_us_def drv_ir_dma_plus_config_def pwm_config_dma_fifo_waveform_def PWM0_PULSE_NORMAL_def
      NEC_HDR_MARK_def NEC_HDR_SPACE_def NEC_BIT_MARK_def NEC_ONE_SPACE_def NEC_ZERO_SPACE_def PWM_CARRIER_CYCLE_US_def
      bit_simps)

lemma nec_bits_convert:
  "nec_bits (map cell_us (ir_dma_convert_byte data n NEC_BIT_MARK NEC_ONE_SPACE True NEC_BIT_MARK NEC_ZERO_SPACE True
                            PWM_CARRIER_CYCLE_US) @ r) =
   map_option ((@) (map (bit data) [0..<n])) (nec_bits r)"
proof (induction n arbitrary: data)
  case 0
  show ?case by (cases "nec_bits r") simp_all
next
  case (Suc n)
  have "map (bit data) [0..<Suc n] = bit data 0 # map (bit (drop_bit 1 data)) [0..<n]"
    by (simp add: upt_conv_Cons map_Suc_upt[symmetric] bit_simps comp_def del: upt_Suc)
  moreover have "(data AND 1 \<noteq> 0) = bit data 0"
    by (simp add: bit_0 and_one_eq odd_iff_mod_2_eq_one)
  ultimately show ?case
    by (cases "nec_bits r") (simp_all add: Let_def nec_cells Suc.IH about_def)
qed

lemma nec_bits_byte:
  "nec_bits (map cell_us (nec_byte b) @ r) = map_option ((@) (map (bit b) [0..<8])) (nec_bits r)"
  unfolding nec_byte_def nec_bits_convert by (simp add: bit_simps upt_rec comp_def)

lemma nec_bits_stop: "nec_bits (map cell_us [drv_ir_dma_plus_config (NEC_BIT_MARK div PWM_CARRIER_CYCLE_US) 1]) = Some []"
  by (simp add: nec_cells about_def)

lemma mask_bytes: "(0xff :: u16) = mask 8" "(0xff00 :: u16) = push_bit 8 (mask 8)"
  by (simp_all add: mask_eq_exp_minus_1 push_bit_eq_mult)

lemma nec_word_split:
  "push_bit 8 (horner_sum of_bool 2 (map (bit (ucast (drop_bit 8 (x AND 0xff00)) :: u8)) [0..<8]) :: u16) OR
   horner_sum of_bool 2 (map (bit (ucast (x AND 0xff) :: u8)) [0..<8]) = (x :: u16)"
  (is "push_bit 8 ?h OR ?l = x")
proof (rule bit_word_eqI)
  fix i assume "i < LENGTH(16)"
  then have i: "i < 16" by simp
  have h: "bit ?h j = (j < 8 \<and> bit x (j + 8))" and l: "bit ?l j = (j < 8 \<and> bit x j)" if "j < 16" for j
    using that by (auto simp: bit_horner_sum_bit_iff bit_simps mask_bytes ac_simps)
  define a b where "a = ?h" and "b = ?l"
  have "bit a (i - 8) = (i - 8 < 8 \<and> bit x (i - 8 + 8))" "bit b i = (i < 8 \<and> bit x i)"
    using h[of "i - 8"] l[of i] i by (simp_all only: a_def b_def)
  then have "bit (push_bit 8 a OR b) i = bit x i" using i by (auto simp: bit_simps)
  then show "bit (push_bit 8 ?h OR ?l) i = bit x i" by (simp only: a_def b_def)
qed

lemma nec_decode_frame: "nec_decode (map cell_us (upd6121g_frame addr cmd False)) = Some (addr, cmd)"
proof -
  let ?a1 = "ucast (drop_bit 8 (addr AND 0xff00)) :: u8" and ?a2 = "ucast (addr AND 0x00ff) :: u8"
  let ?c1 = "ucast (drop_bit 8 (cmd AND 0xff00)) :: u8" and ?c2 = "ucast (cmd AND 0x00ff) :: u8"
  let ?bs = "map (bit ?a1) [0..<8] @ map (bit ?a2) [0..<8] @ map (bit ?c1) [0..<8] @ map (bit ?c2) [0..<8]"
  have bits: "nec_bits (map cell_us (nec_byte ?a1 @ nec_byte ?a2 @ nec_byte ?c1 @ nec_byte ?c2 @
               [drv_ir_dma_plus_config (NEC_BIT_MARK div PWM_CARRIER_CYCLE_US) 1])) = Some ?bs"
    by (simp only: map_append nec_bits_byte nec_bits_stop option.map append_Nil2)
  have at: "nec_byte_at ?bs 0 = horner_sum of_bool 2 (map (bit ?a1) [0..<8])"
    "nec_byte_at ?bs 1 = horner_sum of_bool 2 (map (bit ?a2) [0..<8])"
    "nec_byte_at ?bs 2 = horner_sum of_bool 2 (map (bit ?c1) [0..<8])"
    "nec_byte_at ?bs 3 = horner_sum of_bool 2 (map (bit ?c2) [0..<8])"
    by (simp_all add: nec_byte_at_def)
  have "nec_decode (map cell_us (upd6121g_frame addr cmd False)) =
      (case nec_bits (map cell_us (nec_byte ?a1 @ nec_byte ?a2 @ nec_byte ?c1 @ nec_byte ?c2 @
               [drv_ir_dma_plus_config (NEC_BIT_MARK div PWM_CARRIER_CYCLE_US) 1])) of
          Some bs \<Rightarrow>
            if length bs = 32 then
              Some (push_bit 8 (nec_byte_at bs 0) OR nec_byte_at bs 1, push_bit 8 (nec_byte_at bs 2) OR nec_byte_at bs 3)
            else None
        | None \<Rightarrow> None)"
    unfolding upd6121g_frame_def by (simp add: nec_cells about_def)
  also have "\<dots> = Some (addr, cmd)"
    unfolding bits by (simp only: option.case at nec_word_split) simp
  finally show ?thesis .
qed

section \<open>What the timer sends\<close>

definition ir_tmr_info :: "ir_cfg \<Rightarrow> ir_cb hwTmr_info" where
  "ir_tmr_info g = \<lparr>expire_low = 1000 * h_clock_1us (clocks g), expire_high = 0, tmr_cb = Some irTimer1IrqCb_cb,
                    tmr_arg = 0, tmr_status = TIMER_WTO\<rparr>"

definition ir_clock_ok :: "ir_cfg \<Rightarrow> bool" where
  "ir_clock_ok g \<longleftrightarrow> unat (h_clock_1us (clocks g)) * 1000 < 2 ^ 32"

lemma ir_clock_boundary:
  assumes "ir_clock_ok g"
  shows "\<not> 1000 * h_clock_1us (clocks g) < 10 * h_clock_1us (clocks g)"
proof -
  have "unat (1000 * h_clock_1us (clocks g)) = 1000 * unat (h_clock_1us (clocks g))"
    "unat (10 * h_clock_1us (clocks g)) = 10 * unat (h_clock_1us (clocks g))"
    using assms by (simp_all add: ir_clock_ok_def unat_word_ariths)
  then show ?thesis by (simp add: word_less_nat_alt)
qed

lemma ir_timer_start_idle:
  assumes "length (timerInfo w) = 4" "tmr_status (timerInfo w ! 1) = TIMER_IDLE" "ir_clock_ok g"
  shows "ir_timer_start g n w =
    w\<lparr>timerInfo := (timerInfo w)[1 := ir_tmr_info g],
      regs := regs w @ [CapTick 1 (1000 * h_clock_1us (clocks g)), InitTick 1 0, TmrStart 1],
      user := (user w)\<lparr>totalCnt := int n, curCnt := 0, sta := 1\<rparr>\<rparr>"
  using assms(1,2) ir_clock_boundary[OF assms(3)]
  by (simp add: ir_timer_start_def drv_hwTmr_set_def hwTmr_setAbs_def TIMER_IDX_1_def TIMER_NUM_def
      TIMER_TICK_1US_GET_def TIMER_IDX_3_def TIMER_SAFE_BOUNDARY_IN_US_def hwTimerSet_def hwTimerStart_def
      set_info_def reg_def upd_def next_capture_def ir_tmr_info_def Let_def)

definition ir_irq :: "ir_cfg \<Rightarrow> ir_w \<Rightarrow> ir_w" where
  "ir_irq g = drv_timer_irq_handler 1 (clocks g) ir_run"

definition wave :: "u8 \<Rightarrow> nat \<Rightarrow> pwm_ev" where
  "wave ch i = (if even i then PwmStart ch else PwmStop ch)"

lemma ir_irq_running:
  assumes "timerInfo w ! 1 = ir_tmr_info g" "curCnt (user w) = int k" "totalCnt (user w) = int n" "k < n"
  shows "ir_irq g w =
    w\<lparr>user := (user w)\<lparr>curCnt := int (Suc k), pwm := pwm (user w) @ [wave (IR_CHAANEL (user w)) k]\<rparr>\<rparr>"
proof -
  have "(int k mod 2 = 0) = even k" by presburger
  then show ?thesis
    using assms
    by (simp add: ir_irq_def drv_timer_irq_handler_def drv_hwTmr_irq_process_def ir_tmr_info_def irTimer1IrqCb_def
        upd_def MARK_def SPACE_def pwm_out_def wave_def TIMER_IDX_3_def Let_def)
qed

lemma ir_irq_last:
  assumes "timerInfo w ! 1 = ir_tmr_info g" "curCnt (user w) = totalCnt (user w)"
  shows "ir_irq g w =
    w\<lparr>timerInfo := (timerInfo w)[1 := info0], regs := regs w @ [TmrStop 1, TmrStop 1],
      user := (user w)\<lparr>repeatTimer := Some 50000, stopTimer := Some 100000,
                        pwm := pwm (user w) @ [PwmStop (IR_CHAANEL (user w))]\<rparr>\<rparr>"
  using assms
  by (simp add: ir_irq_def drv_timer_irq_handler_def drv_hwTmr_irq_process_def ir_tmr_info_def irTimer1IrqCb_def
      upd_def SPACE_def pwm_out_def TIMER_IDX_3_def Let_def drv_hwTmr_cancel_def TIMER_NUM_def TIMER_IDX_1_def
      hwTimerStop_def reg_def set_info_def)

lemma ir_irqs:
  assumes "timerInfo w ! 1 = ir_tmr_info g" "curCnt (user w) = 0" "totalCnt (user w) = int n" "k \<le> n"
  shows "(ir_irq g ^^ k) w =
    w\<lparr>user := (user w)\<lparr>curCnt := int k, pwm := pwm (user w) @ map (wave (IR_CHAANEL (user w))) [0..<k]\<rparr>\<rparr>"
  using assms(4)
proof (induction k)
  case 0
  then show ?case using assms by (cases w, cases "user w") simp
next
  case (Suc k)
  then have IH: "(ir_irq g ^^ k) w =
    w\<lparr>user := (user w)\<lparr>curCnt := int k, pwm := pwm (user w) @ map (wave (IR_CHAANEL (user w))) [0..<k]\<rparr>\<rparr>"
    by simp
  show ?case
    using assms(1,3) Suc.prems by (simp add: IH ir_irq_running[where k = k and n = n])
qed

section \<open>Sending a NEC code\<close>

definition buf_free_left :: "ev_buf \<Rightarrow> bool" where
  "buf_free_left b \<longleftrightarrow> placed b \<and> (\<exists>i < BUFFER_NUM. \<not> busy b i)"

lemma allocate_free_left:
  assumes "buf_free_left b"
  obtains i b' where "ev_buf_allocate b = (data_of (item b i), b')" "i < BUFFER_NUM" "\<not> busy b i"
    "data_of (item b i) \<noteq> NULL" "placed b'" "ev_bufItem b' = ev_bufItem b"
    "live_bufs b' = insert (data_of (item b i)) (live_bufs b)" "data_of (item b i) \<notin> live_bufs b"
proof -
  have p: "placed b" using assms by (simp add: buf_free_left_def)
  have "find (\<lambda>i. \<not> busy b i) [0..<BUFFER_NUM] \<noteq> None"
    using assms unfolding find_upt_None buf_free_left_def by blast
  then obtain i where f: "find (\<lambda>i. \<not> busy b i) [0..<BUFFER_NUM] = Some i" by blast
  let ?b = "snd (ev_buf_allocate b)"
  note s = allocate_some[OF p f]
  show ?thesis
  proof (rule that)
    show "ev_buf_allocate b = (data_of (item b i), ?b)" using s by (metis prod.collapse)
    show "i < BUFFER_NUM" "\<not> busy b i" using s by blast+
    show "data_of (item b i) \<noteq> NULL" using data_nonnull[OF p, of i] s by simp
    show "placed ?b" "ev_bufItem ?b = ev_bufItem b" using p placed_allocate[of b] by simp_all
    show "live_bufs ?b = insert (data_of (item b i)) (live_bufs b)" using s by blast
    show "data_of (item b i) \<notin> live_bufs b" using p s by (simp add: live_bufs_iff)
  qed
qed

lemma item_cong: "ev_bufItem b = ev_bufItem b' \<Longrightarrow> item b = item b'"
  by (simp add: item_def fun_eq_iff)

lemma placed_free: "placed (snd (ev_buf_free b p)) = placed b"
  by (simp add: ev_buf_free_def placed_def Let_def)

lemma free_live':
  assumes "placed b'" "ev_bufItem b' = ev_bufItem b" "i < BUFFER_NUM"
  shows "live_bufs (snd (ev_buf_free b' (data_of (item b i)))) = live_bufs b' - {data_of (item b i)}"
  using free_live[OF assms(1,3)] item_cong[OF assms(2)] by simp

lemma dma_cells_go:
  "length xs \<le> 247 \<Longrightarrow> series_tm s = xs @ ys \<Longrightarrow>
   ir_dma_go (length xs) s =
     s\<lparr>series_cnt := of_nat (2 * length xs), totalCnt := int (2 * length xs), curCnt := 0, sta := 1,
       zrcir_dma_handler := Some ir_send_release_cb,
       pwm := pwm s @ [DmaSetBuffer, DmaIrqEnable, DmaStart xs]\<rparr>"
proof -
  assume "length xs \<le> 247" "series_tm s = xs @ ys"
  moreover from this have "unat (of_nat (2 * length xs) :: u32) = 2 * length xs"
    by (intro unat_of_nat_u32) simp
  ultimately show ?thesis
    by (simp add: ir_dma_go_def drv_ir_dma_set_buffer_def drv_ir_dma_enable_irq_def drv_ir_dma_start_def
        zrcDMAIrcallback_def pwm_out_def dma_cells_def Let_def del: of_nat_mult)
qed

lemma dma_send_raw_eq:
  assumes "length raw \<le> 247"
  shows "ir_dma_send_raw g raw NO_SPECIAL 0 s =
    s\<lparr>repeatTimer := None, stopTimer := None, interval := dma_addr g,
      series_tm := raw @ drop (length raw) (series_tm s),
      series_cnt := of_nat (2 * length raw), totalCnt := int (2 * length raw), curCnt := 0, sta := 1,
      zrcir_dma_handler := Some ir_send_release_cb,
      pwm := pwm s @ [DmaSetBuffer, DmaIrqEnable, DmaStart raw]\<rparr>"
proof -
  have "map (\<lambda>i. if i = unat NO_SPECIAL then ucast (0 :: u8) else raw ! i) [0..<length raw] = raw"
    using assms by (intro nth_equalityI) (auto simp: NO_SPECIAL_def)
  with assms show ?thesis
    by (simp add: ir_dma_send_raw_def IR_DMA_SERIES_CNT1_def Let_def dma_cells_go[where ys = "drop (length raw) (series_tm s)"])
qed

lemma length_nec_byte: "length (nec_byte b) = 16"
  by (simp add: nec_byte_def bit_length)

lemma length_upd6121g: "length (upd6121g_frame addr cmd r) = (if r then 3 else 67)"
  by (simp add: upd6121g_frame_def length_nec_byte Let_def)

lemma with_buf_pool:
  assumes free: "buf_free_left (pool (user w))"
    and keep: "\<And>v. pool (user (send v)) = pool (user v)"
  obtains w1 b where
    "with_buf send w = Some (upd (\<lambda>s. s\<lparr>pool := b\<rparr>) (send (upd (\<lambda>s. s\<lparr>pool := w1\<rparr>) w)))"
    "placed b" "live_bufs b = live_bufs (pool (user w))"
proof -
  let ?b = "pool (user w)"
  obtain i b' where a: "ev_buf_allocate ?b = (data_of (item ?b i), b')" "i < BUFFER_NUM"
    "data_of (item ?b i) \<noteq> NULL" "placed b'" "ev_bufItem b' = ev_bufItem ?b"
    "live_bufs b' = insert (data_of (item ?b i)) (live_bufs ?b)" "data_of (item ?b i) \<notin> live_bufs ?b"
    using allocate_free_left[OF free] by metis
  let ?f = "snd (ev_buf_free b' (data_of (item ?b i)))"
  show ?thesis
  proof (rule that)
    show "with_buf send w = Some (upd (\<lambda>s. s\<lparr>pool := ?f\<rparr>) (send (upd (\<lambda>s. s\<lparr>pool := b'\<rparr>) w)))"
      using a(1,3) keep[of "upd (\<lambda>s. s\<lparr>pool := b'\<rparr>) w"] by (simp add: with_buf_def upd_def Let_def)
    show "placed ?f" using a(4) by (simp add: placed_free)
    show "live_bufs ?f = live_bufs ?b"
      using free_live'[OF a(4,5,2)] a(6,7) by simp
  qed
qed

text \<open>C8: A code sent by DMA reaches the receiver.\<close>

theorem ir_send_upd6121g_decodes:
  assumes "buf_free_left (pool (user w))"
  shows "\<exists>w' out. ir_send_upd6121g g addr cmd False w = Some w' \<and>
     pwm (user w') = pwm (user (upd (ir_set g 38000 3) w)) @ [DmaSetBuffer, DmaIrqEnable, DmaStart out] \<and>
     nec_decode (map cell_us out) = Some (addr, cmd) \<and>
     live_bufs (pool (user w')) = live_bufs (pool (user w)) \<and>
     ir_isBusy (user w') = 1 \<and> ir_isBusy (rc_ir_irq_prc (user w')) = 0"
proof -
  let ?f = "upd6121g_frame addr cmd False"
  let ?send = "upd (ir_dma_send_raw g ?f NO_SPECIAL 0)"
  have len: "length ?f \<le> 247" by (simp add: length_upd6121g)
  have pool: "pool (user (upd (ir_set g 38000 3) w)) = pool (user w)"
    by (simp add: upd_def ir_set_def pwm_out_def Let_def)
  have keep: "pool (user (?send v)) = pool (user v)" for v
    by (simp add: upd_def dma_send_raw_eq[OF len])
  obtain b' b where w': "with_buf ?send (upd (ir_set g 38000 3) w) =
      Some (upd (\<lambda>s. s\<lparr>pool := b\<rparr>) (?send (upd (\<lambda>s. s\<lparr>pool := b'\<rparr>) (upd (ir_set g 38000 3) w))))"
    and b: "placed b" "live_bufs b = live_bufs (pool (user w))"
    using with_buf_pool[where w = "upd (ir_set g 38000 3) w" and send = ?send] assms keep unfolding pool by metis
  show ?thesis
    unfolding ir_send_upd6121g_def w' option.inject
    by (rule exI[of _ "upd (\<lambda>s. s\<lparr>pool := b\<rparr>) (?send (upd (\<lambda>s. s\<lparr>pool := b'\<rparr>) (upd (ir_set g 38000 3) w)))"], rule exI[of _ ?f])
      (simp add: upd_def dma_send_raw_eq[OF len] b nec_decode_frame ir_isBusy_def rc_ir_irq_prc_def ir_send_release_def
        drv_ir_dma_stop_def drv_ir_dma_disable_irq_def pwm_out_def del: of_nat_mult)
qed

section \<open>Sending an interval table\<close>

lemma new_interval_user:
  "ir_new_interval s = s\<lparr>repeatTimer := None, stopTimer := None, interval := fst (ev_buf_allocate (pool s)),
                        pool := snd (ev_buf_allocate (pool s))\<rparr>"
  by (simp add: ir_new_interval_def split_beta)

definition ir_ready :: "ir_cfg \<Rightarrow> ir_w \<Rightarrow> bool" where
  "ir_ready g w \<longleftrightarrow> length (timerInfo w) = 4 \<and> tmr_status (timerInfo w ! 1) = TIMER_IDLE \<and> ir_clock_ok g"

text \<open>The whole transmission: the send and the interrupts until the timer is stopped.\<close>

definition ir_round :: "ir_cfg \<Rightarrow> u8 list \<Rightarrow> u8 \<Rightarrow> u8 \<Rightarrow> ir_w \<Rightarrow> ir_w" where
  "ir_round g raw si sb w = (ir_irq g ^^ Suc (length raw)) (ir_send_raw g raw si sb w)"

lemma ir_round_eq:
  assumes "ir_ready g w" "length raw \<le> 128" "fst (ev_buf_allocate (pool (user w))) \<noteq> NULL"
  shows "\<exists>c. ir_round g raw si sb w =
    w\<lparr>timerInfo := (timerInfo w)[1 := info0],
      regs := regs w @ [CapTick 1 (1000 * h_clock_1us (clocks g)), InitTick 1 0, TmrStart 1, TmrStop 1, TmrStop 1],
      user := (user w)\<lparr>pool := snd (ev_buf_allocate (pool (user w))), cells := c,
        totalCnt := int (length raw), curCnt := int (length raw),
        interval := fst (ev_buf_allocate (pool (user w))),
        repeatTimer := Some 50000, stopTimer := Some 100000, sta := 1,
        pwm := pwm (user w) @ map (wave (IR_CHAANEL (user w))) [0..<length raw] @ [PwmStop (IR_CHAANEL (user w))]\<rparr>\<rparr>"
proof -
  let ?n = "length raw" and ?s = "ir_new_interval (user w)"
  let ?p = "fst (ev_buf_allocate (pool (user w)))"
  let ?xs = "map (raw_interval si sb raw) [0..<?n]"
  let ?v = "w\<lparr>user := put_cells ?p ?xs ?s\<rparr>"
  have v: "length (timerInfo ?v) = 4" "tmr_status (timerInfo ?v ! 1) = TIMER_IDLE" "ir_clock_ok g"
    using assms(1) by (simp_all add: ir_ready_def)
  have send: "ir_send_raw g raw si sb w = ir_timer_start g ?n ?v"
    using assms(2,3) by (simp add: ir_send_raw_def upd_def new_interval_user IR_DATA_LEN_MAX_def Let_def)
  let ?u = "ir_timer_start g ?n ?v"
  have u: "timerInfo ?u ! 1 = ir_tmr_info g" "curCnt (user ?u) = 0" "totalCnt (user ?u) = int ?n"
    unfolding ir_timer_start_idle[OF v] using v(1) by simp_all
  have run: "(ir_irq g ^^ ?n) ?u =
      ?u\<lparr>user := (user ?u)\<lparr>curCnt := int ?n, pwm := pwm (user ?u) @ map (wave (IR_CHAANEL (user ?u))) [0..<?n]\<rparr>\<rparr>"
    by (rule ir_irqs[OF u order_refl])
  have "ir_round g raw si sb w = ir_irq g ((ir_irq g ^^ ?n) ?u)"
    by (simp add: ir_round_def send)
  also have "\<dots> = w\<lparr>timerInfo := (timerInfo w)[1 := info0],
      regs := regs w @ [CapTick 1 (1000 * h_clock_1us (clocks g)), InitTick 1 0, TmrStart 1, TmrStop 1, TmrStop 1],
      user := (put_cells ?p ?xs ?s)\<lparr>totalCnt := int ?n, curCnt := int ?n, sta := 1,
        repeatTimer := Some 50000, stopTimer := Some 100000,
        pwm := pwm (user w) @ map (wave (IR_CHAANEL (user w))) [0..<?n] @ [PwmStop (IR_CHAANEL (user w))]\<rparr>\<rparr>"
    unfolding run unfolding ir_timer_start_idle[OF v] using v(1)
    by (subst ir_irq_last)
      (auto simp: put_cells_def new_interval_user intro!: hwTmr_st.equality ir_st.equality)
  finally show ?thesis
    by (intro exI[of _ "cells (put_cells ?p ?xs ?s)"])
      (auto simp: put_cells_def new_interval_user intro!: hwTmr_st.equality ir_st.equality)
qed

text \<open>C29: 
  What is put out depends only on the number of intervals: the carrier is switched every millisecond, the
  table is never used. Afterwards the buffer is given back and the transmitter is idle.
\<close>

theorem ir_send_raw_ignores_intervals:
  assumes "ir_ready g w" "buf_free_left (pool (user w))" "length raw \<le> 128"
  shows "regs (ir_round g raw si sb w) = regs w @
       [CapTick 1 (1000 * h_clock_1us (clocks g)), InitTick 1 0, TmrStart 1, TmrStop 1, TmrStop 1] \<and>
     pwm (user (ir_round g raw si sb w)) =
       pwm (user w) @ map (wave (IR_CHAANEL (user w))) [0..<length raw] @ [PwmStop (IR_CHAANEL (user w))] \<and>
     (let s = snd (ir_stopTimerCb (snd (ir_repeatTimerCb (user (ir_round g raw si sb w)))))
      in live_bufs (pool s) = live_bufs (pool (user w)) \<and> ir_isBusy s = 0)"
proof -
  let ?b = "pool (user w)"
  obtain i b' where a: "ev_buf_allocate ?b = (data_of (item ?b i), b')" "i < BUFFER_NUM"
    "data_of (item ?b i) \<noteq> NULL" "placed b'" "ev_bufItem b' = ev_bufItem ?b"
    "live_bufs b' = insert (data_of (item ?b i)) (live_bufs ?b)" "data_of (item ?b i) \<notin> live_bufs ?b"
    using allocate_free_left[OF assms(2)] by metis
  have "fst (ev_buf_allocate ?b) \<noteq> NULL" using a(1,3) by simp
  from ir_round_eq[OF assms(1,3) this, of si sb] obtain c where r: "ir_round g raw si sb w =
    w\<lparr>timerInfo := (timerInfo w)[1 := info0],
      regs := regs w @ [CapTick 1 (1000 * h_clock_1us (clocks g)), InitTick 1 0, TmrStart 1, TmrStop 1, TmrStop 1],
      user := (user w)\<lparr>pool := snd (ev_buf_allocate (pool (user w))), cells := c,
        totalCnt := int (length raw), curCnt := int (length raw),
        interval := fst (ev_buf_allocate (pool (user w))),
        repeatTimer := Some 50000, stopTimer := Some 100000, sta := 1,
        pwm := pwm (user w) @ map (wave (IR_CHAANEL (user w))) [0..<length raw] @ [PwmStop (IR_CHAANEL (user w))]\<rparr>\<rparr>"
    by blast
  show ?thesis
    using free_live'[OF a(4,5,2)] a(6,7)
    by (simp add: r a(1) ir_stopTimerCb_def ir_repeatTimerCb_def ir_isBusy_def Let_def)
qed

lemma card_live: "placed b \<Longrightarrow> card (live_bufs b) = card {i. i < BUFFER_NUM \<and> busy b i}"
  unfolding live_bufs_def by (rule card_image) (auto simp: inj_on_def item_inj data_inj)

lemma card_live_free:
  assumes "placed b"
  shows "buf_free_left b \<longleftrightarrow> card (live_bufs b) < BUFFER_NUM"
proof -
  define A where "A = {i. i < BUFFER_NUM \<and> busy b i}"
  have sub: "A \<subseteq> {..<BUFFER_NUM}" by (auto simp: A_def)
  have "buf_free_left b \<longleftrightarrow> A \<noteq> {..<BUFFER_NUM}"
    using assms by (auto simp: buf_free_left_def A_def)
  also have "\<dots> \<longleftrightarrow> card A < card {..<BUFFER_NUM}"
    using sub by (metis card_seteq finite_lessThan less_irrefl not_le)
  finally show ?thesis by (simp add: card_live[OF assms] A_def)
qed

lemma ir_rounds:
  assumes "ir_ready g w" "placed (pool (user w))" "length raw \<le> 128"
    "card (live_bufs (pool (user w))) + k \<le> BUFFER_NUM"
  shows "let w' = (ir_round g raw si sb ^^ k) w
    in ir_ready g w' \<and> placed (pool (user w')) \<and>
       card (live_bufs (pool (user w'))) = card (live_bufs (pool (user w))) + k"
  using assms(4)
proof (induction k)
  case 0
  then show ?case using assms by simp
next
  case (Suc k)
  let ?v = "(ir_round g raw si sb ^^ k) w" let ?b = "pool (user ?v)"
  have v: "ir_ready g ?v" "placed ?b" "card (live_bufs ?b) = card (live_bufs (pool (user w))) + k"
    using Suc by (simp_all add: Let_def)
  then have "buf_free_left ?b" using Suc.prems by (simp add: card_live_free)
  then obtain i b' where a: "ev_buf_allocate ?b = (data_of (item ?b i), b')" "data_of (item ?b i) \<noteq> NULL" "placed b'"
    "live_bufs b' = insert (data_of (item ?b i)) (live_bufs ?b)" "data_of (item ?b i) \<notin> live_bufs ?b"
    using allocate_free_left by metis
  have "card (live_bufs b') = Suc (card (live_bufs ?b))"
    using a(4,5) by (simp add: live_bufs_def)
  moreover have "fst (ev_buf_allocate ?b) \<noteq> NULL" using a(1,2) by simp
  ultimately show ?case
    using ir_round_eq[OF v(1) assms(3), of si sb] a v by (auto simp: ir_ready_def Let_def info0_def)
qed

text \<open>C30: 
  Every transmission that starts before the previous one's buffer is given back (50 ms after its end) takes the
  release timer off and loses that buffer; when all buffers are lost, none can be allocated any more.
\<close>

theorem ir_resend_loses_buffers:
  assumes "ir_ready g w" "placed (pool (user w))" "length raw \<le> 128"
    "card (live_bufs (pool (user w))) + k = BUFFER_NUM"
  shows "(\<forall>j \<le> k. card (live_bufs (pool (user ((ir_round g raw si sb ^^ j) w)))) = card (live_bufs (pool (user w))) + j) \<and>
    fst (ev_buf_allocate (pool (user ((ir_round g raw si sb ^^ k) w)))) = NULL"
proof (intro conjI)
  show "\<forall>j \<le> k. card (live_bufs (pool (user ((ir_round g raw si sb ^^ j) w)))) = card (live_bufs (pool (user w))) + j"
    using ir_rounds[OF assms(1-3)] assms(4) by (simp add: Let_def)
  let ?b = "pool (user ((ir_round g raw si sb ^^ k) w))"
  have b: "placed ?b" "card (live_bufs ?b) = BUFFER_NUM"
    using ir_rounds[OF assms(1-3), of k si sb] assms(4) by (simp_all add: Let_def)
  then have "\<not> buf_free_left ?b" by (simp add: card_live_free)
  then have "find (\<lambda>i. \<not> busy ?b i) [0..<BUFFER_NUM] = None"
    unfolding find_upt_None buf_free_left_def using b(1) by blast
  then show "fst (ev_buf_allocate ?b) = NULL" using allocate_none[OF b(1)] by simp
qed

definition ir_demo_cfg :: ir_cfg where
  "ir_demo_cfg = \<lparr>sys_clock_hz = 24000000, dma_addr = 0x842000, clocks = \<lparr>h_clock_1us = 24, s_clock_1us = 16\<rparr>\<rparr>"

definition ir_demo :: ir_w where
  "ir_demo = \<lparr>timerInfo = replicate 4 info0, regs = [], clock_time = 0,
     user = \<lparr>pool = ev_buf_reset ev_buf0, cells = \<lambda>_ _. 7, IR_CHAANEL = 0, totalCnt = 0, curCnt = 0, interval = NULL,
             repeatTimer = None, stopTimer = None, sta = 0, series_freq = 0, series_tmax_us = 0, series_cnt = 0,
             series_tm = replicate 247 0, zrcir_dma_handler = None, pwm = []\<rparr>\<rparr>"

lemma ir_demo_pool: "placed (pool (user ir_demo))" "live_bufs (pool (user ir_demo)) = {}"
  using reset_inv[of ev_buf0] reset_items[of ev_buf0]
  by (simp_all add: ir_demo_def ev_buf0_def placed_def)

lemma ir_demo_ok: "ir_ready ir_demo_cfg ir_demo" "buf_free_left (pool (user ir_demo))"
  using ir_demo_pool
  by (simp_all add: card_live_free) (simp add: ir_ready_def ir_demo_def ir_demo_cfg_def ir_clock_ok_def info0_def)

theorem ir_send_upd6121g_decodes_witness:
  "\<exists>w' out. ir_send_upd6121g ir_demo_cfg 0x40bf 0x12ed False ir_demo = Some w' \<and>
     pwm (user w') = pwm (user (upd (ir_set ir_demo_cfg 38000 3) ir_demo)) @ [DmaSetBuffer, DmaIrqEnable, DmaStart out] \<and>
     nec_decode (map cell_us out) = Some (0x40bf, 0x12ed) \<and>
     live_bufs (pool (user w')) = live_bufs (pool (user ir_demo)) \<and>
     ir_isBusy (user w') = 1 \<and> ir_isBusy (rc_ir_irq_prc (user w')) = 0"
  by (rule ir_send_upd6121g_decodes) (rule ir_demo_ok)

theorem ir_send_raw_ignores_intervals_witness:
  "pwm (user (ir_round ir_demo_cfg [180, 90, 11] NO_SPECIAL 0 ir_demo)) = [PwmStart 0, PwmStop 0, PwmStart 0, PwmStop 0] \<and>
   pwm (user (ir_round ir_demo_cfg [1, 1, 1] NO_SPECIAL 0 ir_demo)) = [PwmStart 0, PwmStop 0, PwmStart 0, PwmStop 0]"
  using ir_send_raw_ignores_intervals[OF ir_demo_ok, of "[180, 90, 11]" NO_SPECIAL 0]
    ir_send_raw_ignores_intervals[OF ir_demo_ok, of "[1, 1, 1]" NO_SPECIAL 0]
  by (simp add: ir_demo_def wave_def upt_rec)

theorem ir_resend_loses_buffers_witness:
  "fst (ev_buf_allocate (pool (user ((ir_round ir_demo_cfg [180, 90, 11] NO_SPECIAL 0 ^^ 14) ir_demo)))) = NULL"
  using ir_resend_loses_buffers[OF ir_demo_ok(1) ir_demo_pool(1), of "[180, 90, 11]" 14 NO_SPECIAL 0]
  by (simp add: ir_demo_pool(2))

section \<open>The transmitter as a client of the hardware timers\<close>

lemma hw_inv_upd: "hw_inv (upd f w) = hw_inv w"
  by (rule hw_inv_cong) (simp_all add: upd_def)

interpretation ir_tmr: hwtmr_client ir_run
proof
  fix w :: ir_w and f arg assume "hw_inv w"
  then show "hw_inv (snd (ir_run f arg w))"
    by (cases f) (simp add: irTimer1IrqCb_def Let_def hw_inv_upd hw_inv_cancel)
qed

text \<open>
  With the transmitter as client the timers stay consistent: no timer ever waits for an overflow, and the
  capture register of a running timer holds the interval it was set to.
\<close>

theorem ir_hwtimers_consistent:
  assumes "hw_reach k ir_run w" "idx < TIMER_NUM"
  shows "expire_high (timerInfo w ! idx) = 0 \<and> tmr_status (timerInfo w ! idx) \<in> {TIMER_IDLE, TIMER_WTO} \<and>
    (tmr_status (timerInfo w ! idx) = TIMER_WTO \<longrightarrow> idx < TIMER_IDX_3 \<longrightarrow>
       capture_of idx (regs w) = Some (expire_low (timerInfo w ! idx)))"
  using ir_tmr.reach_inv[OF assms(1)] assms(2)
  by (cases "tmr_status (timerInfo w ! idx)") (auto simp: hw_inv_def Let_def)

theorem ir_hwtimers_consistent_witness:
  "expire_high (timerInfo (ir_send_raw ir_demo_cfg [180, 90] NO_SPECIAL 0 ir_demo) ! 1) = 0"
proof -
  have a: "fst (ev_buf_allocate (pool (user ir_demo))) \<noteq> NULL"
    using allocate_free_left[OF ir_demo_ok(2)] by (metis fst_conv)
  have r: "hw_reach (clocks ir_demo_cfg) ir_run (upd f ir_demo)" for f
    by (rule hw_reach.start) (simp add: upd_def ir_demo_def TIMER_NUM_def)
  have s: "hw_reach (clocks ir_demo_cfg) ir_run (upd f w)" if "hw_reach (clocks ir_demo_cfg) ir_run w" for f w
    by (rule hw_reach.other[OF that]) (simp_all add: upd_def)
  have "hw_reach (clocks ir_demo_cfg) ir_run (ir_send_raw ir_demo_cfg [180, 90] NO_SPECIAL 0 ir_demo)"
    unfolding ir_send_raw_def ir_timer_start_def Let_def using a
    by (auto intro!: r s hw_reach.start_hw hw_reach.set)
  from ir_hwtimers_consistent[OF this, of 1] show ?thesis by (simp add: TIMER_NUM_def)
qed

end
