(* ===== verification/IrLearn.thy ===== *)
theory IrLearn
  imports IrProps NvItemProps
begin

text \<open>
  The infra-red learner, \<open>proj/drivers/ir/ir_learn.c\<close>, in its variant for the 8258 (the branch without
  \<open>MCU_CORE_TL321X\<close>): every edge of the receiver pin is an interrupt that is given the clock; edges less than
  71 us apart are one carrier burst, longer distances are gaps. The learnt intervals are saved as an item of the NV store
  and sent by the transmitter of \<open>Ir\<close>. A write past the interval array is \<open>None\<close>. Pins and the
  application's state callback are a trace; the callbacks put on timers of 1 us are in the trace too and are run
  by the main loop. The pattern recognition \<open>ir_write_universal_data\<close> is never called (its caller
  \<open>ir_record_end\<close> is on no timer) and is left out.
\<close>

section \<open>State\<close>

datatype learn_ev =
    LearnState u8
  | GpioInterrupt bool
  | IntfInit bool
  | GpioIrqEnable bool
  | IrCtrl bool
  | OnFailed
  | OnSuccess

record ir_pattern =
  pt_carr_high_tm :: u32
  pt_series_cnt :: u16
  pt_ir_int_cnt :: u8
  pt_carr_high_cnt :: u8
  pt_carr_high_temp :: "u16 list"
  pt_series_tm :: "u16 list"

record ir_ctrl =
  ct_time_interval :: u32
  ct_last_trigger_tm :: u32
  ct_curr_trigger_tm :: u32
  ct_record_last_time :: u32

record 'c learn_st =
  ir_learn_pattern :: ir_pattern
  ir_learn_ctrl :: ir_ctrl
  ir_learn_dat :: "u8 list"
  kb_keyindex_pressed :: u8
  ir_learn_ready :: u8
  ir_learning_flag :: u8
  key_irlearn_timeoutTick :: u32
  learn_evs :: "learn_ev list"
  flash :: "'c flash_st"
  ir :: ir_st

definition IR_LEARN_SERIES_CNT :: nat where "IR_LEARN_SERIES_CNT = 247"
definition IR_LEARN_SAVE_SIZE :: u16 where "IR_LEARN_SAVE_SIZE = 500"

definition IR_LEARN_IDLE :: u8 where "IR_LEARN_IDLE = 0"
definition IR_LEARN_READY :: u8 where "IR_LEARN_READY = 1"
definition IR_LEARN_DOING :: u8 where "IR_LEARN_DOING = 2"
definition IR_LEARN_START :: u8 where "IR_LEARN_START = 1"
definition IR_LEARN_SUCCESS :: u8 where "IR_LEARN_SUCCESS = 2"
definition IR_LEARN_FAILED :: u8 where "IR_LEARN_FAILED = 3"
definition IR_LEARN_CANCEL :: u8 where "IR_LEARN_CANCEL = 4"

definition pattern0 :: ir_pattern where
  "pattern0 = \<lparr>pt_carr_high_tm = 0, pt_series_cnt = 0, pt_ir_int_cnt = 0, pt_carr_high_cnt = 0,
               pt_carr_high_temp = replicate 3 0, pt_series_tm = replicate IR_LEARN_SERIES_CNT 0\<rparr>"

definition ctrl0 :: ir_ctrl where
  "ctrl0 = \<lparr>ct_time_interval = 0, ct_last_trigger_tm = 0, ct_curr_trigger_tm = 0, ct_record_last_time = 0\<rparr>"

definition lev :: "learn_ev list \<Rightarrow> 'c learn_st \<Rightarrow> 'c learn_st" where
  "lev es s = s\<lparr>learn_evs := learn_evs s @ es\<rparr>"

text \<open>The ticks of the system timer per microsecond are an argument of every operation that measures.\<close>

definition CLOCK_TICK_TO_US :: "u32 \<Rightarrow> u32 \<Rightarrow> u32" where
  "CLOCK_TICK_TO_US c1us t = t div c1us"

definition clock_time_exceed :: "u32 \<Rightarrow> u32 \<Rightarrow> u32 \<Rightarrow> u32 \<Rightarrow> bool" where
  "clock_time_exceed c1us now ref us \<longleftrightarrow> now - ref > us * c1us"

section \<open>Recording\<close>

definition calculate_mid :: "u16 \<Rightarrow> u16 \<Rightarrow> u16 \<Rightarrow> u16" where
  "calculate_mid a b c =
    (let (a, b) = (if a > b then (b, a) else (a, b))
     in if c < b then (if c < a then a else c) else b)"

definition put_tm :: "nat \<Rightarrow> u32 \<Rightarrow> ir_pattern \<Rightarrow> ir_pattern option" where
  "put_tm i v p = (if i < IR_LEARN_SERIES_CNT then Some (p\<lparr>pt_series_tm := (pt_series_tm p)[i := ucast v]\<rparr>) else None)"

text \<open>One interval, unless it is 0; \<open>grow\<close> also counts it.\<close>

definition put_interval :: "bool \<Rightarrow> u32 \<Rightarrow> ir_pattern \<Rightarrow> ir_pattern option" where
  "put_interval grow v p =
    (if v = 0 then Some p
     else map_option (\<lambda>q. if grow then q\<lparr>pt_series_cnt := pt_series_cnt q + 1\<rparr> else q)
            (put_tm (unat (pt_series_cnt p)) v p))"

definition ir_learn_intf_init :: "bool \<Rightarrow> 'c learn_st \<Rightarrow> 'c learn_st" where
  "ir_learn_intf_init en s = lev [IntfInit en] s"

definition ir_stop_learn :: "u32 \<Rightarrow> 'c learn_st \<Rightarrow> 'c learn_st option" where
  "ir_stop_learn c1us s =
    (let k = ir_learn_ctrl s; p = ir_learn_pattern s;
         us = CLOCK_TICK_TO_US c1us (ct_last_trigger_tm k - ct_record_last_time k)
     in case (if us \<noteq> 0 then put_tm (unat (pt_series_cnt p)) us p
              else Some (if pt_series_cnt p \<noteq> 0 then p\<lparr>pt_series_cnt := pt_series_cnt p - 1\<rparr> else p)) of
          None \<Rightarrow> None
        | Some p1 \<Rightarrow>
            let short = pt_series_tm p1 ! 0 < 200;
                s1 = lev [GpioInterrupt False] s;
                s2 = (if short then lev [OnFailed] (s1\<lparr>ir_learn_pattern := pattern0\<rparr>)
                      else lev [OnSuccess] (s1\<lparr>ir_learn_pattern := p1\<rparr>))
            in Some (lev [GpioIrqEnable False] (ir_learn_intf_init False (s2\<lparr>ir_learn_ready := 0, ir_learning_flag := 0\<rparr>))))"

definition ir_start_learn :: "u8 \<Rightarrow> 'c learn_st \<Rightarrow> 'c learn_st" where
  "ir_start_learn keyCode s =
    (let s1 = s\<lparr>ir_learn_ready := 1, ir_learning_flag := 0, kb_keyindex_pressed := keyCode,
               ir_learn_ctrl := ctrl0, ir_learn_pattern := pattern0\<rparr>
     in lev [LearnState IR_LEARN_START, GpioInterrupt True, GpioIrqEnable True] (ir_learn_intf_init True s1))"

definition ir_cancel_learn :: "'c learn_st \<Rightarrow> 'c learn_st" where
  "ir_cancel_learn s =
    (let s1 = (lev [GpioInterrupt False] s)\<lparr>ir_learn_ready := 0, ir_learning_flag := 0\<rparr>;
         s2 = lev [GpioIrqEnable False] (ir_learn_intf_init False s1)
     in lev [LearnState IR_LEARN_CANCEL] (s2\<lparr>ir_learn_dat := replicate (unat IR_LEARN_SAVE_SIZE) 0\<rparr>))"

definition carrier_sample :: "u32 \<Rightarrow> ir_pattern \<Rightarrow> ir_pattern" where
  "carrier_sample us p =
    (let p1 = p\<lparr>pt_carr_high_temp := (pt_carr_high_temp p)[unat (pt_carr_high_cnt p) := ucast us],
               pt_carr_high_cnt := pt_carr_high_cnt p + 1\<rparr>
     in if pt_carr_high_cnt p1 > 1 then
          p1\<lparr>pt_carr_high_cnt := 0,
             pt_carr_high_tm := ucast (calculate_mid (pt_carr_high_temp p1 ! 0) (pt_carr_high_temp p1 ! 1)
                                                      (ucast (pt_carr_high_tm p1)))\<rparr>
        else p1)"

definition ir_record :: "u32 \<Rightarrow> u32 \<Rightarrow> 'c learn_st \<Rightarrow> 'c learn_st option" where
  "ir_record c1us tm s =
    (let k = (ir_learn_ctrl s)\<lparr>ct_curr_trigger_tm := tm\<rparr>; p = ir_learn_pattern s;
         s0 = s\<lparr>ir_learn_ctrl := k\<rparr>
     in if pt_series_cnt p \<ge> of_nat (IR_LEARN_SERIES_CNT - 2) then Some s0
        else
          map_option (\<lambda>s. s\<lparr>ir_learn_ctrl := (ir_learn_ctrl s)\<lparr>ct_last_trigger_tm := tm\<rparr>\<rparr>)
           (if pt_ir_int_cnt p \<noteq> 0 then
              let d = tm - ct_last_trigger_tm k; k1 = k\<lparr>ct_time_interval := d\<rparr>; s1 = s\<lparr>ir_learn_ctrl := k1\<rparr>;
                  mark = CLOCK_TICK_TO_US c1us (ct_last_trigger_tm k - ct_record_last_time k);
                  gap = CLOCK_TICK_TO_US c1us d
              in if d < 71 * c1us then
                   Some (s1\<lparr>ir_learn_pattern := carrier_sample gap p\<rparr>)
                 else if d > 70 * c1us \<and> d < 200001 * c1us then
                   map_option (\<lambda>q. s1\<lparr>ir_learn_pattern := q, ir_learn_ctrl := k1\<lparr>ct_record_last_time := tm\<rparr>\<rparr>)
                     (Option.bind (put_interval True mark p) (put_interval True gap))
                 else if d > 200000 * c1us then
                   (case Option.bind (put_interval True mark p) (put_interval False gap) of
                      None \<Rightarrow> None
                    | Some q \<Rightarrow> ir_stop_learn c1us (s1\<lparr>ir_learn_pattern := q, ir_learning_flag := 0\<rparr>))
                 else Some s1
            else
              Some (s0\<lparr>ir_learn_pattern := p\<lparr>pt_ir_int_cnt := 1\<rparr>, ir_learn_ctrl := k\<lparr>ct_record_last_time := tm\<rparr>,
                       ir_learning_flag := 1, key_irlearn_timeoutTick := tm\<rparr>)))"

definition ir_learn_check :: "u32 \<Rightarrow> u32 \<Rightarrow> 'c learn_st \<Rightarrow> (u8 \<times> 'c learn_st) option" where
  "ir_learn_check c1us now s =
    (if ir_learn_ready s \<noteq> 0 then
       if ir_learning_flag s \<noteq> 0 then
         if clock_time_exceed c1us now (key_irlearn_timeoutTick s) 400000
         then map_option (Pair IR_LEARN_IDLE) (ir_stop_learn c1us s)
         else Some (IR_LEARN_DOING, s)
       else Some (IR_LEARN_READY, s)
     else Some (IR_LEARN_IDLE, s))"

definition gpio_user_irq_handler :: "u32 \<Rightarrow> u32 \<Rightarrow> 'c learn_st \<Rightarrow> 'c learn_st option" where
  "gpio_user_irq_handler c1us now s =
    (case ir_learn_check c1us now s of
       None \<Rightarrow> None
     | Some (st, s1) \<Rightarrow> if st \<noteq> IR_LEARN_IDLE then ir_record c1us now s1 else Some s1)"

section \<open>Saving and sending\<close>

text \<open>The bytes of an \<open>ir_learn_save_t\<close>: carrier period, count, intervals.\<close>

definition save_bytes :: "u32 \<Rightarrow> u16 \<Rightarrow> u16 list \<Rightarrow> u8 list" where
  "save_bytes carr cnt series = u32_bytes carr @ u16_bytes cnt @ concat (map u16_bytes series)"

definition save_series :: "u8 list \<Rightarrow> u16 list" where
  "save_series bs = map (\<lambda>i. get16 bs (6 + 2 * i)) [0..<IR_LEARN_SERIES_CNT]"

definition nv_ir_write :: "'c drv_flash \<Rightarrow> bool \<Rightarrow> u8 \<Rightarrow> u32 \<Rightarrow> u16 list \<Rightarrow> u16 \<Rightarrow> 'c learn_st \<Rightarrow> (nv_sts \<times> 'c learn_st) option" where
  "nv_ir_write d buf_ok keycode freq buf len s =
    (if unat len > IR_LEARN_SERIES_CNT then None
     else
       let dat = save_bytes freq len (take (unat len) buf @ replicate (IR_LEARN_SERIES_CNT - unat len) 0xffff);
           (sta, fl) = nv_flashWriteNew d (flash s) buf_ok True DS_IR_LEARN_MODULE keycode IR_LEARN_SAVE_SIZE dat
       in Some (sta, s\<lparr>ir_learn_dat := dat, flash := fl\<rparr>))"

text \<open>\<open>None\<close> when the stored count is larger than the array it is copied to.\<close>

definition nv_ir_read :: "'c drv_flash \<Rightarrow> nv_len_tbl \<Rightarrow> u8 \<Rightarrow> 'c learn_st \<Rightarrow> (nv_sts \<times> (u32 \<times> u16 list \<times> u16) option \<times> 'c learn_st) option" where
  "nv_ir_read d t keyCode s =
    (let ((sta, bs), fl) = nv_flashReadNew d (flash s) t DS_IR_LEARN_MODULE keyCode IR_LEARN_SAVE_SIZE;
         dat = bs @ drop (length bs) (ir_learn_dat s); cnt = get16 dat 4;
         s1 = s\<lparr>ir_learn_dat := dat, flash := fl\<rparr>
     in if sta = NV_SUCC \<and> cnt \<noteq> 0 then
          (if unat cnt > IR_LEARN_SERIES_CNT then None
           else Some (sta, Some (get32 dat 0, take (unat cnt) (save_series dat), cnt), s1))
        else Some (sta, None, s1))"

definition ir_learn_success_callback :: "'c drv_flash \<Rightarrow> bool \<Rightarrow> 'c learn_st \<Rightarrow> (int \<times> 'c learn_st) option" where
  "ir_learn_success_callback d buf_ok s =
    (let p = ir_learn_pattern s
     in map_option (\<lambda>(sta, s1). (-1, lev [LearnState IR_LEARN_SUCCESS] s1))
          (nv_ir_write d buf_ok (kb_keyindex_pressed s) (pt_carr_high_tm p) (pt_series_tm p) (pt_series_cnt p + 1) s))"

definition ir_learn_failed_callback :: "'c learn_st \<Rightarrow> int \<times> 'c learn_st" where
  "ir_learn_failed_callback s = (-1, lev [LearnState IR_LEARN_FAILED] s)"

definition LEARN_SUCCESS :: u8 where "LEARN_SUCCESS = 0"
definition LEARN_FAILURE :: u8 where "LEARN_FAILURE = 1"

text \<open>
  The transmitter is told the carrier's frequency where it takes the period (\<open>Get_CarrierCycleTick\<close>). \<open>None\<close> is a division
  by zero or a copy out of bounds.
\<close>

definition ir_learn_send_nv :: "'c drv_flash \<Rightarrow> nv_len_tbl \<Rightarrow> ir_cfg \<Rightarrow> u8 \<Rightarrow> u8 \<Rightarrow> 'c learn_st \<Rightarrow> (u8 \<times> 'c learn_st) option" where
  "ir_learn_send_nv d t g pwm_id key s =
    (case nv_ir_read d t key (s\<lparr>ir_learn_pattern := pattern0\<rparr>) of
       None \<Rightarrow> None
     | Some (ret, out, s1) \<Rightarrow>
         (case out of
            None \<Rightarrow> Some (LEARN_FAILURE, s1)
          | Some (irFreq, series, cnt) \<Rightarrow>
              if ret \<noteq> NV_SUCC \<or> irFreq = 0 \<or> cnt = 0 then Some (LEARN_FAILURE, s1)
              else
                let s2 = lev [GpioInterrupt False, IrCtrl True]
                           (s1\<lparr>ir_learn_pattern := (ir_learn_pattern s1)\<lparr>pt_series_cnt := cnt,
                               pt_series_tm := series @ drop (length series) (pt_series_tm (ir_learn_pattern s1))\<rparr>\<rparr>);
                    i1 = ir_set g (1000000 div uint irFreq) 3 (ir_init pwm_id (ir s2));
                    i2 = snd (Get_CarrierCycleTick (1000000 div irFreq) i1)
                in map_option (\<lambda>i3. (LEARN_SUCCESS, s2\<lparr>ir := i3\<rparr>)) (ir_dma_send_serial g series i2)))"

end
