(* ===== verification/IrLearnProps.thy ===== *)
theory IrLearnProps
  imports IrLearn
begin

text \<open>
  Properties of the infra-red learner: what the edge interrupts record is the list of bursts and gaps, never past the
  array; what is saved in the NV store is what is sent again, but with the wrong time base.
\<close>

section \<open>What is recorded\<close>



text \<open>The edges, by their distances.\<close>

fun edges :: "u32 \<Rightarrow> u32 \<Rightarrow> nat list \<Rightarrow> 'c learn_st \<Rightarrow> 'c learn_st option" where
  "edges c1us t [] s = Some s"
| "edges c1us t (d # ds) s =
    Option.bind (gpio_user_irq_handler c1us (t + of_nat d) s) (edges c1us (t + of_nat d) ds)"

lemma edges_append: "edges c1us t (ds @ es) s = Option.bind (edges c1us t ds s) (edges c1us (t + of_nat (sum_list ds)) es)"
  by (induction ds arbitrary: t s) (auto simp: ac_simps split: Option.bind_split)












lemma carrier_sample_keeps [simp]:
  "pt_series_tm (carrier_sample us p) = pt_series_tm p" "pt_series_cnt (carrier_sample us p) = pt_series_cnt p"
  "pt_ir_int_cnt (carrier_sample us p) = pt_ir_int_cnt p"
  by (simp_all add: carrier_sample_def Let_def)










definition learn_demo :: "mem learn_st" where
  "learn_demo = \<lparr>ir_learn_pattern = pattern0, ir_learn_ctrl = ctrl0, ir_learn_dat = replicate 500 0,
     kb_keyindex_pressed = 0, ir_learn_ready = 0, ir_learning_flag = 0, key_irlearn_timeoutTick = 0, learn_evs = [],
     flash = new_device, ir = user ir_demo\<rparr>"




section \<open>Saving and sending again\<close>

lemma length_save: "length series = 247 \<Longrightarrow> length (save_bytes carr cnt series) = 500"
  by (simp add: save_bytes_def length_concat comp_def sum_list_triv)

lemma u16_concat_nth:
  "i < length xs \<Longrightarrow> get16 (pre @ concat (map u16_bytes xs)) (length pre + 2 * i) = xs ! i"
proof (induction xs arbitrary: i pre)
  case (Cons x xs)
  show ?case
  proof (cases i)
    case 0
    then show ?thesis using get16_skip[OF refl, of pre] get16_bytes[of x] by simp
  next
    case (Suc j)
    have "length pre + 2 * i = length (pre @ u16_bytes x) + 2 * j" using Suc by simp
    then show ?thesis using Cons.IH[of j "pre @ u16_bytes x"] Cons.prems Suc by simp
  qed
qed simp

lemma save_read:
  assumes "length series = 247"
  shows "get32 (save_bytes carr cnt series) 0 = carr" "get16 (save_bytes carr cnt series) 4 = cnt"
    "save_series (save_bytes carr cnt series) = series"
proof -
  show "get32 (save_bytes carr cnt series) 0 = carr" by (simp add: save_bytes_def get32_bytes)
  show "get16 (save_bytes carr cnt series) 4 = cnt"
    unfolding save_bytes_def by (subst get16_skip) (simp_all add: get16_bytes)
  show "save_series (save_bytes carr cnt series) = series"
  proof (rule nth_equalityI)
    show "length (save_series (save_bytes carr cnt series)) = length series"
      using assms by (simp add: save_series_def IR_LEARN_SERIES_CNT_def)
    fix i assume "i < length (save_series (save_bytes carr cnt series))"
    then have i: "i < 247" by (simp add: save_series_def IR_LEARN_SERIES_CNT_def)
    then show "save_series (save_bytes carr cnt series) ! i = series ! i"
      using u16_concat_nth[of i series "u32_bytes carr @ u16_bytes cnt"] assms
      by (simp add: save_series_def save_bytes_def IR_LEARN_SERIES_CNT_def)
  qed
qed

definition pulses :: "u16 \<Rightarrow> nat" where
  "pulses c = unat (c AND 0x3fff)"

lemma serial_cell_pulses:
  "bit (serial_cell tmax i t) 15 = even i"
  "pulses (serial_cell tmax i t) = unat t div unat tmax mod 2 ^ 14"
proof -
  let ?n = "ucast (ucast t div tmax :: u32) :: u16"
  have m: "(0x3fff :: u16) = mask 14" by (simp add: mask_eq_exp_minus_1)
  show "bit (serial_cell tmax i t) 15 = even i"
    by (simp add: serial_cell_def drv_ir_dma_plus_config_def pwm_config_dma_fifo_waveform_def PWM0_PULSE_NORMAL_def m bit_simps)
  have "serial_cell tmax i t AND mask 14 = ?n AND mask 14"
    by (rule bit_word_eqI)
      (auto simp: serial_cell_def drv_ir_dma_plus_config_def pwm_config_dma_fifo_waveform_def PWM0_PULSE_NORMAL_def m bit_simps)
  moreover have "unat ?n = unat t div unat tmax"
  proof -
    have "unat t < 2 ^ 16" using u16_less_65536[of t] by simp
    then have "unat t div unat tmax < 2 ^ 16" by (rule le_less_trans[OF div_le_dividend])
    moreover have "take_bit 32 (unat t) = unat t"
      by (rule take_bit_nat_eq_self) (use u16_less_65536[of t] in simp)
    ultimately show ?thesis
      by (simp add: unsigned_ucast_eq unat_div_distrib take_bit_nat_eq_self flip: take_bit_eq_mod)
  qed
  ultimately show "pulses (serial_cell tmax i t) = unat t div unat tmax mod 2 ^ 14"
    by (simp only: pulses_def m take_bit_eq_mask[symmetric] unsigned_take_bit_eq) (simp add: take_bit_eq_mod)
qed

text \<open>The last item written is read back.\<close>

lemma nv_last_read:
  assumes N: "nor_flash (flash_write_page program) read_cmd erase_cmd chip_cells writable"
    and s: "flash_ok chip_cells writable s" "nv_all (chip_cells (fl_chip s)) []"
    and d: "d = mk_drv (flash_write_page program) read_cmd erase_cmd"
    and ws: "\<forall>w \<in> set (ws @ [(md, sg, i, b)]). wr_ok w"
      "\<forall>md'. nv_room md' (map (snd \<circ> snd) (mod_writes md' (ws @ [(md, sg, i, b)])))"
    and len: "length b mod unat len = 0" "nv_itemLengthValidCheck t i (of_nat (length b)) = of_nat (length b)" "length b < 2 ^ 16"
  shows "fst (nv_flashReadNew d (nv_put d bo (md, sg, i, b) (fold (nv_put d bo) ws s)) t md i len) = (NV_SUCC, b)"
proof -
  let ?ws = "ws @ [(md, sg, i, b)]"
  let ?s = "fold (nv_put d bo) ?ws s" and ?ms = "mod_writes md ?ws"
  have ok: "md < DS_MAX_MODULS" "md \<noteq> DS_NWK_FRAMECOUNT_MODULE" "i \<noteq> ITEM_FIELD_IDLE"
    using ws(1) by (auto simp: wr_ok_def)
  from nor_flash.put_all[OF N s(2,1) ws, of bo]
  have st: "flash_ok chip_cells writable ?s" "nv_holds (chip_cells (fl_chip ?s)) md (log_of ?ms)"
    using ok unfolding d nv_all_def by blast+
  have ms: "?ms = mod_writes md ws @ [(sg, i, b)]" by (simp add: mod_writes_snoc)
  let ?k = "length (mod_writes md ws)"
  have "nv_lookup (log_of ?ms) i (unat len) = Some ?k"
    by (rule lookup_last) (use len in \<open>simp_all add: ms\<close>)
  moreover have e: "en_data (log_of ?ms ! ?k) = b" "en_id (log_of ?ms ! ?k) = i"
    using log_of_nth[of ?k ?ms] by (simp_all add: ms)
  moreover have "real_len t (log_of ?ms ! ?k) = length b"
    unfolding real_len_def e len(2) by (rule unat_of_nat_small) (use len(3) in simp)
  moreover have "fst (nv_flashReadNew d ?s t md i len) = (case nv_lookup (log_of ?ms) i (unat len) of
      Some k \<Rightarrow> (NV_SUCC, take (real_len t (log_of ?ms ! k)) (en_data (log_of ?ms ! k))) | None \<Rightarrow> (NV_ITEM_NOT_FOUND, []))"
    unfolding d
    by (rule nor_flash.read_new_holds[OF N ok(1,2) st[unfolded d] ok(3), of t len]) (simp only: fst_conv)
  ultimately show ?thesis by simp
qed

lemma dma_send_serial_eq:
  assumes "length xs \<le> 247" "series_tmax_us s \<noteq> 0"
  shows "ir_dma_send_serial g xs s = Some (s\<lparr>repeatTimer := None, stopTimer := None, interval := dma_addr g,
      series_tm := map (\<lambda>i. serial_cell (series_tmax_us s) i (xs ! i)) [0..<length xs] @ drop (length xs) (series_tm s),
      series_cnt := of_nat (2 * length xs), totalCnt := int (2 * length xs), curCnt := 0, sta := 1,
      zrcir_dma_handler := Some ir_send_release_cb,
      pwm := pwm s @ [DmaSetBuffer, DmaIrqEnable,
                      DmaStart (map (\<lambda>i. serial_cell (series_tmax_us s) i (xs ! i)) [0..<length xs])]\<rparr>)"
proof -
  let ?c = "map (\<lambda>i. serial_cell (series_tmax_us s) i (xs ! i)) [0..<length xs]"
  show ?thesis
    using assms dma_cells_go[of ?c "s\<lparr>repeatTimer := None, stopTimer := None, interval := dma_addr g,
        series_tm := ?c @ drop (length xs) (series_tm s)\<rparr>" "drop (length xs) (series_tm s)"]
    by (simp add: ir_dma_send_serial_def IR_DMA_SERIES_CNT1_def Let_def del: of_nat_mult)
qed

lemma ir_set_fields:
  "series_tmax_us (ir_set g hz lo s) = series_tmax_us s" "series_tmax_us (ir_init ch s) = series_tmax_us s"
  by (simp_all add: ir_set_def ir_init_def pwm_out_def drv_pwm_init_def Let_def)

definition saved_bytes :: "ir_pattern \<Rightarrow> u8 list" where
  "saved_bytes p = save_bytes (pt_carr_high_tm p) (pt_series_cnt p + 1)
     (take (unat (pt_series_cnt p + 1)) (pt_series_tm p) @ replicate (247 - unat (pt_series_cnt p + 1)) 0xffff)"

text \<open>C4: 
  A learnt code comes out of the NV store as it went in, but is sent with the wrong time base: the number of carrier
  periods of an interval is its length divided by the carrier's \<^emph>\<open>frequency\<close> in Hertz, where the period in microseconds is meant. With a
  period of at most 70 us every interval of less than 14 ms is sent with no pulse at all.
\<close>

theorem ir_learn_replay_silent:
  assumes "nor_chip program read_cmd erase_cmd chip_cells writable" "flash_ok chip_cells writable s0"
    "d = mk_drv (flash_write_page program) read_cmd erase_cmd"
    "\<forall>md < DS_MAX_MODULS. sect_dead (chip_cells (fl_chip s0)) md 0 \<and> sect_dead (chip_cells (fl_chip s0)) md 1"
    "flash s = fold (nv_put d bo) ws s0" "p = ir_learn_pattern s"
    "\<forall>w \<in> set (ws @ [(DS_IR_LEARN_MODULE, True, kb_keyindex_pressed s, saved_bytes p)]). wr_ok w"
    "\<forall>md. nv_room md (map (snd \<circ> snd) (mod_writes md (ws @ [(DS_IR_LEARN_MODULE, True, kb_keyindex_pressed s, saved_bytes p)])))"
    "nv_itemLengthValidCheck t (kb_keyindex_pressed s) 500 = 500"
    "length (pt_series_tm p) = 247" "unat (pt_series_cnt p) \<le> 246" "pt_carr_high_tm p \<noteq> 0" "pt_carr_high_tm p \<le> 1000000"
  shows "\<exists>s1 s2 evs out. ir_learn_success_callback d bo s = Some (-1, s1) \<and>
    ir_learn_send_nv d t g pwm_id (kb_keyindex_pressed s) s1 = Some (LEARN_SUCCESS, s2) \<and>
    pwm (ir s2) = evs @ [DmaStart out] \<and> length out = unat (pt_series_cnt p) + 1 \<and>
    (\<forall>i < length out. bit (out ! i) 15 = even i \<and>
       pulses (out ! i) = unat (pt_series_tm p ! i) div (1000000 div unat (pt_carr_high_tm p)) mod 2 ^ 14)"
proof -
  have N: "nor_flash (flash_write_page program) read_cmd erase_cmd chip_cells writable"
    by (rule nor_chip.platform_nor[OF assms(1)])
  have blank: "nv_all (chip_cells (fl_chip s0)) []" using assms(4) by (simp add: nv_all_def nv_holds_def mod_writes_def)
  let ?key = "kb_keyindex_pressed s" and ?n = "unat (pt_series_cnt p) + 1" and ?carr = "pt_carr_high_tm p"
  let ?b = "saved_bytes p" and ?series = "take ?n (pt_series_tm p) @ replicate (247 - ?n) 0xffff"
  have n: "unat (pt_series_cnt p + 1) = ?n"
    using assms(11) by (subst unat_add_small) simp_all
  have b: "?b = save_bytes ?carr (pt_series_cnt p + 1) ?series" by (simp only: saved_bytes_def n)
  have ls: "length ?series = 247" using assms(10,11) by simp
  have lb: "length ?b = 500" unfolding b by (rule length_save[OF ls])
  define fl where "fl = nv_put d bo (DS_IR_LEARN_MODULE, True, ?key, ?b) (flash s)"
  have "snd (nv_flashWriteNew d (flash s) bo True DS_IR_LEARN_MODULE ?key 500 ?b) = fl"
    by (simp add: fl_def nv_put_def lb)
  then obtain r where w: "nv_flashWriteNew d (flash s) bo True DS_IR_LEARN_MODULE ?key 500 ?b = (r, fl)"
    by (cases "nv_flashWriteNew d (flash s) bo True DS_IR_LEARN_MODULE ?key 500 ?b") simp
  have cnt: "?n \<le> 247" using assms(11) by simp
  obtain s1 where s1: "ir_learn_success_callback d bo s = Some (-1, s1)" "flash s1 = fl" "ir s1 = ir s" "ir_learn_dat s1 = ?b"
  proof -
    have "nv_ir_write d bo ?key ?carr (pt_series_tm p) (pt_series_cnt p + 1) s =
       Some (r, s\<lparr>ir_learn_dat := ?b, flash := fl\<rparr>)"
      using cnt w unfolding nv_ir_write_def n IR_LEARN_SERIES_CNT_def IR_LEARN_SAVE_SIZE_def b[symmetric] Let_def
      by (simp split: prod.split)
    then show ?thesis using that assms(6) by (simp add: ir_learn_success_callback_def lev_def Let_def)
  qed
  have "fst (nv_flashReadNew d fl t DS_IR_LEARN_MODULE ?key 500) = (NV_SUCC, ?b)"
    unfolding fl_def assms(5)
    by (rule nv_last_read[OF N assms(2) blank assms(3,7,8)]) (use assms(9) lb in simp_all)
  then obtain fl' where rd: "nv_flashReadNew d fl t DS_IR_LEARN_MODULE ?key 500 = ((NV_SUCC, ?b), fl')"
    by (cases "nv_flashReadNew d fl t DS_IR_LEARN_MODULE ?key 500") simp
  have ne: "pt_series_cnt p + 1 \<noteq> 0" using n by (metis Suc_eq_plus1 nat.simps(3) unat_0)
  let ?s1 = "s1\<lparr>ir_learn_pattern := pattern0\<rparr>" and ?xs = "take ?n (pt_series_tm p)"
  note sv = save_read[OF ls, of ?carr "pt_series_cnt p + 1", folded b]
  have rr: "nv_ir_read d t ?key ?s1 = Some (NV_SUCC, Some (?carr, ?xs, pt_series_cnt p + 1), ?s1\<lparr>ir_learn_dat := ?b, flash := fl'\<rparr>)"
    using cnt ne assms(10) by (simp add: nv_ir_read_def s1(2,4) rd IR_LEARN_SAVE_SIZE_def IR_LEARN_SERIES_CNT_def sv n Let_def)
  have tmax: "1000000 div ?carr \<noteq> 0"
    using assms(12,13) by (simp add: word_le_nat_alt unat_eq_0[symmetric] unat_div_distrib div_eq_0_iff)
  let ?i = "ir_set g (1000000 div uint ?carr) 3 (ir_init pwm_id (ir s))"
  let ?j = "snd (Get_CarrierCycleTick (1000000 div ?carr) ?i)"
  have j: "series_tmax_us ?j = 1000000 div ?carr" using tmax by (simp add: Get_CarrierCycleTick_def)
  have lx: "length ?xs = ?n" "length ?xs \<le> 247" using assms(10) cnt by simp_all
  let ?out = "map (\<lambda>i. serial_cell (1000000 div ?carr) i (?xs ! i)) [0..<?n]"
  from dma_send_serial_eq[OF lx(2), of ?j g] tmax obtain i3 where
    i3: "ir_dma_send_serial g ?xs ?j = Some i3" "pwm i3 = (pwm ?j @ [DmaSetBuffer, DmaIrqEnable]) @ [DmaStart ?out]"
    unfolding j lx(1) by (auto simp del: of_nat_mult)
  obtain s2 where s2: "ir_learn_send_nv d t g pwm_id ?key s1 = Some (LEARN_SUCCESS, s2)" "ir s2 = i3"
    using i3(1) ne assms(12) by (simp add: ir_learn_send_nv_def rr lev_def s1(3) Let_def)
  show ?thesis
  proof (intro exI conjI)
    show "ir_learn_success_callback d bo s = Some (-1, s1)" by (rule s1(1))
    show "ir_learn_send_nv d t g pwm_id ?key s1 = Some (LEARN_SUCCESS, s2)" by (rule s2(1))
    show "pwm (ir s2) = (pwm ?j @ [DmaSetBuffer, DmaIrqEnable]) @ [DmaStart ?out]" unfolding s2(2) by (rule i3(2))
    show "length ?out = unat (pt_series_cnt p) + 1" by simp
    show "\<forall>i < length ?out. bit (?out ! i) 15 = even i \<and>
       pulses (?out ! i) = unat (pt_series_tm p ! i) div (1000000 div unat ?carr) mod 2 ^ 14"
      by (simp add: serial_cell_pulses unat_div_distrib del: upt_Suc)
  qed
qed

text \<open>A NEC lead and the first mark, learnt with a period of 26 us.\<close>

definition learnt_pattern :: ir_pattern where
  "learnt_pattern = \<lparr>pt_carr_high_tm = 26, pt_series_cnt = 2, pt_ir_int_cnt = 1, pt_carr_high_cnt = 0,
     pt_carr_high_temp = [26, 26, 0], pt_series_tm = [9000, 4500, 560] @ replicate 244 0\<rparr>"

definition learnt_demo :: "mem learn_st" where
  "learnt_demo = learn_demo\<lparr>ir_learn_pattern := learnt_pattern, kb_keyindex_pressed := 7\<rparr>"

theorem ir_learn_replay_silent_witness:
  "\<exists>s1 s2 evs out.
    ir_learn_send_nv myFlashDrv_ideal \<lparr>g_nvItemLengthCheckNum = 0, g_nvItemLenCheckTbl = []\<rparr> ir_demo_cfg 0 7 s1 = Some (LEARN_SUCCESS, s2) \<and>
    pwm (ir s2) = evs @ [DmaStart out] \<and> length out = 3 \<and> pulses (out ! 0) = 0 \<and> pulses (out ! 1) = 0 \<and> pulses (out ! 2) = 0"
proof -
  let ?p = learnt_pattern and ?t = "\<lparr>g_nvItemLengthCheckNum = 0, g_nvItemLenCheckTbl = []\<rparr>"
  let ?w = "(DS_IR_LEARN_MODULE, True, kb_keyindex_pressed learnt_demo, saved_bytes ?p)"
  have l: "length (saved_bytes ?p) = 500"
    by (simp add: saved_bytes_def learnt_pattern_def length_save)
  then have ne: "saved_bytes ?p \<noteq> []" by force
  have d: "\<forall>md < DS_MAX_MODULS. sect_dead (fl_chip new_device) md 0 \<and> sect_dead (fl_chip new_device) md 1"
    by (simp add: new_device_def dead_new_item)
  have o: "\<forall>w \<in> set ([] @ [?w]). wr_ok w"
    using ne by (simp add: wr_ok_def learnt_demo_def ITEM_FIELD_IDLE_def)
  have r: "\<forall>md. nv_room md (map (snd \<circ> snd) (mod_writes md ([] @ [?w])))"
    using l by (simp add: mod_writes_def nv_room_def align4n_def MODULE_IDX_NUM_def MODULE_INFO_SIZE_def NV_SECTOR_SIZE_def)
  have p: "nv_itemLengthValidCheck ?t (kb_keyindex_pressed learnt_demo) 500 = 500" "length (pt_series_tm ?p) = 247"
    "unat (pt_series_cnt ?p) \<le> 246" "pt_carr_high_tm ?p \<noteq> 0" "pt_carr_high_tm ?p \<le> 1000000"
    "?p = ir_learn_pattern learnt_demo" "flash learnt_demo = fold (nv_put myFlashDrv_ideal True) [] new_device"
    "kb_keyindex_pressed learnt_demo = 7"
    by (simp_all add: nv_itemLengthValidCheck_def learnt_pattern_def learnt_demo_def learn_demo_def)
  from ir_learn_replay_silent[OF ideal.nor_chip_axioms new_device_ok refl _ p(7,6) o r p(1-5), of ir_demo_cfg 0] d
  obtain s1 s2 evs out where
    "ir_learn_send_nv myFlashDrv_ideal ?t ir_demo_cfg 0 7 s1 = Some (LEARN_SUCCESS, s2)"
    "pwm (ir s2) = evs @ [DmaStart out]" "length out = 3"
    and f: "\<And>i. i < 3 \<Longrightarrow> pulses (out ! i) = unat (pt_series_tm ?p ! i) div (1000000 div unat (pt_carr_high_tm ?p)) mod 2 ^ 14"
    by (auto simp: p(8) learnt_pattern_def)
  moreover have "pulses (out ! 0) = 0" "pulses (out ! 1) = 0" "pulses (out ! 2) = 0"
    using f[of 0] f[of 1] f[of 2] by (simp_all add: learnt_pattern_def)
  ultimately show ?thesis by blast
qed

end
