(* ===== verification/AppLed.thy ===== *)
theory AppLed
  imports TimerEvent
begin

text \<open>
  The LED patterns of the remote, \<open>vendor/rc_app/app_led.c\<close>: the fields of \<open>rcu_appVars\<close> it uses, the
  running pattern \<open>g_appLedAction\<close> and the timer table of \<open>TimerEvent\<close>. The record is extended by the
  rest of the application in \<open>RcApp\<close>. A pin write is recorded as the LED and whether it is lit (the level
  relative to \<open>LED_OFF_LEVEL\<close>). The blinks of a pattern are counted exactly, wrap-around included.
\<close>

section \<open>Model\<close>

record app_ledFlushInfo_t =
  onInterval :: u32
  offIntervalList :: "u32 list"
  modeNum :: u8

datatype led_pin = GREEN | RED

record led_vars =
  ledBlinkTimer :: "timer_ref option"
  ledStopCnt :: u8
  blinkTimes :: u8
  ledStatus :: bool
  ledIdleState :: bool
  ledIndex :: u8
  allowedDeep :: bool
  g_appLedAction :: app_ledFlushInfo_t
  tmr :: timers
  pins :: "(led_pin \<times> bool) list"

text \<open>The three-way \<open>gpio_write\<close> on \<open>ledIndex\<close> that every function of the file repeats.\<close>

definition led_write :: "u8 \<Rightarrow> bool \<Rightarrow> 'a led_vars_scheme \<Rightarrow> 'a led_vars_scheme" where
  "led_write idx lit s = s\<lparr>pins := pins s @
     (if idx = 0 then [(GREEN, lit)] else if idx = 1 then [(RED, lit)] else [(GREEN, lit), (RED, lit)])\<rparr>"

text \<open>\<open>ev_on_timer\<close> and \<open>ev_unon_timer\<close> on the timer table of the state.\<close>

definition app_on_timer :: "u32 \<Rightarrow> ptr \<Rightarrow> ptr \<Rightarrow> u32 \<Rightarrow> 'a led_vars_scheme \<Rightarrow> (timer_ref option \<times> 'a led_vars_scheme) option" where
  "app_on_timer now cb data t_us s = map_option (\<lambda>(r, t). (r, s\<lparr>tmr := t\<rparr>)) (ev_on_timer now cb data t_us (tmr s))"

definition app_unon_timer :: "timer_ref option \<Rightarrow> 'a led_vars_scheme \<Rightarrow> 'a led_vars_scheme option" where
  "app_unon_timer r s = map_option (\<lambda>t. s\<lparr>tmr := t\<rparr>) (ev_unon_timer r (tmr s))"

text \<open>The address of \<open>led_BlinkTimerCB\<close>, as the linker places it: non-null and distinct from the callbacks of \<open>RcApp\<close>.\<close>

definition CB_LED :: ptr where "CB_LED = 0x101"

definition led_On :: "u8 \<Rightarrow> 'a led_vars_scheme \<Rightarrow> 'a led_vars_scheme" where
  "led_On idx s = (led_write idx True s)\<lparr>ledIdleState := True\<rparr>"

definition led_Off :: "u8 \<Rightarrow> 'a led_vars_scheme \<Rightarrow> 'a led_vars_scheme" where
  "led_Off idx s = (led_write idx False s)\<lparr>ledIdleState := False\<rparr>"

text \<open>\<open>if (rcu_appVars.ledBlinkTimer) ev_unon_timer(&rcu_appVars.ledBlinkTimer)\<close>: the pointer is null afterwards.\<close>

definition led_unon :: "'a led_vars_scheme \<Rightarrow> 'a led_vars_scheme option" where
  "led_unon s = map_option (\<lambda>s. s\<lparr>ledBlinkTimer := None\<rparr>) (app_unon_timer (ledBlinkTimer s) s)"

definition led_startSet :: "u32 \<Rightarrow> u8 \<Rightarrow> u32 \<Rightarrow> u8 \<Rightarrow> 'a led_vars_scheme \<Rightarrow> 'a led_vars_scheme option" where
  "led_startSet now blinkTime blinkInterval idx s =
     (case led_unon s of
        None \<Rightarrow> None
      | Some s \<Rightarrow>
          let s = (led_Off idx s)\<lparr>ledIndex := idx AND 3, blinkTimes := 0,
                    ledStopCnt := (if blinkTime = 0 then 0 else blinkTime * 2 - 1)\<rparr>;
              s = s\<lparr>g_appLedAction := (g_appLedAction s)\<lparr>modeNum := 0\<rparr>, ledStatus := False\<rparr>
          in map_option (\<lambda>(r, s). s\<lparr>ledBlinkTimer := r\<rparr>) (app_on_timer now CB_LED blinkInterval 100 s))"

definition Led_startSpecial :: "u32 \<Rightarrow> u8 \<Rightarrow> app_ledFlushInfo_t \<Rightarrow> u8 \<Rightarrow> 'a led_vars_scheme \<Rightarrow> 'a led_vars_scheme option" where
  "Led_startSpecial now blinkTime ledAction idx s =
     map_option (\<lambda>s. s\<lparr>g_appLedAction := ledAction\<rparr>) (led_startSet now blinkTime (offIntervalList ledAction ! 0) idx s)"

definition led_stopAll :: "u8 \<Rightarrow> 'a led_vars_scheme \<Rightarrow> 'a led_vars_scheme option" where
  "led_stopAll idx s =
     (case led_unon s of
        None \<Rightarrow> None
      | Some s \<Rightarrow> Some ((led_write idx False (s\<lparr>ledStatus := False\<rparr>))\<lparr>ledStopCnt := 1, blinkTimes := 0\<rparr>))"

text \<open>
  The off interval. \<open>blinkTimes - 1\<close> is an \<open>int\<close>, -1 when the counter has wrapped to 0; C's \<open>%\<close> rounds
  towards zero and keeps it -1 (unless \<open>modeNum\<close> is 1); the 32-bit address of \<open>offIntervalList[-1]\<close> is the word before the array, \<open>onInterval\<close>.
\<close>

definition off_index :: "u8 \<Rightarrow> u8 \<Rightarrow> int" where
  "off_index bt n = (let k = (uint bt - 1) div 2 in if k < 0 then (if n = 1 then 0 else k) else k mod uint n)"

definition off_interval :: "app_ledFlushInfo_t \<Rightarrow> int \<Rightarrow> u32" where
  "off_interval a k = (if k = -1 then onInterval a else offIntervalList a ! nat k)"

definition led_BlinkTimerCB :: "ptr \<Rightarrow> 'a led_vars_scheme \<Rightarrow> int \<times> 'a led_vars_scheme" where
  "led_BlinkTimerCB arg s =
     (let s = s\<lparr>ledStatus := (if blinkTimes s = 0 then \<not> ledIdleState s else \<not> ledStatus s)\<rparr>;
          s = led_write (ledIndex s) (ledStatus s) s;
          s = s\<lparr>blinkTimes := blinkTimes s + 1\<rparr>
      in if ledStopCnt s \<noteq> 0 \<and> blinkTimes s > ledStopCnt s then
           (let s = led_write (ledIndex s) (ledIdleState s) (s\<lparr>ledStatus := False\<rparr>);
                s = s\<lparr>allowedDeep := (if ledIdleState s then allowedDeep s else True)\<rparr>
            in (-1, s\<lparr>ledBlinkTimer := None\<rparr>))
         else if modeNum (g_appLedAction s) \<noteq> 0 then
           (if ledStatus s then (sint (onInterval (g_appLedAction s)), s)
            else (sint (off_interval (g_appLedAction s) (off_index (blinkTimes s) (modeNum (g_appLedAction s)))), s))
         else (sint arg, s))"

section \<open>How often a pattern blinks\<close>

text \<open>The calls of the timer: again after every result that is not negative.\<close>

fun led_run :: "nat \<Rightarrow> ptr \<Rightarrow> 'a led_vars_scheme \<Rightarrow> int list \<times> 'a led_vars_scheme" where
  "led_run 0 arg s = ([], s)"
| "led_run (Suc n) arg s =
     (case led_BlinkTimerCB arg s of (t, s) \<Rightarrow>
        if t < 0 then ([t], s) else (case led_run n arg s of (ts, s) \<Rightarrow> (t # ts, s)))"

definition led_pins :: "u8 \<Rightarrow> bool \<Rightarrow> (led_pin \<times> bool) list" where
  "led_pins idx lit = (if idx = 0 then [(GREEN, lit)] else if idx = 1 then [(RED, lit)] else [(GREEN, lit), (RED, lit)])"

lemma led_write_pins: "led_write idx lit s = s\<lparr>pins := pins s @ led_pins idx lit\<rparr>"
  by (simp add: led_write_def led_pins_def)

text \<open>The state of a plain pattern after \<open>j\<close> calls.\<close>

definition led_after :: "'a led_vars_scheme \<Rightarrow> nat \<Rightarrow> 'a led_vars_scheme" where
  "led_after s j = s\<lparr>blinkTimes := of_nat j, ledStatus := odd j,
     pins := pins s @ concat (map (\<lambda>i. led_pins (ledIndex s) (even i)) [0..<j])\<rparr>"

definition led_plain :: "'a led_vars_scheme \<Rightarrow> bool" where
  "led_plain s \<longleftrightarrow> blinkTimes s = 0 \<and> \<not> ledStatus s \<and> \<not> ledIdleState s \<and> modeNum (g_appLedAction s) = 0"

definition led_ends :: "u8 \<Rightarrow> nat \<Rightarrow> bool" where
  "led_ends stop j \<longleftrightarrow> stop \<noteq> 0 \<and> stop < of_nat j"

definition led_end :: "'a led_vars_scheme \<Rightarrow> nat \<Rightarrow> 'a led_vars_scheme" where
  "led_end s j = (led_after s j)\<lparr>ledStatus := False, allowedDeep := True, ledBlinkTimer := None,
     pins := pins (led_after s j) @ led_pins (ledIndex s) False\<rparr>"

lemma of_nat_u8_0: "of_nat j = (0 :: u8) \<Longrightarrow> even j"
proof -
  assume "of_nat j = (0 :: u8)"
  then have "j mod 256 = 0" using unat_of_nat[of j, where ?'a = 8] by simp
  then show ?thesis by presburger
qed

lemma led_call:
  assumes "led_plain s"
  shows "led_BlinkTimerCB arg (led_after s j) =
    (if led_ends (ledStopCnt s) (Suc j) then (-1, led_end s (Suc j)) else (sint arg, led_after s (Suc j)))"
  using assms of_nat_u8_0[of j]
  by (cases "of_nat j = (0 :: u8)")
     (auto simp: led_BlinkTimerCB_def led_after_def led_end_def led_ends_def led_plain_def led_write_pins Let_def
           add.commute intro!: led_vars.equality)

lemma led_run_on:
  "led_plain s \<Longrightarrow> 0 \<le> sint arg \<Longrightarrow> \<forall>j. i < j \<and> j \<le> i + k \<longrightarrow> \<not> led_ends (ledStopCnt s) j \<Longrightarrow>
   led_run k arg (led_after s i) = (replicate k (sint arg), led_after s (i + k))"
  by (induction k arbitrary: i) (auto simp: led_call)

lemma led_run_end:
  "led_plain s \<Longrightarrow> 0 \<le> sint arg \<Longrightarrow> \<forall>j. i < j \<and> j \<le> i + k \<longrightarrow> \<not> led_ends (ledStopCnt s) j \<Longrightarrow>
   led_ends (ledStopCnt s) (Suc (i + k)) \<Longrightarrow>
   led_run (Suc k) arg (led_after s i) = (replicate k (sint arg) @ [-1], led_end s (Suc (i + k)))"
  by (induction k arbitrary: i) (auto simp: led_call)


lemma led_stop_count: "n \<noteq> 0 \<Longrightarrow> unat (n :: u8) mod 128 \<noteq> 0 \<Longrightarrow> unat (n * 2 - 1) = 2 * (unat n mod 128) - 1"
proof -
  assume n: "unat n mod 128 \<noteq> 0"
  have n2: "unat (n * 2) = 2 * (unat n mod 128)"
    by (simp add: unat_word_ariths mult.commute mult_mod_right)
  with n have "1 \<le> n * 2" by (simp add: word_le_nat_alt)
  then show ?thesis using n2 by (simp add: unat_sub)
qed

lemma led_ends_iff: "j < 256 \<Longrightarrow> led_ends stop j \<longleftrightarrow> stop \<noteq> 0 \<and> unat stop < j"
  by (simp add: led_ends_def word_less_nat_alt unat_of_nat)

lemma led_never_ends: "\<not> led_ends (128 * 2 - 1) j"
proof -
  have "(255 :: u8) = -1" by simp
  then have "(of_nat j :: u8) \<le> 255" using word_n1_ge[of "of_nat j :: u8"] by metis
  then show ?thesis by (simp add: led_ends_def not_less)
qed

lemma led_startSet_plain:
  assumes "led_startSet now n t idx s = Some s'" "idx < 4"
  shows "led_plain s' \<and> ledIndex s' = idx \<and> ledStopCnt s' = (if n = 0 then 0 else n * 2 - 1) \<and>
    pins s' = pins s @ led_pins idx False \<and> ledIdleState s' = False \<and> led_after s' 0 = s'"
proof -
  have "idx AND 3 = idx"
  proof -
    have "unat idx < 4" using assms(2) by (simp add: word_less_nat_alt)
    then have "unat idx \<in> {0, 1, 2, 3}" by auto
    then have "idx \<in> {0, 1, 2, 3}" by (auto simp: word_unat_eq_iff)
    then show ?thesis by auto
  qed
  then show ?thesis
    using assms
    by (auto simp: led_startSet_def led_plain_def led_after_def led_unon_def app_unon_timer_def app_on_timer_def
        led_Off_def led_write_pins Let_def split: option.splits intro!: led_vars.equality)
qed


lemma led_pulses: "concat (map (\<lambda>i. led_pins idx (even i)) [0..<2 * m]) = concat (replicate m (led_pins idx True @ led_pins idx False))"
proof (induction m)
  case 0
  then show ?case by simp
next
  case (Suc m)
  have r: "concat (replicate (Suc k) x) = concat (replicate k x) @ x" for k and x :: "(led_pin \<times> bool) list"
    by (induction k) auto
  have "[0..<2 * Suc m] = [0..<2 * m] @ [2 * m, Suc (2 * m)]" by simp
  with Suc show ?case by (simp only: r map_append concat_append) simp
qed

text \<open>C33: \<open>led_startSet\<close> with a count \<open>n\<close> lights the LED \<open>n mod 128\<close> times, leaves it dark, releases the
  timer pointer and allows deep sleep; with \<open>n = 128\<close> it blinks for ever, because the 8-bit stop count is
  255 and the 8-bit counter cannot exceed it.\<close>

theorem led_startSet_blinks:
  assumes "led_startSet now n t idx s = Some s'" "idx < 4" "n \<noteq> 0" "0 \<le> sint t"
  shows "(if unat n mod 128 = 0 then \<forall>k. fst (led_run k t s') = replicate k (sint t)
     else (case led_run (2 * (unat n mod 128)) t s' of (ts, e) \<Rightarrow>
       ts = replicate (2 * (unat n mod 128) - 1) (sint t) @ [-1] \<and>
       pins e = pins s @ led_pins idx False @
         concat (replicate (unat n mod 128) (led_pins idx True @ led_pins idx False)) @ led_pins idx False \<and>
       ledBlinkTimer e = None \<and> allowedDeep e \<and> \<not> ledStatus e))"
proof (cases "unat n mod 128 = 0")
  case True
  have "unat n = 128" using True assms(3) u8_less_256[of n] by (auto simp: unat_eq_0[symmetric] simp del: unat_eq_0 elim!: dvdE)
  then have "n = 128" by (simp add: word_unat_eq_iff)
  then show ?thesis
    using led_startSet_plain[OF assms(1,2)] led_run_on[of s' t 0] led_never_ends assms(4) by auto
next
  case False
  define m where "m = unat n mod 128"
  note p = led_startSet_plain[OF assms(1,2)]
  have stop: "unat (n * 2 - 1) = 2 * m - 1" using led_stop_count[OF assms(3) False] by (simp add: m_def)
  have m: "0 < m" "m < 128" using False by (auto simp: m_def)
  have ends: "led_ends (ledStopCnt s') j \<longleftrightarrow> 2 * m - 1 < j" if "j \<le> 2 * m" for j
    using led_ends_iff[of j "n * 2 - 1"] that m stop p assms(3) by (auto simp: unat_eq_0[symmetric])
  have "led_run (Suc (2 * m - 1)) t (led_after s' 0) =
      (replicate (2 * m - 1) (sint t) @ [-1], led_end s' (Suc (0 + (2 * m - 1))))"
    by (rule led_run_end) (use p assms(4) ends m in auto)
  then have "led_run (2 * m) t s' = (replicate (2 * m - 1) (sint t) @ [-1], led_end s' (2 * m))"
    using m p by simp
  then show ?thesis
    using False p by (simp add: m_def[symmetric] led_end_def led_after_def led_pulses)
qed

definition led0 :: led_vars where
  "led0 = \<lparr>ledBlinkTimer = None, ledStopCnt = 0, blinkTimes = 0, ledStatus = False, ledIdleState = False, ledIndex = 0,
     allowedDeep = True, g_appLedAction = \<lparr>onInterval = 0, offIntervalList = replicate 5 0, modeNum = 0\<rparr>,
     tmr = timers0 16, pins = []\<rparr>"

lemma app_on_timer_free:
  "cb \<noteq> NULL \<Longrightarrow> evTimer_list (tmr s) \<noteq> [] \<Longrightarrow> te_busy (evTimer_list (tmr s) ! evtimer_current_pos (tmr s)) = 0 \<Longrightarrow>
   \<exists>t. app_on_timer now cb data us s = Some (Some (EvTimer (evtimer_current_pos (tmr s))), s\<lparr>tmr := t\<rparr>)"
  using on_timer_free[of cb "tmr s" now data us] by (auto simp: app_on_timer_def ev_on_timer_def)

lemma led_startSet_starts:
  assumes "ledBlinkTimer s = None" "evTimer_list (tmr s) \<noteq> []" "te_busy (evTimer_list (tmr s) ! evtimer_current_pos (tmr s)) = 0"
  shows "\<exists>s'. led_startSet now n t idx s = Some s'"
  using on_timer_free[of CB_LED "tmr s" now t 100] assms
  by (auto simp: led_startSet_def led_unon_def app_unon_timer_def ev_unon_timer_def app_on_timer_def ev_on_timer_def
      led_Off_def led_write_def Let_def CB_LED_def)

lemma led0_starts: "\<exists>s'. led_startSet now n t idx led0 = Some s'"
  by (rule led_startSet_starts) (simp_all add: led0_def timers0_def)

theorem led_startSet_blinks_witness:
  "\<exists>s' e. led_startSet 0 3 150000 1 led0 = Some s' \<and>
     led_run 6 150000 s' = ([150000, 150000, 150000, 150000, 150000, -1], e) \<and>
     pins e = [(RED, False), (RED, True), (RED, False), (RED, True), (RED, False), (RED, True), (RED, False), (RED, False)]"
proof -
  obtain s' where s: "led_startSet 0 3 150000 1 led0 = Some s'" using led0_starts by blast
  obtain ts e where e: "led_run 6 150000 s' = (ts, e)" by (cases "led_run 6 150000 s'")
  have three: "unat (3 :: u8) = 3" by simp
  have k: "replicate 5 x = [x, x, x, x, x]" "replicate 3 y = [y, y, y]"
    for x :: int and y :: "(led_pin \<times> bool) list"
    by (simp_all add: eval_nat_numeral)
  have "ts = [150000, 150000, 150000, 150000, 150000, -1] \<and> pins e = [(RED, False), (RED, True), (RED, False),
      (RED, True), (RED, False), (RED, True), (RED, False), (RED, False)]"
    using led_startSet_blinks[OF s] e by (simp add: three k led0_def led_pins_def)
  then show ?thesis using s e by blast
qed

text \<open>The special pattern: what each call returns until the counter wraps.\<close>

lemma led_call_special:
  assumes "modeNum (g_appLedAction s) \<noteq> 0" "ledStopCnt s = 0" "\<not> ledIdleState s"
  shows "led_BlinkTimerCB arg (led_after s j) =
    (sint (if even j then onInterval (g_appLedAction s)
           else off_interval (g_appLedAction s) (off_index (of_nat (Suc j)) (modeNum (g_appLedAction s)))),
     led_after s (Suc j))"
  using assms of_nat_u8_0[of j]
  by (cases "of_nat j = (0 :: u8)")
     (auto simp: led_BlinkTimerCB_def led_after_def led_write_pins Let_def add.commute intro!: led_vars.equality)


definition special_delay :: "app_ledFlushInfo_t \<Rightarrow> nat \<Rightarrow> u32" where
  "special_delay a j = (if even j then onInterval a else off_interval a (off_index (of_nat (Suc j)) (modeNum a)))"

lemma led_run_special:
  "modeNum (g_appLedAction s) \<noteq> 0 \<Longrightarrow> ledStopCnt s = 0 \<Longrightarrow> \<not> ledIdleState s \<Longrightarrow>
   \<forall>j. i \<le> j \<and> j < i + k \<longrightarrow> 0 \<le> sint (special_delay (g_appLedAction s) j) \<Longrightarrow>
   led_run k arg (led_after s i) = (map (\<lambda>j. sint (special_delay (g_appLedAction s) j)) [i..<i + k], led_after s (i + k))"
proof (induction k arbitrary: i)
  case 0
  then show ?case by simp
next
  case (Suc k)
  then have "led_run k arg (led_after s (Suc i)) =
      (map (\<lambda>j. sint (special_delay (g_appLedAction s) j)) [Suc i..<Suc i + k], led_after s (Suc i + k))" by simp
  moreover have "led_BlinkTimerCB arg (led_after s i) = (sint (special_delay (g_appLedAction s) i), led_after s (Suc i))"
    using Suc.prems by (simp add: led_call_special special_delay_def)
  moreover have "[i..<i + Suc k] = i # [Suc i..<Suc i + k]" by (simp add: upt_conv_Cons del: upt_Suc)
  moreover have "\<not> sint (special_delay (g_appLedAction s) i) < 0" using Suc.prems(4) by (simp add: not_less)
  ultimately show ?case by (simp del: upt_Suc)
qed

lemma special_delay_in_bounds:
  assumes "j < 255" "odd j" "modeNum a \<noteq> 0"
  shows "special_delay a j = offIntervalList a ! (j div 2 mod unat (modeNum a))"
proof -
  have u: "uint (of_nat (Suc j) :: u8) - 1 = int j" using assms(1) by (simp add: uint_nat unat_of_nat del: of_nat_Suc)
  have "off_index (of_nat (Suc j)) (modeNum a) = int (j div 2 mod unat (modeNum a))"
    unfolding off_index_def u Let_def by (simp add: zdiv_int zmod_int)
  then show ?thesis using assms by (simp add: special_delay_def off_interval_def)
qed

lemma special_delay_wrapped: "modeNum a \<noteq> 1 \<Longrightarrow> special_delay a 255 = onInterval a"
  by (simp add: special_delay_def off_index_def off_interval_def)

text \<open>C34: a special pattern waits \<open>onInterval\<close> after lighting and the entries of \<open>offIntervalList\<close> in turn after
  darkening; the 256th call computes the index -1 from its wrapped counter and reads the word before the
  array.\<close>

theorem led_special_delays:
  assumes "Led_startSpecial now 0 a idx s = Some s'" "idx < 4" "1 < modeNum a" "modeNum a \<le> 5"
    and "0 \<le> sint (onInterval a)" "length (offIntervalList a) = 5" "\<forall>t \<in> set (offIntervalList a). 0 \<le> sint t"
  shows "fst (led_run 256 arg s') =
    map (\<lambda>j. sint (if odd j \<and> j \<noteq> 255 then offIntervalList a ! (j div 2 mod unat (modeNum a)) else onInterval a)) [0..<256]"
proof -
  obtain s1 where s1: "led_startSet now 0 (offIntervalList a ! 0) idx s = Some s1" "s' = s1\<lparr>g_appLedAction := a\<rparr>"
    using assms(1) by (auto simp: Led_startSpecial_def)
  note p = led_startSet_plain[OF s1(1) assms(2)]
  have st: "led_after s' 0 = s'" "ledStopCnt s' = 0" "\<not> ledIdleState s'" "g_appLedAction s' = a"
    using p s1(2) by (auto simp: led_plain_def led_after_def intro!: led_vars.equality)
  have n: "modeNum a \<noteq> 0" "modeNum a \<noteq> 1" "unat (modeNum a) \<le> 5" using assms(3,4) by (auto simp: word_le_nat_alt)
  have d: "special_delay a j = (if odd j \<and> j \<noteq> 255 then offIntervalList a ! (j div 2 mod unat (modeNum a)) else onInterval a)"
    if "j < 256" for j
    using that n special_delay_in_bounds[of j a] special_delay_wrapped[of a]
    by (cases "j = 255") (auto simp: special_delay_def[of a j])
  have "0 \<le> sint (special_delay a j)" if "j < 256" for j
  proof -
    have "j div 2 mod unat (modeNum a) < length (offIntervalList a)"
      using n assms(6) by (metis mod_less_divisor order_less_le_trans unat_gt_0)
    then show ?thesis using d[OF that] assms(5,7) by auto
  qed
  then have "led_run 256 arg (led_after s' 0) = (map (\<lambda>j. sint (special_delay a j)) [0..<256], led_after s' 256)"
    using led_run_special[of s' 0 256 arg] st n by auto
  then have "fst (led_run 256 arg s') = map (\<lambda>j. sint (special_delay a j)) [0..<256]" by (simp only: st fst_conv)
  then show ?thesis by (simp only:) (rule map_cong, rule refl, auto simp: d)
qed


theorem led_special_delays_witness:
  "\<exists>s'. Led_startSpecial 0 0 \<lparr>onInterval = 200000, offIntervalList = [150000, 600000, 600000, 0, 0], modeNum = 3\<rparr> 1 led0 = Some s' \<and>
     fst (led_run 256 0 s') ! 253 = 150000 \<and> fst (led_run 256 0 s') ! 255 = 200000"
proof -
  let ?a = "\<lparr>onInterval = 200000, offIntervalList = [150000, 600000, 600000, 0, 0], modeNum = 3\<rparr>"
  obtain s1 where "led_startSet 0 0 150000 1 led0 = Some s1" using led0_starts by blast
  then have s: "Led_startSpecial 0 0 ?a 1 led0 = Some (s1\<lparr>g_appLedAction := ?a\<rparr>)" by (simp add: Led_startSpecial_def)
  have "fst (led_run 256 0 (s1\<lparr>g_appLedAction := ?a\<rparr>)) = map (\<lambda>j. sint (if odd j \<and> j \<noteq> 255
      then offIntervalList ?a ! (j div 2 mod unat (modeNum ?a)) else onInterval ?a)) [0..<256]"
    by (rule led_special_delays[OF s]) simp_all
  then show ?thesis using s by simp
qed

end
