(* ===== verification/RcApp.thy ===== *)
theory RcApp
  imports AppLed "HOL-Library.Monad_Syntax"
begin

text \<open>
  The application of the remote in its ZRC 2.0 build on the 8258 board: keys, repeat timer, pairing, voice
  and update sessions. Sources: \<open>vendor/rc_app/app_common.c\<close>, \<open>app_data.c\<close>, \<open>callback_zrc.c\<close> and the remote's
  side of \<open>vendor/common/TL_specificData/tl_specific_data_audio.c\<close>.

  The state is \<open>rcu_appVars\<close>, \<open>rcu_appInfo\<close>, \<open>g_uapiVar\<close>, the function-level static variables, the recorder
  state \<open>audio_status\<close> and the timer table; the record extends that of \<open>AppLed\<close>. What the network library,
  the radio, the flash and the power management are told is the trace \<open>outs\<close>; what they answer within one
  event is the argument \<open>rc_env\<close>. The clock is read once per event. A result \<open>None\<close> is the endless loop of
  \<open>on_timer\<close> without a free entry. Callbacks of the library are events, never nested in a call to it.
\<close>

section \<open>Constants\<close>

text \<open>\<open>app_common.h\<close>: the states of the application.\<close>

abbreviation (input) APP_UNCONNECT_STATE :: u8 where "APP_UNCONNECT_STATE \<equiv> 2"
abbreviation (input) APP_READY_STATE :: u8 where "APP_READY_STATE \<equiv> 3"
abbreviation (input) APP_PRE_PAIRING_STATE :: u8 where "APP_PRE_PAIRING_STATE \<equiv> 0x10"
abbreviation (input) APP_PAIRING_STATE :: u8 where "APP_PAIRING_STATE \<equiv> 0x11"
abbreviation (input) APP_VERIFY_PAIR_STATE :: u8 where "APP_VERIFY_PAIR_STATE \<equiv> 0x12"
abbreviation (input) APP_CHECK_VALIDATION_STATE :: u8 where "APP_CHECK_VALIDATION_STATE \<equiv> 0x13"
abbreviation (input) APP_SENDING_IR_STATE :: u8 where "APP_SENDING_IR_STATE \<equiv> 0x20"
abbreviation (input) APP_OTA_STATE :: u8 where "APP_OTA_STATE \<equiv> 0x30"
abbreviation (input) APP_AUDIO_STATE :: u8 where "APP_AUDIO_STATE \<equiv> 0x40"
abbreviation (input) APP_PRE_MODE_SWITCH :: u8 where "APP_PRE_MODE_SWITCH \<equiv> 0x50"

text \<open>Status codes, battery levels (\<open>app_const.h\<close>) and the keys with a meaning of their own (\<open>board_telink_rc_8258.h\<close>).\<close>

abbreviation (input) SUCCESS :: u8 where "SUCCESS \<equiv> 0"
abbreviation (input) FAILURE :: u8 where "FAILURE \<equiv> 1"
abbreviation (input) ZRC_RESTORE :: u8 where "ZRC_RESTORE \<equiv> 0x14"
abbreviation (input) RF4CE_NWK_FRAME_COUNTER_EXPIRED :: u8 where "RF4CE_NWK_FRAME_COUNTER_EXPIRED \<equiv> 0xb6"
abbreviation (input) RF4CE_INVALID_PAIR_REF :: u8 where "RF4CE_INVALID_PAIR_REF \<equiv> 0xFF"
abbreviation (input) BAT_THRESHOLD_OTA :: u8 where "BAT_THRESHOLD_OTA \<equiv> 1"
abbreviation (input) BAT_THRESHOLD_PAIR :: u8 where "BAT_THRESHOLD_PAIR \<equiv> 2"
abbreviation (input) BAT_THRESHOLD_FLASH :: u8 where "BAT_THRESHOLD_FLASH \<equiv> 3"
abbreviation (input) BAT_THRESHOLD_WARNING :: u8 where "BAT_THRESHOLD_WARNING \<equiv> 3"
abbreviation (input) BAT_LEVEL_CUTOFF :: u8 where "BAT_LEVEL_CUTOFF \<equiv> 4"
abbreviation (input) AUDIO_IDLE :: u8 where "AUDIO_IDLE \<equiv> 0"
abbreviation (input) AUDIO_OPENED :: u8 where "AUDIO_OPENED \<equiv> 2"
abbreviation (input) TL_AUDIO_STA_START :: u8 where "TL_AUDIO_STA_START \<equiv> 0x90"
abbreviation (input) TL_AUDIO_STA_TIMEOUT :: u8 where "TL_AUDIO_STA_TIMEOUT \<equiv> 0x91"
abbreviation (input) TL_AUDIO_STA_STOP :: u8 where "TL_AUDIO_STA_STOP \<equiv> 0x92"
abbreviation (input) VK_HOMEKEY :: u8 where "VK_HOMEKEY \<equiv> 0x09"
abbreviation (input) VK_MENU :: u8 where "VK_MENU \<equiv> 0x0A"
abbreviation (input) VK_BACK :: u8 where "VK_BACK \<equiv> 0xa8"
abbreviation (input) VK_RECORED :: u8 where "VK_RECORED \<equiv> 0x47"
abbreviation (input) VK_TV :: u8 where "VK_TV \<equiv> 0xf7"
abbreviation (input) VK_NUM_0 :: u8 where "VK_NUM_0 \<equiv> 0x20"
abbreviation (input) VK_NUM_1 :: u8 where "VK_NUM_1 \<equiv> 0x21"
abbreviation (input) VK_NUM_9 :: u8 where "VK_NUM_9 \<equiv> 0x29"

text \<open>The addresses of the timer callbacks: the linker's choice, non-null and distinct.\<close>

definition CB_REPEAT :: ptr where "CB_REPEAT = 0x102"
definition CB_AUDIO_LAST :: ptr where "CB_AUDIO_LAST = 0x103"
definition CB_AUDIO_REQ :: ptr where "CB_AUDIO_REQ = 0x104"
definition CB_DO_PAIR :: ptr where "CB_DO_PAIR = 0x105"
definition CB_DO_UNPAIR :: ptr where "CB_DO_UNPAIR = 0x106"

section \<open>State\<close>

datatype rc_out =
    StartAction u8 u8 u8 u8 bool \<comment> \<open>\<open>zrc_rcSendActionCmdReq\<close>: pairing, options, key, status, still of type START\<close>
  | StopAction u8             \<comment> \<open>\<open>zrc_rcStopSendActionCmd\<close>\<close>
  | ForceStop u8              \<comment> \<open>\<open>zrc_timerForReleaseKeyStop\<close>, \<open>zrc_rcForceStopSendCmd\<close>\<close>
  | ValidCode u8 u8 u8        \<comment> \<open>\<open>zrc_rcSendValidCodeReq\<close>\<close>
  | IrSend u16 u16 bool       \<comment> \<open>\<open>ir_send_upd6121g\<close>: address, command, repeat\<close>
  | QsIrStart bool            \<comment> \<open>\<open>zrcIrInit\<close>: volume up, else down\<close>
  | QsIrStop                  \<comment> \<open>\<open>zrcStop\<close>\<close>
  | MacRxOn u8                \<comment> \<open>\<open>MAC_RX_ON_WHEN_IDLE\<close>\<close>
  | MacChannel u8             \<comment> \<open>\<open>MAC_LOGICAL_CHANNEL\<close> and \<open>destChannel\<close> of the pairing entry\<close>
  | SetFrameCounter u32
  | StartPair u8              \<comment> \<open>\<open>profile_startPair\<close> with its status\<close>
  | UnpairReq u8
  | SaveStack | SaveAppInfo u8 u8 | NvReset
  | BoundInfoSave
  | AudioStartReq u8 u8 | AudioStopReq | RecStart | RecStop | AudioTxReset
  | OtaStart u8 | OtaReboot
  | Suspend u32               \<comment> \<open>\<open>sys_suspendTimerSet\<close>\<close>
  | WakeLevels bool           \<comment> \<open>\<open>app_validLevelForPm\<close>: reset\<close>

record rc_vars = led_vars +
  configTimer :: "timer_ref option"
  audioLastTimer :: "timer_ref option"
  keyPressedTime :: u32
  coutchCnt :: u16
  keyCode :: u8
  lastKey :: u8
  repeat :: bool
  appInPair :: bool
  inRfRpt :: bool
  battSta :: u8
  app_state :: u8
  pairingRef :: u8
  info_state :: u8
  lastKeyCode :: u8
  valid_keyCode :: u8
  audio_status :: u8
  dataReqTimeoutCb :: "timer_ref option"
  audioCb :: bool
  channelNum :: u8
  scanDuration :: u8
  uapi_pairingRef :: u8
  dataReqRetries :: u8
  sys_active_event_time :: u32
  outs :: "rc_out list"

text \<open>What the surroundings answer during one event.\<close>

record rc_env =
  clk :: u32
  ir_busy :: bool
  qs_busy :: bool
  action_sts :: u8
  action_start :: bool
  valid_sts :: u8
  pair_sts :: u8
  tx_sts :: u8
  nv_info :: "(u8 \<times> u8) option"
  nv_write_sts :: u8

definition out :: "rc_out \<Rightarrow> rc_vars \<Rightarrow> rc_vars" where
  "out e s = s\<lparr>outs := outs s @ [e]\<rparr>"

text \<open>\<open>clock_time_exceed\<close> at 16 ticks per microsecond.\<close>

definition clock_time_exceed :: "rc_env \<Rightarrow> u32 \<Rightarrow> u32 \<Rightarrow> bool" where
  "clock_time_exceed g ref us \<longleftrightarrow> clk g - ref > us * 16"

definition app_setState :: "u8 \<Rightarrow> rc_vars \<Rightarrow> rc_vars" where
  "app_setState st s = s\<lparr>app_state := st\<rparr>"

definition app_restoreState :: "rc_vars \<Rightarrow> rc_vars" where
  "app_restoreState s = app_setState (info_state s) s"

definition app_isNormalState :: "rc_vars \<Rightarrow> bool" where
  "app_isNormalState s \<longleftrightarrow> app_state s = APP_READY_STATE \<or> app_state s = APP_UNCONNECT_STATE"

definition app_isSendingIR :: "rc_env \<Rightarrow> rc_vars \<Rightarrow> bool" where
  "app_isSendingIR g s \<longleftrightarrow> app_state s = APP_SENDING_IR_STATE \<or> ir_busy g"

definition checkBatteryBeforeSaveFlash :: "u8 \<Rightarrow> rc_vars \<Rightarrow> bool" where
  "checkBatteryBeforeSaveFlash volThreshold s \<longleftrightarrow> \<not> battSta s > volThreshold"

definition save_appInfo :: "rc_env \<Rightarrow> rc_vars \<Rightarrow> rc_vars" where
  "save_appInfo g s =
     (let s = out (SaveAppInfo (pairingRef s) (info_state s)) s
      in if nv_write_sts g \<noteq> SUCCESS then out (SaveAppInfo (pairingRef s) (info_state s)) (out NvReset s) else s)"

definition init_rcuState :: "rc_env \<Rightarrow> rc_vars \<Rightarrow> rc_vars" where
  "init_rcuState g s =
     (let s = (case nv_info g of
                 Some (ref, st) \<Rightarrow> s\<lparr>pairingRef := ref, info_state := st\<rparr>
               | None \<Rightarrow>
                   save_appInfo g (s\<lparr>pairingRef := RF4CE_INVALID_PAIR_REF, info_state := APP_UNCONNECT_STATE,
                     ledStatus := False, ledIdleState := False, repeat := False, appInPair := False,
                     ledIndex := 0, allowedDeep := True, inRfRpt := False\<rparr>));
          s = s\<lparr>ledStopCnt := 0, blinkTimes := 0, ledStatus := False, repeat := False, ledIdleState := False, allowedDeep := True\<rparr>;
          s = app_setState (info_state s) s
      in (out (Suspend 20) s)\<lparr>lastKey := 0xff\<rparr>)"

section \<open>The repeat timer and key commands: \<open>app_data.c\<close>\<close>

definition unon_config :: "rc_vars \<Rightarrow> rc_vars option" where
  "unon_config s = map_option (\<lambda>s. s\<lparr>configTimer := None\<rparr>) (app_unon_timer (configTimer s) s)"

definition app_startSendRepeateDataTimer :: "rc_env \<Rightarrow> u32 \<Rightarrow> rc_vars \<Rightarrow> rc_vars option" where
  "app_startSendRepeateDataTimer g rptTime s =
     do { s \<leftarrow> unon_config s;
          (r, s) \<leftarrow> app_on_timer (clk g) CB_REPEAT NULL rptTime s;
          Some (s\<lparr>configTimer := r, coutchCnt := ucast (30 * 1000 * 1000 div rptTime)\<rparr>) }"

text \<open>
  \<open>callback_zrc.c\<close>: the key commands of the profile. The library gets the address of the action record
  \<open>zrc_rec\<close>, filled with the type \<open>ZRC2_ACTION_TYPE_START\<close>; \<open>action_start\<close> says whether it still has this type afterwards.
\<close>

definition profile_sendValidationKey :: "rc_env \<Rightarrow> u8 \<Rightarrow> u8 \<Rightarrow> u8 \<Rightarrow> rc_vars \<Rightarrow> u8 \<times> rc_vars" where
  "profile_sendValidationKey g ref txOptions keycode s = (valid_sts g, out (ValidCode ref txOptions keycode) s)"

definition profile_startSendRFKeyCmd :: "rc_env \<Rightarrow> u8 \<Rightarrow> u8 \<Rightarrow> u8 \<Rightarrow> rc_vars \<Rightarrow> u8 \<times> rc_vars" where
  "profile_startSendRFKeyCmd g ref txOptions keycode s =
     (let s = out (StartAction ref txOptions keycode (action_sts g) (action_start g)) s
      in if action_sts g \<noteq> SUCCESS then (FAILURE, s\<lparr>repeat := False\<rparr>)
         else (SUCCESS, if action_start g then s\<lparr>repeat := True\<rparr> else s))"

definition profile_stopSendRFKeyCmd :: "u8 \<Rightarrow> rc_vars \<Rightarrow> rc_vars" where
  "profile_stopSendRFKeyCmd ref s = out (StopAction ref) s"

definition app_stopSendRepeateDataTimer :: "rc_vars \<Rightarrow> rc_vars option" where
  "app_stopSendRepeateDataTimer s =
     do { s \<leftarrow> unon_config s;
          let s = (if inRfRpt s then (profile_stopSendRFKeyCmd (pairingRef s) s)\<lparr>inRfRpt := False\<rparr> else s);
          Some (out (Suspend 20) (s\<lparr>repeat := False\<rparr>)) }"

definition app_sendRFKeyCmd :: "rc_env \<Rightarrow> u8 \<Rightarrow> rc_vars \<Rightarrow> (u8 \<times> rc_vars) option" where
  "app_sendRFKeyCmd g key s =
     (let txOption = 0x04 OR 0x08
      in if app_state s = APP_CHECK_VALIDATION_STATE then
           Some (profile_sendValidationKey g (pairingRef s) txOption key s)
         else if app_state s \<noteq> APP_READY_STATE \<or> pairingRef s = RF4CE_INVALID_PAIR_REF then Some (FAILURE, s)
         else (case profile_startSendRFKeyCmd g (pairingRef s) txOption key s of (sts, s) \<Rightarrow>
           if sts \<noteq> SUCCESS then Some (FAILURE, s)
           else if repeat s then
             do { s \<leftarrow> app_startSendRepeateDataTimer g 50000 (s\<lparr>allowedDeep := False, inRfRpt := True, repeat := True\<rparr>);
                  Some (SUCCESS, out (Suspend 55) s) }
           else Some (SUCCESS, s)))"

definition app_sendRFData :: "rc_env \<Rightarrow> u8 \<Rightarrow> rc_vars \<Rightarrow> (u8 \<times> rc_vars) option" where
  "app_sendRFData g key s =
     (if repeat s then Some (FAILURE, s)
      else app_sendRFKeyCmd g key (s\<lparr>inRfRpt := False, keyCode := key\<rparr>))"

text \<open>The two key tables of the board, row by row.\<close>

definition rf_keyMappingTbl :: "u8 list" where
  "rf_keyMappingTbl =
     [0x00, 0xf7, 0x00, 0x00, 0x09,
      0x47, 0x00, 0x00, 0x30, 0x31,
      0x22, 0x04, 0x41, 0x23, 0x21,
      0x25, 0x00, 0x42, 0x26, 0x24,
      0x28, 0x02, 0x01, 0x29, 0x27,
      0x20, 0xa8, 0x03, 0x43, 0x0A]"

definition ir_keyMappingTbl :: "u8 list" where
  "ir_keyMappingTbl =
     [0x08, 0x0d, 0x48, 0x31, 0x1F,
      0x5D, 0x0B, 0x1E, 0x5A, 0x1B,
      0x29, 0x33, 0x28, 0x5E, 0x0E,
      0x46, 0x56, 0x1E, 0x06, 0x58,
      0x53, 0x10, 0x11, 0x4F, 0x0C,
      0x4B, 0x08, 0x09, 0x30, 0x04]"

text \<open>\<open>irdb16_getEntry(41)\<close> is the entry with address 0x44AF and \<open>ir_send_upd6121g\<close> as its function.\<close>

definition ir_code_of :: "u8 \<Rightarrow> u8 option" where
  "ir_code_of key = map_of (zip rf_keyMappingTbl ir_keyMappingTbl) key"

definition app_sendDtvIrCmd :: "u8 \<Rightarrow> bool \<Rightarrow> rc_vars \<Rightarrow> rc_vars" where
  "app_sendDtvIrCmd key rpt s =
     (if key = 0xff then out (IrSend 0x44AF 0xff False) s
      else case ir_code_of key of None \<Rightarrow> s | Some c \<Rightarrow> out (IrSend 0x44AF (ucast c) rpt) s)"

definition app_sendIRData :: "rc_env \<Rightarrow> u8 \<Rightarrow> bool \<Rightarrow> rc_vars \<Rightarrow> (u8 \<times> rc_vars) option" where
  "app_sendIRData g key single_key s =
     (if app_state s = APP_VERIFY_PAIR_STATE \<or> repeat s \<or> app_isSendingIR g s then Some (FAILURE, s)
      else
        let s = out (MacRxOn 0) (s\<lparr>inRfRpt := False, keyCode := key\<rparr>);
            s = (app_setState APP_SENDING_IR_STATE s)\<lparr>repeat := \<not> single_key\<rparr>
        in if ir_busy g then Some (FAILURE, s\<lparr>repeat := False\<rparr>)
           else do { s \<leftarrow> app_startSendRepeateDataTimer g 150000 s;
                     Some (SUCCESS, app_sendDtvIrCmd key False s) })"

definition qs_stop :: "rc_env \<Rightarrow> rc_vars \<Rightarrow> rc_vars" where
  "qs_stop g s = (if qs_busy g then out QsIrStop s else s)"

definition app_sendRepeateDataTimerCb :: "rc_env \<Rightarrow> rc_vars \<Rightarrow> (int \<times> rc_vars) option" where
  "app_sendRepeateDataTimerCb g s =
     (let go = (\<lambda>s. let s = s\<lparr>allowedDeep := False\<rparr>; n = coutchCnt s; s = s\<lparr>coutchCnt := n - 1\<rparr>
                in if n = 0 then
                     do { s \<leftarrow> app_stopSendRepeateDataTimer s;
                          let s = (app_restoreState (s\<lparr>allowedDeep := True\<rparr>))\<lparr>repeat := False, configTimer := None\<rparr>;
                          Some (-1, qs_stop g (out (WakeLevels False) s)) }
                   else Some (0, s))
      in if app_state s = APP_SENDING_IR_STATE then
           (if \<not> repeat s then Some (-1, app_restoreState s) else go (app_sendDtvIrCmd (keyCode s) True s))
         else if keyCode s = 0xff then
           (let s = profile_stopSendRFKeyCmd (pairingRef s) s;
                s = app_restoreState (s\<lparr>inRfRpt := False, repeat := False, allowedDeep := True\<rparr>)
            in Some (-1, out (Suspend 20) s))
         else go s)"

section \<open>Voice: \<open>tl_specific_data_audio.c\<close> and \<open>audio_stateSettingCb\<close>\<close>

definition unon_audio :: "rc_vars \<Rightarrow> rc_vars option" where
  "unon_audio s = map_option (\<lambda>s. s\<lparr>audioLastTimer := None\<rparr>) (app_unon_timer (audioLastTimer s) s)"

definition audio_stateSettingCb :: "rc_env \<Rightarrow> u8 \<Rightarrow> u8 \<Rightarrow> rc_vars \<Rightarrow> rc_vars option" where
  "audio_stateSettingCb g state status s =
     (if state = AUDIO_OPENED \<and> status = TL_AUDIO_STA_START then
        do { s \<leftarrow> unon_audio (led_On 1 (app_setState APP_AUDIO_STATE s));
             (r, s) \<leftarrow> app_on_timer (clk g) CB_AUDIO_LAST NULL (60 * 1000 * 1000) s;
             Some (s\<lparr>audioLastTimer := r\<rparr>) }
      else if state = AUDIO_IDLE then unon_audio (out AudioTxReset (led_Off 1 (app_restoreState s)))
      else Some s)"

definition audio_recTaskStart :: "rc_vars \<Rightarrow> rc_vars" where
  "audio_recTaskStart s = (if audio_status s \<noteq> AUDIO_OPENED then out RecStart (s\<lparr>audio_status := AUDIO_OPENED\<rparr>) else s)"

definition audio_recTaskStop :: "rc_vars \<Rightarrow> rc_vars" where
  "audio_recTaskStop s = out RecStop (s\<lparr>audio_status := AUDIO_IDLE\<rparr>)"

definition tl_audio_stop :: "rc_env \<Rightarrow> rc_vars \<Rightarrow> rc_vars option" where
  "tl_audio_stop g s =
     (let s = out AudioStopReq (out (MacRxOn 1) (audio_recTaskStop s))
      in if audioCb s then audio_stateSettingCb g AUDIO_IDLE TL_AUDIO_STA_STOP s else Some s)"

definition app_audioStart :: "rc_env \<Rightarrow> u8 \<Rightarrow> u8 \<Rightarrow> rc_vars \<Rightarrow> rc_vars option" where
  "app_audioStart g chn duration s =
     (if dataReqTimeoutCb s \<noteq> None then Some s
      else do { let s = (out (MacRxOn 1) s)\<lparr>uapi_pairingRef := 0, audioCb := True, channelNum := chn, scanDuration := duration\<rparr>;
                let s = (out (AudioStartReq chn duration) s)\<lparr>dataReqRetries := 5\<rparr>;
                (r, s) \<leftarrow> app_on_timer (clk g) CB_AUDIO_REQ NULL (200 * 1000) s;
                Some (s\<lparr>dataReqTimeoutCb := r\<rparr>) })"

definition audioStartReqTimeout :: "rc_env \<Rightarrow> rc_vars \<Rightarrow> (int \<times> rc_vars) option" where
  "audioStartReqTimeout g s =
     (let n = dataReqRetries s; s = s\<lparr>dataReqRetries := n - 1\<rparr>
      in if n = 0 then
           do { s \<leftarrow> (if audioCb s then audio_stateSettingCb g AUDIO_IDLE TL_AUDIO_STA_TIMEOUT s else Some s);
                Some (-1, out (MacRxOn 0) (s\<lparr>dataReqTimeoutCb := None\<rparr>)) }
         else Some (0, out (AudioStartReq (channelNum s) (scanDuration s)) s))"

text \<open>The branch of \<open>tl_appAudioCmdHandler\<close> for \<open>TL_CMD_AUDIO_START_RSP\<close>; the pairing entry is taken to exist.\<close>

definition audio_startRsp :: "rc_env \<Rightarrow> u8 \<Rightarrow> rc_vars \<Rightarrow> rc_vars option" where
  "audio_startRsp g bestChannel s =
     do { s \<leftarrow> map_option (\<lambda>s. s\<lparr>dataReqTimeoutCb := None\<rparr>) (app_unon_timer (dataReqTimeoutCb s) s);
          let s = audio_recTaskStart (out (MacChannel bestChannel) s);
          if audioCb s then audio_stateSettingCb g AUDIO_OPENED TL_AUDIO_STA_START s else Some s }"

definition audioLastTimeoutCb :: "rc_env \<Rightarrow> rc_vars \<Rightarrow> (int \<times> rc_vars) option" where
  "audioLastTimeoutCb g s = map_option (\<lambda>s. (-1, s)) (tl_audio_stop g s)"

section \<open>Keys: \<open>app_common.c\<close>\<close>

definition app_startOta :: "rc_env \<Rightarrow> rc_vars \<Rightarrow> rc_vars option" where
  "app_startOta g s =
     (if pairingRef s \<noteq> RF4CE_INVALID_PAIR_REF \<and> tx_sts g = 0 \<and> checkBatteryBeforeSaveFlash BAT_THRESHOLD_OTA s then
        do { s \<leftarrow> led_startSet (clk g) 0 (2 * 1000 * 1000) 1 s;
             Some (out (OtaStart (pairingRef s)) (out (MacRxOn 1) (app_setState APP_OTA_STATE s))) }
      else Some (app_restoreState (s\<lparr>allowedDeep := True\<rparr>)))"

definition app_otaStateCb :: "rc_env \<Rightarrow> bool \<Rightarrow> rc_vars \<Rightarrow> rc_vars option" where
  "app_otaStateCb g success s =
     do { s \<leftarrow> (if success then Some (out OtaReboot s) else led_startSet (clk g) 3 (100 * 1000) 1 s);
          Some (out (MacRxOn 0) (app_setState APP_READY_STATE s)) }"

definition press_key_handler :: "rc_env \<Rightarrow> u8 \<Rightarrow> u8 \<Rightarrow> rc_vars \<Rightarrow> rc_vars option" where
  "press_key_handler g key validKey s =
     do { s \<leftarrow> (if key = 0xff \<or> key \<noteq> validKey then app_stopSendRepeateDataTimer s else Some s);
          if key = 0xff then Some s
          else do {
            s \<leftarrow> (if battSta s \<ge> BAT_THRESHOLD_WARNING then led_startSet (clk g) 3 (50 * 1000) 1 s
                  else led_startSet (clk g) 1 (150 * 1000) 1 s);
            if pairingRef s \<noteq> RF4CE_INVALID_PAIR_REF then
              (if app_state s = APP_READY_STATE then
                 (if key = VK_RECORED then
                    (if audio_status s = AUDIO_OPENED then tl_audio_stop g s else app_audioStart g 3 10 s)
                  else if audio_status s \<noteq> AUDIO_OPENED then
                    (if key = VK_TV then app_startOta g s else map_option snd (app_sendRFData g key s))
                  else Some s)
               else Some s)
            else if key = VK_NUM_0 then Some (out (QsIrStart False) s)
            else if key = VK_NUM_1 then Some (out (QsIrStart True) s)
            else map_option snd (app_sendIRData g key False s) } }"

definition release_key_handler :: "rc_env \<Rightarrow> rc_vars \<Rightarrow> rc_vars" where
  "release_key_handler g s = qs_stop g s"

definition keyScan_keyPressedCB :: "rc_env \<Rightarrow> nat \<Rightarrow> u8 list \<Rightarrow> rc_vars \<Rightarrow> rc_vars option" where
  "keyScan_keyPressedCB g cnt codes s =
     (if battSta s > BAT_LEVEL_CUTOFF then Some (s\<lparr>allowedDeep := True\<rparr>)
      else
        let key1 = (if cnt = 2 then codes ! 0 else 0xff); key2 = (if cnt = 2 then codes ! 1 else 0xff);
            key = (if cnt \<ge> 2 then 0xff else codes ! 0)
        in if app_isNormalState s \<or> app_state s = APP_SENDING_IR_STATE then
             do { s \<leftarrow> press_key_handler g key (lastKeyCode s) s;
                  let s = s\<lparr>lastKeyCode := key\<rparr>;
                  if key = VK_HOMEKEY then
                    do { s \<leftarrow> app_stopSendRepeateDataTimer (app_restoreState s);
                         let s = release_key_handler g s;
                         Some ((app_setState APP_PRE_PAIRING_STATE (s\<lparr>keyPressedTime := clk g\<rparr>))\<lparr>allowedDeep := False\<rparr>) }
                  else if pairingRef s \<noteq> RF4CE_INVALID_PAIR_REF \<and> app_state s = APP_READY_STATE \<and> audio_status s \<noteq> AUDIO_OPENED
                          \<and> (key1 = VK_MENU \<and> key2 = VK_BACK \<or> key1 = VK_BACK \<and> key2 = VK_MENU) then
                    map_option snd (app_on_timer (clk g) CB_DO_UNPAIR NULL (5 * 100 * 1000) s)
                  else Some s }
           else if app_state s = APP_AUDIO_STATE then
             do { s \<leftarrow> (if key = VK_RECORED then tl_audio_stop g s else Some s);
                  Some (s\<lparr>lastKeyCode := key\<rparr>) }
           else if app_state s = APP_CHECK_VALIDATION_STATE then
             (if key \<ge> VK_NUM_0 \<and> key \<le> VK_NUM_9 then map_option snd (app_sendRFData g key s) else Some s)
           else Some s)"

definition keyScan_keyReleasedCB :: "rc_env \<Rightarrow> u8 \<Rightarrow> rc_vars \<Rightarrow> rc_vars option" where
  "keyScan_keyReleasedCB g key s =
     (if app_isNormalState s \<or> app_state s = APP_SENDING_IR_STATE then
        do { s \<leftarrow> app_stopSendRepeateDataTimer (app_restoreState ((out (Suspend 20) s)\<lparr>allowedDeep := True\<rparr>));
             Some (release_key_handler g (s\<lparr>repeat := False\<rparr>)) }
      else if app_state s = APP_PRE_PAIRING_STATE \<or> app_state s = APP_PRE_MODE_SWITCH then
        Some ((app_restoreState s)\<lparr>allowedDeep := True\<rparr>)
      else Some s)"

definition user_keyEventHandle :: "rc_env \<Rightarrow> nat \<Rightarrow> u8 list \<Rightarrow> rc_vars \<Rightarrow> rc_vars option" where
  "user_keyEventHandle g cnt codes s =
     (let s = (out (Suspend 20) s)\<lparr>sys_active_event_time := clk g\<rparr>
      in if cnt \<noteq> 0 then
           do { s \<leftarrow> keyScan_keyPressedCB g cnt codes s;
                Some (out (WakeLevels False) (if cnt = 1 then s\<lparr>valid_keyCode := codes ! 0\<rparr> else s)) }
         else
           do { s \<leftarrow> keyScan_keyReleasedCB g (valid_keyCode s) s;
                Some (out (WakeLevels True) (s\<lparr>valid_keyCode := 0xff\<rparr>)) })"

section \<open>Pairing: \<open>callback_zrc.c\<close>\<close>

definition zrc_doPair :: "rc_env \<Rightarrow> rc_vars \<Rightarrow> (int \<times> rc_vars) option" where
  "zrc_doPair g s =
     (if \<not> checkBatteryBeforeSaveFlash BAT_THRESHOLD_PAIR s then
        do { s \<leftarrow> led_startSet (clk g) 4 (100 * 1000) 1 ((app_restoreState s)\<lparr>allowedDeep := True\<rparr>); Some (-1, s) }
      else if \<not> appInPair s then
        (let s = out (StartPair (pair_sts g)) (out (MacRxOn 1) s)
         in if pair_sts g = SUCCESS then
              do { s \<leftarrow> Led_startSpecial (clk g) 0
                     \<lparr>onInterval = 200 * 1000, offIntervalList = [150 * 1000, 600 * 1000, 600 * 1000, 0, 0], modeNum = 3\<rparr> 1
                     ((app_setState APP_PAIRING_STATE s)\<lparr>appInPair := True, allowedDeep := False\<rparr>);
                   Some (-1, s) }
            else map_option (\<lambda>(_, s). (-1, s)) (app_on_timer (clk g) CB_DO_PAIR NULL 1 s))
      else Some (-1, s))"

definition zrc_doUnpair :: "rc_vars \<Rightarrow> int \<times> rc_vars" where
  "zrc_doUnpair s = (-1, (out (UnpairReq (pairingRef s)) s)\<lparr>allowedDeep := False\<rparr>)"

definition app_lightOnProgLed :: "rc_env \<Rightarrow> rc_vars \<Rightarrow> rc_vars option" where
  "app_lightOnProgLed g s =
     (if (app_state s = APP_PRE_PAIRING_STATE \<or> app_state s = APP_PRE_MODE_SWITCH) \<and>
         clock_time_exceed g (keyPressedTime s) (3 * 1000 * 1000) \<and> app_state s = APP_PRE_PAIRING_STATE then
        map_option snd (zrc_doPair g (out BoundInfoSave (app_setState APP_PAIRING_STATE (led_Off 1 s))))
      else Some s)"

definition zrc_startCnfCb :: "rc_vars \<Rightarrow> rc_vars" where
  "zrc_startCnfCb s =
     (let s = out (MacRxOn 0) s
      in if is_timer_expired (map_option (get_timer (tmr s)) (ledBlinkTimer s)) then s\<lparr>allowedDeep := True\<rparr> else s)"

definition zrc_pairCnfCb :: "rc_env \<Rightarrow> u8 \<Rightarrow> u8 \<Rightarrow> rc_vars \<Rightarrow> rc_vars" where
  "zrc_pairCnfCb g ref status s =
     (let s = out (MacRxOn 0) s
      in if status = SUCCESS then (app_setState APP_VERIFY_PAIR_STATE (s\<lparr>pairingRef := ref\<rparr>))\<lparr>keyPressedTime := clk g\<rparr> else s)"

definition zrc_checkValidationCb :: "rc_vars \<Rightarrow> rc_vars" where
  "zrc_checkValidationCb s = (if app_state s = APP_VERIFY_PAIR_STATE then app_setState APP_CHECK_VALIDATION_STATE s else s)"

definition led_startBind :: "rc_env \<Rightarrow> u32 \<Rightarrow> rc_vars \<Rightarrow> rc_vars option" where
  "led_startBind g blinkCnt s = led_startSet (clk g) (ucast blinkCnt) (100 * 1000) 1 s"

definition zrc_saveStackInfo :: "rc_vars \<Rightarrow> rc_vars" where "zrc_saveStackInfo s = out SaveStack s"

definition zrc_bondCnfCb :: "rc_env \<Rightarrow> u8 \<Rightarrow> u8 \<Rightarrow> rc_vars \<Rightarrow> rc_vars option" where
  "zrc_bondCnfCb g ref status s =
     (let s = (out (MacRxOn 0) s)\<lparr>appInPair := False\<rparr>;
          sleep = (\<lambda>s. if \<not> ledIdleState s then s\<lparr>allowedDeep := True\<rparr> else s);
          save = (\<lambda>s. led_Off 1 (if checkBatteryBeforeSaveFlash BAT_THRESHOLD_FLASH s then save_appInfo g (zrc_saveStackInfo s) else s))
      in if status = SUCCESS then
           map_option save (led_startBind g 3 (app_setState APP_READY_STATE (s\<lparr>pairingRef := ref, info_state := APP_READY_STATE\<rparr>)))
         else if status = ZRC_RESTORE then
           (let s = app_setState APP_READY_STATE (s\<lparr>pairingRef := ref, info_state := APP_READY_STATE\<rparr>);
                s = (case nv_info g of Some (r, st) \<Rightarrow> s\<lparr>pairingRef := r, info_state := st\<rparr> | None \<Rightarrow> s)
            in map_option sleep (led_stopAll 1 (led_Off 1 s)))
         else
           map_option (\<lambda>s. save (sleep s))
             (led_stopAll 1 (app_setState APP_UNCONNECT_STATE (s\<lparr>pairingRef := RF4CE_INVALID_PAIR_REF, info_state := APP_UNCONNECT_STATE\<rparr>))))"

definition zrc_unPairCnfCb :: "rc_env \<Rightarrow> rc_vars \<Rightarrow> rc_vars option" where
  "zrc_unPairCnfCb g s =
     (let s = (app_setState APP_UNCONNECT_STATE s)\<lparr>pairingRef := RF4CE_INVALID_PAIR_REF, info_state := APP_UNCONNECT_STATE\<rparr>;
          ok = checkBatteryBeforeSaveFlash BAT_THRESHOLD_FLASH s;
          s = (if ok then save_appInfo g (zrc_saveStackInfo s) else s)
      in map_option (\<lambda>s. s\<lparr>allowedDeep := True\<rparr>) (led_startBind g (if ok then 2 else 4) s))"

definition zrc_cmdSendCb :: "u8 \<Rightarrow> bool \<Rightarrow> rc_vars \<Rightarrow> rc_vars option" where
  "zrc_cmdSendCb status key_handle s =
     (let s = (if status = RF4CE_NWK_FRAME_COUNTER_EXPIRED then snd (zrc_doUnpair (out (SetFrameCounter 1) s)) else s)
      in if status \<noteq> SUCCESS \<and> repeat s \<and> key_handle then
           (let s = out (ForceStop (pairingRef s)) (app_restoreState s)
            in map_option (\<lambda>s. s\<lparr>repeat := False\<rparr>) (app_stopSendRepeateDataTimer (s\<lparr>allowedDeep := True, inRfRpt := False\<rparr>)))
         else Some s)"

section \<open>Events\<close>

text \<open>A timer callback of the application, by its address, and the loop body of \<open>ev_process_timer\<close> for it.\<close>

definition rc_callback :: "rc_env \<Rightarrow> ptr \<Rightarrow> ptr \<Rightarrow> rc_vars \<Rightarrow> (int \<times> rc_vars) option" where
  "rc_callback g cb data s =
     (if cb = CB_LED then Some (led_BlinkTimerCB data s)
      else if cb = CB_REPEAT then app_sendRepeateDataTimerCb g s
      else if cb = CB_AUDIO_LAST then audioLastTimeoutCb g s
      else if cb = CB_AUDIO_REQ then audioStartReqTimeout g s
      else if cb = CB_DO_PAIR then zrc_doPair g s
      else if cb = CB_DO_UNPAIR then Some (zrc_doUnpair s)
      else None)"

definition rc_fire :: "rc_env \<Rightarrow> timer_ref \<Rightarrow> rc_vars \<Rightarrow> rc_vars option" where
  "rc_fire g r s =
     (if valid_ref r \<and> due (clk g) (tmr s) r then
        do { (t, s) \<leftarrow> rc_callback g (te_cb (get_timer (tmr s) r)) (te_data (get_timer (tmr s) r)) s;
             Some (s\<lparr>tmr := set_timer (tmr s) r (after_callback (ticks_us (tmr s)) (clk g) t (get_timer (tmr s) r))\<rparr>) }
      else None)"

definition rc_callbacks :: "ptr set" where
  "rc_callbacks = {CB_LED, CB_REPEAT, CB_AUDIO_LAST, CB_AUDIO_REQ, CB_DO_PAIR, CB_DO_UNPAIR}"

text \<open>
  What can happen to the application. \<open>Others\<close>: other parts of the firmware start, cancel and run their own
  timers, \<open>Reap\<close>: the first loop of \<open>ev_process_timer\<close>.
\<close>

datatype rc_event =
    Key nat "u8 list" | Idle | Fire timer_ref | Reap | Others timers | Battery u8
  | StartCnf | PairCnf u8 u8 | ValidationCnf | BondCnf u8 u8 | UnpairCnf | CmdCnf u8 bool
  | AudioRsp u8 | OtaState bool

definition others_ok :: "timers \<Rightarrow> timers \<Rightarrow> bool" where
  "others_ok t t' \<longleftrightarrow> timers_ok t' \<and> ticks_us t' = ticks_us t \<and>
     (\<forall>r \<in> set (map EvTimer [0..<12] @ map StackTimer [0..<10]). (te_busy (get_timer t r) \<noteq> 0 \<and> te_cb (get_timer t r) \<in> rc_callbacks) \<or>
        (te_busy (get_timer t' r) \<noteq> 0 \<and> te_cb (get_timer t' r) \<in> rc_callbacks) \<longrightarrow> get_timer t' r = get_timer t r)"

fun rc_handle :: "rc_env \<Rightarrow> rc_event \<Rightarrow> rc_vars \<Rightarrow> rc_vars option" where
  "rc_handle g (Key cnt codes) s = (if cnt \<le> length codes \<and> 0xff \<notin> set codes then user_keyEventHandle g cnt codes s else None)"
| "rc_handle g Idle s = app_lightOnProgLed g s"
| "rc_handle g (Fire r) s = rc_fire g r s"
| "rc_handle g Reap s = Some (s\<lparr>tmr := reap_all (tmr s)\<rparr>)"
| "rc_handle g (Others t) s = (if others_ok (tmr s) t then Some (s\<lparr>tmr := t\<rparr>) else None)"
| "rc_handle g (Battery b) s = Some (s\<lparr>battSta := b\<rparr>)"
| "rc_handle g StartCnf s = Some (zrc_startCnfCb s)"
| "rc_handle g (PairCnf ref st) s = Some (zrc_pairCnfCb g ref st s)"
| "rc_handle g ValidationCnf s = Some (zrc_checkValidationCb s)"
| "rc_handle g (BondCnf ref st) s = zrc_bondCnfCb g ref st s"
| "rc_handle g UnpairCnf s = zrc_unPairCnfCb g s"
| "rc_handle g (CmdCnf st k) s = zrc_cmdSendCb st k s"
| "rc_handle g (AudioRsp ch) s = audio_startRsp g ch s"
| "rc_handle g (OtaState ok) s = app_otaStateCb g ok s"

text \<open>The state of the cleared memory, and what \<open>user_init\<close> makes of it.\<close>

definition rc_boot :: "u32 \<Rightarrow> rc_env \<Rightarrow> rc_vars" where
  "rc_boot us g = init_rcuState g
     \<lparr>ledBlinkTimer = None, ledStopCnt = 0, blinkTimes = 0, ledStatus = False, ledIdleState = False, ledIndex = 0,
      allowedDeep = False, g_appLedAction = \<lparr>onInterval = 0, offIntervalList = replicate 5 0, modeNum = 0\<rparr>,
      tmr = timers0 us, pins = [],
      configTimer = None, audioLastTimer = None, keyPressedTime = 0, coutchCnt = 0, keyCode = 0, lastKey = 0,
      repeat = False, appInPair = False, inRfRpt = False, battSta = 0, app_state = 0, pairingRef = 0, info_state = 0,
      lastKeyCode = 0xff, valid_keyCode = 0xff, audio_status = AUDIO_IDLE, dataReqTimeoutCb = None, audioCb = False,
      channelNum = 0, scanDuration = 0, uapi_pairingRef = 0, dataReqRetries = 0, sys_active_event_time = 0, outs = []\<rparr>"

text \<open>The item in flash holds only the states the application writes to it.\<close>

definition env_ok :: "rc_env \<Rightarrow> bool" where
  "env_ok g \<longleftrightarrow> (case nv_info g of None \<Rightarrow> True | Some (ref, st) \<Rightarrow> st = APP_READY_STATE \<or> st = APP_UNCONNECT_STATE)"

text \<open>Runs: the events so far and the state they lead to.\<close>

inductive rc_run :: "u32 \<Rightarrow> (rc_env \<times> rc_event) list \<Rightarrow> rc_vars \<Rightarrow> bool" for us where
  boot: "env_ok g \<Longrightarrow> rc_run us [] (rc_boot us g)"
| step: "rc_run us h s \<Longrightarrow> env_ok g \<Longrightarrow> rc_handle g ev s = Some s' \<Longrightarrow> rc_run us (h @ [(g, ev)]) s'"

end
