(* ===== verification/RcAppInv.thy ===== *)
theory RcAppInv
  imports RcApp
begin

text \<open>
  The invariants of the remote's application: \<open>good\<close> (the four timer pointers against the timer table, and the
  order of key commands) is kept by every handler, callback and event; \<open>calm\<close> follows what can start a pairing.
  \<open>rc_run_inv\<close> collects both for every run.
\<close>

section \<open>Running timers\<close>

definition running :: "timers \<Rightarrow> ptr \<Rightarrow> timer_ref set" where
  "running t cb = {r. valid_ref r \<and> te_valid (get_timer t r) = 1 \<and> te_cb (get_timer t r) = cb}"

text \<open>The argument of every running LED timer is a delay, not a negative number.\<close>

definition led_args :: "timers \<Rightarrow> bool" where
  "led_args t \<longleftrightarrow> (\<forall>r \<in> running t CB_LED. 0 \<le> sint (te_data (get_timer t r)))"

definition started_as :: "ptr \<Rightarrow> timer_ref \<Rightarrow> timers \<Rightarrow> timers \<Rightarrow> bool" where
  "started_as cb r t t' \<longleftrightarrow> timers_ok t' \<and> (\<exists>k. r = EvTimer k) \<and> running t' cb = insert r (running t cb) \<and>
     (\<forall>c. c \<noteq> cb \<longrightarrow> running t' c = running t c) \<and> ticks_us t' = ticks_us t"

definition stopped :: "timer_ref set \<Rightarrow> timers \<Rightarrow> timers \<Rightarrow> bool" where
  "stopped R t t' \<longleftrightarrow> timers_ok t' \<and> (\<forall>c. running t' c = running t c - R) \<and> (led_args t \<longrightarrow> led_args t') \<and> ticks_us t' = ticks_us t"

lemma free_not_running: "timers_ok t \<Longrightarrow> te_busy (get_timer t r) = 0 \<Longrightarrow> r \<notin> running t c"
  using get_timer_ok[of t r] by (auto simp: running_def entry_ok_def)

lemma running_ref: "r \<in> running t c \<Longrightarrow> valid_ref r"
  by (simp add: running_def)

lemma app_on_timer_running:
  assumes "timers_ok (tmr s)" "app_on_timer now cb d us s = Some (r, s')"
  shows "\<exists>q t. r = Some q \<and> s' = s\<lparr>tmr := t\<rparr> \<and> started_as cb q (tmr s) t \<and>
    (led_args (tmr s) \<longrightarrow> (cb = CB_LED \<longrightarrow> 0 \<le> sint d) \<longrightarrow> led_args t)"
proof -
  obtain t where o: "on_timer now TL_EV_TASK cb d us (tmr s) = Some (r, t)" and s': "s' = s\<lparr>tmr := t\<rparr>"
    using assms(2) by (auto simp: app_on_timer_def ev_on_timer_def)
  obtain k where k: "r = Some (EvTimer k)" using o by (auto simp: on_timer_def split: if_splits option.splits)
  note p = on_timer_some[OF assms(1) o, unfolded k option.case]
  have nv: "te_valid (get_timer (tmr s) (EvTimer k)) \<noteq> 1"
    using p get_timer_ok[OF assms(1), of "EvTimer k"] by (auto simp: entry_ok_def)
  have "x \<in> running t c \<longleftrightarrow> x \<in> (if c = cb then insert (EvTimer k) (running (tmr s) c) else running (tmr s) c)" for c x
    using p nv by (cases "x = EvTimer k") (auto simp: running_def started_def)
  then have "running t c = (if c = cb then insert (EvTimer k) (running (tmr s) c) else running (tmr s) c)" for c
    by blast
  moreover have "led_args t" if "led_args (tmr s)" "cb = CB_LED \<longrightarrow> 0 \<le> sint d"
    using that p unfolding led_args_def running_def by (auto simp: started_def)
  ultimately show ?thesis using p s' k by (auto simp: started_as_def)
qed


lemma running_set_timer:
  "timers_ok t \<Longrightarrow> valid_ref r \<Longrightarrow> te_valid e \<noteq> 1 \<Longrightarrow> running (set_timer t r e) c = running t c - {r}"
  by (auto simp: running_def get_set_timer split: if_splits)

lemma led_args_shrink:
  "led_args t \<Longrightarrow> (\<And>r. r \<in> running t' CB_LED \<Longrightarrow> r \<in> running t CB_LED \<and> get_timer t' r = get_timer t r) \<Longrightarrow> led_args t'"
  by (force simp: led_args_def)

lemma stopped_set_timer:
  assumes "timers_ok t" "valid_ref r" "entry_ok e" "te_valid e \<noteq> 1"
  shows "stopped {r} t (set_timer t r e)"
  using set_timer_ok[OF assms(1,3)] running_set_timer[OF assms(1,2,4)] get_set_timer[OF assms(1,2)]
  unfolding stopped_def by (auto elim!: led_args_shrink)

lemma stopped_refl: "timers_ok t \<Longrightarrow> stopped {} t t"
  by (simp add: stopped_def)

lemma app_unon_timer_running:
  assumes "timers_ok (tmr s)" "app_unon_timer p s = Some s'"
  shows "\<exists>t. s' = s\<lparr>tmr := t\<rparr> \<and> stopped (set_option p) (tmr s) t"
proof -
  obtain t where u: "ev_unon_timer p (tmr s) = Some t" and s': "s' = s\<lparr>tmr := t\<rparr>"
    using assms(2) by (auto simp: app_unon_timer_def)
  have "stopped (set_option p) (tmr s) t"
  proof (cases p)
    case None
    then show ?thesis using u assms(1) by (simp add: ev_unon_timer_def stopped_refl)
  next
    case (Some r)
    then obtain k where "r = EvTimer k" "k < 12" "t = set_timer (tmr s) r (cancel_timer (get_timer (tmr s) r))"
      using u unon_set_timer(1)[OF assms(1)] by (cases r) (auto simp: ev_unon_timer_def split: if_splits)
    with Some show ?thesis
      using stopped_set_timer[OF assms(1), of r "cancel_timer (get_timer (tmr s) r)"]
      by (simp add: valid_ref_def) (simp add: cancel_timer_def)
  qed
  with s' show ?thesis by blast
qed

lemma stopped_reap: "timers_ok t \<Longrightarrow> stopped {} t (reap_all t)"
proof -
  assume ok: "timers_ok t"
  have g: "get_timer (reap_all t) r = reap (get_timer t r)" if "valid_ref r" for r
    using that ok by (cases r) (auto simp: get_timer_def reap_all_def timers_ok_def valid_ref_def)
  have same: "te_valid (reap e) = 1 \<longleftrightarrow> te_valid e = 1" "te_valid e = 1 \<Longrightarrow> reap e = e" for e
    by (auto simp: reap_def)
  have "running (reap_all t) c = running t c" for c
    using g same by (auto simp: running_def)
  moreover have "led_args t \<longrightarrow> led_args (reap_all t)"
    using g same by (auto simp: led_args_def running_def)
  ultimately show ?thesis using reap_all_ok[OF ok] by (simp add: stopped_def)
qed

lemma others_ok_alt:
  "others_ok t t' \<longleftrightarrow> timers_ok t' \<and> ticks_us t' = ticks_us t \<and>
     (\<forall>r. valid_ref r \<longrightarrow> (te_busy (get_timer t r) \<noteq> 0 \<and> te_cb (get_timer t r) \<in> rc_callbacks) \<or>
        (te_busy (get_timer t' r) \<noteq> 0 \<and> te_cb (get_timer t' r) \<in> rc_callbacks) \<longrightarrow> get_timer t' r = get_timer t r)"
proof -
  have "valid_ref r \<longleftrightarrow> r \<in> set (map EvTimer [0..<12] @ map StackTimer [0..<10])" for r
    by (cases r) (auto simp: valid_ref_def)
  then show ?thesis unfolding others_ok_def by blast
qed

lemma others_running:
  assumes "timers_ok t" "others_ok t t'" "c \<in> rc_callbacks"
  shows "running t' c = running t c \<and> (led_args t \<longrightarrow> led_args t')"
proof -
  have ok: "timers_ok t'" using assms(2) unfolding others_ok_alt by blast
  have busy: "te_busy (get_timer u r) \<noteq> 0 \<and> te_cb (get_timer u r) = c'" if "timers_ok u" "r \<in> running u c'" for u r c'
    using that free_not_running[OF that(1), of r c'] by (auto simp: running_def)
  have kept: "get_timer t' r = get_timer t r"
    if "r \<in> running t c' \<or> r \<in> running t' c'" "c' \<in> rc_callbacks" for r c'
  proof -
    have "valid_ref r" using that(1) running_ref by blast
    moreover have "te_busy (get_timer t r) \<noteq> 0 \<and> te_cb (get_timer t r) \<in> rc_callbacks \<or>
        te_busy (get_timer t' r) \<noteq> 0 \<and> te_cb (get_timer t' r) \<in> rc_callbacks"
    proof (cases "r \<in> running t c'")
      case True
      with busy[OF assms(1) True] that(2) show ?thesis by simp
    next
      case False
      with that(1) have "r \<in> running t' c'" by simp
      with busy[OF ok this] that(2) show ?thesis by simp
    qed
    ultimately show ?thesis using assms(2) unfolding others_ok_alt by blast
  qed
  have same: "r \<in> running t' c' \<longleftrightarrow> r \<in> running t c'" if "c' \<in> rc_callbacks" for r c'
    using kept[OF _ that, of r] by (auto simp: running_def)
  have "CB_LED \<in> rc_callbacks" by (simp add: rc_callbacks_def)
  with same kept assms(3) show ?thesis by (fastforce simp: led_args_def)
qed

text \<open>The timer table as the application relies on it.\<close>

definition rc_tm :: "timers \<Rightarrow> bool" where
  "rc_tm t \<longleftrightarrow> timers_ok t \<and> led_args t \<and> (\<forall>c \<in> rc_callbacks. running t c \<subseteq> range EvTimer)"

lemma CB_distinct [simp]:
  "CB_LED \<noteq> CB_REPEAT" "CB_LED \<noteq> CB_AUDIO_LAST" "CB_LED \<noteq> CB_AUDIO_REQ" "CB_LED \<noteq> CB_DO_PAIR" "CB_LED \<noteq> CB_DO_UNPAIR"
  "CB_REPEAT \<noteq> CB_LED" "CB_REPEAT \<noteq> CB_AUDIO_LAST" "CB_REPEAT \<noteq> CB_AUDIO_REQ" "CB_REPEAT \<noteq> CB_DO_PAIR" "CB_REPEAT \<noteq> CB_DO_UNPAIR"
  "CB_AUDIO_LAST \<noteq> CB_LED" "CB_AUDIO_LAST \<noteq> CB_REPEAT" "CB_AUDIO_LAST \<noteq> CB_AUDIO_REQ" "CB_AUDIO_LAST \<noteq> CB_DO_PAIR" "CB_AUDIO_LAST \<noteq> CB_DO_UNPAIR"
  "CB_AUDIO_REQ \<noteq> CB_LED" "CB_AUDIO_REQ \<noteq> CB_REPEAT" "CB_AUDIO_REQ \<noteq> CB_AUDIO_LAST" "CB_AUDIO_REQ \<noteq> CB_DO_PAIR" "CB_AUDIO_REQ \<noteq> CB_DO_UNPAIR"
  "CB_DO_PAIR \<noteq> CB_LED" "CB_DO_PAIR \<noteq> CB_REPEAT" "CB_DO_PAIR \<noteq> CB_AUDIO_LAST" "CB_DO_PAIR \<noteq> CB_AUDIO_REQ" "CB_DO_PAIR \<noteq> CB_DO_UNPAIR"
  "CB_DO_UNPAIR \<noteq> CB_LED" "CB_DO_UNPAIR \<noteq> CB_REPEAT" "CB_DO_UNPAIR \<noteq> CB_AUDIO_LAST" "CB_DO_UNPAIR \<noteq> CB_AUDIO_REQ" "CB_DO_UNPAIR \<noteq> CB_DO_PAIR"
  by (simp_all add: CB_LED_def CB_REPEAT_def CB_AUDIO_LAST_def CB_AUDIO_REQ_def CB_DO_PAIR_def CB_DO_UNPAIR_def)

lemma CB_rc [simp]:
  "CB_LED \<in> rc_callbacks" "CB_REPEAT \<in> rc_callbacks" "CB_AUDIO_LAST \<in> rc_callbacks" "CB_AUDIO_REQ \<in> rc_callbacks"
  "CB_DO_PAIR \<in> rc_callbacks" "CB_DO_UNPAIR \<in> rc_callbacks"
  by (simp_all add: rc_callbacks_def)

lemma running_disjoint: "r \<in> running t c \<Longrightarrow> r \<in> running t c' \<Longrightarrow> c = c'"
  by (simp add: running_def)

lemma rc_on_timer:
  assumes "app_on_timer now cb d us s = Some (r, s')" "rc_tm (tmr s)" "cb = CB_LED \<longrightarrow> 0 \<le> sint d"
  shows "\<exists>q t. r = Some q \<and> s' = s\<lparr>tmr := t\<rparr> \<and> rc_tm t \<and> running t = (running (tmr s))(cb := insert q (running (tmr s) cb))"
proof -
  obtain q t where q: "r = Some q" "s' = s\<lparr>tmr := t\<rparr>" "started_as cb q (tmr s) t" "led_args t"
    using app_on_timer_running[OF _ assms(1)] assms(2,3) unfolding rc_tm_def by blast
  then have "running t = (running (tmr s))(cb := insert q (running (tmr s) cb))"
    by (auto simp: started_as_def fun_eq_iff)
  moreover from this have "rc_tm t" using q(3,4) assms(2) by (auto simp: rc_tm_def started_as_def)
  ultimately show ?thesis using q by blast
qed

lemma rc_stopped: "rc_tm t \<Longrightarrow> stopped R t t' \<Longrightarrow> rc_tm t' \<and> running t' = (\<lambda>c. running t c - R)"
  by (auto simp: rc_tm_def stopped_def)

text \<open>Cancelling the only running timer of a callback.\<close>

lemma rc_unon_timer:
  assumes "app_unon_timer p s = Some s'" "rc_tm (tmr s)" "running (tmr s) cb = set_option p"
  shows "\<exists>t. s' = s\<lparr>tmr := t\<rparr> \<and> rc_tm t \<and> running t = (running (tmr s))(cb := {})"
proof -
  obtain t where t: "s' = s\<lparr>tmr := t\<rparr>" "stopped (set_option p) (tmr s) t"
    using app_unon_timer_running[OF _ assms(1)] assms(2) by (auto simp: rc_tm_def)
  have "running t = (\<lambda>c. running (tmr s) c - running (tmr s) cb)" "rc_tm t"
    using rc_stopped[OF assms(2) t(2)] assms(3) by simp_all
  moreover have "running (tmr s) c - running (tmr s) cb = (if c = cb then {} else running (tmr s) c)" for c
    using running_disjoint[of _ "tmr s" c cb] by auto
  ultimately have "running t = (running (tmr s))(cb := {})" by (simp add: fun_eq_iff)
  with t \<open>rc_tm t\<close> show ?thesis by blast
qed

text \<open>It does not hang.\<close>

lemma rc_unon_ex:
  assumes "rc_tm (tmr s)" "running (tmr s) cb = set_option p" "cb \<in> rc_callbacks"
  shows "\<exists>s'. app_unon_timer p s = Some s'"
proof (cases p)
  case None
  then show ?thesis by (simp add: app_unon_timer_def ev_unon_timer_def)
next
  case (Some r)
  then have "r \<in> running (tmr s) cb" using assms(2) by simp
  then have "valid_ref r" "r \<in> range EvTimer" using assms(1,3) running_ref unfolding rc_tm_def by blast+
  then obtain k where "r = EvTimer k" "k < 12" by (auto simp: valid_ref_def)
  with Some assms(1) show ?thesis by (simp add: app_unon_timer_def unon_set_timer rc_tm_def)
qed

section \<open>The invariants\<close>

definition act_ok :: "app_ledFlushInfo_t \<Rightarrow> bool" where
  "act_ok a \<longleftrightarrow> modeNum a = 0 \<or>
     a = \<lparr>onInterval = 200 * 1000, offIntervalList = [150 * 1000, 600 * 1000, 600 * 1000, 0, 0], modeNum = 3\<rparr>"

definition tm_ok :: "rc_vars \<Rightarrow> bool" where
  "tm_ok s \<longleftrightarrow> rc_tm (tmr s) \<and> act_ok (g_appLedAction s) \<and>
     running (tmr s) CB_LED = set_option (ledBlinkTimer s) \<and> running (tmr s) CB_REPEAT = set_option (configTimer s) \<and>
     running (tmr s) CB_AUDIO_LAST = set_option (audioLastTimer s) \<and>
     running (tmr s) CB_AUDIO_REQ = set_option (dataReqTimeoutCb s)"

text \<open>The order of key commands: a start only when none is open, a stop only when one is; a forced stop at any
  time. A start that the library has turned into another action is not held open.\<close>

definition key_step :: "rc_out \<Rightarrow> bool \<Rightarrow> bool option" where
  "key_step e opened = (case e of
     StartAction _ _ _ sts held \<Rightarrow> if sts \<noteq> SUCCESS then Some opened else if opened then None else Some held
   | StopAction _ \<Rightarrow> if opened then Some False else None
   | ForceStop _ \<Rightarrow> Some False
   | _ \<Rightarrow> Some opened)"

definition key_protocol :: "rc_out list \<Rightarrow> bool option" where
  "key_protocol es = foldl (\<lambda>st e. Option.bind st (key_step e)) (Some False) es"

lemma key_protocol_Nil [simp]: "key_protocol [] = Some False"
  by (simp add: key_protocol_def)

lemma key_protocol_snoc [simp]: "key_protocol (es @ [e]) = Option.bind (key_protocol es) (key_step e)"
  by (simp add: key_protocol_def)

definition key_ok :: "rc_vars \<Rightarrow> bool" where
  "key_ok s \<longleftrightarrow> (configTimer s \<noteq> None \<longrightarrow> repeat s \<and> keyCode s \<noteq> 0xff \<and> coutchCnt s \<le> 600) \<and>
     (audioLastTimer s \<noteq> None \<longrightarrow> audioCb s) \<and>
     (inRfRpt s \<longrightarrow> configTimer s \<noteq> None \<and> app_state s \<noteq> APP_SENDING_IR_STATE) \<and>
     key_protocol (outs s) = Some (inRfRpt s) \<and>
     (info_state s = APP_READY_STATE \<or> info_state s = APP_UNCONNECT_STATE)"

section \<open>What the operations keep\<close>

text \<open>An operation of \<open>AppLed\<close> changes only its own fields.\<close>

definition led_upd :: "rc_vars \<Rightarrow> rc_vars \<Rightarrow> bool" where
  "led_upd s s' \<longleftrightarrow> led_vars.more s' = led_vars.more s"

lemma led_updD:
  assumes "led_upd s s'"
  shows "configTimer s' = configTimer s" "audioLastTimer s' = audioLastTimer s" "keyPressedTime s' = keyPressedTime s"
    "coutchCnt s' = coutchCnt s" "keyCode s' = keyCode s" "repeat s' = repeat s" "appInPair s' = appInPair s"
    "inRfRpt s' = inRfRpt s" "battSta s' = battSta s" "app_state s' = app_state s" "pairingRef s' = pairingRef s"
    "info_state s' = info_state s" "lastKeyCode s' = lastKeyCode s" "audio_status s' = audio_status s"
    "dataReqTimeoutCb s' = dataReqTimeoutCb s" "audioCb s' = audioCb s" "outs s' = outs s"
    "valid_keyCode s' = valid_keyCode s"
  using assms by (cases s; cases s'; simp add: led_upd_def)+

lemma led_upd_key_ok: "led_upd s s' \<Longrightarrow> key_ok s' = key_ok s"
  by (simp add: key_ok_def led_updD)

text \<open>Only the running timers of the callbacks in \<open>C\<close> change.\<close>

definition tm_frame :: "ptr set \<Rightarrow> rc_vars \<Rightarrow> rc_vars \<Rightarrow> bool" where
  "tm_frame C s s' \<longleftrightarrow> (\<forall>c. c \<notin> C \<longrightarrow> running (tmr s') c = running (tmr s) c)"

lemma led_unon_ok:
  assumes "led_unon s = Some s'" "tm_ok s"
  shows "tm_ok s' \<and> led_upd s s' \<and> tm_frame {CB_LED} s s' \<and> ledBlinkTimer s' = None \<and> ledIdleState s' = ledIdleState s"
proof -
  obtain t where "s' = s\<lparr>tmr := t, ledBlinkTimer := None\<rparr>" "rc_tm t" "running t = (running (tmr s))(CB_LED := {})"
    using assms rc_unon_timer[of "ledBlinkTimer s" s _ CB_LED] by (fastforce simp: led_unon_def tm_ok_def)
  with assms(2) show ?thesis by (auto simp: tm_ok_def tm_frame_def led_upd_def)
qed

lemma led_pins_ok [simp]:
  "tm_ok (led_write idx b s) = tm_ok s" "led_upd s (led_write idx b s)" "tmr (led_write idx b s) = tmr s"
  "tm_ok (led_On idx s) = tm_ok s" "led_upd s (led_On idx s)" "tmr (led_On idx s) = tmr s"
  "tm_ok (led_Off idx s) = tm_ok s" "led_upd s (led_Off idx s)" "tmr (led_Off idx s) = tmr s"
  by (auto simp: led_write_def led_On_def led_Off_def tm_ok_def simp: led_upd_def)

lemma led_startSet_ok:
  assumes "led_startSet now n iv idx s = Some s'" "tm_ok s" "0 \<le> sint iv"
  shows "tm_ok s' \<and> led_upd s s' \<and> tm_frame {CB_LED} s s'"
proof -
  obtain s1 where s1: "led_unon s = Some s1" using assms(1) by (auto simp: led_startSet_def split: option.splits)
  note u = led_unon_ok[OF s1 assms(2)]
  define s2 where "s2 = (led_Off idx s1)\<lparr>ledIndex := idx AND 3, blinkTimes := 0, ledStopCnt := (if n = 0 then 0 else n * 2 - 1)\<rparr>"
  define s3 where "s3 = s2\<lparr>g_appLedAction := (g_appLedAction s2)\<lparr>modeNum := 0\<rparr>, ledStatus := False\<rparr>"
  have t3: "tmr s3 = tmr s1" by (simp add: s3_def s2_def)
  have "\<exists>r s4. app_on_timer now CB_LED iv 100 s3 = Some (r, s4) \<and> s' = s4\<lparr>ledBlinkTimer := r\<rparr>"
    using assms(1) s1 by (auto simp: led_startSet_def s3_def s2_def Let_def)
  then obtain q t where q: "s' = s3\<lparr>tmr := t, ledBlinkTimer := Some q\<rparr>" "rc_tm t"
      "running t = (running (tmr s1))(CB_LED := insert q (running (tmr s1) CB_LED))"
    using rc_on_timer[where s = s3 and now = now and cb = CB_LED and d = iv and us = 100] u assms(3)
    by (auto simp: t3 tm_ok_def)
  have "led_upd s s'" using u q(1) by (auto simp: s3_def s2_def led_Off_def led_write_def led_upd_def)
  have "tm_ok s'"
    using u q led_updD[OF \<open>led_upd s s'\<close>] led_updD[of s s1] assms(2)
    by (simp add: tm_ok_def act_ok_def s3_def s2_def)
  with \<open>led_upd s s'\<close> show ?thesis using u q by (simp add: tm_frame_def)
qed

lemma led_stopAll_ok:
  assumes "led_stopAll idx s = Some s'" "tm_ok s"
  shows "tm_ok s' \<and> led_upd s s' \<and> tm_frame {CB_LED} s s'"
proof -
  obtain s1 where s1: "led_unon s = Some s1" "s' = (led_write idx False (s1\<lparr>ledStatus := False\<rparr>))\<lparr>ledStopCnt := 1, blinkTimes := 0\<rparr>"
    using assms(1) by (auto simp: led_stopAll_def split: option.splits)
  with led_unon_ok[OF s1(1) assms(2)] show ?thesis
    by (simp add: led_write_def tm_ok_def tm_frame_def led_upd_def)
qed

text \<open>What an operation that does not start a pairing leaves alone.\<close>

fun pair_request :: "rc_out \<Rightarrow> u8 list" where
  "pair_request (StartPair x) = [x]"
| "pair_request _ = []"

text \<open>The requests to pair, with their statuses.\<close>

definition requests :: "rc_out list \<Rightarrow> u8 list" where
  "requests es = concat (map pair_request es)"

lemma requests_simps [simp]:
  "requests [] = []" "requests (e # es) = pair_request e @ requests es" "requests (es @ es') = requests es @ requests es'"
  by (simp_all add: requests_def)

definition calm :: "rc_vars \<Rightarrow> rc_vars \<Rightarrow> bool" where
  "calm s s' \<longleftrightarrow> (app_state s' = APP_PRE_PAIRING_STATE \<longrightarrow> app_state s = APP_PRE_PAIRING_STATE \<and> keyPressedTime s' = keyPressedTime s) \<and>
     requests (outs s') = requests (outs s) \<and>
     running (tmr s') CB_DO_PAIR \<subseteq> running (tmr s) CB_DO_PAIR"

definition good :: "rc_vars \<Rightarrow> bool" where "good s \<longleftrightarrow> tm_ok s \<and> key_ok s"

lemma calm_refl [simp]: "calm s s" by (simp add: calm_def)

lemma calm_trans [trans]: "calm s s' \<Longrightarrow> calm s' s'' \<Longrightarrow> calm s s''" by (fastforce simp: calm_def)

lemma led_upd_calm: "led_upd s s' \<Longrightarrow> tm_frame {CB_LED} s s' \<Longrightarrow> calm s s'"
  by (simp add: calm_def tm_frame_def led_updD)

lemma led_startSet_good:
  "led_startSet now n iv idx s = Some s' \<Longrightarrow> good s \<Longrightarrow> 0 \<le> sint iv \<Longrightarrow> good s' \<and> calm s s' \<and> led_upd s s'"
  using led_startSet_ok[of now n iv idx s s'] led_upd_calm[of s s'] by (auto simp: good_def led_upd_key_ok)

lemma led_stopAll_good:
  "led_stopAll idx s = Some s' \<Longrightarrow> good s \<Longrightarrow> good s' \<and> calm s s' \<and> led_upd s s'"
  using led_stopAll_ok[of idx s s'] led_upd_calm[of s s'] by (auto simp: good_def led_upd_key_ok)

lemma good_led [simp]:
  "good (led_On idx s) = good s" "good (led_Off idx s) = good s"
  using led_upd_key_ok[of s "led_On idx s"] led_upd_key_ok[of s "led_Off idx s"] by (simp_all add: good_def)

lemma calm_led [simp]: "calm s (led_On idx s)" "calm s (led_Off idx s)"
  by (rule led_upd_calm; simp add: tm_frame_def)+

lemma calm_led_right [simp]: "calm (led_On idx s) s' = calm s s'" "calm (led_Off idx s) s' = calm s s'"
  using led_updD[of s "led_On idx s"] led_updD[of s "led_Off idx s"] by (simp_all add: calm_def)

text \<open>The repeat timer.\<close>

lemma unon_config_ok:
  assumes "unon_config s = Some s'" "tm_ok s"
  shows "\<exists>t. s' = s\<lparr>tmr := t, configTimer := None\<rparr> \<and> rc_tm t \<and> running t = (running (tmr s))(CB_REPEAT := {})"
  using assms rc_unon_timer[of "configTimer s" s _ CB_REPEAT] by (fastforce simp: unon_config_def tm_ok_def)

lemma app_start_ok:
  assumes "app_startSendRepeateDataTimer g rpt s = Some s'" "tm_ok s"
  shows "\<exists>q t. s' = s\<lparr>tmr := t, configTimer := Some q, coutchCnt := ucast (30 * 1000 * 1000 div rpt)\<rparr> \<and> tm_ok s' \<and> tm_frame {CB_REPEAT} s s'"
proof -
  obtain s1 r s2 where s1: "unon_config s = Some s1" "app_on_timer (clk g) CB_REPEAT NULL rpt s1 = Some (r, s2)"
      "s' = s2\<lparr>configTimer := r, coutchCnt := ucast (30 * 1000 * 1000 div rpt)\<rparr>"
    using assms(1) by (auto simp: app_startSendRepeateDataTimer_def bind_eq_Some_conv)
  obtain t1 where t1: "s1 = s\<lparr>tmr := t1, configTimer := None\<rparr>" "rc_tm t1" "running t1 = (running (tmr s))(CB_REPEAT := {})"
    using unon_config_ok[OF s1(1) assms(2)] by blast
  obtain q t where "r = Some q" "s2 = s1\<lparr>tmr := t\<rparr>" "rc_tm t" "running t = (running t1)(CB_REPEAT := insert q (running t1 CB_REPEAT))"
    using rc_on_timer[OF s1(2)] t1 by auto
  with t1 s1(3) assms(2) show ?thesis by (auto simp: tm_ok_def tm_frame_def)
qed

lemma app_stop_ok:
  assumes "app_stopSendRepeateDataTimer s = Some s'" "tm_ok s"
  shows "\<exists>t. s' = s\<lparr>tmr := t, configTimer := None, repeat := False, inRfRpt := False,
      outs := outs s @ (if inRfRpt s then [StopAction (pairingRef s)] else []) @ [Suspend 20]\<rparr> \<and>
    tm_ok s' \<and> tm_frame {CB_REPEAT} s s'"
proof -
  obtain s1 where s1: "unon_config s = Some s1" "s' = out (Suspend 20) ((if inRfRpt s1
      then (profile_stopSendRFKeyCmd (pairingRef s1) s1)\<lparr>inRfRpt := False\<rparr> else s1)\<lparr>repeat := False\<rparr>)"
    using assms(1) by (auto simp: app_stopSendRepeateDataTimer_def bind_eq_Some_conv Let_def)
  obtain t1 where "s1 = s\<lparr>tmr := t1, configTimer := None\<rparr>" "rc_tm t1" "running t1 = (running (tmr s))(CB_REPEAT := {})"
    using unon_config_ok[OF s1(1) assms(2)] by blast
  with s1(2) assms(2) show ?thesis
    by (intro exI[of _ t1]) (auto simp: tm_ok_def tm_frame_def out_def profile_stopSendRFKeyCmd_def intro!: rc_vars.equality)
qed

lemma app_stop_good:
  assumes "app_stopSendRepeateDataTimer s = Some s'" "good s"
  shows "good s' \<and> calm s s' \<and> configTimer s' = None \<and> \<not> repeat s' \<and> \<not> inRfRpt s' \<and> app_state s' = app_state s \<and>
    info_state s' = info_state s \<and> pairingRef s' = pairingRef s"
proof -
  obtain t where "s' = s\<lparr>tmr := t, configTimer := None, repeat := False, inRfRpt := False,
      outs := outs s @ (if inRfRpt s then [StopAction (pairingRef s)] else []) @ [Suspend 20]\<rparr>" "tm_ok s'" "tm_frame {CB_REPEAT} s s'"
    using app_stop_ok[OF assms(1)] assms(2) by (auto simp: good_def)
  moreover have "key_protocol (outs s @ (if inRfRpt s then [StopAction (pairingRef s)] else []) @ [Suspend 20]) = Some False"
    using assms(2) by (auto simp: good_def key_ok_def key_step_def simp flip: append_assoc)
  ultimately show ?thesis using assms(2) by (auto simp: good_def key_ok_def calm_def tm_frame_def)
qed

section \<open>Fields the invariants do not read\<close>

lemma good_fields [simp]:
  "good (s\<lparr>allowedDeep := x_allowedDeep\<rparr>) = good s"
  "good (s\<lparr>lastKey := x_lastKey\<rparr>) = good s"
  "good (s\<lparr>lastKeyCode := x_lastKeyCode\<rparr>) = good s"
  "good (s\<lparr>valid_keyCode := x_valid_keyCode\<rparr>) = good s"
  "good (s\<lparr>appInPair := x_appInPair\<rparr>) = good s"
  "good (s\<lparr>battSta := x_battSta\<rparr>) = good s"
  "good (s\<lparr>audio_status := x_audio_status\<rparr>) = good s"
  "good (s\<lparr>channelNum := x_channelNum\<rparr>) = good s"
  "good (s\<lparr>scanDuration := x_scanDuration\<rparr>) = good s"
  "good (s\<lparr>uapi_pairingRef := x_uapi_pairingRef\<rparr>) = good s"
  "good (s\<lparr>dataReqRetries := x_dataReqRetries\<rparr>) = good s"
  "good (s\<lparr>sys_active_event_time := x_sys_active_event_time\<rparr>) = good s"
  "good (s\<lparr>pairingRef := x_pairingRef\<rparr>) = good s"
  "good (s\<lparr>keyPressedTime := x_keyPressedTime\<rparr>) = good s"
  by (simp_all add: good_def tm_ok_def key_ok_def)

lemma calm_fields [simp]:
  "calm r (s\<lparr>allowedDeep := x_allowedDeep\<rparr>) = calm r s"
  "calm r (s\<lparr>lastKey := x_lastKey\<rparr>) = calm r s"
  "calm r (s\<lparr>lastKeyCode := x_lastKeyCode\<rparr>) = calm r s"
  "calm r (s\<lparr>valid_keyCode := x_valid_keyCode\<rparr>) = calm r s"
  "calm r (s\<lparr>appInPair := x_appInPair\<rparr>) = calm r s"
  "calm r (s\<lparr>battSta := x_battSta\<rparr>) = calm r s"
  "calm r (s\<lparr>audio_status := x_audio_status\<rparr>) = calm r s"
  "calm r (s\<lparr>channelNum := x_channelNum\<rparr>) = calm r s"
  "calm r (s\<lparr>scanDuration := x_scanDuration\<rparr>) = calm r s"
  "calm r (s\<lparr>uapi_pairingRef := x_uapi_pairingRef\<rparr>) = calm r s"
  "calm r (s\<lparr>dataReqRetries := x_dataReqRetries\<rparr>) = calm r s"
  "calm r (s\<lparr>sys_active_event_time := x_sys_active_event_time\<rparr>) = calm r s"
  "calm r (s\<lparr>pairingRef := x_pairingRef\<rparr>) = calm r s"
  by (simp_all add: calm_def)

lemma calm_fields_left [simp]:
  "calm (s\<lparr>allowedDeep := x_allowedDeep\<rparr>) r = calm s r"
  "calm (s\<lparr>lastKey := x_lastKey\<rparr>) r = calm s r"
  "calm (s\<lparr>lastKeyCode := x_lastKeyCode\<rparr>) r = calm s r"
  "calm (s\<lparr>valid_keyCode := x_valid_keyCode\<rparr>) r = calm s r"
  "calm (s\<lparr>appInPair := x_appInPair\<rparr>) r = calm s r"
  "calm (s\<lparr>battSta := x_battSta\<rparr>) r = calm s r"
  "calm (s\<lparr>audio_status := x_audio_status\<rparr>) r = calm s r"
  "calm (s\<lparr>channelNum := x_channelNum\<rparr>) r = calm s r"
  "calm (s\<lparr>scanDuration := x_scanDuration\<rparr>) r = calm s r"
  "calm (s\<lparr>uapi_pairingRef := x_uapi_pairingRef\<rparr>) r = calm s r"
  "calm (s\<lparr>dataReqRetries := x_dataReqRetries\<rparr>) r = calm s r"
  "calm (s\<lparr>sys_active_event_time := x_sys_active_event_time\<rparr>) r = calm s r"
  "calm (s\<lparr>pairingRef := x_pairingRef\<rparr>) r = calm s r"
  by (simp_all add: calm_def)

text \<open>Outputs that are neither key commands nor requests to pair.\<close>

definition neutral :: "rc_out \<Rightarrow> bool" where
  "neutral e \<longleftrightarrow> (\<forall>b. key_step e b = Some b) \<and> pair_request e = []"

lemma neutral_simps [simp]:
  "neutral (ValidCode r t k)" "neutral (IrSend a c b)" "neutral (QsIrStart b)" "neutral QsIrStop" "neutral (MacRxOn v)"
  "neutral (MacChannel v)" "neutral (SetFrameCounter n)" "neutral (UnpairReq r)" "neutral SaveStack" "neutral (SaveAppInfo r t)"
  "neutral NvReset" "neutral BoundInfoSave" "neutral (AudioStartReq x y)" "neutral AudioStopReq" "neutral RecStart"
  "neutral RecStop" "neutral AudioTxReset" "neutral (OtaStart r)" "neutral OtaReboot" "neutral (Suspend n)" "neutral (WakeLevels b)"
  by (simp_all add: neutral_def key_step_def)

lemma good_out [simp]: "neutral e \<Longrightarrow> good (out e s) = good s"
  by (cases "key_protocol (outs s)") (auto simp: good_def tm_ok_def key_ok_def out_def neutral_def)

lemma calm_out [simp]: "neutral e \<Longrightarrow> calm r (out e s) = calm r s" "neutral e \<Longrightarrow> calm (out e s) r = calm s r"
  by (auto simp: calm_def out_def neutral_def)

lemma out_fields [simp]:
  "tmr (out e s) = tmr s" "configTimer (out e s) = configTimer s" "audioLastTimer (out e s) = audioLastTimer s"
  "dataReqTimeoutCb (out e s) = dataReqTimeoutCb s" "audioCb (out e s) = audioCb s" "app_state (out e s) = app_state s"
  "info_state (out e s) = info_state s" "pairingRef (out e s) = pairingRef s" "repeat (out e s) = repeat s"
  "inRfRpt (out e s) = inRfRpt s" "keyCode (out e s) = keyCode s" "audio_status (out e s) = audio_status s"
  "lastKeyCode (out e s) = lastKeyCode s" "coutchCnt (out e s) = coutchCnt s" "keyPressedTime (out e s) = keyPressedTime s"
  "battSta (out e s) = battSta s" "appInPair (out e s) = appInPair s" "ledBlinkTimer (out e s) = ledBlinkTimer s"
  "ledIdleState (out e s) = ledIdleState s" "outs (out e s) = outs s @ [e]" "valid_keyCode (out e s) = valid_keyCode s"
  "dataReqRetries (out e s) = dataReqRetries s" "g_appLedAction (out e s) = g_appLedAction s"
  by (simp_all add: out_def)

lemma good_info: "good s \<Longrightarrow> info_state s = APP_READY_STATE \<or> info_state s = APP_UNCONNECT_STATE"
  by (simp add: good_def key_ok_def)

lemma good_setState: "good s \<Longrightarrow> st \<noteq> APP_SENDING_IR_STATE \<Longrightarrow> good (app_setState st s)"
  by (auto simp: good_def tm_ok_def key_ok_def app_setState_def)

lemma calm_setState: "st \<noteq> APP_PRE_PAIRING_STATE \<Longrightarrow> calm s (app_setState st s)"
  by (auto simp: calm_def app_setState_def)

lemma good_restore: "good s \<Longrightarrow> good (app_restoreState s) \<and> calm s (app_restoreState s)"
  using good_info[of s] by (auto simp: app_restoreState_def good_setState calm_setState)

lemma setState_fields [simp]:
  "tmr (app_setState st s) = tmr s" "configTimer (app_setState st s) = configTimer s" "audioLastTimer (app_setState st s) = audioLastTimer s"
  "dataReqTimeoutCb (app_setState st s) = dataReqTimeoutCb s" "audioCb (app_setState st s) = audioCb s" "app_state (app_setState st s) = st"
  "info_state (app_setState st s) = info_state s" "pairingRef (app_setState st s) = pairingRef s" "repeat (app_setState st s) = repeat s"
  "inRfRpt (app_setState st s) = inRfRpt s" "keyCode (app_setState st s) = keyCode s" "audio_status (app_setState st s) = audio_status s"
  "outs (app_setState st s) = outs s" "lastKeyCode (app_setState st s) = lastKeyCode s" "battSta (app_setState st s) = battSta s"
  "coutchCnt (app_setState st s) = coutchCnt s" "appInPair (app_setState st s) = appInPair s" "ledIdleState (app_setState st s) = ledIdleState s"
  by (simp_all add: app_setState_def)

section \<open>Voice\<close>

lemma unon_audio_ok:
  assumes "unon_audio s = Some s'" "good s"
  shows "\<exists>t. s' = s\<lparr>tmr := t, audioLastTimer := None\<rparr> \<and> good s' \<and> running t = (running (tmr s))(CB_AUDIO_LAST := {})"
proof -
  obtain t where "s' = s\<lparr>tmr := t, audioLastTimer := None\<rparr>" "rc_tm t" "running t = (running (tmr s))(CB_AUDIO_LAST := {})"
    using assms rc_unon_timer[of "audioLastTimer s" s _ CB_AUDIO_LAST] by (fastforce simp: unon_audio_def good_def tm_ok_def)
  with assms(2) show ?thesis by (auto simp: good_def tm_ok_def key_ok_def)
qed

lemma audio_set_good:
  assumes "audio_stateSettingCb g st sts s = Some s'" "good s" "audioCb s"
  shows "good s' \<and> calm s s' \<and> (\<forall>c. c \<noteq> CB_AUDIO_LAST \<longrightarrow> running (tmr s') c = running (tmr s) c) \<and>
    dataReqTimeoutCb s' = dataReqTimeoutCb s \<and> audioCb s' \<and> (st = AUDIO_IDLE \<longrightarrow> running (tmr s') CB_AUDIO_LAST = {})"
proof (cases "st = AUDIO_OPENED \<and> sts = TL_AUDIO_STA_START")
  case True
  obtain s1 r s2 where s1: "unon_audio (led_On 1 (app_setState APP_AUDIO_STATE s)) = Some s1"
      "app_on_timer (clk g) CB_AUDIO_LAST NULL (60 * 1000 * 1000) s1 = Some (r, s2)" "s' = s2\<lparr>audioLastTimer := r\<rparr>"
    using assms(1) True by (auto simp: audio_stateSettingCb_def bind_eq_Some_conv)
  let ?s = "led_On 1 (app_setState APP_AUDIO_STATE s)"
  have g: "good ?s" using assms(2) by (simp add: good_setState)
  have c: "calm s ?s" using calm_trans[OF calm_setState calm_led(1)] by simp
  obtain t1 where t1: "s1 = ?s\<lparr>tmr := t1, audioLastTimer := None\<rparr>" "good s1" "running t1 = (running (tmr s))(CB_AUDIO_LAST := {})"
    using unon_audio_ok[OF s1(1) g] by auto
  obtain q t where q: "r = Some q" "s2 = s1\<lparr>tmr := t\<rparr>" "rc_tm t" "running t = (running t1)(CB_AUDIO_LAST := insert q (running t1 CB_AUDIO_LAST))"
    using rc_on_timer[OF s1(2)] t1 by (auto simp: good_def tm_ok_def)
  have "good s'" using t1 q s1(3) assms(3) by (auto simp: good_def tm_ok_def key_ok_def led_On_def led_write_def)
  moreover have "calm s s'" using c t1 q s1(3) by (auto simp: calm_def)
  ultimately show ?thesis using t1 q s1(3) assms(3) True by (auto simp: led_On_def led_write_def)
next
  case False
  show ?thesis
  proof (cases "st = AUDIO_IDLE")
    case True
    let ?s = "out AudioTxReset (led_Off 1 (app_restoreState s))"
    have u: "unon_audio ?s = Some s'" using assms(1) True by (simp add: audio_stateSettingCb_def)
    have g: "good ?s" using good_restore[OF assms(2)] by simp
    have c: "calm s ?s" using calm_trans[OF conjunct2[OF good_restore[OF assms(2)]] calm_led(2)] by simp
    obtain t1 where t1: "s' = ?s\<lparr>tmr := t1, audioLastTimer := None\<rparr>" "good s'" "running t1 = (running (tmr s))(CB_AUDIO_LAST := {})"
      using unon_audio_ok[OF u g] by (auto simp: app_restoreState_def)
    have "calm s s'" using c t1 by (auto simp: calm_def)
    with t1 assms(3) show ?thesis by (simp add: led_Off_def led_write_def app_restoreState_def)
  next
    case f: False
    with False assms show ?thesis by (auto simp: audio_stateSettingCb_def)
  qed
qed

lemma rec_good [simp]:
  "good (audio_recTaskStop s) = good s" "calm r (audio_recTaskStop s) = calm r s"
  "good (audio_recTaskStart s) = good s" "calm r (audio_recTaskStart s) = calm r s"
  "audioCb (audio_recTaskStop s) = audioCb s" "audioCb (audio_recTaskStart s) = audioCb s" "tmr (audio_recTaskStop s) = tmr s"
  "tmr (audio_recTaskStart s) = tmr s"
  by (simp_all add: audio_recTaskStop_def audio_recTaskStart_def)

lemma tl_audio_stop_good:
  assumes "tl_audio_stop g s = Some s'" "good s"
  shows "good s' \<and> calm s s' \<and> (audioCb s \<longrightarrow> running (tmr s') CB_AUDIO_LAST = {}) \<and>
    (\<forall>c. c \<noteq> CB_AUDIO_LAST \<longrightarrow> running (tmr s') c = running (tmr s) c)"
proof -
  define s1 where "s1 = out AudioStopReq (out (MacRxOn 1) (audio_recTaskStop s))"
  have s1: "good s1" "calm s s1" "audioCb s1 = audioCb s" "tmr s1 = tmr s" using assms(2) by (simp_all add: s1_def)
  show ?thesis
  proof (cases "audioCb s")
    case True
    with assms(1) have "audio_stateSettingCb g AUDIO_IDLE TL_AUDIO_STA_STOP s1 = Some s'"
      by (simp add: tl_audio_stop_def s1_def)
    with audio_set_good[OF this] s1 True show ?thesis by (auto intro: calm_trans)
  next
    case False
    with assms(1) s1 show ?thesis by (simp add: tl_audio_stop_def s1_def)
  qed
qed

lemma good_audioCb: "good s \<Longrightarrow> good (s\<lparr>audioCb := True\<rparr>)" "calm s r \<Longrightarrow> calm s (r\<lparr>audioCb := True\<rparr>)"
  by (auto simp: good_def tm_ok_def key_ok_def calm_def)

lemma app_audioStart_good:
  assumes "app_audioStart g n d s = Some s'" "good s"
  shows "good s' \<and> calm s s'"
proof (cases "dataReqTimeoutCb s = None")
  case True
  define s1 where "s1 = (out (AudioStartReq n d) ((out (MacRxOn 1) s)\<lparr>uapi_pairingRef := 0, audioCb := True, channelNum := n, scanDuration := d\<rparr>))
    \<lparr>dataReqRetries := 5\<rparr>"
  have s1: "good s1" "calm s s1"
    using assms(2) by (simp_all add: s1_def good_audioCb)
  obtain r s2 where s2: "app_on_timer (clk g) CB_AUDIO_REQ NULL (200 * 1000) s1 = Some (r, s2)" "s' = s2\<lparr>dataReqTimeoutCb := r\<rparr>"
    using assms(1) True by (auto simp: app_audioStart_def bind_eq_Some_conv s1_def)
  obtain q t where q: "r = Some q" "s2 = s1\<lparr>tmr := t\<rparr>" "rc_tm t" "running t = (running (tmr s1))(CB_AUDIO_REQ := insert q (running (tmr s1) CB_AUDIO_REQ))"
    using rc_on_timer[OF s2(1)] s1 by (auto simp: good_def tm_ok_def)
  have "dataReqTimeoutCb s1 = None" using True by (simp add: s1_def)
  then have "good s'" using s1 q s2(2) by (auto simp: good_def tm_ok_def key_ok_def)
  moreover have "calm s s'" using s1(2) q s2(2) by (auto simp: calm_def)
  ultimately show ?thesis by simp
next
  case False
  with assms show ?thesis by (auto simp: app_audioStart_def)
qed

lemma audio_startRsp_good:
  assumes "audio_startRsp g ch s = Some s'" "good s"
  shows "good s' \<and> calm s s'"
proof -
  obtain s1 where s1: "app_unon_timer (dataReqTimeoutCb s) s = Some s1" using assms(1) by (auto simp: audio_startRsp_def bind_eq_Some_conv)
  obtain t where t: "s1 = s\<lparr>tmr := t\<rparr>" "rc_tm t" "running t = (running (tmr s))(CB_AUDIO_REQ := {})"
    using rc_unon_timer[OF s1, of CB_AUDIO_REQ] assms(2) by (auto simp: good_def tm_ok_def)
  define s2 where "s2 = audio_recTaskStart (out (MacChannel ch) (s\<lparr>tmr := t, dataReqTimeoutCb := None\<rparr>))"
  have "good (s\<lparr>tmr := t, dataReqTimeoutCb := None\<rparr>)" "calm s (s\<lparr>tmr := t, dataReqTimeoutCb := None\<rparr>)"
    using assms(2) t by (auto simp: good_def tm_ok_def key_ok_def calm_def)
  then have s2: "good s2" "calm s s2" "audioCb s2 = audioCb s" by (simp_all add: s2_def)
  have "(if audioCb s2 then audio_stateSettingCb g AUDIO_OPENED TL_AUDIO_STA_START s2 else Some s2) = Some s'"
    using assms(1) s1 t(1) by (simp add: audio_startRsp_def s2_def Let_def split: if_splits)
  with s2 show ?thesis using audio_set_good[of g AUDIO_OPENED TL_AUDIO_STA_START s2 s'] by (auto split: if_splits intro: calm_trans)
qed

section \<open>Keys\<close>

lemma app_startOta_good:
  assumes "app_startOta g s = Some s'" "good s"
  shows "good s' \<and> calm s s'"
proof (cases "pairingRef s \<noteq> RF4CE_INVALID_PAIR_REF \<and> tx_sts g = 0 \<and> checkBatteryBeforeSaveFlash BAT_THRESHOLD_OTA s")
  case True
  then obtain s1 where s1: "led_startSet (clk g) 0 (2 * 1000 * 1000) 1 s = Some s1"
      "s' = out (OtaStart (pairingRef s1)) (out (MacRxOn 1) (app_setState APP_OTA_STATE s1))"
    using assms(1) by (auto simp: app_startOta_def bind_eq_Some_conv)
  with led_startSet_good[OF s1(1) assms(2)] calm_trans[OF _ calm_setState[of APP_OTA_STATE s1]] show ?thesis
    by (auto simp: good_setState)
next
  case False
  with assms good_restore[of "s\<lparr>allowedDeep := True\<rparr>"] show ?thesis by (auto simp: app_startOta_def)
qed

lemma app_otaStateCb_good:
  assumes "app_otaStateCb g ok s = Some s'" "good s"
  shows "good s' \<and> calm s s'"
proof -
  obtain s1 where s1: "(if ok then Some (out OtaReboot s) else led_startSet (clk g) 3 (100 * 1000) 1 s) = Some s1"
      "s' = out (MacRxOn 0) (app_setState APP_READY_STATE s1)"
    using assms(1) by (auto simp: app_otaStateCb_def bind_eq_Some_conv)
  have "good s1 \<and> calm s s1"
    using s1(1) led_startSet_good[of "clk g" 3 "100 * 1000" 1 s s1] assms(2) by (auto split: if_splits)
  with s1(2) calm_trans[OF _ calm_setState[of APP_READY_STATE s1]] show ?thesis by (auto simp: good_setState)
qed

text \<open>Sending a key: only when no key is being repeated.\<close>

lemma good_idle: "good s \<Longrightarrow> \<not> repeat s \<Longrightarrow> configTimer s = None \<and> \<not> inRfRpt s"
  by (auto simp: good_def key_ok_def)

lemma app_sendRFData_good:
  assumes "app_sendRFData g key s = Some (r, s')" "good s" "key \<noteq> 0xff"
  shows "good s' \<and> calm s s'"
proof (cases "repeat s")
  case True
  with assms show ?thesis by (simp add: app_sendRFData_def)
next
  case False
  note idle = good_idle[OF assms(2) False]
  define s1 where "s1 = s\<lparr>inRfRpt := False, keyCode := key\<rparr>"
  have send: "app_sendRFKeyCmd g key s1 = Some (r, s')" using assms(1) False by (simp add: app_sendRFData_def s1_def)
  have s1: "good s1" "calm s s1" using assms(2) idle by (auto simp: s1_def good_def tm_ok_def key_ok_def calm_def)
  consider (other) "s' = s1 \<or> s' = out (ValidCode (pairingRef s1) (0x04 OR 0x08) key) s1"
    | (atomic) "s' = out (StartAction (pairingRef s1) (0x04 OR 0x08) key SUCCESS False) s1"
    | (fail) "action_sts g \<noteq> SUCCESS" "s' = (out (StartAction (pairingRef s1) (0x04 OR 0x08) key (action_sts g) (action_start g)) s1)\<lparr>repeat := False\<rparr>"
    | (ok) s2 where "app_state s = APP_READY_STATE" "action_sts g = SUCCESS" "app_startSendRepeateDataTimer g 50000
        ((out (StartAction (pairingRef s1) (0x04 OR 0x08) key SUCCESS True) s1)\<lparr>repeat := True, allowedDeep := False, inRfRpt := True, repeat := True\<rparr>) = Some s2"
        "s' = out (Suspend 55) s2"
  proof (cases "action_start g")
    case True
    with send other fail ok show thesis
      by (fastforce simp: app_sendRFKeyCmd_def profile_sendValidationKey_def profile_startSendRFKeyCmd_def s1_def Let_def
          bind_eq_Some_conv split: if_splits)
  next
    case no: False
    have "\<not> repeat (out e s1)" for e using False by (simp add: s1_def out_def)
    with no send other fail atomic show thesis
      by (fastforce simp: app_sendRFKeyCmd_def profile_sendValidationKey_def profile_startSendRFKeyCmd_def Let_def
          bind_eq_Some_conv split: if_splits)
  qed
  then show ?thesis
  proof cases
    case other
    with s1 show ?thesis by auto
  next
    case atomic
    have "good s'" using s1(1) idle atomic by (auto simp: good_def tm_ok_def key_ok_def key_step_def s1_def)
    moreover have "calm s s'" using s1(2) atomic by (auto simp: calm_def out_def)
    ultimately show ?thesis by simp
  next
    case fail
    have "good s'" using s1(1) idle fail by (auto simp: good_def tm_ok_def key_ok_def key_step_def s1_def)
    moreover have "calm s s'" using s1(2) fail by (auto simp: calm_def)
    ultimately show ?thesis by simp
  next
    case ok
    define s0 where "s0 = (out (StartAction (pairingRef s1) (0x04 OR 0x08) key SUCCESS True) s1)\<lparr>repeat := True, allowedDeep := False, inRfRpt := True, repeat := True\<rparr>"
    have tm: "tm_ok s0" using s1(1) by (simp add: s0_def good_def tm_ok_def)
    obtain q t where q: "s2 = s0\<lparr>tmr := t, configTimer := Some q, coutchCnt := ucast (30 * 1000 * 1000 div 50000 :: u32)\<rparr>" "tm_ok s2" "tm_frame {CB_REPEAT} s0 s2"
      using app_start_ok[OF ok(3)[folded s0_def] tm] by blast
    have "key_ok s2" using s1(1) assms(3) idle ok(1) unfolding q(1)
      by (simp add: key_ok_def good_def s0_def s1_def key_step_def)
    moreover have "calm s s2" using s1(2) q(1,3) by (auto simp: calm_def tm_frame_def s0_def s1_def)
    ultimately show ?thesis using q(2) ok(4) by (simp add: good_def[of s2] flip: good_def)
  qed
qed

lemma sendDtv_fields [simp]:
  "good (app_sendDtvIrCmd k b s) = good s" "calm r (app_sendDtvIrCmd k b s) = calm r s"
  "tm_ok (app_sendDtvIrCmd k b s) = tm_ok s" "coutchCnt (app_sendDtvIrCmd k b s) = coutchCnt s"
  "configTimer (app_sendDtvIrCmd k b s) = configTimer s"
  by (auto simp: app_sendDtvIrCmd_def tm_ok_def split: option.split)

lemma app_sendIRData_good:
  assumes "app_sendIRData g key b s = Some (r, s')" "good s" "key \<noteq> 0xff" "\<not> b"
  shows "good s' \<and> calm s s'"
proof (cases "app_state s = APP_VERIFY_PAIR_STATE \<or> repeat s \<or> app_isSendingIR g s")
  case True
  with assms show ?thesis by (auto simp: app_sendIRData_def)
next
  case False
  have idle: "configTimer s = None \<and> \<not> inRfRpt s" using good_idle[OF assms(2)] False by simp
  define s1 where "s1 = (app_setState APP_SENDING_IR_STATE (out (MacRxOn 0) (s\<lparr>inRfRpt := False, keyCode := key\<rparr>)))\<lparr>repeat := True\<rparr>"
  have "\<not> ir_busy g" using False by (simp add: app_isSendingIR_def)
  then obtain s2 where s2: "app_startSendRepeateDataTimer g 150000 s1 = Some s2" "s' = app_sendDtvIrCmd key False s2"
    using assms(1,4) False by (auto simp: app_sendIRData_def bind_eq_Some_conv s1_def Let_def)
  have tm: "tm_ok s1" using assms(2) by (simp add: s1_def good_def tm_ok_def app_setState_def)
  obtain q t where q: "s2 = s1\<lparr>tmr := t, configTimer := Some q, coutchCnt := ucast (30 * 1000 * 1000 div 150000 :: u32)\<rparr>" "tm_ok s2" "tm_frame {CB_REPEAT} s1 s2"
    using app_start_ok[OF s2(1) tm] by blast
  have "key_ok s2" using assms(2,3) idle unfolding q(1)
    by (simp add: key_ok_def good_def s1_def key_step_def)
  moreover have "calm s s2" using q(1,3) by (auto simp: calm_def tm_frame_def s1_def)
  moreover have "good s2" using \<open>key_ok s2\<close> q(2) by (simp add: good_def)
  ultimately show ?thesis using s2(2) by simp
qed

lemma qs_stop_good [simp]: "good (qs_stop g s) = good s" "calm r (qs_stop g s) = calm r s"
  by (simp_all add: qs_stop_def)

lemma press_key_good:
  assumes "press_key_handler g key valid s = Some s'" "good s"
  shows "good s' \<and> calm s s'"
proof -
  obtain s1 where s1: "(if key = 0xff \<or> key \<noteq> valid then app_stopSendRepeateDataTimer s else Some s) = Some s1"
    using assms(1) by (auto simp: press_key_handler_def bind_eq_Some_conv)
  have g1: "good s1 \<and> calm s s1" using s1 app_stop_good[of s s1] assms(2) by (auto split: if_splits)
  show ?thesis
  proof (cases "key = 0xff")
    case True
    with assms(1) s1 g1 show ?thesis by (simp add: press_key_handler_def)
  next
    case key: False
    obtain s2 where s2: "(if battSta s1 \<ge> BAT_THRESHOLD_WARNING then led_startSet (clk g) 3 (50 * 1000) 1 s1
        else led_startSet (clk g) 1 (150 * 1000) 1 s1) = Some s2"
      using assms(1) s1 key by (auto simp: press_key_handler_def bind_eq_Some_conv)
    have g2: "good s2 \<and> calm s s2"
      using s2 led_startSet_good[of "clk g" 3 "50 * 1000" 1 s1 s2] led_startSet_good[of "clk g" 1 "150 * 1000" 1 s1 s2] g1
      by (auto split: if_splits intro: calm_trans)
    have rest: "(if pairingRef s2 \<noteq> RF4CE_INVALID_PAIR_REF then
              (if app_state s2 = APP_READY_STATE then
                 (if key = VK_RECORED then
                    (if audio_status s2 = AUDIO_OPENED then tl_audio_stop g s2 else app_audioStart g 3 10 s2)
                  else if audio_status s2 \<noteq> AUDIO_OPENED then
                    (if key = VK_TV then app_startOta g s2 else map_option snd (app_sendRFData g key s2))
                  else Some s2)
               else Some s2)
            else if key = VK_NUM_0 then Some (out (QsIrStart False) s2)
            else if key = VK_NUM_1 then Some (out (QsIrStart True) s2)
            else map_option snd (app_sendIRData g key False s2)) = Some s'"
      using assms(1) s1 s2 key by (simp add: press_key_handler_def)
    have "good s' \<and> calm s2 s'"
      using rest g2 key app_sendRFData_good[of g key s2 _ s'] app_sendIRData_good[of g key False s2 _ s']
        tl_audio_stop_good[of g s2 s'] app_audioStart_good[of g 3 10 s2 s'] app_startOta_good[of g s2 s']
      by (auto split: if_splits)
    with g2 show ?thesis by (blast intro: calm_trans)
  qed
qed

lemma key_released_good:
  assumes "keyScan_keyReleasedCB g key s = Some s'" "good s"
  shows "good s' \<and> calm s s'"
proof (cases "app_isNormalState s \<or> app_state s = APP_SENDING_IR_STATE")
  case True
  define s1 where "s1 = app_restoreState ((out (Suspend 20) s)\<lparr>allowedDeep := True\<rparr>)"
  obtain s2 where s2: "app_stopSendRepeateDataTimer s1 = Some s2" "s' = release_key_handler g (s2\<lparr>repeat := False\<rparr>)"
    using assms(1) True by (auto simp: keyScan_keyReleasedCB_def bind_eq_Some_conv s1_def)
  have "good s1 \<and> calm s s1"
    using good_restore[of "(out (Suspend 20) s)\<lparr>allowedDeep := True\<rparr>"] assms(2) by (simp add: s1_def)
  with app_stop_good[OF s2(1)] have "good s2" "calm s s2" "s2\<lparr>repeat := False\<rparr> = s2" by (auto intro: calm_trans)
  then show ?thesis by (simp add: s2(2) release_key_handler_def)
next
  case False
  with assms good_restore[OF assms(2)] show ?thesis by (auto simp: keyScan_keyReleasedCB_def split: if_splits)
qed

text \<open>A key press is calm unless it is the home key alone, which enters the pairing hold.\<close>

definition hold_start :: "rc_env \<Rightarrow> rc_event \<Rightarrow> rc_vars \<Rightarrow> bool" where
  "hold_start g ev s' \<longleftrightarrow> (\<exists>codes. ev = Key 1 codes \<and> codes ! 0 = VK_HOMEKEY) \<and> keyPressedTime s' = clk g"

lemma rc_start_other:
  assumes "app_on_timer now cb d us s = Some (r, s')" "good s" "cb = CB_DO_UNPAIR \<or> cb = CB_DO_PAIR"
  shows "good s' \<and> (cb = CB_DO_UNPAIR \<longrightarrow> calm s s') \<and> app_state s' = app_state s \<and> outs s' = outs s \<and>
    (\<forall>c. running (tmr s) c \<subseteq> running (tmr s') c)"
proof -
  obtain q t where q: "s' = s\<lparr>tmr := t\<rparr>" "rc_tm t" "running t = (running (tmr s))(cb := insert q (running (tmr s) cb))"
    using rc_on_timer[OF assms(1)] assms(2,3) by (auto simp: good_def tm_ok_def)
  have "good s'" using assms(2,3) q by (auto simp: good_def tm_ok_def key_ok_def)
  with q show ?thesis by (auto simp: calm_def)
qed

definition hold_begins :: "rc_env \<Rightarrow> nat \<Rightarrow> u8 list \<Rightarrow> rc_vars \<Rightarrow> rc_vars \<Rightarrow> bool" where
  "hold_begins g cnt codes s s' \<longleftrightarrow> cnt = 1 \<and> codes ! 0 = VK_HOMEKEY \<and> keyPressedTime s' = clk g \<and> calm s (app_setState 0 s')"

lemma key_pressed_good:
  assumes "keyScan_keyPressedCB g cnt codes s = Some s'" "good s" "cnt \<noteq> 0" "cnt \<le> length codes" "0xff \<notin> set codes"
  shows "good s' \<and> (calm s s' \<or> hold_begins g cnt codes s s')"
proof (cases "battSta s > BAT_LEVEL_CUTOFF")
  case True
  with assms(1,2) show ?thesis by (auto simp: keyScan_keyPressedCB_def)
next
  case bat: False
  define key where "key = (if cnt \<ge> 2 then 0xff else codes ! 0)"
  show ?thesis
  proof (cases "app_isNormalState s \<or> app_state s = APP_SENDING_IR_STATE")
    case normal: True
    obtain s1 where s1: "press_key_handler g key (lastKeyCode s) s = Some s1"
      using assms(1) bat normal by (auto simp: keyScan_keyPressedCB_def bind_eq_Some_conv key_def Let_def split: if_splits)
    define s2 where "s2 = s1\<lparr>lastKeyCode := key\<rparr>"
    have g2: "good s2" "calm s s2" using press_key_good[OF s1 assms(2)] by (simp_all add: s2_def)
    show ?thesis
    proof (cases "key = VK_HOMEKEY")
      case True
      obtain s3 where s3: "app_stopSendRepeateDataTimer (app_restoreState s2) = Some s3"
        "s' = (app_setState APP_PRE_PAIRING_STATE ((release_key_handler g s3)\<lparr>keyPressedTime := clk g\<rparr>))\<lparr>allowedDeep := False\<rparr>"
        using assms(1) bat normal True s1
        by (auto simp: keyScan_keyPressedCB_def bind_eq_Some_conv key_def[symmetric] Let_def s2_def)
      have g3: "good s3" "calm s s3"
        using app_stop_good[OF s3(1)] good_restore[OF g2(1)] g2(2) by (auto intro: calm_trans)
      have "good s'" using g3(1) by (simp add: s3(2) good_setState release_key_handler_def)
      moreover have "calm s (app_setState 0 s')"
        using g3(2) by (auto simp: s3(2) calm_def app_setState_def release_key_handler_def qs_stop_def)
      moreover have "cnt = 1 \<and> codes ! 0 = VK_HOMEKEY"
        using True assms(3) by (auto simp: key_def split: if_splits)
      ultimately show ?thesis by (simp add: hold_begins_def s3(2) app_setState_def)
    next
      case key: False
      have "s' = s2 \<or> (\<exists>r. app_on_timer (clk g) CB_DO_UNPAIR NULL (5 * 100 * 1000) s2 = Some (r, s'))"
        using assms(1) bat normal key s1
        by (auto simp: keyScan_keyPressedCB_def bind_eq_Some_conv key_def[symmetric] Let_def s2_def split: if_splits)
      then show ?thesis
        using g2 rc_start_other[of "clk g" CB_DO_UNPAIR NULL "5 * 100 * 1000" s2 _ s'] by (auto intro: calm_trans)
    qed
  next
    case normal: False
    consider (audio) s1 where "app_state s = APP_AUDIO_STATE" "(if key = VK_RECORED then tl_audio_stop g s else Some s) = Some s1"
        "s' = s1\<lparr>lastKeyCode := key\<rparr>"
      | (valid) "app_state s = APP_CHECK_VALIDATION_STATE" "(if key \<ge> VK_NUM_0 \<and> key \<le> VK_NUM_9 then map_option snd (app_sendRFData g key s) else Some s) = Some s'"
      | (none) "s' = s"
      using assms(1) bat normal
      by (auto simp: keyScan_keyPressedCB_def bind_eq_Some_conv key_def[symmetric] Let_def split: if_splits)
    then show ?thesis
    proof cases
      case audio
      with tl_audio_stop_good[of g s s1] assms(2) show ?thesis by (auto split: if_splits)
    next
      case valid
      have "key \<noteq> 0xff" if "key \<le> VK_NUM_9" using that by auto
      with valid app_sendRFData_good[of g key s _ s'] assms(2) show ?thesis by (auto split: if_splits)
    next
      case none
      with assms(2) show ?thesis by simp
    qed
  qed
qed

lemma hold_begins_tail:
  "hold_begins g n codes s (out (WakeLevels b) r) = hold_begins g n codes s r"
  "hold_begins g n codes s (r\<lparr>valid_keyCode := k\<rparr>) = hold_begins g n codes s r"
  by (auto simp: hold_begins_def app_setState_def calm_def)

lemma key_event_good:
  assumes "user_keyEventHandle g cnt codes s = Some s'" "good s" "cnt \<le> length codes" "0xff \<notin> set codes"
  shows "good s' \<and> (calm s s' \<or> hold_begins g cnt codes s s') \<and> (cnt = 0 \<longrightarrow> app_state s' \<noteq> APP_PRE_PAIRING_STATE)"
proof -
  define s1 where "s1 = (out (Suspend 20) s)\<lparr>sys_active_event_time := clk g\<rparr>"
  have s1: "good s1" "\<And>r. calm s1 r = calm s r" using assms(2) by (simp_all add: s1_def)
  show ?thesis
  proof (cases "cnt = 0")
    case False
    then obtain s2 where "keyScan_keyPressedCB g cnt codes s1 = Some s2"
        "s' = out (WakeLevels False) (if cnt = 1 then s2\<lparr>valid_keyCode := codes ! 0\<rparr> else s2)"
      using assms(1) by (auto simp: user_keyEventHandle_def bind_eq_Some_conv s1_def)
    moreover have "hold_begins g cnt codes s1 r = hold_begins g cnt codes s r" for r by (simp add: hold_begins_def s1)
    ultimately show ?thesis
      using key_pressed_good[of g cnt codes s1 s2] s1 False assms(3,4) by (simp add: hold_begins_tail split: if_splits)
  next
    case True
    then obtain s2 where s2: "keyScan_keyReleasedCB g (valid_keyCode s1) s1 = Some s2"
        "s' = out (WakeLevels True) (s2\<lparr>valid_keyCode := 0xff\<rparr>)"
      using assms(1) by (auto simp: user_keyEventHandle_def bind_eq_Some_conv s1_def)
    have "app_state s2 \<noteq> APP_PRE_PAIRING_STATE"
    proof
      assume a: "app_state s2 = APP_PRE_PAIRING_STATE"
      with key_released_good[OF s2(1) s1(1)] have "app_state s1 = APP_PRE_PAIRING_STATE" by (simp add: calm_def)
      with s2(1) have "s2 = (app_restoreState s1)\<lparr>allowedDeep := True\<rparr>"
        by (simp add: keyScan_keyReleasedCB_def app_isNormalState_def)
      with a good_info[OF s1(1)] show False by (auto simp: app_restoreState_def)
    qed
    with s2 key_released_good[OF s2(1) s1(1)] s1 show ?thesis by simp
  qed
qed

section \<open>Pairing\<close>

text \<open>All that a callback may do to the pairing hold.\<close>

definition hold_kept :: "rc_vars \<Rightarrow> rc_vars \<Rightarrow> bool" where
  "hold_kept s s' \<longleftrightarrow> (app_state s' = APP_PRE_PAIRING_STATE \<longrightarrow> app_state s = APP_PRE_PAIRING_STATE \<and> keyPressedTime s' = keyPressedTime s)"

lemma calm_hold: "calm s s' \<Longrightarrow> hold_kept s s'" by (simp add: calm_def hold_kept_def)

lemma tm_frame_running: "tm_frame {CB_LED} s s' \<Longrightarrow> c \<noteq> CB_LED \<Longrightarrow> running (tmr s') c = running (tmr s) c"
  by (simp add: tm_frame_def)

lemma good_act: "good s \<Longrightarrow> act_ok a \<Longrightarrow> good (s\<lparr>g_appLedAction := a\<rparr>)"
  by (simp add: good_def tm_ok_def key_ok_def)

lemma Led_startSpecial_good:
  assumes "Led_startSpecial now n a idx s = Some s'" "good s" "0 \<le> sint (offIntervalList a ! 0)" "act_ok a"
  shows "good s' \<and> tm_frame {CB_LED} s s' \<and> led_upd s s'"
proof -
  obtain s1 where s1: "led_startSet now n (offIntervalList a ! 0) idx s = Some s1" "s' = s1\<lparr>g_appLedAction := a\<rparr>"
    using assms(1) by (auto simp: Led_startSpecial_def)
  have "good s1" "tm_frame {CB_LED} s s1" "led_upd s s1"
    using led_startSet_good[OF s1(1) assms(2,3)] led_startSet_ok[OF s1(1) _ assms(3)] assms(2) by (auto simp: good_def)
  with s1(2) good_act[OF _ assms(4), of s1] show ?thesis by (auto simp: tm_frame_def led_upd_def)
qed

lemma StartPair_out: "good s \<Longrightarrow> good (out (StartPair x) s)"
  by (cases "key_protocol (outs s)") (auto simp: good_def tm_ok_def key_ok_def key_step_def)

text \<open>At most one request, with a retry timer only if it failed.\<close>

definition pair_done :: "rc_env \<Rightarrow> rc_vars \<Rightarrow> rc_vars \<Rightarrow> bool" where
  "pair_done g s s' \<longleftrightarrow>
     requests (outs s') = requests (outs s) \<and> running (tmr s') CB_DO_PAIR = running (tmr s) CB_DO_PAIR \<or>
     requests (outs s') = requests (outs s) @ [pair_sts g] \<and>
       (pair_sts g = SUCCESS \<longrightarrow> running (tmr s') CB_DO_PAIR = running (tmr s) CB_DO_PAIR)"

lemma zrc_doPair_good:
  assumes "zrc_doPair g s = Some (t, s')" "good s"
  shows "good s' \<and> t = -1 \<and> hold_kept s s' \<and> running (tmr s) CB_DO_PAIR \<subseteq> running (tmr s') CB_DO_PAIR \<and>
    pair_done g s s'"
proof -
  consider (low) "led_startSet (clk g) 4 (100 * 1000) 1 ((app_restoreState s)\<lparr>allowedDeep := True\<rparr>) = Some s'" "t = -1"
    | (no) "s' = s" "t = -1"
    | (fail) r where "pair_sts g \<noteq> SUCCESS"
        "app_on_timer (clk g) CB_DO_PAIR NULL 1 (out (StartPair (pair_sts g)) (out (MacRxOn 1) s)) = Some (r, s')" "t = -1"
    | (ok) "Led_startSpecial (clk g) 0
         \<lparr>onInterval = 200 * 1000, offIntervalList = [150 * 1000, 600 * 1000, 600 * 1000, 0, 0], modeNum = 3\<rparr> 1
         ((app_setState APP_PAIRING_STATE (out (StartPair (pair_sts g)) (out (MacRxOn 1) s)))\<lparr>appInPair := True, allowedDeep := False\<rparr>) = Some s'" "t = -1"
    using assms(1) by (auto simp: zrc_doPair_def bind_eq_Some_conv Let_def split: if_splits)
  then show ?thesis
  proof cases
    case low
    have r: "good ((app_restoreState s)\<lparr>allowedDeep := True\<rparr>)" "calm s ((app_restoreState s)\<lparr>allowedDeep := True\<rparr>)"
      using good_restore[OF assms(2)] by simp_all
    have "tm_frame {CB_LED} ((app_restoreState s)\<lparr>allowedDeep := True\<rparr>) s'"
      using led_startSet_ok[OF low(1)] r(1) by (simp add: good_def)
    moreover have "led_upd ((app_restoreState s)\<lparr>allowedDeep := True\<rparr>) s'"
      using led_startSet_good[OF low(1) r(1)] by simp
    then have "outs s' = outs s" using led_updD[of "(app_restoreState s)\<lparr>allowedDeep := True\<rparr>" s']
      by (simp add: app_restoreState_def app_setState_def)
    ultimately show ?thesis using led_startSet_good[OF low(1) r(1)] r(2) low(2)
      by (auto simp: pair_done_def tm_frame_running app_restoreState_def intro: calm_hold calm_trans)
  next
    case no
    with assms(2) show ?thesis by (simp add: hold_kept_def pair_done_def)
  next
    case fail
    have "good (out (StartPair (pair_sts g)) (out (MacRxOn 1) s))" using StartPair_out assms(2) by simp
    from rc_start_other[OF fail(2) this] fail(3) have "good s' \<and> t = -1 \<and> app_state s' = app_state s \<and> running (tmr s) CB_DO_PAIR \<subseteq> running (tmr s') CB_DO_PAIR"
      by simp
    moreover have "keyPressedTime s' = keyPressedTime s" "requests (outs s') = requests (outs s) @ [pair_sts g]"
      using fail(2) by (auto simp: app_on_timer_def out_def)
    ultimately show ?thesis using fail(1) by (simp add: hold_kept_def pair_done_def)
  next
    case ok
    let ?s = "(app_setState APP_PAIRING_STATE (out (StartPair (pair_sts g)) (out (MacRxOn 1) s)))\<lparr>appInPair := True, allowedDeep := False\<rparr>"
    have "good ?s" using StartPair_out assms(2) by (simp add: good_setState)
    from Led_startSpecial_good[OF ok(1) this] have l: "good s'" "tm_frame {CB_LED} ?s s'" "led_upd ?s s'" by (simp_all add: act_ok_def)
    moreover have "outs s' = outs s @ [MacRxOn 1, StartPair (pair_sts g)]" using led_updD[OF l(3)] by (simp add: out_def app_setState_def)
    ultimately show ?thesis
      using ok(2) tm_frame_running[OF l(2), of CB_DO_PAIR] led_updD(10)[OF l(3)] by (simp add: hold_kept_def pair_done_def app_setState_def)
  qed
qed

lemma nv_info_ok: "env_ok g \<Longrightarrow> nv_info g = Some (r, st) \<Longrightarrow> st = APP_READY_STATE \<or> st = APP_UNCONNECT_STATE"
  by (simp add: env_ok_def)

lemma save_good [simp]:
  "good (save_appInfo g s) = good s" "calm r (save_appInfo g s) = calm r s"
  "good (zrc_saveStackInfo s) = good s" "calm r (zrc_saveStackInfo s) = calm r s"
  by (simp_all add: save_appInfo_def zrc_saveStackInfo_def Let_def)

lemma good_info_state:
  "good s \<Longrightarrow> st = APP_READY_STATE \<or> st = APP_UNCONNECT_STATE \<Longrightarrow> good (s\<lparr>info_state := st\<rparr>)"
  "calm r (s\<lparr>info_state := st\<rparr>) = calm r s"
  by (auto simp: good_def tm_ok_def key_ok_def calm_def)

lemma zrc_unPairCnfCb_good:
  assumes "zrc_unPairCnfCb g s = Some s'" "good s"
  shows "good s' \<and> calm s s'"
proof -
  define s1 where "s1 = (app_setState APP_UNCONNECT_STATE s)\<lparr>pairingRef := RF4CE_INVALID_PAIR_REF, info_state := APP_UNCONNECT_STATE\<rparr>"
  define s2 where "s2 = (if checkBatteryBeforeSaveFlash BAT_THRESHOLD_FLASH s1 then save_appInfo g (zrc_saveStackInfo s1) else s1)"
  obtain s3 where s3: "led_startBind g (if checkBatteryBeforeSaveFlash BAT_THRESHOLD_FLASH s1 then 2 else 4) s2 = Some s3"
      "s' = s3\<lparr>allowedDeep := True\<rparr>"
    using assms(1) unfolding zrc_unPairCnfCb_def Let_def s1_def[symmetric] s2_def[symmetric] by auto
  have s1: "good s1" "calm s s1" using assms(2) by (simp_all add: s1_def good_info_state good_setState calm_setState)
  then have s2: "good s2" "calm s s2" by (simp_all add: s2_def)
  from s3(1) have "led_startSet (clk g) (ucast (if checkBatteryBeforeSaveFlash BAT_THRESHOLD_FLASH s1 then 2 else 4 :: u32)) (100 * 1000) 1 s2 = Some s3"
    by (simp add: led_startBind_def)
  from led_startSet_good[OF this s2(1)] s2(2) s3(2) show ?thesis by (auto intro: calm_trans)
qed

lemma zrc_cmdSendCb_good:
  assumes "zrc_cmdSendCb st k s = Some s'" "good s"
  shows "good s' \<and> calm s s'"
proof -
  define s1 where "s1 = (if st = RF4CE_NWK_FRAME_COUNTER_EXPIRED then snd (zrc_doUnpair (out (SetFrameCounter 1) s)) else s)"
  have s1: "good s1" "calm s s1" using assms(2) by (simp_all add: s1_def zrc_doUnpair_def)
  show ?thesis
  proof (cases "st \<noteq> SUCCESS \<and> repeat s1 \<and> k")
    case True
    define s2 where "s2 = (out (ForceStop (pairingRef s1)) (app_restoreState s1))\<lparr>allowedDeep := True, inRfRpt := False\<rparr>"
    obtain s3 where s3: "app_stopSendRepeateDataTimer s2 = Some s3" "s' = s3\<lparr>repeat := False\<rparr>"
      using assms(1) True by (auto simp: zrc_cmdSendCb_def Let_def s1_def[symmetric] s2_def)
    have r: "good (app_restoreState s1)" "calm s (app_restoreState s1)"
      using good_restore[OF s1(1)] s1(2) by (auto intro: calm_trans)
    then have "good s2" by (auto simp: s2_def good_def tm_ok_def key_ok_def key_step_def)
    moreover have "calm s s2" using r(2) by (auto simp: s2_def calm_def)
    ultimately have "good s3" "calm s s3" "s' = s3" using app_stop_good[OF s3(1)] s3(2) by (auto intro: calm_trans)
    then show ?thesis by simp
  next
    case False
    with assms(1) s1 show ?thesis by (auto simp: zrc_cmdSendCb_def Let_def s1_def[symmetric])
  qed
qed

lemma good_nv: "good s \<Longrightarrow> env_ok g \<Longrightarrow>
  good (case nv_info g of Some (r, st) \<Rightarrow> s\<lparr>pairingRef := r, info_state := st\<rparr> | None \<Rightarrow> s) \<and>
  calm s (case nv_info g of Some (r, st) \<Rightarrow> s\<lparr>pairingRef := r, info_state := st\<rparr> | None \<Rightarrow> s)"
  by (auto simp: good_info_state dest: nv_info_ok split: option.split)

lemma zrc_bondCnfCb_good:
  assumes "zrc_bondCnfCb g ref st s = Some s'" "good s" "env_ok g"
  shows "good s' \<and> calm s s'"
proof -
  define s1 where "s1 = (out (MacRxOn 0) s)\<lparr>appInPair := False\<rparr>"
  define sleep where "sleep = (\<lambda>s :: rc_vars. if \<not> ledIdleState s then s\<lparr>allowedDeep := True\<rparr> else s)"
  define save where "save = (\<lambda>s. led_Off 1 (if checkBatteryBeforeSaveFlash BAT_THRESHOLD_FLASH s then save_appInfo g (zrc_saveStackInfo s) else s))"
  define up where "up = app_setState APP_READY_STATE (s1\<lparr>pairingRef := ref, info_state := APP_READY_STATE\<rparr>)"
  define again where "again = (case nv_info g of Some (r, st) \<Rightarrow> up\<lparr>pairingRef := r, info_state := st\<rparr> | None \<Rightarrow> up)"
  define down where "down = app_setState APP_UNCONNECT_STATE (s1\<lparr>pairingRef := RF4CE_INVALID_PAIR_REF, info_state := APP_UNCONNECT_STATE\<rparr>)"
  have h: "good (save x) = good x" "calm r (save x) = calm r x" "good (sleep x) = good x" "calm r (sleep x) = calm r x" for x r
    using calm_trans[of r x "led_Off 1 x"]
    by (auto simp: save_def sleep_def) (auto simp: calm_def led_Off_def led_write_def save_appInfo_def zrc_saveStackInfo_def Let_def split: if_splits)
  have s1: "good s1" "calm s s1" using assms(2) by (simp_all add: s1_def)
  have states: "good up" "calm s up" "good down" "calm s down"
    using s1 calm_trans[OF s1(2) calm_setState] by (auto simp: up_def down_def good_info_state good_setState s1_def intro!: calm_trans[OF _ calm_setState])
  have again: "good again" "calm s again" using good_nv[OF states(1) assms(3)] states(2) by (auto simp: again_def intro: calm_trans)
  have off: "good (led_Off 1 again)" "calm s (led_Off 1 again)" using again calm_led(2)[of again 1] by (auto intro: calm_trans)
  consider (a) x where "led_startBind g 3 up = Some x" "s' = save x"
    | (b) x where "led_stopAll 1 (led_Off 1 again) = Some x" "s' = sleep x"
    | (c) x where "led_stopAll 1 down = Some x" "s' = save (sleep x)"
    using assms(1) unfolding zrc_bondCnfCb_def Let_def s1_def[symmetric] sleep_def[symmetric] save_def[symmetric] up_def[symmetric]
      again_def[symmetric] down_def[symmetric]
    by (auto split: if_splits)
  then show ?thesis
  proof cases
    case a
    have "led_startSet (clk g) (ucast (3 :: u32)) (100 * 1000) 1 up = Some x" using a(1) by (simp add: led_startBind_def)
    from led_startSet_good[OF this states(1)] a(2) states(2) show ?thesis by (auto simp: h intro: calm_trans)
  next
    case b
    from led_stopAll_good[OF b(1) off(1)] b(2) off(2) show ?thesis by (auto simp: h intro: calm_trans)
  next
    case c
    from led_stopAll_good[OF c(1) states(3)] c(2) states(4) show ?thesis by (auto simp: h intro: calm_trans)
  qed
qed

section \<open>Timers\<close>

lemma running_keep:
  assumes "timers_ok t" "valid_ref r" "0 \<le> ret"
  shows "running (set_timer t r (after_callback us now ret (get_timer t r))) c = running t c"
    "led_args t \<Longrightarrow> led_args (set_timer t r (after_callback us now ret (get_timer t r)))"
  using assms get_set_timer[OF assms(1,2)]
  by (auto simp: running_def led_args_def after_callback_def split: if_splits)

lemma good_again:
  assumes "good s" "valid_ref r" "0 \<le> ret"
  shows "good (s\<lparr>tmr := set_timer (tmr s) r (after_callback us now ret (get_timer (tmr s) r))\<rparr>)"
proof -
  have ok: "timers_ok (tmr s)" using assms(1) by (simp add: good_def tm_ok_def rc_tm_def)
  have "timers_ok (set_timer (tmr s) r (after_callback us now ret (get_timer (tmr s) r)))"
    using set_timer_ok[OF ok] get_timer_ok[OF ok assms(2)] by simp
  with assms(1) running_keep[OF ok assms(2,3)] show ?thesis by (simp add: good_def tm_ok_def rc_tm_def key_ok_def)
qed

text \<open>After a negative result the entry is cancelled; the pointers must no longer refer to it.\<close>

lemma running_end:
  assumes "rc_tm t" "valid_ref r" "ret < 0"
  shows "rc_tm (set_timer t r (after_callback us now ret (get_timer t r)))"
    "running (set_timer t r (after_callback us now ret (get_timer t r))) c = running t c - {r}"
proof -
  have "stopped {r} t (set_timer t r (after_callback us now ret (get_timer t r)))"
    using stopped_set_timer[of t r "cancel_timer (get_timer t r)"] assms
    by (simp add: rc_tm_def after_callback_def) (simp add: cancel_timer_def)
  with rc_stopped[OF assms(1)] show "rc_tm (set_timer t r (after_callback us now ret (get_timer t r)))"
    "running (set_timer t r (after_callback us now ret (get_timer t r))) c = running t c - {r}" by simp_all
qed

definition fired :: "rc_env \<Rightarrow> timer_ref \<Rightarrow> int \<Rightarrow> rc_vars \<Rightarrow> rc_vars" where
  "fired g r t s = s\<lparr>tmr := set_timer (tmr s) r (after_callback (ticks_us (tmr s)) (clk g) t (get_timer (tmr s) r))\<rparr>"

lemma fired_good:
  assumes "good s" "valid_ref r" "0 \<le> t"
  shows "good (fired g r t s)" "calm s (fired g r t s)"
proof -
  have ok: "timers_ok (tmr s)" using assms(1) by (simp add: good_def tm_ok_def rc_tm_def)
  show "good (fired g r t s)" unfolding fired_def by (rule good_again[OF assms])
  show "calm s (fired g r t s)" using running_keep(1)[OF ok assms(2,3)] by (simp add: fired_def calm_def)
qed

lemma fired_end:
  assumes "rc_tm (tmr s)" "act_ok (g_appLedAction s)" "key_ok s" "valid_ref r" "t < 0"
    "running (tmr s) CB_LED - {r} = set_option (ledBlinkTimer s)" "running (tmr s) CB_REPEAT - {r} = set_option (configTimer s)"
    "running (tmr s) CB_AUDIO_LAST - {r} = set_option (audioLastTimer s)"
    "running (tmr s) CB_AUDIO_REQ - {r} = set_option (dataReqTimeoutCb s)"
  shows "good (fired g r t s)" "calm s (fired g r t s)"
  using assms(2,3,6-9) running_end[OF assms(1,4,5)]
  by (auto simp: good_def tm_ok_def fired_def key_ok_def calm_def)

lemma led_cb:
  assumes "led_BlinkTimerCB d s = (t, s1)" "act_ok (g_appLedAction s)" "0 \<le> sint d"
  shows "led_upd s s1 \<and> tmr s1 = tmr s \<and> g_appLedAction s1 = g_appLedAction s \<and>
    (t = -1 \<and> ledBlinkTimer s1 = None \<or> 0 \<le> t \<and> ledBlinkTimer s1 = ledBlinkTimer s)"
proof -
  have off: "0 \<le> sint (off_interval \<lparr>onInterval = 200000, offIntervalList = [150000, 600000, 600000, 0, 0], modeNum = 3\<rparr> (off_index b 3))" for b :: u8
  proof -
    have "off_index b 3 \<in> {-1, 0, 1, 2}"
    proof (cases "uint b = 0")
      case True
      then show ?thesis by (simp add: off_index_def)
    next
      case False
      then have "0 \<le> (uint b - 1) div 2" using uint_ge_0[of b] by linarith
      then have "off_index b 3 = (uint b - 1) div 2 mod 3" by (simp add: off_index_def Let_def not_less)
      moreover have "k mod 3 = 0 \<or> k mod 3 = 1 \<or> k mod 3 = 2" for k :: int by presburger
      ultimately show ?thesis by auto
    qed
    then show ?thesis by (auto simp: off_interval_def)
  qed
  show ?thesis
    using assms off
    by (auto simp: led_BlinkTimerCB_def Let_def led_write_def led_upd_def act_ok_def split: if_splits)
qed

lemma repeat_cb:
  assumes "app_sendRepeateDataTimerCb g s = Some (t, s1)" "good s" "configTimer s \<noteq> None"
  shows "good s1 \<and> calm s s1 \<and> (t = 0 \<or> t = -1 \<and> configTimer s1 = None \<and> tm_frame {CB_REPEAT} s s1)"
proof -
  have k: "repeat s" "keyCode s \<noteq> 0xff" using assms(2,3) by (auto simp: good_def key_ok_def)
  define s0 where "s0 = (if app_state s = APP_SENDING_IR_STATE then app_sendDtvIrCmd (keyCode s) True s else s)"
  define s2 where "s2 = s0\<lparr>allowedDeep := False, coutchCnt := coutchCnt s0 - 1\<rparr>"
  have s0: "good s0" "calm s s0" "configTimer s0 = configTimer s" "tmr s0 = tmr s"
    using assms(2) by (auto simp: s0_def) (auto simp: app_sendDtvIrCmd_def split: option.split)
  have c2: "calm s s2" using s0(2) by (simp add: s2_def calm_def)
  have r: "(if coutchCnt s0 = 0 then
       do { s3 \<leftarrow> app_stopSendRepeateDataTimer s2;
            Some (-1, qs_stop g (out (WakeLevels False) ((app_restoreState (s3\<lparr>allowedDeep := True\<rparr>))\<lparr>repeat := False, configTimer := None\<rparr>))) }
     else Some (0, s2)) = Some (t, s1)"
    using assms(1) k by (simp add: app_sendRepeateDataTimerCb_def Let_def s0_def s2_def split: if_splits)
  show ?thesis
  proof (cases "coutchCnt s0 = 0")
    case False
    then have t: "t = 0" "s1 = s2" using r by simp_all
    have "coutchCnt s0 - 1 \<le> 600" if "coutchCnt s0 \<le> 600"
      using that False by (simp add: word_le_nat_alt unat_minus_one)
    then have "good s1" using s0(1) t by (auto simp: s2_def good_def tm_ok_def key_ok_def)
    with t c2 show ?thesis by simp
  next
    case True
    then obtain s3 where s3: "app_stopSendRepeateDataTimer s2 = Some s3" "t = -1"
      "s1 = qs_stop g (out (WakeLevels False) ((app_restoreState (s3\<lparr>allowedDeep := True\<rparr>))\<lparr>repeat := False, configTimer := None\<rparr>))"
      using r by (auto simp: bind_eq_Some_conv)
    have tm2: "tm_ok s2" using s0(1) by (simp add: s2_def good_def tm_ok_def)
    obtain t' where t': "s3 = s2\<lparr>tmr := t', configTimer := None, repeat := False, inRfRpt := False,
      outs := outs s2 @ (if inRfRpt s2 then [StopAction (pairingRef s2)] else []) @ [Suspend 20]\<rparr>" "tm_ok s3" "tm_frame {CB_REPEAT} s2 s3"
      using app_stop_ok[OF s3(1) tm2] by blast
    have p: "key_protocol (outs s2 @ (if inRfRpt s2 then [StopAction (pairingRef s2)] else []) @ [Suspend 20]) = Some False"
      using s0(1) by (auto simp: s2_def good_def key_ok_def key_step_def simp flip: append_assoc)
    have "key_ok s3" using s0(1) p t'(1) by (auto simp: s2_def good_def key_ok_def)
    then have g3: "good s3" "calm s s3" using t' c2 by (auto simp: good_def calm_def tm_frame_def)
    define s4 where "s4 = app_restoreState (s3\<lparr>allowedDeep := True\<rparr>)"
    have g4: "good s4" "calm s s4" using good_restore[of "s3\<lparr>allowedDeep := True\<rparr>"] g3 by (auto simp: s4_def intro: calm_trans)
    have "s4\<lparr>repeat := False, configTimer := None\<rparr> = s4" by (simp add: s4_def app_restoreState_def app_setState_def t'(1))
    then have e: "s1 = qs_stop g (out (WakeLevels False) s4)" by (simp add: s3(3) s4_def)
    have "tm_frame {CB_REPEAT} s s1" "configTimer s1 = None"
      using t' s0(4) by (auto simp: e s4_def app_restoreState_def qs_stop_def tm_frame_def s2_def)
    with g4 s3(2) show ?thesis by (simp add: e)
  qed
qed


lemma audio_req_cb:
  assumes "audioStartReqTimeout g s = Some (t, s1)" "good s"
  shows "t = 0 \<and> good s1 \<and> calm s s1 \<or>
    t = -1 \<and> (\<exists>s2. s1 = out (MacRxOn 0) (s2\<lparr>dataReqTimeoutCb := None\<rparr>) \<and> good s2 \<and> calm s s2 \<and>
       running (tmr s2) CB_AUDIO_REQ = running (tmr s) CB_AUDIO_REQ)"
proof (cases "dataReqRetries s = 0")
  case False
  then have "t = 0" "s1 = out (AudioStartReq (channelNum s) (scanDuration s)) (s\<lparr>dataReqRetries := dataReqRetries s - 1\<rparr>)"
    using assms(1) by (simp_all add: audioStartReqTimeout_def Let_def)
  with assms(2) show ?thesis by simp
next
  case True
  let ?s = "s\<lparr>dataReqRetries := 0 - 1\<rparr>"
  obtain s2 where s2: "(if audioCb s then audio_stateSettingCb g AUDIO_IDLE TL_AUDIO_STA_TIMEOUT ?s else Some ?s) = Some s2"
      "t = -1" "s1 = out (MacRxOn 0) (s2\<lparr>dataReqTimeoutCb := None\<rparr>)"
    using assms(1) True by (auto simp: audioStartReqTimeout_def Let_def bind_eq_Some_conv)
  have "good s2 \<and> calm s s2 \<and> running (tmr s2) CB_AUDIO_REQ = running (tmr s) CB_AUDIO_REQ"
  proof (cases "audioCb s")
    case a: True
    then have "audio_stateSettingCb g AUDIO_IDLE TL_AUDIO_STA_TIMEOUT ?s = Some s2" using s2(1) by simp
    from audio_set_good[OF this] assms(2) a show ?thesis by simp
  next
    case False
    then have "s2 = ?s" using s2(1) by simp
    with assms(2) show ?thesis by simp
  qed
  with s2 show ?thesis by blast
qed

text \<open>The effect of one fired timer on the invariants and on the pairing hold.\<close>

definition pair_traced :: "rc_vars \<Rightarrow> rc_vars \<Rightarrow> bool" where
  "pair_traced s s' \<longleftrightarrow> (running (tmr s') CB_DO_PAIR \<noteq> {} \<longrightarrow> running (tmr s) CB_DO_PAIR \<noteq> {}) \<and>
     (\<exists>ys. requests (outs s') = requests (outs s) @ ys)"

lemma calm_pair: "calm s s' \<Longrightarrow> hold_kept s s' \<and> pair_traced s s'"
  by (auto simp: calm_def hold_kept_def pair_traced_def)

text \<open>What a step other than an idle pass may add to the requests: a retry, from its timer.\<close>

definition pair_step :: "rc_event \<Rightarrow> rc_vars \<Rightarrow> rc_vars \<Rightarrow> bool" where
  "pair_step ev s s' \<longleftrightarrow> pair_traced s s' \<and>
     (requests (outs s') = requests (outs s) \<or> (\<exists>r. ev = Fire r \<and> r \<in> running (tmr s) CB_DO_PAIR))"

lemma calm_step: "calm s s' \<Longrightarrow> hold_kept s s' \<and> pair_step ev s s'"
  using calm_pair[of s s'] by (simp add: pair_step_def calm_def)

lemma good_ends:
  assumes "good s1" "valid_ref r" "t < 0" "r \<in> running (tmr s1) cb \<or> (\<forall>c. r \<notin> running (tmr s1) c)"
    "cb \<notin> {CB_LED, CB_REPEAT, CB_AUDIO_LAST, CB_AUDIO_REQ} \<or> (\<forall>c. r \<notin> running (tmr s1) c)"
  shows "good (fired g r t s1) \<and> calm s1 (fired g r t s1)"
proof -
  have "running (tmr s1) c - {r} = running (tmr s1) c" if "c \<in> {CB_LED, CB_REPEAT, CB_AUDIO_LAST, CB_AUDIO_REQ}" for c
    using assms(4,5) running_disjoint[of r "tmr s1" c cb] that by blast
  then show ?thesis
    using fired_end[of s1 r t g] assms(1-3) by (simp add: good_def tm_ok_def)
qed

lemma rc_fire_good:
  assumes "rc_fire g r s = Some s'" "good s"
  shows "good s' \<and> hold_kept s s' \<and> pair_step (Fire r) s s'"
proof -
  define cb where "cb = te_cb (get_timer (tmr s) r)"
  define d where "d = te_data (get_timer (tmr s) r)"
  have v: "valid_ref r" and du: "due (clk g) (tmr s) r" using assms(1) by (auto simp: rc_fire_def split: if_splits)
  obtain t s1 where s1: "rc_callback g cb d s = Some (t, s1)" "s' = fired g r t s1"
    using assms(1) v du by (auto simp: rc_fire_def bind_eq_Some_conv fired_def cb_def d_def)
  have run: "r \<in> running (tmr s) cb"
    using v du by (auto simp: running_def due_def is_timer_expired_def cb_def split: if_splits)
  have other: "r \<notin> running (tmr s) c" if "c \<noteq> cb" for c using running_disjoint[OF run] that by blast
  then have keep: "running (tmr s) c - {r} = running (tmr s) c" if "c \<noteq> cb" for c using that by blast
  have gs: "rc_tm (tmr s)" "act_ok (g_appLedAction s)" "key_ok s" "running (tmr s) CB_LED = set_option (ledBlinkTimer s)"
    "running (tmr s) CB_REPEAT = set_option (configTimer s)" "running (tmr s) CB_AUDIO_LAST = set_option (audioLastTimer s)"
    "running (tmr s) CB_AUDIO_REQ = set_option (dataReqTimeoutCb s)"
    using assms(2) by (simp_all add: good_def tm_ok_def)
  consider (led) "cb = CB_LED" "led_BlinkTimerCB d s = (t, s1)" | (rep) "cb = CB_REPEAT" "app_sendRepeateDataTimerCb g s = Some (t, s1)"
    | (last) "cb = CB_AUDIO_LAST" "tl_audio_stop g s = Some s1" "t = -1" | (req) "cb = CB_AUDIO_REQ" "audioStartReqTimeout g s = Some (t, s1)"
    | (pair) "cb = CB_DO_PAIR" "zrc_doPair g s = Some (t, s1)" | (unp) "cb = CB_DO_UNPAIR" "zrc_doUnpair s = (t, s1)"
    using s1(1) by (auto simp: rc_callback_def audioLastTimeoutCb_def split: if_splits)
  then show ?thesis
  proof cases
    case led
    have "0 \<le> sint d" using gs(1) run led(1) by (auto simp: rc_tm_def led_args_def d_def)
    note l = led_cb[OF led(2) gs(2) this]
    show ?thesis
    proof (cases "t = -1")
      case True
      have k1: "key_ok s1" using l gs(3) led_upd_key_ok by blast
      have "running (tmr s) CB_LED = {r}" using run gs(4) led(1) by (cases "ledBlinkTimer s") auto
      then have "running (tmr s1) CB_LED - {r} = set_option (ledBlinkTimer s1)" using l True by simp
      moreover have "running (tmr s1) CB_REPEAT - {r} = set_option (configTimer s1)"
        "running (tmr s1) CB_AUDIO_LAST - {r} = set_option (audioLastTimer s1)"
        "running (tmr s1) CB_AUDIO_REQ - {r} = set_option (dataReqTimeoutCb s1)"
        using l gs(5-7) keep[of CB_REPEAT] keep[of CB_AUDIO_LAST] keep[of CB_AUDIO_REQ] led(1) led_updD[of s s1] by simp_all
      ultimately have "good s'" "calm s1 s'" using fired_end[of s1 r t g] k1 l gs v True s1(2) by simp_all
      moreover have "calm s s1" using l by (auto intro!: led_upd_calm simp: tm_frame_def)
      ultimately show ?thesis using calm_step calm_trans by blast
    next
      case False
      then have "good s1" "calm s s1" using l assms(2) led_upd_key_ok[of s s1] led_updD[of s s1]
        by (auto simp: good_def tm_ok_def intro!: led_upd_calm simp: tm_frame_def)
      moreover have "0 \<le> t" using l False by auto
      ultimately show ?thesis using fired_good[of s1 r t g] v s1(2) calm_step calm_trans by metis
    qed
  next
    case rep
    have "configTimer s \<noteq> None" using run rep(1) gs(5) by auto
    note c = repeat_cb[OF rep(2) assms(2) this]
    show ?thesis
    proof (cases "t = 0")
      case True
      then show ?thesis using fired_good[of s1 r t g] c v s1(2) calm_step calm_trans by (metis order_refl)
    next
      case False
      then have e: "t = -1" "configTimer s1 = None" "tm_frame {CB_REPEAT} s s1" using c by auto
      have "running (tmr s1) CB_REPEAT = {}" using c e(2) by (simp add: good_def tm_ok_def)
      then have "\<forall>c. r \<notin> running (tmr s1) c" using e(3) other rep(1) by (metis empty_iff singleton_iff tm_frame_def)
      then show ?thesis using good_ends[of s1 r t CB_REPEAT g] c v e(1) s1(2) calm_step calm_trans by (metis neg_less_0_iff_less zero_less_one)
    qed
  next
    case last
    have "audioCb s" using run last(1) gs(3,6) by (auto simp: key_ok_def)
    with tl_audio_stop_good[OF last(2) assms(2)] have c: "good s1" "calm s s1" "running (tmr s1) CB_AUDIO_LAST = {}"
      "\<forall>c. c \<noteq> CB_AUDIO_LAST \<longrightarrow> running (tmr s1) c = running (tmr s) c" by auto
    then have "\<forall>c. r \<notin> running (tmr s1) c" using other last(1) by (metis empty_iff)
    then show ?thesis using good_ends[of s1 r t CB_AUDIO_LAST g] c v last(3) s1(2) calm_step calm_trans by (metis neg_less_0_iff_less zero_less_one)
  next
    case req
    from audio_req_cb[OF req(2) assms(2)] show ?thesis
    proof (elim disjE conjE exE)
      assume "t = 0" "good s1" "calm s s1"
      then show ?thesis using fired_good[of s1 r t g] v s1(2) calm_step calm_trans by (metis order_refl)
    next
      fix s2 assume a: "t = -1" "s1 = out (MacRxOn 0) (s2\<lparr>dataReqTimeoutCb := None\<rparr>)" "good s2" "calm s s2"
        "running (tmr s2) CB_AUDIO_REQ = running (tmr s) CB_AUDIO_REQ"
      have r2: "r \<in> running (tmr s2) CB_AUDIO_REQ" using a(5) run req(1) by simp
      have o2: "r \<notin> running (tmr s2) c" if "c \<noteq> CB_AUDIO_REQ" for c using running_disjoint[OF r2] that by blast
      have "running (tmr s2) CB_AUDIO_REQ = {r}" using r2 a(3) by (auto simp: good_def tm_ok_def)
      moreover have "key_ok s1" using a(2,3) by (auto simp: good_def key_ok_def key_step_def)
      ultimately have "good s'" "calm s1 s'" using fired_end[of s1 r t g] a o2 v s1(2) by (simp_all add: good_def tm_ok_def)
      moreover have "calm s s1" using a(2,4) by (simp add: calm_def)
      ultimately show ?thesis using calm_step calm_trans by blast
    qed
  next
    case pair
    note p = zrc_doPair_good[OF pair(2) assms(2)]
    have "r \<in> running (tmr s1) CB_DO_PAIR" using p run pair(1) by auto
    then have "good s' \<and> calm s1 s'" using good_ends[of s1 r t CB_DO_PAIR g] p v s1(2) by simp
    moreover have "r \<in> running (tmr s) CB_DO_PAIR" using run pair(1) by auto
    ultimately show ?thesis using p by (auto simp: hold_kept_def pair_step_def pair_traced_def pair_done_def calm_def)
  next
    case unp
    then have u: "t = -1" "good s1" "calm s s1" "tmr s1 = tmr s" using assms(2) by (auto simp: zrc_doUnpair_def)
    then have "good s' \<and> calm s1 s'" using good_ends[of s1 r t CB_DO_UNPAIR g] v run unp(1) s1(2) by simp
    with u show ?thesis using calm_step calm_trans by blast
  qed
qed

section \<open>Runs\<close>

lemma running_timers0 [simp]: "running (timers0 us) c = {}"
  by (auto simp: running_def timers0_def get_timer_def valid_ref_def split: timer_ref.splits)

lemma rc_boot_good:
  assumes "env_ok g"
  shows "good (rc_boot us g) \<and> app_state (rc_boot us g) \<noteq> APP_PRE_PAIRING_STATE \<and> (\<forall>x. StartPair x \<notin> set (outs (rc_boot us g))) \<and>
    running (tmr (rc_boot us g)) c = {}"
proof -
  have "rc_tm (timers0 us)" by (simp add: rc_tm_def led_args_def timers0_ok)
  then show ?thesis
    using nv_info_ok[OF assms]
    by (auto simp: rc_boot_def init_rcuState_def good_def tm_ok_def key_ok_def act_ok_def save_appInfo_def app_setState_def out_def
        key_step_def key_protocol_def Let_def split: option.splits)
qed

text \<open>The home key was pressed alone at the time \<open>t\<close>, and since then no report has said that all keys are up.\<close>

definition holding :: "(rc_env \<times> rc_event) list \<Rightarrow> u32 \<Rightarrow> bool" where
  "holding h t \<longleftrightarrow> (\<exists>h1 g codes h2. h = h1 @ (g, Key 1 codes) # h2 \<and> codes ! 0 = VK_HOMEKEY \<and> clk g = t \<and>
     (\<forall>(g', ev) \<in> set h2. \<forall>cs. ev \<noteq> Key 0 cs))"

lemma holding_snoc:
  assumes "holding h t" "\<forall>cs. ev \<noteq> Key 0 cs"
  shows "holding (h @ [(g, ev)]) t"
proof -
  obtain h1 g1 codes h2 where h: "h = h1 @ (g1, Key 1 codes) # h2" "codes ! 0 = VK_HOMEKEY" "clk g1 = t"
      "\<forall>(g', ev) \<in> set h2. \<forall>cs. ev \<noteq> Key 0 cs"
    using assms(1) unfolding holding_def by blast
  show ?thesis unfolding holding_def
    by (intro exI[of _ h1] exI[of _ g1] exI[of _ codes] exI[of _ "h2 @ [(g, ev)]"]) (use h assms(2) in auto)
qed

lemma holding_new: "codes ! 0 = VK_HOMEKEY \<Longrightarrow> holding (h @ [(g, Key 1 codes)]) (clk g)"
  unfolding holding_def by (intro exI[of _ h] exI[of _ g] exI[of _ codes] exI[of _ "[]"]) simp

lemma idle_good:
  assumes "app_lightOnProgLed g s = Some s'" "good s"
  shows "good s' \<and> (s' = s \<or> app_state s = APP_PRE_PAIRING_STATE \<and> clk g - keyPressedTime s > 3 * 1000 * 1000 * 16 \<and>
    app_state s' \<noteq> APP_PRE_PAIRING_STATE \<and> pair_done g s s')"
proof (cases "app_state s = APP_PRE_PAIRING_STATE \<and> clock_time_exceed g (keyPressedTime s) (3 * 1000 * 1000)")
  case True
  let ?s = "out BoundInfoSave (app_setState APP_PAIRING_STATE (led_Off 1 s))"
  obtain t where p: "zrc_doPair g ?s = Some (t, s')"
    using assms(1) True by (auto simp: app_lightOnProgLed_def)
  have "good ?s" using assms(2) by (simp add: good_setState)
  moreover have "pair_done g ?s s' = pair_done g s s'"
    by (simp add: pair_done_def out_def app_setState_def led_Off_def led_write_def)
  ultimately show ?thesis using zrc_doPair_good[OF p] True
    by (auto simp: hold_kept_def clock_time_exceed_def)
next
  case False
  with assms show ?thesis by (auto simp: app_lightOnProgLed_def)
qed

lemma rc_handle_good:
  assumes "rc_handle g ev s = Some s'" "good s" "env_ok g"
  shows "good s' \<and>
    (hold_kept s s' \<and> pair_step ev s s' \<and> (\<forall>cs. ev = Key 0 cs \<longrightarrow> app_state s' \<noteq> APP_PRE_PAIRING_STATE) \<or>
     (\<exists>codes. ev = Key 1 codes \<and> codes ! 0 = VK_HOMEKEY) \<and> keyPressedTime s' = clk g \<and> pair_step ev s s' \<or>
     ev = Idle \<and> app_state s = APP_PRE_PAIRING_STATE \<and> clk g - keyPressedTime s > 3 * 1000 * 1000 * 16 \<and>
       app_state s' \<noteq> APP_PRE_PAIRING_STATE \<and> pair_done g s s')"
proof -
  have calm: ?thesis if "good s'" "calm s s'" "\<forall>cs. ev \<noteq> Key 0 cs" using that calm_step by blast
  show ?thesis
  proof (cases ev)
    case (Key n codes)
    then have k: "user_keyEventHandle g n codes s = Some s'" "n \<le> length codes" "0xff \<notin> set codes"
      using assms(1) by (auto split: if_splits)
    from key_event_good[OF k(1) assms(2) k(2,3)] show ?thesis
    proof (elim conjE disjE)
      assume "good s'" "calm s s'" "n = 0 \<longrightarrow> app_state s' \<noteq> APP_PRE_PAIRING_STATE"
      then show ?thesis using calm_step[of s s'] Key by auto
    next
      assume a: "good s'" "hold_begins g n codes s s'"
      then have "pair_step ev s s'" by (auto simp: hold_begins_def calm_def pair_traced_def pair_step_def)
      then show ?thesis using a Key by (auto simp: hold_begins_def)
    qed
  next
    case Idle
    then have "app_lightOnProgLed g s = Some s'" using assms(1) by simp
    from idle_good[OF this assms(2)] show ?thesis
      using Idle by (auto simp: hold_kept_def pair_traced_def pair_step_def)
  next
    case (Fire r)
    then show ?thesis using rc_fire_good[of g r s s'] assms by auto
  next
    case Reap
    have st: "stopped {} (tmr s) (reap_all (tmr s))" using assms(2) by (simp add: good_def tm_ok_def rc_tm_def stopped_reap)
    then have "rc_tm (reap_all (tmr s))" "running (reap_all (tmr s)) = running (tmr s)"
      using rc_stopped[OF _ st] assms(2) by (simp_all add: good_def tm_ok_def)
    then have "good (s\<lparr>tmr := reap_all (tmr s)\<rparr>)" "calm s (s\<lparr>tmr := reap_all (tmr s)\<rparr>)"
      using assms(2) by (simp_all add: good_def tm_ok_def key_ok_def calm_def)
    with Reap assms(1) calm show ?thesis by auto
  next
    case (Others t)
    then have o: "others_ok (tmr s) t" "s' = s\<lparr>tmr := t\<rparr>" using assms(1) by (auto split: if_splits)
    have ok: "timers_ok (tmr s)" using assms(2) by (simp add: good_def tm_ok_def rc_tm_def)
    have "led_args t" using others_running[OF ok o(1), of CB_LED] assms(2) by (simp add: good_def tm_ok_def rc_tm_def)
    moreover have "timers_ok t" using o(1) unfolding others_ok_alt by blast
    ultimately have "rc_tm t" using others_running[OF ok o(1)] assms(2) by (simp add: rc_tm_def good_def tm_ok_def)
    then have "good s'" "calm s s'" using o(2) others_running[OF ok o(1)] assms(2) by (auto simp: good_def tm_ok_def key_ok_def calm_def)
    with Others calm show ?thesis by auto
  next
    case (BondCnf r st)
    with assms zrc_bondCnfCb_good[of g r st s s'] calm show ?thesis by auto
  next
    case UnpairCnf
    with assms zrc_unPairCnfCb_good[of g s s'] calm show ?thesis by auto
  next
    case (CmdCnf st k)
    with assms zrc_cmdSendCb_good[of st k s s'] calm show ?thesis by auto
  next
    case (AudioRsp ch)
    with assms audio_startRsp_good[of g ch s s'] calm show ?thesis by auto
  next
    case (OtaState ok)
    with assms app_otaStateCb_good[of g ok s s'] calm show ?thesis by auto
  next
    case (Battery b)
    with assms calm show ?thesis by auto
  next
    case StartCnf
    then have "s' = zrc_startCnfCb s" using assms(1) by simp
    then have "good s' \<and> calm s s'" using assms(2) by (simp add: zrc_startCnfCb_def Let_def)
    with StartCnf calm show ?thesis by auto
  next
    case (PairCnf r st)
    then have s': "s' = zrc_pairCnfCb g r st s" using assms(1) by simp
    have "good s'" using assms(2) by (simp add: s' zrc_pairCnfCb_def Let_def good_setState)
    moreover have "calm s s'" by (auto simp: s' zrc_pairCnfCb_def Let_def calm_def app_setState_def)
    ultimately show ?thesis using PairCnf calm by auto
  next
    case ValidationCnf
    then have s': "s' = zrc_checkValidationCb s" using assms(1) by simp
    have "good s' \<and> calm s s'" using assms(2) by (simp add: s' zrc_checkValidationCb_def good_setState calm_setState)
    with ValidationCnf calm show ?thesis by auto
  qed
qed

lemma rc_run_inv:
  "rc_run us h s \<Longrightarrow> good s \<and> (app_state s = APP_PRE_PAIRING_STATE \<longrightarrow> holding h (keyPressedTime s)) \<and>
     (running (tmr s) CB_DO_PAIR \<noteq> {} \<longrightarrow> (\<exists>y \<in> set (requests (outs s)). y \<noteq> SUCCESS))"
proof (induction rule: rc_run.induct)
  case (boot g)
  then show ?case using rc_boot_good[OF boot, of us] by simp
next
  case (step h s g ev s')
  have g': "good s'" using rc_handle_good[OF step(3) _ step(2)] step.IH by blast
  consider (kept) "hold_kept s s'" "pair_step ev s s'" "\<forall>cs. ev = Key 0 cs \<longrightarrow> app_state s' \<noteq> APP_PRE_PAIRING_STATE"
    | (begins) codes where "ev = Key 1 codes" "codes ! 0 = VK_HOMEKEY" "keyPressedTime s' = clk g" "pair_step ev s s'"
    | (idle) "ev = Idle" "app_state s' \<noteq> APP_PRE_PAIRING_STATE" "pair_done g s s'"
    using rc_handle_good[OF step(3) _ step(2)] step.IH by blast
  then have "(app_state s' = APP_PRE_PAIRING_STATE \<longrightarrow> holding (h @ [(g, ev)]) (keyPressedTime s')) \<and>
      (running (tmr s') CB_DO_PAIR \<noteq> {} \<longrightarrow> (\<exists>y \<in> set (requests (outs s')). y \<noteq> SUCCESS))"
  proof cases
    case kept
    have "running (tmr s') CB_DO_PAIR \<noteq> {} \<longrightarrow> (\<exists>y \<in> set (requests (outs s')). y \<noteq> SUCCESS)"
      using kept(2) step.IH by (auto simp: pair_step_def pair_traced_def)
    then show ?thesis using kept step.IH by (auto simp: hold_kept_def intro!: holding_snoc)
  next
    case begins
    have "running (tmr s') CB_DO_PAIR \<noteq> {} \<longrightarrow> (\<exists>y \<in> set (requests (outs s')). y \<noteq> SUCCESS)"
      using begins(4) step.IH by (auto simp: pair_step_def pair_traced_def)
    then show ?thesis using begins holding_new[of codes h g] by auto
  next
    case idle
    then show ?thesis using step.IH by (auto simp: pair_done_def)
  qed
  with g' show ?case by blast
qed

end
