(* ===== verification/RcAppProps.thy ===== *)
theory RcAppProps
  imports RcAppInv
begin

text \<open>The properties of the remote's application over all runs, and its defects.\<close>

section \<open>Timer pointers\<close>

text \<open>C6: In every run a timer pointer of the application names a running timer with its own callback, and
  every running timer with that callback is the one the pointer names: no pointer is left to a released
  entry and no timer is lost.\<close>

theorem rc_timer_pointers:
  assumes "rc_run us h s" "valid_ref r" "te_valid (get_timer (tmr s) r) = 1 \<and> te_cb (get_timer (tmr s) r) = cb \<longleftrightarrow> on"
  shows "(cb = CB_LED \<longrightarrow> (ledBlinkTimer s = Some r \<longleftrightarrow> on)) \<and>
    (cb = CB_REPEAT \<longrightarrow> (configTimer s = Some r \<longleftrightarrow> on)) \<and>
    (cb = CB_AUDIO_LAST \<longrightarrow> (audioLastTimer s = Some r \<longleftrightarrow> on)) \<and>
    (cb = CB_AUDIO_REQ \<longrightarrow> (dataReqTimeoutCb s = Some r \<longleftrightarrow> on))"
proof -
  have g: "good s" using rc_run_inv[OF assms(1)] by simp
  have "r \<in> running (tmr s) cb \<longleftrightarrow> on" using assms(2,3) by (simp add: running_def)
  then show ?thesis using g by (auto simp: good_def tm_ok_def)
qed

section \<open>Key commands\<close>

text \<open>C7: In every run key commands are sent in pairs: a start only when none is open, a stop only when one is, so no
  two starts without a stop between them. A start opens a command if the library accepts it and leaves the record at
  type START; a forced stop, sent when a confirmation reports a failure, closes it, and may also come with none open.
  While a command is open the repeat timer runs and the counter of its ticks is at most 600.\<close>

theorem rc_key_commands_paired:
  assumes "rc_run us h s"
  shows "key_protocol (outs s) = Some (inRfRpt s) \<and> (inRfRpt s \<longrightarrow> configTimer s \<noteq> None \<and> repeat s \<and> coutchCnt s \<le> 600)"
  using rc_run_inv[OF assms] by (auto simp: good_def key_ok_def)

text \<open>The calls of the repeat timer, until a negative result.\<close>

fun repeat_run :: "nat \<Rightarrow> rc_env \<Rightarrow> rc_vars \<Rightarrow> (bool \<times> rc_vars) option" where
  "repeat_run 0 g s = Some (False, s)"
| "repeat_run (Suc n) g s =
     (case app_sendRepeateDataTimerCb g s of
        None \<Rightarrow> None
      | Some (t, s') \<Rightarrow> if t < 0 then Some (True, s') else repeat_run n g s')"

lemma repeat_tick:
  "app_state s \<noteq> APP_SENDING_IR_STATE \<Longrightarrow> keyCode s \<noteq> 0xff \<Longrightarrow> coutchCnt s \<noteq> 0 \<Longrightarrow>
   app_sendRepeateDataTimerCb g s = Some (0, s\<lparr>allowedDeep := False, coutchCnt := coutchCnt s - 1\<rparr>)"
  by (simp add: app_sendRepeateDataTimerCb_def Let_def)

lemma repeat_end:
  assumes "good s" "inRfRpt s" "coutchCnt s = 0"
  shows "\<exists>s'. app_sendRepeateDataTimerCb g s = Some (-1, s') \<and>
    outs s' = outs s @ [StopAction (pairingRef s), Suspend 20, WakeLevels False] @ (if qs_busy g then [QsIrStop] else []) \<and>
    \<not> inRfRpt s' \<and> \<not> repeat s' \<and> configTimer s' = None \<and> app_state s' = info_state s \<and> allowedDeep s' \<and>
    audio_status s' = audio_status s"
proof -
  define s1 where "s1 = s\<lparr>allowedDeep := False, coutchCnt := coutchCnt s - 1\<rparr>"
  have k: "keyCode s \<noteq> 0xff" "app_state s \<noteq> APP_SENDING_IR_STATE" using assms(1,2) by (auto simp: good_def key_ok_def)
  have tm: "rc_tm (tmr s1)" "running (tmr s1) CB_REPEAT = set_option (configTimer s1)" using assms(1) by (simp_all add: s1_def good_def tm_ok_def)
  obtain s2 where s2: "unon_config s1 = Some s2"
    using rc_unon_ex[OF tm] by (auto simp: unon_config_def)
  have tm1: "tm_ok s1" using assms(1) by (simp add: s1_def good_def tm_ok_def)
  obtain t where t: "s2 = s1\<lparr>tmr := t, configTimer := None\<rparr>" using unon_config_ok[OF s2 tm1] by blast
  show ?thesis
    using k assms(2,3) s2
    by (auto simp: app_sendRepeateDataTimerCb_def Let_def s1_def[symmetric] app_stopSendRepeateDataTimer_def t profile_stopSendRFKeyCmd_def
        out_def app_restoreState_def app_setState_def qs_stop_def)
      (simp_all add: s1_def profile_stopSendRFKeyCmd_def out_def)
qed

lemma repeat_ticks:
  "app_state s \<noteq> APP_SENDING_IR_STATE \<Longrightarrow> keyCode s \<noteq> 0xff \<Longrightarrow> k \<le> unat (coutchCnt s) \<Longrightarrow> k \<noteq> 0 \<Longrightarrow>
   repeat_run (k + n) g s = repeat_run n g (s\<lparr>allowedDeep := False, coutchCnt := coutchCnt s - of_nat k\<rparr>)"
proof (induction k arbitrary: s)
  case 0
  then show ?case by simp
next
  case (Suc k)
  have c: "coutchCnt s \<noteq> 0" using Suc.prems by auto
  let ?s = "s\<lparr>allowedDeep := False, coutchCnt := coutchCnt s - 1\<rparr>"
  have tick: "repeat_run (Suc k + n) g s = repeat_run (k + n) g ?s" using repeat_tick[OF Suc.prems(1,2) c, of g] by simp
  show ?case
  proof (cases "k = 0")
    case True
    with tick show ?thesis by simp
  next
    case False
    have "k \<le> unat (coutchCnt ?s)" using Suc.prems(3) c by (simp add: unat_minus_one)
    with Suc.IH[of ?s] Suc.prems False tick show ?thesis by (simp add: algebra_simps)
  qed
qed

text \<open>C16: A key that is held is given up: after as many ticks of the repeat timer as the counter says (at most
  600, at 50 ms) nothing has been sent, and the next tick sends exactly one stop, releases the timer, restores
  the state and allows deep sleep.\<close>

theorem rc_held_key_times_out:
  assumes "rc_run us h s" "inRfRpt s"
  shows "coutchCnt s \<le> 600 \<and>
    (\<forall>k \<le> unat (coutchCnt s). \<exists>s'. repeat_run k g s = Some (False, s') \<and> outs s' = outs s \<and> inRfRpt s') \<and>
    (\<exists>s'. repeat_run (Suc (unat (coutchCnt s))) g s = Some (True, s') \<and>
       outs s' = outs s @ [StopAction (pairingRef s), Suspend 20, WakeLevels False] @ (if qs_busy g then [QsIrStop] else []) \<and>
       \<not> inRfRpt s' \<and> \<not> repeat s' \<and> configTimer s' = None \<and> app_state s' = info_state s \<and> allowedDeep s' \<and>
       audio_status s' = audio_status s)"
proof -
  have g: "good s" using rc_run_inv[OF assms(1)] by simp
  then have k: "keyCode s \<noteq> 0xff" "app_state s \<noteq> APP_SENDING_IR_STATE" "coutchCnt s \<le> 600" using assms(2) by (auto simp: good_def key_ok_def)
  define e where "e = s\<lparr>allowedDeep := False, coutchCnt := 0\<rparr>"
  have "\<exists>s'. repeat_run j g s = Some (False, s') \<and> outs s' = outs s \<and> inRfRpt s'" if "j \<le> unat (coutchCnt s)" for j
    using repeat_ticks[OF k(2,1) that, of 0 g] assms(2) by (cases "j = 0") auto
  moreover have "\<exists>s'. repeat_run (Suc (unat (coutchCnt s))) g s = Some (True, s') \<and>
      outs s' = outs s @ [StopAction (pairingRef s), Suspend 20, WakeLevels False] @ (if qs_busy g then [QsIrStop] else []) \<and>
      \<not> inRfRpt s' \<and> \<not> repeat s' \<and> configTimer s' = None \<and> app_state s' = info_state s \<and> allowedDeep s' \<and> audio_status s' = audio_status s"
  proof (cases "coutchCnt s = 0")
    case True
    with repeat_end[OF g assms(2) True, of g] show ?thesis by auto
  next
    case False
    have ge: "good e" using g by (auto simp: e_def good_def tm_ok_def key_ok_def)
    have "repeat_run (unat (coutchCnt s) + 1) g s = repeat_run 1 g e"
      using repeat_ticks[OF k(2,1), of "unat (coutchCnt s)" 1 g] False by (simp add: e_def unat_eq_0)
    with repeat_end[OF ge, of g] assms(2) show ?thesis by (auto simp: e_def)
  qed
  ultimately show ?thesis using k(3) by blast
qed


section \<open>Voice against keys\<close>

text \<open>C17: If the answer to a voice request arrives while a key is held, releasing that key no longer ends its
  repetition: the release is ignored in the voice state, no stop is sent, and the repetition runs on until its
  time is over; then the application leaves the voice state although the microphone is still recording.\<close>

theorem rc_voice_start_sticks_key:
  assumes "rc_run us h s" "inRfRpt s" "audioCb s" "env_ok g1" "env_ok g2"
    and "rc_handle g1 (AudioRsp ch) s = Some s1" "rc_handle g2 (Key 0 codes) s1 = Some s2"
  shows "app_state s2 = APP_AUDIO_STATE \<and> inRfRpt s2 \<and> key_protocol (outs s2) = Some True \<and> valid_keyCode s2 = 0xff \<and>
    (\<exists>s3. repeat_run (Suc (unat (coutchCnt s2))) g2 s2 = Some (True, s3) \<and>
       app_state s3 \<noteq> APP_AUDIO_STATE \<and> audio_status s3 = AUDIO_OPENED)"
proof -
  have r1: "rc_run us (h @ [(g1, AudioRsp ch)]) s1" by (rule rc_run.step[OF assms(1,4,6)])
  have r2: "rc_run us ((h @ [(g1, AudioRsp ch)]) @ [(g2, Key 0 codes)]) s2" by (rule rc_run.step[OF r1 assms(5,7)])
  obtain t s0 where s0: "s0 = audio_recTaskStart (out (MacChannel ch) (s\<lparr>tmr := t, dataReqTimeoutCb := None\<rparr>))"
      "audio_stateSettingCb g1 AUDIO_OPENED TL_AUDIO_STA_START s0 = Some s1"
    using assms(3,6) by (auto simp: audio_startRsp_def bind_eq_Some_conv app_unon_timer_def Let_def)
  have f0: "inRfRpt s0" "audio_status s0 = AUDIO_OPENED" using assms(2) by (simp_all add: s0(1) audio_recTaskStart_def)
  have s1: "app_state s1 = APP_AUDIO_STATE \<and> inRfRpt s1 \<and> audio_status s1 = AUDIO_OPENED"
    using s0(2) f0
    by (auto simp: audio_stateSettingCb_def bind_eq_Some_conv unon_audio_def app_unon_timer_def app_on_timer_def led_On_def led_write_def app_setState_def)
  have e: "s2 = out (WakeLevels True) (((out (Suspend 20) s1)\<lparr>sys_active_event_time := clk g2\<rparr>)\<lparr>valid_keyCode := 0xff\<rparr>)"
    using assms(7) s1 by (simp add: user_keyEventHandle_def keyScan_keyReleasedCB_def app_isNormalState_def split: if_splits)
  have f2: "app_state s2 = APP_AUDIO_STATE" "inRfRpt s2" "audio_status s2 = AUDIO_OPENED" "valid_keyCode s2 = 0xff"
    using s1 by (simp_all add: e)
  have g: "good s2" using rc_run_inv[OF r2] by simp
  obtain s3 where s3: "repeat_run (Suc (unat (coutchCnt s2))) g2 s2 = Some (True, s3)" "app_state s3 = info_state s2" "audio_status s3 = audio_status s2"
    using rc_held_key_times_out[OF r2 f2(2), of g2] by blast
  then show ?thesis using f2 g good_info[OF g] by (auto simp: good_def key_ok_def)
qed

section \<open>Pairing\<close>


section \<open>The properties on concrete runs\<close>

fun rc_exec :: "(rc_env \<times> rc_event) list \<Rightarrow> rc_vars \<Rightarrow> rc_vars option" where
  "rc_exec [] s = Some s"
| "rc_exec ((g, ev) # es) s = (case rc_handle g ev s of None \<Rightarrow> None | Some s' \<Rightarrow> rc_exec es s')"

lemma rc_exec_run:
  "rc_run us h s \<Longrightarrow> \<forall>(g, ev) \<in> set es. env_ok g \<Longrightarrow> rc_exec es s = Some s' \<Longrightarrow> rc_run us (h @ es) s'"
proof (induction es arbitrary: h s)
  case Nil
  then show ?case by simp
next
  case (Cons x es)
  obtain g ev where x: "x = (g, ev)" by (cases x)
  with Cons.prems obtain s1 where s1: "rc_handle g ev s = Some s1" "rc_exec es s1 = Some s'" "env_ok g" by (auto split: option.splits)
  from Cons.IH[OF rc_run.step[OF Cons.prems(1) s1(3,1)] _ s1(2)] Cons.prems(2) x show ?case by simp
qed

definition rc_demo :: "u32 \<Rightarrow> rc_env" where
  "rc_demo t = \<lparr>clk = t, ir_busy = False, qs_busy = False, action_sts = 0, action_start = True, valid_sts = 0, pair_sts = 0, tx_sts = 0,
     nv_info = Some (0, 3), nv_write_sts = 0\<rparr>"

definition demo_run :: "(rc_env \<times> rc_event) list" where
  "demo_run = [(rc_demo 1600, Key 1 [0x47]), (rc_demo 3200, Key 0 []), (rc_demo 4800, Key 1 [0x41])]"

lemma demo_eval:
  "map_option (\<lambda>s. (inRfRpt s, audioCb s, coutchCnt s, te_valid (get_timer (tmr s) (EvTimer 3)), te_cb (get_timer (tmr s) (EvTimer 3))))
     (rc_exec demo_run (rc_boot 16 (rc_demo 0))) = Some (True, True, 600, 1, CB_REPEAT)"
  by code_simp

text \<open>The voice key was pressed and released; the volume key is being held.\<close>

lemma demo_state:
  "\<exists>s. rc_exec demo_run (rc_boot 16 (rc_demo 0)) = Some s \<and> rc_run 16 demo_run s \<and> inRfRpt s \<and> audioCb s \<and> coutchCnt s = 600 \<and>
     te_valid (get_timer (tmr s) (EvTimer 3)) = 1 \<and> te_cb (get_timer (tmr s) (EvTimer 3)) = CB_REPEAT"
proof -
  obtain s where s: "rc_exec demo_run (rc_boot 16 (rc_demo 0)) = Some s" using demo_eval by fastforce
  have "rc_run 16 ([] @ demo_run) s"
    by (rule rc_exec_run[OF rc_run.boot _ s]) (simp_all add: env_ok_def rc_demo_def demo_run_def)
  with s demo_eval show ?thesis by auto
qed

theorem rc_timer_pointers_witness:
  "\<exists>s. rc_run 16 demo_run s \<and> te_cb (get_timer (tmr s) (EvTimer 3)) = CB_REPEAT \<and> configTimer s = Some (EvTimer 3) \<and>
     ledBlinkTimer s \<noteq> Some (EvTimer 3)"
proof -
  obtain s where s: "rc_run 16 demo_run s" "te_valid (get_timer (tmr s) (EvTimer 3)) = 1" "te_cb (get_timer (tmr s) (EvTimer 3)) = CB_REPEAT"
    using demo_state by blast
  have v: "valid_ref (EvTimer 3)" by (simp add: valid_ref_def)
  have "configTimer s = Some (EvTimer 3)" using rc_timer_pointers[OF s(1) v, of CB_REPEAT True] s by simp
  moreover have "ledBlinkTimer s \<noteq> Some (EvTimer 3)" using rc_timer_pointers[OF s(1) v, of CB_LED False] s by simp
  ultimately show ?thesis using s by blast
qed

theorem rc_key_commands_paired_witness: "\<exists>s. rc_run 16 demo_run s \<and> key_protocol (outs s) = Some True \<and> configTimer s \<noteq> None"
proof -
  obtain s where "rc_run 16 demo_run s" "inRfRpt s" using demo_state by blast
  with rc_key_commands_paired[OF this(1)] show ?thesis by auto
qed

theorem rc_held_key_times_out_witness:
  "\<exists>s s'. rc_run 16 demo_run s \<and> repeat_run 601 (rc_demo 0) s = Some (True, s') \<and>
     outs s' = outs s @ [StopAction (pairingRef s), Suspend 20, WakeLevels False] \<and> configTimer s' = None"
proof -
  obtain s where s: "rc_run 16 demo_run s" "inRfRpt s" "coutchCnt s = 600" using demo_state by blast
  have "Suc (unat (600 :: u16)) = 601" by simp
  with rc_held_key_times_out[OF s(1,2), of "rc_demo 0"] s show ?thesis by (auto simp: rc_demo_def)
qed

lemma demo_voice_eval:
  "map_option (\<lambda>s. ()) (Option.bind (Option.bind (rc_exec demo_run (rc_boot 16 (rc_demo 0))) (rc_handle (rc_demo 6400) (AudioRsp 20)))
     (rc_handle (rc_demo 8000) (Key 0 []))) = Some ()"
  by code_simp

theorem rc_voice_start_sticks_key_witness:
  "\<exists>s s1 s2. rc_run 16 demo_run s \<and> rc_handle (rc_demo 6400) (AudioRsp 20) s = Some s1 \<and>
     rc_handle (rc_demo 8000) (Key 0 []) s1 = Some s2 \<and> app_state s2 = APP_AUDIO_STATE \<and> inRfRpt s2"
proof -
  obtain s where s: "rc_exec demo_run (rc_boot 16 (rc_demo 0)) = Some s" "rc_run 16 demo_run s" "inRfRpt s" "audioCb s"
    using demo_state by blast
  obtain s1 s2 where e: "rc_handle (rc_demo 6400) (AudioRsp 20) s = Some s1" "rc_handle (rc_demo 8000) (Key 0 []) s1 = Some s2"
    using demo_voice_eval by (auto simp: s(1) bind_eq_Some_conv simp del: rc_handle.simps)
  have "env_ok (rc_demo 6400)" "env_ok (rc_demo 8000)" by (simp_all add: env_ok_def rc_demo_def)
  from rc_voice_start_sticks_key[OF s(2-4) this e] s(2) e show ?thesis by blast
qed



text \<open>Home is pressed, another key joins it, home is released: pairing starts with the other key held.\<close>

lemma rc_pairs_with_home_released:
  "map_option (\<lambda>s. requests (outs s))
     (rc_exec [(rc_demo 1600, Key 1 [0x09]), (rc_demo 3200, Key 2 [0x09, 0x41]), (rc_demo 4800, Key 1 [0x41]), (rc_demo 60000000, Idle)]
        (rc_boot 16 (rc_demo 0))) = Some [0]"
  by code_simp

end
