(* ===== verification/FrameCount.thy ===== *)
theory FrameCount
  imports RcApp NvFrameProps
begin

text \<open>
  The frame counter of the remote over power cycles: \<open>nwk_frameCountUpdate\<close>, the counter in \<open>app_loadInfo\<close> and
  \<open>app_saveInfoPm\<close>, and the block of \<open>app_idle_handler\<close> that saves it (\<open>vendor/rc_app/app_common.c\<close>). The network library
  exists only as a binary, so what it does is a parameter, the record \<open>nwk_lib\<close>; what the application relies on is the
  locale \<open>nwk_frame_counter\<close>. A library that keeps the counter with \<open>nv.c\<close> satisfies it on any NOR chip.
\<close>

section \<open>The network library\<close>

text \<open>
  \<open>nl_save\<close>: \<open>nwk_savePibFrameCountToFlash\<close>, given the counter of the information base; \<open>nl_load\<close>:
  \<open>nwk_loadPibFrameCountFromFlash\<close>; \<open>nl_sent\<close>: the counter of the information base after a frame that carried the
  given one (\<open>nwk_pib.h\<close>: the counter added to the transmitted NPDU); \<open>nl_start\<close>: the counter of the information base
  after \<open>stack_init\<close>, from what is stored.
\<close>

record 'f nwk_lib =
  nl_save :: "u32 \<Rightarrow> 'f \<Rightarrow> 'f"
  nl_load :: "'f \<Rightarrow> u32 option \<times> 'f"
  nl_sent :: "u32 \<Rightarrow> u32"
  nl_start :: "u32 option \<Rightarrow> u32"

text \<open>
  What the application relies on: a counter that is saved, not below the stored one and at most 2048 above, is the
  stored one afterwards; loading returns the stored one; each frame takes the next counter; the stack starts with the
  stored counter.
\<close>

locale nwk_frame_counter =
  fixes L :: "'f nwk_lib" and holds :: "'f \<Rightarrow> u32 \<Rightarrow> bool"
  assumes save_holds: "holds f v \<Longrightarrow> fc_step v w \<Longrightarrow> w \<noteq> 0xffffffff \<Longrightarrow> holds (nl_save L w f) w"
    and load_holds: "holds f v \<Longrightarrow> fst (nl_load L f) = Some v \<and> holds (snd (nl_load L f)) v"
    and sent_next: "c < 0xffff0000 \<Longrightarrow> nl_sent L c = c + 1"
    and start_stored: "nl_start L (Some v) = v"

section \<open>Model\<close>

text \<open>
  \<open>pib\<close>: the counter of the information base, \<open>in_flash\<close>: the static \<open>nwk_frameCntInFlash\<close>, \<open>reg_seq\<close> and \<open>pmDeep\<close>: the
  retention registers \<open>reg_nwk_seq_no\<close> and the flag in \<open>reg_mac_channel\<close>. \<open>sent\<close> lists the counters of the frames
  sent, \<open>since\<close> their number since the last idle pass.
\<close>

record 'f fc_st =
  pib :: u32
  store :: 'f
  in_flash :: u32
  reg_seq :: u32
  pmDeep :: bool
  paired :: bool
  batt :: u8
  sent :: "u32 list"
  since :: nat

abbreviation (input) NWK_ADD_FRAME_COUNTER :: u32 where "NWK_ADD_FRAME_COUNTER \<equiv> 0x400"

definition nwk_frameCountUpdate :: "'f nwk_lib \<Rightarrow> 'f fc_st \<Rightarrow> u32 \<times> 'f fc_st" where
  "nwk_frameCountUpdate L s =
     (let n = pib s in
      if paired s then
        let n = n + NWK_ADD_FRAME_COUNTER; s = s\<lparr>pib := n\<rparr>
        in (n, if \<not> batt s > BAT_THRESHOLD_FLASH then s\<lparr>store := nl_save L (pib s) (store s)\<rparr> else s)
      else (n, s))"

definition app_loadInfo :: "'f nwk_lib \<Rightarrow> 'f fc_st \<Rightarrow> 'f fc_st" where
  "app_loadInfo L s =
     (if pmDeep s then s\<lparr>pmDeep := False, pib := reg_seq s\<rparr>
      else (case nwk_frameCountUpdate L s of (n, s) \<Rightarrow> s\<lparr>reg_seq := 0, pmDeep := False, pib := n\<rparr>))"

definition app_saveInfoPm :: "'f fc_st \<Rightarrow> 'f fc_st" where
  "app_saveInfoPm s = s\<lparr>pmDeep := True, reg_seq := pib s\<rparr>"

definition load_into :: "'f nwk_lib \<Rightarrow> 'f fc_st \<Rightarrow> 'f fc_st" where
  "load_into L s = (case nl_load L (store s) of
     (Some v, f) \<Rightarrow> s\<lparr>store := f, in_flash := v\<rparr> | (None, f) \<Rightarrow> s\<lparr>store := f\<rparr>)"

definition app_idle_frameCount ::
  "'f nwk_lib \<Rightarrow> u8 \<Rightarrow> 'f fc_st \<Rightarrow> 'f fc_st" where
  "app_idle_frameCount L st s =
     (if st = APP_READY_STATE \<or> st = APP_OTA_STATE \<or> st = APP_AUDIO_STATE then
        let s = (if in_flash s = 0 then load_into L s else s)
        in if in_flash s + NWK_ADD_FRAME_COUNTER < pib s
           then load_into L (s\<lparr>store := nl_save L (pib s) (store s)\<rparr>) else s
      else s)"

text \<open>A frame, and the start of the program: the static is cleared, the library sets its counter.\<close>

definition sent_frame :: "'f nwk_lib \<Rightarrow> 'f fc_st \<Rightarrow> 'f fc_st" where
  "sent_frame L s = s\<lparr>sent := sent s @ [pib s], pib := nl_sent L (pib s), since := since s + 1\<rparr>"

definition stack_start :: "'f nwk_lib \<Rightarrow> 'f fc_st \<Rightarrow> 'f fc_st" where
  "stack_start L s = (case nl_load L (store s) of (v, f) \<Rightarrow> s\<lparr>store := f, in_flash := 0, pib := nl_start L v\<rparr>)"

text \<open>
  \<open>PassIdle\<close>: one pass of the idle handler in the given state. \<open>DeepSleep\<close> keeps the registers, \<open>PowerLoss\<close> clears
  them (with the battery level found at the restart); both restart the program.
\<close>

datatype fc_event = SendFrame | PassIdle u8 | DeepSleep | PowerLoss u8

fun fc_handle ::
  "'f nwk_lib \<Rightarrow> fc_event \<Rightarrow> 'f fc_st \<Rightarrow> 'f fc_st" where
  "fc_handle L SendFrame s = sent_frame L s"
| "fc_handle L (PassIdle st) s = (app_idle_frameCount L st s)\<lparr>since := 0\<rparr>"
| "fc_handle L DeepSleep s = app_loadInfo L (stack_start L (app_saveInfoPm s))"
| "fc_handle L (PowerLoss b) s = app_loadInfo L (stack_start L (s\<lparr>reg_seq := 0, pmDeep := False, batt := b\<rparr>))"

section \<open>Continuity\<close>

text \<open>
  The runs considered: frames are sent in the ready state only, at most 1024 between two idle passes, the power is
  lost only after an idle pass, and the counter stays below its end.
\<close>

fun fc_guard :: "fc_event \<Rightarrow> 'f fc_st \<Rightarrow> bool" where
  "fc_guard SendFrame s \<longleftrightarrow> since s < 1024"
| "fc_guard (PassIdle st) s \<longleftrightarrow> st = APP_READY_STATE \<or> st = APP_OTA_STATE \<or> st = APP_AUDIO_STATE"
| "fc_guard DeepSleep s \<longleftrightarrow> True"
| "fc_guard (PowerLoss b) s \<longleftrightarrow> since s = 0"

fun fc_exec ::
  "'f nwk_lib \<Rightarrow> fc_event list \<Rightarrow> 'f fc_st \<Rightarrow> 'f fc_st" where
  "fc_exec L [] s = s"
| "fc_exec L (e # es) s = fc_exec L es (fc_handle L e s)"

fun fc_safe ::
  "'f nwk_lib \<Rightarrow> fc_event list \<Rightarrow> 'f fc_st \<Rightarrow> bool" where
  "fc_safe L [] s \<longleftrightarrow> True"
| "fc_safe L (e # es) s \<longleftrightarrow> fc_guard e s \<and> pib s < 0xffff0000 \<and> fc_safe L es (fc_handle L e s)"

text \<open>The invariant, with \<open>F\<close> the stored counter.\<close>

definition fc_inv :: "('f \<Rightarrow> u32 \<Rightarrow> bool) \<Rightarrow> u32 \<Rightarrow> 'f fc_st \<Rightarrow> bool" where
  "fc_inv holds F s \<longleftrightarrow> holds (store s) F \<and> F \<noteq> 0 \<and> (in_flash s = 0 \<or> in_flash s = F) \<and> unat F \<le> unat (pib s) \<and>
     unat (pib s) \<le> unat F + 1024 + since s \<and> since s \<le> 1024 \<and> paired s \<and> \<not> pmDeep s \<and>
     sorted_wrt (<) (sent s) \<and> (\<forall>u \<in> set (sent s). u < pib s)"

context nwk_frame_counter begin

lemma load_some: "holds f v \<Longrightarrow> \<exists>f'. nl_load L f = (Some v, f') \<and> holds f' v"
  using load_holds[of f v] by (metis prod.collapse)

lemma step_room: "unat v \<le> unat w \<Longrightarrow> unat w \<le> unat v + 2048 \<Longrightarrow> fc_step v w"
  by (simp add: fc_step_def word_le_nat_alt unat_sub_if')

lemma unat_add_room: "unat (a :: u32) + unat b < 2 ^ 32 \<Longrightarrow> unat (a + b) = unat a + unat b"
  by (rule unat_add_lem[THEN iffD1]) simp

lemma inv_send: "fc_inv holds F s \<Longrightarrow> since s < 1024 \<Longrightarrow> pib s < 0xffff0000 \<Longrightarrow> fc_inv holds F (sent_frame L s)"
proof -
  assume i: "fc_inv holds F s" "since s < 1024" "pib s < 0xffff0000"
  have u: "unat (pib s + 1) = unat (pib s) + 1" by (subst unat_add_room) (use i(3) in \<open>simp_all add: word_less_nat_alt\<close>)
  have "u < pib s + 1" if "u = pib s \<or> u < pib s" for u
    using that u by (auto simp: word_less_nat_alt)
  then show ?thesis using i(1,2) u sent_next[OF i(3)] by (simp add: fc_inv_def sent_frame_def sorted_wrt_append)
qed

lemma inv_idle:
  assumes "fc_inv holds F s" "st = APP_READY_STATE \<or> st = APP_OTA_STATE \<or> st = APP_AUDIO_STATE" "pib s < 0xffff0000"
  shows "\<exists>F'. fc_inv holds F' ((app_idle_frameCount L st s)\<lparr>since := 0\<rparr>)"
proof -
  define s1 where "s1 = (if in_flash s = 0 then load_into L s else s)"
  have s1: "fc_inv holds F s1" "in_flash s1 = F" "pib s1 = pib s" "since s1 = since s"
    using assms(1) load_some[of "store s" F] by (auto simp: s1_def load_into_def fc_inv_def)
  have r: "app_idle_frameCount L st s =
      (if F + NWK_ADD_FRAME_COUNTER < pib s1 then load_into L (s1\<lparr>store := nl_save L (pib s1) (store s1)\<rparr>) else s1)"
    using assms(2) by (simp add: app_idle_frameCount_def s1_def[symmetric] s1(2) Let_def)
  have F: "unat F < 0xffff0000" using s1(1,3) assms(3) by (simp add: fc_inv_def word_less_nat_alt)
  have u: "unat (F + NWK_ADD_FRAME_COUNTER) = unat F + 1024" by (subst unat_add_room) (use F in simp_all)
  show ?thesis
  proof (cases "F + NWK_ADD_FRAME_COUNTER < pib s1")
    case True
    have b: "unat F \<le> unat (pib s1)" "unat (pib s1) \<le> unat F + 2048" "holds (store s1) F"
      using s1(1) by (auto simp: fc_inv_def)
    have "pib s1 \<noteq> 0xffffffff" using assms(3) s1(3) by auto
    then have "holds (nl_save L (pib s1) (store s1)) (pib s1)" using save_holds[OF b(3) step_room[OF b(1,2)]] by blast
    then obtain f' where f': "nl_load L (nl_save L (pib s1) (store s1)) = (Some (pib s1), f')" "holds f' (pib s1)" using load_some by blast
    have "pib s1 \<noteq> 0" using b(1) s1(1) by (auto simp: fc_inv_def unat_eq_zero)
    then have "fc_inv holds (pib s1) ((app_idle_frameCount L st s)\<lparr>since := 0\<rparr>)"
      using s1(1) f' True by (simp add: r load_into_def fc_inv_def)
    then show ?thesis ..
  next
    case False
    then have "unat (pib s1) \<le> unat F + 1024" using u by (simp add: word_less_nat_alt)
    then have "fc_inv holds F ((app_idle_frameCount L st s)\<lparr>since := 0\<rparr>)"
      using s1(1) False by (simp add: r fc_inv_def)
    then show ?thesis ..
  qed
qed

lemma inv_deep: "fc_inv holds F s \<Longrightarrow> fc_inv holds F (app_loadInfo L (stack_start L (app_saveInfoPm s)))"
  using load_some[of "store s" F]
  by (auto simp: fc_inv_def app_loadInfo_def stack_start_def app_saveInfoPm_def start_stored)

lemma inv_power:
  assumes "fc_inv holds F s" "since s = 0" "pib s < 0xffff0000"
  shows "\<exists>F'. fc_inv holds F' (app_loadInfo L (stack_start L (s\<lparr>reg_seq := 0, pmDeep := False, batt := b\<rparr>)))"
proof -
  have h: "holds (store s) F" "F \<noteq> 0" "unat F \<le> unat (pib s)" "unat (pib s) \<le> unat F + 1024" "paired s"
    "sorted_wrt (<) (sent s)" "\<forall>u \<in> set (sent s). u < pib s"
    using assms(1,2) by (auto simp: fc_inv_def)
  have F: "unat F < 0xffff0000" using h(3) assms(3) by (simp add: word_less_nat_alt)
  let ?n = "F + NWK_ADD_FRAME_COUNTER"
  have u: "unat ?n = unat F + 1024" by (subst unat_add_room) (use F in simp_all)
  obtain f where f: "nl_load L (store s) = (Some F, f)" "holds f F" using load_some[OF h(1)] by blast
  have "?n \<noteq> 0xffffffff" "?n \<noteq> 0" using u F by (auto dest: arg_cong[where f = unat])
  then have sv: "holds (nl_save L ?n f) ?n" by (intro save_holds[OF f(2)] step_room) (use u in simp_all)
  have le: "u < ?n" if "u \<in> set (sent s)" for u
  proof -
    have "unat u < unat (pib s)" using that h(7) by (simp add: word_less_nat_alt)
    also have "\<dots> \<le> unat ?n" using h(4) u by simp
    finally show ?thesis by (simp add: word_less_nat_alt)
  qed
  let ?r = "app_loadInfo L (stack_start L (s\<lparr>reg_seq := 0, pmDeep := False, batt := b\<rparr>))"
  have r: "?r = s\<lparr>reg_seq := 0, pmDeep := False, batt := b, in_flash := 0, pib := ?n,
      store := (if \<not> b > BAT_THRESHOLD_FLASH then nl_save L ?n f else f)\<rparr>"
    using h(5) f(1) by (simp add: app_loadInfo_def stack_start_def nwk_frameCountUpdate_def start_stored Let_def)
  show ?thesis
  proof (cases "b > BAT_THRESHOLD_FLASH")
    case True
    then have "fc_inv holds F ?r" using h f(2) le u assms(2) unfolding r by (simp add: fc_inv_def)
    then show ?thesis ..
  next
    case False
    then have "fc_inv holds ?n ?r" using h sv le u assms(2) \<open>?n \<noteq> 0\<close> unfolding r by (simp add: fc_inv_def)
    then show ?thesis ..
  qed
qed

lemma inv_handle:
  assumes "fc_inv holds F s" "fc_guard e s" "pib s < 0xffff0000"
  shows "\<exists>F'. fc_inv holds F' (fc_handle L e s)"
proof (cases e)
  case SendFrame
  then show ?thesis using inv_send[OF assms(1) _ assms(3)] assms(2) by auto
next
  case (PassIdle st)
  have "st = APP_READY_STATE \<or> st = APP_OTA_STATE \<or> st = APP_AUDIO_STATE" using assms(2) unfolding PassIdle fc_guard.simps .
  then show ?thesis using inv_idle[OF assms(1) _ assms(3)] unfolding PassIdle fc_handle.simps by blast
next
  case DeepSleep
  then show ?thesis using inv_deep[OF assms(1)] by auto
next
  case (PowerLoss b)
  then show ?thesis using inv_power[OF assms(1) _ assms(3), of b] assms(2) by auto
qed

lemma inv_exec: "fc_inv holds F s \<Longrightarrow> fc_safe L es s \<Longrightarrow> \<exists>F'. fc_inv holds F' (fc_exec L es s)"
proof (induction es arbitrary: s F)
  case (Cons e es)
  then show ?case using inv_handle[of F s e] by auto
qed auto

lemma exec_increasing: "fc_inv holds F s \<Longrightarrow> fc_safe L es s \<Longrightarrow> sorted_wrt (<) (sent (fc_exec L es s))"
  using inv_exec unfolding fc_inv_def by blast

end

text \<open>
  With room below the threshold the counter runs ahead of the flash: \<open>quiet\<close> states, \<open>k\<close> frames after the save.
\<close>

definition fc_quiet :: "('f \<Rightarrow> u32 \<Rightarrow> bool) \<Rightarrow> u32 \<Rightarrow> nat \<Rightarrow> 'f fc_st \<Rightarrow> bool" where
  "fc_quiet holds v k s \<longleftrightarrow> holds (store s) v \<and> (in_flash s = 0 \<or> in_flash s = v) \<and> pib s = v + of_nat k \<and> paired s"

lemma fc_exec_append: "fc_exec L (es @ es') s = fc_exec L es' (fc_exec L es s)"
  by (induction es arbitrary: s) simp_all

definition fc_round :: "fc_event list" where
  "fc_round = [SendFrame, PassIdle APP_READY_STATE]"

context nwk_frame_counter begin

lemma quiet_pib: "k \<le> 1024 \<Longrightarrow> v < 0xfffe0000 \<Longrightarrow> unat (v + of_nat k :: u32) = unat v + k"
proof -
  assume a: "k \<le> 1024" "v < 0xfffe0000"
  have k: "unat (of_nat k :: u32) = k" by (rule unat_of_nat_u32) (use a in simp)
  have v: "unat v < 0xfffe0000" using a(2) by (simp add: word_less_nat_alt)
  have "unat (v + of_nat k) = unat v + unat (of_nat k :: u32)" by (rule unat_add_room) (use v a(1) in \<open>simp add: k\<close>)
  then show ?thesis using k by metis
qed

lemma quiet_next: "fc_quiet holds v k s \<Longrightarrow> k \<le> 1024 \<Longrightarrow> v < 0xfffe0000 \<Longrightarrow> nl_sent L (pib s) = pib s + 1"
  using quiet_pib[of k v] by (intro sent_next) (simp add: fc_quiet_def word_less_nat_alt)

lemma quiet_send:
  "fc_quiet holds v k s \<Longrightarrow> k \<le> 1024 \<Longrightarrow> v < 0xfffe0000 \<Longrightarrow> fc_quiet holds v (Suc k) (sent_frame L s)"
  using quiet_next[of v k s] by (simp add: fc_quiet_def sent_frame_def)

lemma quiet_idle:
  assumes "fc_quiet holds v k s" "k \<le> 1024" "v < 0xfffe0000"
  shows "fc_quiet holds v k ((app_idle_frameCount L APP_READY_STATE s)\<lparr>since := 0\<rparr>)"
proof -
  define s1 where "s1 = (if in_flash s = 0 then load_into L s else s)"
  have s1: "fc_quiet holds v k s1" "in_flash s1 = v" "pib s1 = v + of_nat k"
    using assms(1) load_some[of "store s" v] by (auto simp: s1_def load_into_def fc_quiet_def)
  have v: "unat v < 0xfffe0000" using assms(3) by (simp add: word_less_nat_alt)
  have "unat (v + of_nat k) = unat v + k" using quiet_pib[OF assms(2,3)] .
  moreover have "unat (v + NWK_ADD_FRAME_COUNTER) = unat v + 1024" by (subst unat_add_room) (use v in simp_all)
  ultimately have "\<not> in_flash s1 + NWK_ADD_FRAME_COUNTER < pib s1"
    using assms(2) s1(2,3) by (simp add: word_less_nat_alt)
  then have "app_idle_frameCount L APP_READY_STATE s = s1"
    by (simp add: app_idle_frameCount_def s1_def[symmetric] Let_def)
  then show ?thesis using s1(1) by (simp add: fc_quiet_def)
qed

lemma quiet_round:
  "fc_quiet holds v k s \<Longrightarrow> k < 1024 \<Longrightarrow> v < 0xfffe0000 \<Longrightarrow> fc_quiet holds v (Suc k) (fc_exec L fc_round s)"
  using quiet_idle[OF quiet_send[of v k s]] by (simp add: fc_round_def)

lemma quiet_deep: "fc_quiet holds v k s \<Longrightarrow> fc_quiet holds v k (fc_handle L DeepSleep s)"
  using load_some[of "store s" v]
  by (auto simp: fc_quiet_def app_loadInfo_def stack_start_def app_saveInfoPm_def start_stored)

lemma quiet_power:
  assumes "fc_quiet holds v k s" "\<not> b > BAT_THRESHOLD_FLASH" "v < 0xfffe0000"
  shows "fc_quiet holds (v + 0x400) 0 (fc_handle L (PowerLoss b) s)"
proof -
  obtain f where f: "nl_load L (store s) = (Some v, f)" "holds f v" using load_some assms(1) unfolding fc_quiet_def by blast
  have v: "unat v < 0xfffe0000" using assms(3) by (simp add: word_less_nat_alt)
  have u: "unat (v + 0x400) = unat v + 1024" by (subst unat_add_room) (use v in simp_all)
  then have "v + 0x400 \<noteq> 0xffffffff" using v by (auto dest: arg_cong[where f = unat])
  then have "holds (nl_save L (v + 0x400) f) (v + 0x400)" by (intro save_holds[OF f(2)] step_room) (use u in simp_all)
  then show ?thesis using assms(1,2) f
    by (simp add: fc_quiet_def app_loadInfo_def stack_start_def nwk_frameCountUpdate_def start_stored Let_def)
qed

lemma quiet_rounds:
  "fc_quiet holds v k s \<Longrightarrow> k + n \<le> 1024 \<Longrightarrow> v < 0xfffe0000 \<Longrightarrow>
   fc_quiet holds v (k + n) (fc_exec L (concat (replicate n fc_round)) s)"
proof (induction n arbitrary: k s)
  case (Suc n)
  have "fc_quiet holds v (Suc k) (fc_exec L fc_round s)" using quiet_round[OF Suc.prems(1) _ Suc.prems(3)] Suc.prems(2) by simp
  then show ?case using Suc.IH[of "Suc k"] Suc.prems(2,3) by (simp add: fc_exec_append)
qed simp

lemma send_lose_send:
  "fc_quiet holds v 1024 s \<Longrightarrow> v < 0xfffe0000 \<Longrightarrow>
   sent (fc_exec L [SendFrame, PowerLoss b, SendFrame] s) = sent s @ [v + 0x400, v + 0x400]"
  using load_some[of "store s" v] quiet_next[of v 1024 s]
  by (auto simp: fc_quiet_def sent_frame_def app_loadInfo_def stack_start_def nwk_frameCountUpdate_def start_stored Let_def)

lemma counter_reused:
  assumes "fc_quiet holds v 0 s" "v < 0xfffe0000"
  shows "\<exists>us. sent (fc_exec L (concat (replicate 1024 fc_round) @ [SendFrame, PowerLoss b, SendFrame]) s) = us @ [v + 0x400, v + 0x400]"
  using send_lose_send[of v "fc_exec L (concat (replicate 1024 fc_round)) s" b] quiet_rounds[of v 0 s 1024] assms
  by (auto simp only: fc_exec_append add_0 order_refl)

end

section \<open>The NV store provides the interface\<close>

definition nv_fc_load :: "'c drv_flash \<Rightarrow> 'c flash_st \<Rightarrow> u32 option \<times> 'c flash_st" where
  "nv_fc_load d s = (case nv_nwkFrameCountFromFlash d s of ((_, v), s') \<Rightarrow> (v, s'))"

definition nv_fc_holds :: "('c \<Rightarrow> mem) \<Rightarrow> ('c \<Rightarrow> bool) \<Rightarrow> 'c flash_st \<Rightarrow> u32 \<Rightarrow> bool" where
  "nv_fc_holds cells writable s v \<longleftrightarrow> flash_ok cells writable s \<and>
     (\<exists>k xs. fc_state (cells (fl_chip s)) k xs \<and> last xs = v \<and> (length xs \<le> 2 \<or> fc_step (xs ! (length xs - 2)) (last xs)))"

definition nv_fc_save :: "'c drv_flash \<Rightarrow> u32 \<Rightarrow> 'c flash_st \<Rightarrow> 'c flash_st" where
  "nv_fc_save d v s = snd (nv_nwkFrameCountSaveToFlash d s v)"

text \<open>A library that keeps the counter with \<open>nv.c\<close>, and starts with the counter found there.\<close>

definition nv_lib :: "'c drv_flash \<Rightarrow> 'c flash_st nwk_lib" where
  "nv_lib d = \<lparr>nl_save = nv_fc_save d, nl_load = nv_fc_load d, nl_sent = \<lambda>c. c + 1, nl_start = case_option 1 id\<rparr>"

lemma nv_lib_simps [simp]: "nl_save (nv_lib d) = nv_fc_save d" "nl_load (nv_lib d) = nv_fc_load d"
  "nl_sent (nv_lib d) c = c + 1" "nl_start (nv_lib d) (Some v) = v"
  by (simp_all add: nv_lib_def)

sublocale nor_flash \<subseteq> fc: nwk_frame_counter "nv_lib D" "nv_fc_holds cells writable"
proof unfold_locales
  fix s v w
  assume s: "nv_fc_holds cells writable s v" "fc_step v w" "w \<noteq> 0xffffffff"
  then obtain k xs where st: "flash_ok cells writable s" "fc_state (cells (fl_chip s)) k xs" "last xs = v"
    unfolding nv_fc_holds_def by blast
  obtain s' k' where s': "nv_nwkFrameCountSaveToFlash D s w = (NV_SUCC, s')" "flash_ok cells writable s'"
    "fc_state (cells (fl_chip s')) k' (if length xs < 1023 then xs @ [w] else [last xs, w])"
    using save_flash_live[OF st(1,2) s(3)] .
  have "xs \<noteq> []" using st(2) by (simp add: fc_state_def)
  then have e: "(xs @ [w]) ! (length (xs @ [w]) - 2) = v" using st(3) by (simp add: nth_append last_conv_nth)
  define ys where "ys = (if length xs < 1023 then xs @ [w] else [last xs, w])"
  have "last ys = w" "length ys \<le> 2 \<or> fc_step (ys ! (length ys - 2)) (last ys)"
    using e s(2) by (auto simp: ys_def)
  then show "nv_fc_holds cells writable (nl_save (nv_lib D) w s) w"
    unfolding nv_lib_simps using s' unfolding nv_fc_holds_def nv_fc_save_def ys_def[symmetric] by auto
next
  fix s v
  assume "nv_fc_holds cells writable s v"
  then obtain k xs where st: "flash_ok cells writable s" "fc_state (cells (fl_chip s)) k xs" "last xs = v"
      "length xs \<le> 2 \<or> fc_step (xs ! (length xs - 2)) (last xs)"
    unfolding nv_fc_holds_def by blast
  obtain s' where "nv_nwkFrameCountFromFlash D s = ((NV_SUCC, Some (last xs)), s')" "flash_ok cells writable s'"
    "cells (fl_chip s') = cells (fl_chip s)"
    using load_live[OF st(1,2,4)] .
  then show "fst (nl_load (nv_lib D) s) = Some v \<and> nv_fc_holds cells writable (snd (nl_load (nv_lib D) s)) v"
    using st unfolding nv_lib_simps nv_fc_load_def nv_fc_holds_def by auto
qed simp_all

text \<open>A remote whose counter \<open>v\<close> is stored and that has sent nothing since, for instance after pairing.\<close>

definition fc_paired :: "u32 \<Rightarrow> u8 \<Rightarrow> 'f \<Rightarrow> 'f fc_st" where
  "fc_paired v b f = \<lparr>pib = v, store = f, in_flash = 0, reg_seq = 0, pmDeep = False, paired = True,
     batt = b, sent = [], since = 0\<rparr>"

lemma paired_inv: "holds f v \<Longrightarrow> v \<noteq> 0 \<Longrightarrow> fc_inv holds v (fc_paired v b f)"
  by (simp add: fc_inv_def fc_paired_def)

lemma paired_quiet: "holds f v \<Longrightarrow> fc_quiet holds v 0 (fc_paired v b f)"
  by (simp add: fc_quiet_def fc_paired_def)

lemma fc_since:
  "since (fc_handle L (PowerLoss b) s) = since s" "since (fc_handle L DeepSleep s) = since s"
  "since (fc_handle L (PassIdle st) s) = 0" "since (sent_frame L s) = since s + 1" "since (fc_paired v b f) = 0"
  by (simp_all add: app_loadInfo_def stack_start_def nwk_frameCountUpdate_def app_saveInfoPm_def sent_frame_def
      fc_paired_def Let_def split: prod.splits)

context nor_flash begin

lemma nv_fc_store: "nwk_frame_counter (nv_lib D) (nv_fc_holds cells writable)"
  by (rule fc.nwk_frame_counter_axioms)

lemma saved_holds:
  assumes "flash_ok cells writable s" "fc_dead (cells (fl_chip s)) 0" "fc_dead (cells (fl_chip s)) 1" "v \<noteq> 0xffffffff"
  shows "nv_fc_holds cells writable (nv_fc_save D v s) v"
  using save_flash_new[OF assms] unfolding nv_fc_holds_def nv_fc_save_def
  by (metis last.simps le_numeral_extra(4) length_Cons list.size(3) one_le_numeral One_nat_def snd_conv)

text \<open>On any NOR chip, from an empty store in which the counter has been saved.\<close>

lemma nv_counters_increase:
  assumes "flash_ok cells writable s" "fc_dead (cells (fl_chip s)) 0" "fc_dead (cells (fl_chip s)) 1" "v \<noteq> 0" "v \<noteq> 0xffffffff"
    "fc_safe (nv_lib D) es (fc_paired v b (nv_fc_save D v s))"
  shows "sorted_wrt (<) (sent (fc_exec (nv_lib D) es (fc_paired v b (nv_fc_save D v s))))"
  using fc.exec_increasing[OF paired_inv[of "nv_fc_holds cells writable", OF saved_holds[OF assms(1,2,3,5)] assms(4)] assms(6)] .

end

lemma new_device_holds: "nv_fc_holds (\<lambda>m. m) (\<lambda>_. True) (nv_fc_save myFlashDrv_ideal 1 new_device) 1"
  by (rule nor_flash.saved_holds[OF nor_chip.platform_nor[OF ideal.nor_chip_axioms] new_device_ok])
     (simp_all add: dead_new new_device_def)

lemma ideal_store: "nwk_frame_counter (nv_lib myFlashDrv_ideal) (nv_fc_holds (\<lambda>m. m) (\<lambda>_. True))"
  by (rule nor_flash.nv_fc_store[OF nor_chip.platform_nor[OF ideal.nor_chip_axioms]])

section \<open>Properties\<close>

text \<open>C5: Frame counters never repeat over power cycles. For any network library that keeps the laws of
  \<open>nwk_frame_counter\<close> (a saved counter is the one loaded, each frame takes the next counter, the stack starts with the
  stored one), from a remote whose counter is stored and not zero, in any sequence of frames, passes of the idle
  handler, deep sleeps and power losses in which at most 1024 frames are sent between two idle passes, the power is
  lost only after one, and the counter stays below 0xffff0000, the counters of the frames sent go up strictly.\<close>

theorem frame_counters_increase:
  assumes "nwk_frame_counter L holds" "holds f v" "v \<noteq> 0" "fc_safe L es (fc_paired v b f)"
  shows "sorted_wrt (<) (sent (fc_exec L es (fc_paired v b f)))"
  using nwk_frame_counter.exec_increasing[OF assms(1) paired_inv[of holds, OF assms(2,3)] assms(4)] .

theorem frame_counters_increase_witness:
  "sorted_wrt (<) (sent (fc_exec (nv_lib myFlashDrv_ideal)
     [SendFrame, PassIdle APP_READY_STATE, PowerLoss 0, SendFrame, DeepSleep, PassIdle APP_READY_STATE]
     (fc_paired 1 0 (nv_fc_save myFlashDrv_ideal 1 new_device))))"
proof (rule frame_counters_increase[OF ideal_store new_device_holds])
  let ?L = "nv_lib myFlashDrv_ideal" and ?q = "fc_quiet (nv_fc_holds (\<lambda>m. m) (\<lambda>_. True))"
  let ?s0 = "fc_paired 1 0 (nv_fc_save myFlashDrv_ideal 1 new_device)"
  let ?s1 = "sent_frame ?L ?s0"
  let ?s2 = "fc_handle ?L (PassIdle APP_READY_STATE) ?s1"
  let ?s3 = "fc_handle ?L (PowerLoss 0) ?s2"
  note N = ideal_store
  have q0: "?q 1 0 ?s0" by (rule paired_quiet[of "nv_fc_holds (\<lambda>m. m) (\<lambda>_. True)", OF new_device_holds])
  have q1: "?q 1 1 ?s1" using nwk_frame_counter.quiet_send[OF N q0] by simp
  have q2: "?q 1 1 ?s2" using nwk_frame_counter.quiet_idle[OF N q1] by simp
  have q3: "?q 0x401 0 ?s3" using nwk_frame_counter.quiet_power[OF N q2, of 0] by simp
  have q4: "?q 0x401 1 (sent_frame ?L ?s3)" using nwk_frame_counter.quiet_send[OF N q3] by simp
  note q5 = nwk_frame_counter.quiet_deep[OF N q4]
  note pibs = conjunct1[OF conjunct2[OF conjunct2[OF iffD1[OF fc_quiet_def]]]]
  note p = q0[THEN pibs] q1[THEN pibs] q2[THEN pibs] q3[THEN pibs] q4[THEN pibs] q5[THEN pibs]
  show "fc_safe ?L [SendFrame, PassIdle APP_READY_STATE, PowerLoss 0, SendFrame, DeepSleep, PassIdle APP_READY_STATE] ?s0"
    unfolding fc_safe.simps fc_guard.simps fc_handle.simps(1) p fc_since by simp
qed simp

text \<open>C19: The counter is saved only after it has been used. For any network library that keeps the laws of
  \<open>nwk_frame_counter\<close>, from a remote whose counter \<open>v\<close> is stored, after 1024 frames each followed by a pass of the idle
  handler nothing has been saved; when the power is lost after the next frame and before the next pass, that frame and
  the first one after the restart carry the same counter, whatever the battery level.\<close>

theorem frame_counter_reused:
  assumes "nwk_frame_counter L holds" "holds f v" "v < 0xfffe0000"
  shows "\<exists>us. sent (fc_exec L (concat (replicate 1024 [SendFrame, PassIdle APP_READY_STATE]) @
      [SendFrame, PowerLoss b, SendFrame]) (fc_paired v b0 f)) = us @ [v + 0x400, v + 0x400]"
  using nwk_frame_counter.counter_reused[OF assms(1) paired_quiet[of holds, OF assms(2)] assms(3)] unfolding fc_round_def .

theorem frame_counter_reused_witness:
  "\<exists>us. sent (fc_exec (nv_lib myFlashDrv_ideal)
     (concat (replicate 1024 [SendFrame, PassIdle APP_READY_STATE]) @ [SendFrame, PowerLoss 0, SendFrame])
     (fc_paired 1 0 (nv_fc_save myFlashDrv_ideal 1 new_device))) = us @ [0x401, 0x401]"
  using frame_counter_reused[OF ideal_store new_device_holds, of 0 0] by simp

end
