(* ===== verification/Spec2Isabelle.thy ===== *)
theory Spec2Isabelle
  imports LinkedList SelectionSort Crc CMem EvQueue EvBuffer TaskQueue TimerEvent EvMain NvFrameProps NvItemProps Adpcm MacPibProps KeyboardProps OtaProps
    IrLearnProps RcAppProps FrameCount
begin

text \<open>
  Verification library for the Telink RF4CE SDK: the firmware of a remote control (controller) and of its
  USB dongle (target). All paths below are under \<open>src/tl_rf4ce_sdk/\<close>; a definition has the name of the
  C function it translates unless HOL already uses that name.

  \<^bold>\<open>The program.\<close> One main loop (\<open>proj/os/ev.c\<close>) serves a single-threaded application. It polls a queue of
  message buffers (\<open>ev_buffer.c\<close>), runs a task ring (\<open>task_queue.c\<close>) and fires software timers
  (\<open>timer_event.c\<close>); interrupts only post to these queues. Drivers sit below: the flash driver
  (\<open>drv_flash.c\<close> with the page loop of \<open>platform/tlsr_8258/flash.c\<close>), the item store and the frame counter
  in flash (\<open>nv.c\<close>), the key matrix (\<open>keyboard.c\<close>), the hardware timers (\<open>drv_timer.c\<close>), the infra-red
  transmitter and learner (\<open>ir.c\<close>, \<open>ir_learn.c\<close>). Above them are the MAC information base (\<open>mac_pib.c\<close>),
  the voice codec (\<open>audio_codec_adpcm.c\<close>), the over-the-air update (\<open>tl_specific_data_ota.c\<close>) and the
  application of the remote.

  \<^bold>\<open>Theories.\<close>
  \<^item> \<open>Prelude\<close>: the C integers as words and the word lemmas all parts share; \<open>HeapList\<close>: chains of linked cells
    in memory, the abstraction of every intrusive list; \<open>Fifo\<close> and \<open>BufferPool\<close>: the locales \<open>fifo\<close>
    and \<open>buffer_pool\<close>, interpreted by the event queue, the task ring, the command ring, the message
    queue and the buffer allocator.
  \<^item> \<open>LinkedList\<close> (\<open>common/list.c\<close>), \<open>SelectionSort\<close>, \<open>Crc\<close> (\<open>utility.c\<close>), \<open>CMem\<close> (\<open>string.c\<close>): each operation
    against its list, sorting, polynomial or byte-block specification.
  \<^item> \<open>EvQueue\<close>, \<open>EvBuffer\<close>, \<open>TaskQueue\<close>, \<open>TimerEvent\<close>, \<open>EvMain\<close>: the operating part. The queues refine lists
    through any sequence of operations, allocation never aliases, timers are reaped, not reused while
    referenced, and due in the four seconds after they expire, when each is called once and then does what its
    callback returned; one pass of the loop hands over the oldest message. The defects found there (a message posted twice, a full task ring) are theorems too.
  \<^item> \<open>DrvFlash\<close>, \<open>FlashMap\<close>: the driver over any chip with the NOR laws of its data sheet (locale
    \<open>nor_chip\<close>), and the contents of the chip by address.
  \<^item> \<open>NvLayout\<close>, \<open>Nv\<close>, \<open>NvOps\<close>, \<open>NvSector\<close>, \<open>NvItems\<close>, \<open>NvItemProps\<close>: the item store, whose sectors
    refine a map from (module, item) to the bytes last written; \<open>NvFrame\<close>, \<open>NvFrameProps\<close>: the frame counter,
    which is read back after any number of saves and sector changes.
  \<^item> \<open>MacPib\<close>, \<open>MacPibProps\<close>: the attribute table over the byte image of the packed struct.
  \<^item> \<open>Keyboard\<close>, \<open>KeyboardProps\<close>: scanning, ghost removal, debouncing and the key ring, refined to the keys held.
  \<^item> \<open>Adpcm\<close>: encoder and decoder stay in step over any split of the samples and track the signal.
  \<^item> \<open>Ota\<close>, \<open>OtaProps\<close>: both ends of the update protocol, end to end from the image file to the rebooted device.
  \<^item> \<open>DrvTimer\<close>: the hardware timers; a client starts, stops and is called back through the locale \<open>hwtmr_client\<close>,
    which \<open>IrProps\<close> interprets. \<open>Ir\<close>, \<open>IrProps\<close>: the transmitter, with a receiver that decodes the cells given to
    the DMA. \<open>IrLearn\<close>, \<open>IrLearnProps\<close>: the learner against the edges of the signal, and its codes in the item store.
  \<^item> \<open>AppLed\<close>, \<open>RcApp\<close>: the application of the remote (\<open>vendor/rc_app/\<close>: \<open>app_led.c\<close>, \<open>app_common.c\<close>,
    \<open>app_data.c\<close>, \<open>callback_zrc.c\<close>; the remote's side of \<open>tl_specific_data_audio.c\<close>) as a state machine over key
    events, timers, confirmations and received frames (\<open>rc_handle\<close>, \<open>rc_run\<close>), on the timer table of
    \<open>TimerEvent\<close>. \<open>RcAppInv\<close> holds the invariant of all runs, \<open>RcAppProps\<close> what follows: no timer pointer
    dangles, key commands come in pairs and end, pairing follows the home key; and the defects.
  \<^item> \<open>FrameCount\<close>: the frame counter of the remote over deep sleep and power loss. The binary network library is a
    parameter; what the application relies on (the counter saved is the one loaded, each frame takes the next one, the
    stack starts with the stored one) is the locale \<open>nwk_frame_counter\<close>, which a library built on \<open>nv.c\<close> satisfies on
    every NOR chip (\<open>sublocale\<close>).

  \<^bold>\<open>Conventions.\<close> \<open>u8\<close>, \<open>u16\<close> and \<open>u32\<close> are words, so wrap-around is in every definition. State is a record
  per component, passed and returned; C pointers into arrays are indices or 32-bit addresses in a byte memory.
  Loops over linked cells are partial functions (\<open>None\<close> is a loop that never ends or a wild access), bounded
  loops are recursive functions with a termination proof; no loop has artificial fuel. Hardware and libraries without source
  (the flash chip, the radio, the profile library, the pins, the clock) are arguments, with what is relied on as a
  locale or an assumption; each property with such an assumption has a witness on a concrete instance.
  Interrupt locking (\<open>irq_disable\<close>) makes an operation one step of the model.

  \<^bold>\<open>Bounds.\<close> The configuration is that of the 8258 boards with 512 KB of flash unless a theory says otherwise:
  12 application and 10 stack timers, 16 tasks, sectors of 4 KB, flash pages of 256 bytes.

  \<^bold>\<open>Not modelled.\<close> Register headers, start-up code and peripheral drivers under \<open>platform/\<close> and \<open>proj/drivers/drv_*\<close>
  that only set registers; the USB stack and its descriptors; the binary network and profile libraries and
  the radio (\<open>net/\<close>, \<open>mac_phy.c\<close>); the MSO build (\<open>callback_mso.c\<close>) and the quick-set driver (\<open>qsIR_Tx.c\<close>) of the remote, its
  battery measurement and the switch to BLE; the dongle's forwarding of profile indications to USB; the
  voice data path between microphone and radio; test and print code; branches disabled in every
  configuration of the repository.
\<close>

end
